(* ===== verification/Nova_Prelude.thy ===== *)
theory Nova_Prelude
  imports Main "HOL-Library.Word"
begin

text \<open>
  Shared vocabulary of the development: Rust's \<^verbatim>\<open>Result\<close> and its
  \<^verbatim>\<open>?\<close> operator, the saturating and wrapping operations on
  unsigned machine integers that the sources use, and generic facts on lists that
  several components rely on.
\<close>

named_theorems nova_eval
  \<open>definitions unfolded when a concrete input is evaluated by the simplifier\<close>

section \<open>Results\<close>

text \<open>
  A Rust \<^verbatim>\<open>Result<T, E>\<close> is a value of \<open>'e + 'a\<close>; the two
  constructors keep their Rust names.
\<close>

type_synonym ('e, 'a) result = "'e + 'a"

abbreviation Ok :: "'a \<Rightarrow> ('e, 'a) result" where "Ok \<equiv> Inr"
abbreviation Err :: "'e \<Rightarrow> ('e, 'a) result" where "Err \<equiv> Inl"

text \<open>The \<^verbatim>\<open>?\<close> operator: propagate the error, continue with the value.\<close>

definition res_bind :: "('e, 'a) result \<Rightarrow> ('a \<Rightarrow> ('e, 'b) result) \<Rightarrow> ('e, 'b) result" where
  "res_bind r f = (case r of Inl e \<Rightarrow> Inl e | Inr x \<Rightarrow> f x)"

lemma res_bind_simps [simp]:
  "res_bind (Inl e) f = Inl e"
  "res_bind (Inr x) f = f x"
  by (simp_all add: res_bind_def)

lemma res_bind_Ok_iff: "res_bind r f = Inr y \<longleftrightarrow> (\<exists>x. r = Inr x \<and> f x = Inr y)"
  by (cases r) auto

lemma res_bind_Err_iff:
  "res_bind r f = Inl e \<longleftrightarrow> r = Inl e \<or> (\<exists>x. r = Inr x \<and> f x = Inl e)"
  by (cases r) auto

lemma res_bind_OkE [elim]:
  assumes "res_bind r f = Inr y"
  obtains x where "r = Inr x" "f x = Inr y"
  using assms by (auto simp: res_bind_Ok_iff)

lemma res_bind_cong [fundef_cong]:
  assumes "r = r'" and "\<And>x. r' = Inr x \<Longrightarrow> f x = g x"
  shows "res_bind r f = res_bind r' g"
  using assms by (cases r') auto

lemma res_bind_assoc: "res_bind (res_bind r f) g = res_bind r (\<lambda>x. res_bind (f x) g)"
  by (cases r) auto

text \<open>\<^verbatim>\<open>ok_or\<close> and \<^verbatim>\<open>ensure!\<close>.\<close>

definition ok_or :: "'a option \<Rightarrow> 'e \<Rightarrow> ('e, 'a) result" where
  "ok_or x e = (case x of None \<Rightarrow> Inl e | Some v \<Rightarrow> Inr v)"

lemma ok_or_simps [simp]: "ok_or None e = Inl e" "ok_or (Some v) e = Inr v"
  by (simp_all add: ok_or_def)

lemma ok_or_Ok_iff: "ok_or x e = Inr v \<longleftrightarrow> x = Some v"
  by (cases x) auto

definition ensure :: "bool \<Rightarrow> 'e \<Rightarrow> ('e, unit) result" where
  "ensure b e = (if b then Inr () else Inl e)"

lemma ensure_simps [simp]:
  "ensure b e = Inr u \<longleftrightarrow> b"
  "ensure b e = Inl e' \<longleftrightarrow> \<not> b \<and> e' = e"
  by (auto simp: ensure_def)

section \<open>Unsigned machine integers\<close>

text \<open>
  Counters and offsets are natural numbers; the width appears where the source casts or
  saturates. \<^verbatim>\<open>x as u32\<close> keeps the low 32 bits.
\<close>

definition u32_max :: nat where "u32_max = 2 ^ 32 - 1"
definition u64_max :: nat where "u64_max = 2 ^ 64 - 1"

definition as_u32 :: "nat \<Rightarrow> nat" where "as_u32 n = n mod 2 ^ 32"

definition as_u64 :: "nat \<Rightarrow> nat" where "as_u64 n = n mod 2 ^ 64"

lemma as_u32_id [simp]: "n \<le> u32_max \<Longrightarrow> as_u32 n = n"
  by (simp add: as_u32_def u32_max_def)

lemma as_u32_le [simp]: "as_u32 n \<le> u32_max"
  using mod_less_divisor [of "2 ^ 32" n] by (simp add: as_u32_def u32_max_def)

declare as_u32_def [nova_eval] as_u64_def [nova_eval]

definition sat_add_u64 :: "nat \<Rightarrow> nat \<Rightarrow> nat" where
  "sat_add_u64 a b = min (a + b) u64_max"

definition sat_mul_u64 :: "nat \<Rightarrow> nat \<Rightarrow> nat" where
  "sat_mul_u64 a b = min (a * b) u64_max"

text \<open>\<^verbatim>\<open>saturating_sub\<close> is subtraction on the natural numbers.\<close>

abbreviation sat_sub :: "nat \<Rightarrow> nat \<Rightarrow> nat" where "sat_sub a b \<equiv> a - b"

definition checked_mul_u64 :: "nat \<Rightarrow> nat \<Rightarrow> nat option" where
  "checked_mul_u64 a b = (if a * b \<le> u64_max then Some (a * b) else None)"

lemma sat_add_u64_le [simp]: "sat_add_u64 a b \<le> u64_max"
  by (simp add: sat_add_u64_def)

lemma sat_add_u64_id: "a + b \<le> u64_max \<Longrightarrow> sat_add_u64 a b = a + b"
  by (simp add: sat_add_u64_def)

lemma sat_mul_u64_le: "sat_mul_u64 a b \<le> a * b"
  by (simp add: sat_mul_u64_def)

section \<open>Lists\<close>

text \<open>\<^verbatim>\<open>Vec::get\<close>: indexing that says when the index is out of range.\<close>

definition vec_get :: "'a list \<Rightarrow> nat \<Rightarrow> 'a option" where
  "vec_get xs i = (if i < length xs then Some (xs ! i) else None)"

lemma vec_get_Some_iff: "vec_get xs i = Some x \<longleftrightarrow> i < length xs \<and> xs ! i = x"
  by (auto simp: vec_get_def)

lemma vec_get_None_iff: "vec_get xs i = None \<longleftrightarrow> length xs \<le> i"
  by (auto simp: vec_get_def)

lemma set_list_update_subset: "x \<in> set (xs[i := y]) \<Longrightarrow> x = y \<or> x \<in> set xs"
  using set_update_subset_insert [of xs i y] by blast

text \<open>
  A \<^verbatim>\<open>for\<close> loop over a list whose body may panic, and the rule for its
  invariants.
\<close>

primrec fold_opt :: "('s \<Rightarrow> 'a \<Rightarrow> 's option) \<Rightarrow> 's \<Rightarrow> 'a list \<Rightarrow> 's option" where
  "fold_opt f s [] = Some s"
| "fold_opt f s (x # xs) = Option.bind (f s x) (\<lambda>s'. fold_opt f s' xs)"

declare fold_opt.simps [nova_eval]

lemma fold_opt_append: "fold_opt f s (xs @ ys) = Option.bind (fold_opt f s xs) (\<lambda>s'. fold_opt f s' ys)"
  by (induction xs arbitrary: s) (auto simp: bind_assoc)

lemma fold_opt_invariant:
  assumes "P s" "\<And>s x. P s \<Longrightarrow> x \<in> set xs \<Longrightarrow> \<exists>s'. f s x = Some s' \<and> P s'"
  shows "\<exists>s'. fold_opt f s xs = Some s' \<and> P s'"
  using assms
proof (induction xs arbitrary: s)
  case (Cons x xs)
  from Cons.prems(2) [OF Cons.prems(1), of x] obtain s' where "f s x = Some s'" "P s'" by auto
  with Cons.IH [of s'] Cons.prems(2) show ?case by simp
qed simp

end
