(* ===== verification/Rust_Str.thy ===== *)
theory Rust_Str
  imports Nova_Prelude
begin

text \<open>
  Rust's \<^verbatim>\<open>str\<close>: a sequence of Unicode scalar values that is stored
  as UTF-8 and addressed by byte offsets. A string is the list of its scalar values; its
  bytes are computed by the encoder of the standard library, and slicing or replacing at
  an offset that is not a character boundary, where Rust panics, is the value \<open>None\<close>.
\<close>

section \<open>Characters and bytes\<close>

type_synonym rchar = nat
type_synonym rstr = "rchar list"

definition len_utf8 :: "rchar \<Rightarrow> nat" where
  "len_utf8 c = (if c < 0x80 then 1 else if c < 0x800 then 2 else if c < 0x10000 then 3 else 4)"

definition len_utf16 :: "rchar \<Rightarrow> nat" where
  "len_utf16 c = (if c < 0x10000 then 1 else 2)"

definition utf8_encode :: "rchar \<Rightarrow> nat list" where
  "utf8_encode c =
     (if c < 0x80 then [c]
      else if c < 0x800 then [0xC0 + (c div 64) mod 32, 0x80 + c mod 64]
      else if c < 0x10000 then
        [0xE0 + (c div 4096) mod 16, 0x80 + (c div 64) mod 64, 0x80 + c mod 64]
      else
        [0xF0 + (c div 262144) mod 8, 0x80 + (c div 4096) mod 64,
         0x80 + (c div 64) mod 64, 0x80 + c mod 64])"

definition as_bytes :: "rstr \<Rightarrow> nat list" where
  "as_bytes s = concat (map utf8_encode s)"

definition str_len :: "rstr \<Rightarrow> nat" where
  "str_len s = length (as_bytes s)"

definition utf16_len :: "rstr \<Rightarrow> nat" where
  "utf16_len s = sum_list (map len_utf16 s)"

lemma len_utf8_pos [simp]: "0 < len_utf8 c"
  by (simp add: len_utf8_def)

lemma len_utf8_neq_0 [simp]: "len_utf8 c \<noteq> 0"
  using len_utf8_pos [of c] by linarith

lemma len_utf16_pos [simp]: "0 < len_utf16 c"
  by (simp add: len_utf16_def)

lemma len_utf16_neq_0 [simp]: "len_utf16 c \<noteq> 0"
  using len_utf16_pos [of c] by linarith

lemma length_utf8_encode [simp]: "length (utf8_encode c) = len_utf8 c"
  by (simp add: utf8_encode_def len_utf8_def)

lemma utf16_le_utf8: "len_utf16 c \<le> len_utf8 c"
  by (simp add: len_utf16_def len_utf8_def)

lemma as_bytes_simps [simp]:
  "as_bytes [] = []"
  "as_bytes (c # s) = utf8_encode c @ as_bytes s"
  "as_bytes (s @ t) = as_bytes s @ as_bytes t"
  by (simp_all add: as_bytes_def)

lemma str_len_simps [simp]:
  "str_len [] = 0"
  "str_len (c # s) = len_utf8 c + str_len s"
  "str_len (s @ t) = str_len s + str_len t"
  by (simp_all add: str_len_def)

lemma length_as_bytes [simp]: "length (as_bytes s) = str_len s"
  by (simp add: str_len_def)

lemma str_len_eq_0 [simp]: "str_len s = 0 \<longleftrightarrow> s = []"
  by (cases s) auto

lemma utf16_len_simps [simp]:
  "utf16_len [] = 0"
  "utf16_len (c # s) = len_utf16 c + utf16_len s"
  "utf16_len (s @ t) = utf16_len s + utf16_len t"
  by (simp_all add: utf16_len_def)

lemma utf16_len_le_str_len: "utf16_len s \<le> str_len s"
proof (induction s)
  case (Cons c s)
  then show ?case using utf16_le_utf8 [of c] by simp
qed simp

text \<open>An ASCII byte occurs in the encoding only as the ASCII character itself.\<close>

lemma ascii_in_utf8_encode: "b < 0x80 \<Longrightarrow> b \<in> set (utf8_encode c) \<longleftrightarrow> c = b"
  by (auto simp: utf8_encode_def)

declare len_utf8_def [nova_eval] len_utf16_def [nova_eval] utf8_encode_def [nova_eval]

section \<open>Splitting at a byte offset\<close>

text \<open>
  \<open>split_at_byte s i\<close> is \<^verbatim>\<open>s.split_at(i)\<close>: defined when \<open>i\<close> is a
  character boundary of \<open>s\<close>.
\<close>

fun split_at_byte :: "rstr \<Rightarrow> nat \<Rightarrow> (rstr \<times> rstr) option" where
  "split_at_byte [] i = (if i = 0 then Some ([], []) else None)"
| "split_at_byte (c # s) i =
     (if i = 0 then Some ([], c # s)
      else if len_utf8 c \<le> i then
        map_option (\<lambda>(a, b). (c # a, b)) (split_at_byte s (i - len_utf8 c))
      else None)"

lemma split_at_byte_Some_iff:
  "split_at_byte s i = Some (a, b) \<longleftrightarrow> s = a @ b \<and> str_len a = i"
proof (induction s arbitrary: i a)
  case Nil
  then show ?case by auto
next
  case (Cons c s)
  show ?case
  proof (cases a)
    case Nil
    then show ?thesis by auto
  next
    case (Cons d a')
    then show ?thesis using Cons.IH by (auto simp: Cons.IH)
  qed
qed

lemma split_at_byte_append [simp]: "split_at_byte (a @ b) (str_len a) = Some (a, b)"
  by (simp add: split_at_byte_Some_iff)

definition is_char_boundary :: "rstr \<Rightarrow> nat \<Rightarrow> bool" where
  "is_char_boundary s i \<longleftrightarrow> split_at_byte s i \<noteq> None"

lemma is_char_boundary_iff:
  "is_char_boundary s i \<longleftrightarrow> (\<exists>a b. s = a @ b \<and> str_len a = i)"
  by (auto simp: is_char_boundary_def split_at_byte_Some_iff)

lemma is_char_boundary_0 [simp]: "is_char_boundary s 0"
  by (auto simp: is_char_boundary_iff intro: exI [of _ "[]"])

lemma is_char_boundary_len [simp]: "is_char_boundary s (str_len s)"
  by (auto simp: is_char_boundary_iff)

lemma is_char_boundary_le: "is_char_boundary s i \<Longrightarrow> i \<le> str_len s"
  by (auto simp: is_char_boundary_iff)

text \<open>
  Two prefixes of one string are comparable, and the one with fewer bytes is a prefix of
  the other: the fact behind every argument about nested slices.
\<close>

lemma prefixes_by_len:
  assumes "a @ b = c @ d" "str_len a \<le> str_len c"
  obtains m where "c = a @ m" "b = m @ d"
proof -
  from assms(1) consider u where "a = c @ u" "u @ b = d" | u where "a @ u = c" "b = u @ d"
    by (auto simp: append_eq_append_conv2)
  then show thesis
  proof cases
    case 1
    with assms(2) have "str_len u = 0" by simp
    with 1 show thesis using that [of "[]"] by simp
  next
    case 2
    then show thesis using that [of u] by simp
  qed
qed

lemma prefix_len_inj: "a @ b = c @ d \<Longrightarrow> str_len a = str_len c \<Longrightarrow> a = c \<and> b = d"
proof -
  assume eq: "a @ b = c @ d" and len: "str_len a = str_len c"
  then obtain m where m: "c = a @ m" "b = m @ d"
    using prefixes_by_len [of a b c d] by auto
  with len have "m = []" by simp
  with m show "a = c \<and> b = d" by simp
qed

section \<open>Slicing and replacing\<close>

definition str_slice :: "rstr \<Rightarrow> nat \<Rightarrow> nat \<Rightarrow> rstr option" where
  "str_slice s i j =
     (case split_at_byte s j of
        None \<Rightarrow> None
      | Some (p, _) \<Rightarrow> map_option snd (split_at_byte p i))"

lemma str_slice_Some_iff:
  "str_slice s i j = Some m \<longleftrightarrow>
     (\<exists>a b. s = a @ m @ b \<and> str_len a = i \<and> j = i + str_len m)"
proof
  assume "str_slice s i j = Some m"
  then obtain p b a where "s = p @ b" "str_len p = j" "p = a @ m" "str_len a = i"
    by (auto simp: str_slice_def split_at_byte_Some_iff split: option.splits)
  then show "\<exists>a b. s = a @ m @ b \<and> str_len a = i \<and> j = i + str_len m" by auto
next
  assume "\<exists>a b. s = a @ m @ b \<and> str_len a = i \<and> j = i + str_len m"
  then obtain a b where ab: "s = (a @ m) @ b" "str_len a = i" "str_len (a @ m) = j"
    by auto
  then have "split_at_byte s j = Some (a @ m, b)" "split_at_byte (a @ m) i = Some (a, m)"
    by (simp_all only: split_at_byte_Some_iff)
  then show "str_slice s i j = Some m" by (simp add: str_slice_def)
qed

lemma str_slice_defined:
  assumes "is_char_boundary s i" "is_char_boundary s j" "i \<le> j"
  shows "\<exists>m. str_slice s i j = Some m"
proof -
  from assms(1) obtain a b where a: "s = a @ b" "str_len a = i"
    by (auto simp: is_char_boundary_iff)
  from assms(2) obtain c d where c: "s = c @ d" "str_len c = j"
    by (auto simp: is_char_boundary_iff)
  from a c assms(3) obtain m where m: "c = a @ m" "b = m @ d"
    using prefixes_by_len [of a b c d] by auto
  have "s = a @ m @ d \<and> str_len a = i \<and> j = i + str_len m"
    using a c m by auto
  then show ?thesis by (auto simp only: str_slice_Some_iff)
qed

text \<open>\<^verbatim>\<open>String::replace_range\<close>; \<open>None\<close> is the panic on a bad range.\<close>

definition replace_range :: "rstr \<Rightarrow> nat \<Rightarrow> nat \<Rightarrow> rstr \<Rightarrow> rstr option" where
  "replace_range s i j r =
     (case split_at_byte s j of
        None \<Rightarrow> None
      | Some (p, q) \<Rightarrow> map_option (\<lambda>(a, _). a @ r @ q) (split_at_byte p i))"

lemma replace_range_Some_iff:
  "replace_range s i j r = Some t \<longleftrightarrow>
     (\<exists>a m b. s = a @ m @ b \<and> str_len a = i \<and> j = i + str_len m \<and> t = a @ r @ b)"
proof
  assume "replace_range s i j r = Some t"
  then obtain p q a m where "s = p @ q" "str_len p = j" "p = a @ m" "str_len a = i"
      "t = a @ r @ q"
    by (auto simp: replace_range_def split_at_byte_Some_iff split: option.splits)
  then show "\<exists>a m b. s = a @ m @ b \<and> str_len a = i \<and> j = i + str_len m \<and> t = a @ r @ b"
    by auto
next
  assume "\<exists>a m b. s = a @ m @ b \<and> str_len a = i \<and> j = i + str_len m \<and> t = a @ r @ b"
  then obtain a m b where ab: "s = (a @ m) @ b" "str_len a = i" "str_len (a @ m) = j"
      "t = a @ r @ b"
    by auto
  then have "split_at_byte s j = Some (a @ m, b)" "split_at_byte (a @ m) i = Some (a, m)"
    by (simp_all only: split_at_byte_Some_iff)
  with ab show "replace_range s i j r = Some t" by (simp add: replace_range_def)
qed

declare is_char_boundary_def [nova_eval] str_slice_def [nova_eval] replace_range_def [nova_eval]

section \<open>Decoding\<close>

text \<open>
  \<^verbatim>\<open>str::from_utf8\<close>: the well-formed byte sequences of RFC 3629 (no overlong
  forms, no surrogates), \<open>None\<close> for any other.
\<close>

definition utf8_cont :: "nat \<Rightarrow> bool" where
  "utf8_cont b \<longleftrightarrow> 0x80 \<le> b \<and> b < 0xC0"

fun from_utf8 :: "nat list \<Rightarrow> rstr option" where
  "from_utf8 [] = Some []"
| "from_utf8 (b0 # bs) =
     (if b0 < 0x80 then map_option ((#) b0) (from_utf8 bs)
      else if 0xC2 \<le> b0 \<and> b0 < 0xE0 then
        (case bs of b1 # r \<Rightarrow>
           if utf8_cont b1 then map_option ((#) ((b0 - 0xC0) * 64 + (b1 - 0x80))) (from_utf8 r) else None
         | _ \<Rightarrow> None)
      else if 0xE0 \<le> b0 \<and> b0 < 0xF0 then
        (case bs of b1 # b2 # r \<Rightarrow>
           (let c = (b0 - 0xE0) * 4096 + (b1 - 0x80) * 64 + (b2 - 0x80) in
            if utf8_cont b1 \<and> utf8_cont b2 \<and> 0x800 \<le> c \<and> \<not> (0xD800 \<le> c \<and> c < 0xE000)
            then map_option ((#) c) (from_utf8 r) else None)
         | _ \<Rightarrow> None)
      else if 0xF0 \<le> b0 \<and> b0 < 0xF5 then
        (case bs of b1 # b2 # b3 # r \<Rightarrow>
           (let c = (b0 - 0xF0) * 262144 + (b1 - 0x80) * 4096 + (b2 - 0x80) * 64 + (b3 - 0x80) in
            if utf8_cont b1 \<and> utf8_cont b2 \<and> utf8_cont b3 \<and> 0x10000 \<le> c \<and> c < 0x110000
            then map_option ((#) c) (from_utf8 r) else None)
         | _ \<Rightarrow> None)
      else None)"

definition scalar_value :: "nat \<Rightarrow> bool" where
  "scalar_value c \<longleftrightarrow> c < 0xD800 \<or> 0xE000 \<le> c \<and> c < 0x110000"

lemma from_utf8_encode:
  assumes "scalar_value c"
  shows "from_utf8 (utf8_encode c @ bs) = map_option ((#) c) (from_utf8 bs)"
proof -
  consider "c < 0x80" | "0x80 \<le> c" "c < 0x800" | "0x800 \<le> c" "c < 0x10000" | "0x10000 \<le> c" "c < 0x110000"
    using assms by (fastforce simp: scalar_value_def)
  then show ?thesis
  proof cases
    case 1
    then show ?thesis by (simp add: utf8_encode_def)
  next
    case 2
    define x y where "x = c div 64" and "y = c mod 64"
    then have b: "c = x * 64 + y" "y < 64" "2 \<le> x" "x < 32" using 2 by auto
    have "utf8_encode c = [0xC0 + x, 0x80 + y]"
      using 2 b(4) by (simp add: utf8_encode_def x_def y_def)
    then show ?thesis using b by (simp add: utf8_cont_def)
  next
    case 3
    define x y z where "x = c div 4096" and "y = c div 64 mod 64" and "z = c mod 64"
    have "c div 64 = x * 64 + y" "c = c div 64 * 64 + z"
      using div_mult_mod_eq [of "c div 64" 64] by (simp_all add: x_def y_def z_def flip: div_mult2_eq)
    then have b: "c = x * 4096 + y * 64 + z" "z < 64" "y < 64" "x < 16"
      using 3 by (linarith, auto simp: x_def y_def z_def)
    have "utf8_encode c = [0xE0 + x, 0x80 + y, 0x80 + z]"
      using 3 b(4) by (simp add: utf8_encode_def x_def y_def z_def)
    then show ?thesis
      using b(2-4) 3 assms unfolding scalar_value_def b(1) by (auto simp: utf8_cont_def Let_def)
  next
    case 4
    define x y z w where "x = c div 262144" and "y = c div 4096 mod 64"
      and "z = c div 64 mod 64" and "w = c mod 64"
    have "c div 4096 = x * 64 + y" "c div 64 = c div 4096 * 64 + z" "c = c div 64 * 64 + w"
      using div_mult_mod_eq [of "c div 64" 64] div_mult_mod_eq [of "c div 4096" 64]
      by (simp_all add: x_def y_def z_def w_def flip: div_mult2_eq)
    then have b: "c = x * 262144 + y * 4096 + z * 64 + w" "w < 64" "z < 64" "y < 64" "x < 5"
      using 4 by (linarith, auto simp: x_def y_def z_def w_def)
    have "utf8_encode c = [0xF0 + x, 0x80 + y, 0x80 + z, 0x80 + w]"
      using 4 b(5) by (simp add: utf8_encode_def x_def y_def z_def w_def)
    then show ?thesis
      using b(2-5) 4 unfolding b(1) by (simp add: utf8_cont_def Let_def)
  qed
qed

lemma from_utf8_as_bytes: "list_all scalar_value s \<Longrightarrow> from_utf8 (as_bytes s) = Some s"
  by (induction s) (simp_all add: from_utf8_encode)
declare utf8_cont_def [nova_eval]

end
