(* ===== verification/Text_Edit.thy ===== *)
theory Text_Edit
  imports Rust_Str "HOL-Library.Product_Lexorder" "HOL-Library.Multiset"
begin

text \<open>
  Text edits, after \<^verbatim>\<open>crates/nova-core/src/edit.rs\<close>: the edit and
  error types, the normalisation pass (sort, bounds and boundary checks, overlap check,
  coalescing) and the application of the normalised edits from the end of the text
  backwards. The specification \<open>weave\<close> copies the untouched stretches of the
  original text and the replacements in one forward pass; the development shows that
  the program computes exactly that, and never panics on the way.
\<close>

section \<open>Data\<close>

text \<open>
  \<^verbatim>\<open>TextRange\<close> is the pair of byte offsets of the
  \<^verbatim>\<open>text-size\<close> crate.
\<close>

record text_range =
  tr_start :: nat
  tr_end :: nat

record text_edit =
  te_range :: text_range
  te_replacement :: rstr

abbreviation e_start :: "text_edit \<Rightarrow> nat" where "e_start e \<equiv> tr_start (te_range e)"
abbreviation e_end :: "text_edit \<Rightarrow> nat" where "e_end e \<equiv> tr_end (te_range e)"

definition text_edit_new :: "text_range \<Rightarrow> rstr \<Rightarrow> text_edit" where
  "text_edit_new rng replacement = \<lparr>te_range = rng, te_replacement = replacement\<rparr>"

definition text_edit_insert :: "nat \<Rightarrow> rstr \<Rightarrow> text_edit" where
  "text_edit_insert offset text =
     text_edit_new \<lparr>tr_start = offset, tr_end = offset\<rparr> text"

definition delta_bytes :: "text_edit \<Rightarrow> int" where
  "delta_bytes e = int (str_len (te_replacement e)) - int (e_end e - e_start e)"

text \<open>\<^verbatim>\<open>WorkspaceEdit\<close>: the edits of each file, in the order they were added.\<close>

type_synonym workspace_edit = "nat \<rightharpoonup> text_edit list"

definition add_edit :: "workspace_edit \<Rightarrow> nat \<Rightarrow> text_edit \<Rightarrow> workspace_edit" where
  "add_edit w file edit =
     w(file \<mapsto> (case w file of None \<Rightarrow> [] | Some es \<Rightarrow> es) @ [edit])"

datatype edit_error =
    RangeOutOfBounds text_range nat
  | InvalidUtf8Boundary nat
  | OverlappingEdits text_range text_range

section \<open>Normalisation\<close>

definition edit_key :: "text_edit \<Rightarrow> nat \<times> nat" where
  "edit_key e = (e_start e, e_end e)"

fun check_ranges :: "rstr \<Rightarrow> nat \<Rightarrow> text_edit list \<Rightarrow> (edit_error, unit) result" where
  "check_ranges text text_len [] = Ok ()"
| "check_ranges text text_len (e # es) =
     (if e_start e > e_end e \<or> e_end e > text_len then
        Err (RangeOutOfBounds (te_range e) text_len)
      else if \<not> is_char_boundary text (e_start e) then Err (InvalidUtf8Boundary (e_start e))
      else if \<not> is_char_boundary text (e_end e) then Err (InvalidUtf8Boundary (e_end e))
      else check_ranges text text_len es)"

fun check_overlaps :: "text_edit list \<Rightarrow> (edit_error, unit) result" where
  "check_overlaps (e # e' # es) =
     (if e_end e > e_start e' then Err (OverlappingEdits (te_range e) (te_range e'))
      else check_overlaps (e' # es))"
| "check_overlaps _ = Ok ()"

definition merge_step :: "text_edit list \<Rightarrow> text_edit \<Rightarrow> text_edit list" where
  "merge_step merged edit =
     (if merged \<noteq> [] \<and> e_end (last merged) = e_start edit then
        butlast merged @
          [\<lparr>te_range = \<lparr>tr_start = e_start (last merged), tr_end = e_end edit\<rparr>,
            te_replacement = te_replacement (last merged) @ te_replacement edit\<rparr>]
      else merged @ [edit])"

definition coalesce :: "text_edit list \<Rightarrow> text_edit list" where
  "coalesce edits = foldl merge_step [] edits"

definition normalize_text_edits ::
  "rstr \<Rightarrow> text_edit list \<Rightarrow> (edit_error, text_edit list) result" where
  "normalize_text_edits text edits =
     (let edits = sort_key edit_key edits; text_len = as_u32 (str_len text) in
      res_bind (check_ranges text text_len edits) (\<lambda>_.
      res_bind (check_overlaps edits) (\<lambda>_.
      Ok (coalesce edits))))"

section \<open>Application\<close>

text \<open>
  One \<^verbatim>\<open>replace_range\<close> per edit, last edit first. \<open>None\<close> is the
  panic of \<^verbatim>\<open>replace_range\<close> on an offset that is not a boundary.
\<close>

definition apply_one :: "text_edit \<Rightarrow> rstr option \<Rightarrow> rstr option" where
  "apply_one e out = Option.bind out (\<lambda>s. replace_range s (e_start e) (e_end e) (te_replacement e))"

definition apply_text_edits ::
  "rstr \<Rightarrow> text_edit list \<Rightarrow> (edit_error, rstr) result option" where
  "apply_text_edits text edits =
     (case normalize_text_edits text edits of
        Inl e \<Rightarrow> Some (Err e)
      | Inr edits' \<Rightarrow> map_option Ok (foldr apply_one edits' (Some text)))"

lemma apply_one_Some [simp]:
  "apply_one e (Some s) = replace_range s (e_start e) (e_end e) (te_replacement e)"
  by (simp add: apply_one_def)

section \<open>Specification\<close>

text \<open>
  A list of edits is a chain over \<open>t\<close> from \<open>pos\<close> when it walks forward through
  character boundaries without going back.
\<close>

fun edit_chain :: "rstr \<Rightarrow> nat \<Rightarrow> text_edit list \<Rightarrow> bool" where
  "edit_chain t pos [] \<longleftrightarrow> True"
| "edit_chain t pos (e # es) \<longleftrightarrow>
     pos \<le> e_start e \<and> e_start e \<le> e_end e \<and>
     is_char_boundary t (e_start e) \<and> is_char_boundary t (e_end e) \<and>
     edit_chain t (e_end e) es"

definition stretch :: "rstr \<Rightarrow> nat \<Rightarrow> nat \<Rightarrow> rstr" where
  "stretch t i j = (case str_slice t i j of None \<Rightarrow> [] | Some m \<Rightarrow> m)"

fun weave :: "rstr \<Rightarrow> nat \<Rightarrow> text_edit list \<Rightarrow> rstr" where
  "weave t pos [] = stretch t pos (str_len t)"
| "weave t pos (e # es) =
     stretch t pos (e_start e) @ te_replacement e @ weave t (e_end e) es"

definition valid_edits :: "rstr \<Rightarrow> text_edit list \<Rightarrow> bool" where
  "valid_edits t es \<longleftrightarrow>
     edit_chain t 0 (sort_key edit_key es) \<and> (\<forall>e \<in> set es. e_end e \<le> as_u32 (str_len t))"

lemmas text_edit_eval [nova_eval] =
  text_edit_new_def text_edit_insert_def delta_bytes_def edit_key_def merge_step_def
  coalesce_def apply_text_edits_def normalize_text_edits_def stretch_def valid_edits_def

section \<open>Stretches of a text\<close>

lemma stretch_append:
  assumes "t = a @ m @ b"
  shows "stretch t (str_len a) (str_len a + str_len m) = m"
proof -
  have "str_slice t (str_len a) (str_len a + str_len m) = Some m"
    using assms unfolding str_slice_Some_iff by blast
  then show ?thesis by (simp add: stretch_def)
qed

lemma stretch_same [simp]: "is_char_boundary t i \<Longrightarrow> stretch t i i = []"
proof -
  assume "is_char_boundary t i"
  then obtain a b where "t = a @ [] @ b" "str_len a = i" by (auto simp: is_char_boundary_iff)
  then show ?thesis using stretch_append [of t a "[]" b] by simp
qed

lemma stretch_split:
  assumes "is_char_boundary t i" "is_char_boundary t j" "is_char_boundary t k" "i \<le> j" "j \<le> k"
  shows "stretch t i j @ stretch t j k = stretch t i k"
    and "str_len (stretch t i k) = k - i"
proof -
  from assms(2,3,5) str_slice_defined obtain m where m: "str_slice t j k = Some m" by blast
  then obtain a b where ab: "t = a @ m @ b" "str_len a = j" "k = j + str_len m"
    by (auto simp: str_slice_Some_iff)
  from assms(1) obtain c d where cd: "t = c @ d" "str_len c = i"
    by (auto simp: is_char_boundary_iff)
  with ab assms(4) obtain u where u: "a = c @ u" using prefixes_by_len [of c d a "m @ b"] by auto
  have 1: "stretch t i j = u" using stretch_append [of t c u "m @ b"] ab cd u by auto
  have 2: "stretch t j k = m" using m by (simp add: stretch_def)
  have 3: "stretch t i k = u @ m" using stretch_append [of t c "u @ m" b] ab cd u
    by (auto simp: add.assoc)
  show "stretch t i j @ stretch t j k = stretch t i k" using 1 2 3 by simp
  show "str_len (stretch t i k) = k - i" using 3 ab cd u by auto
qed

lemma stretch_decompose:
  assumes "is_char_boundary t i"
  shows "t = stretch t 0 i @ stretch t i (str_len t)" "str_len (stretch t 0 i) = i"
proof -
  from assms obtain a b where ab: "t = a @ b" "str_len a = i" by (auto simp: is_char_boundary_iff)
  then have "stretch t 0 i = a" "stretch t i (str_len t) = b"
    using stretch_append [of t "[]" a b] stretch_append [of t a b "[]"] by auto
  with ab show "t = stretch t 0 i @ stretch t i (str_len t)" "str_len (stretch t 0 i) = i"
    by auto
qed

section \<open>Backward application computes the forward weave\<close>

lemma foldr_apply_one:
  assumes "edit_chain t pos es" "is_char_boundary t pos"
  shows "foldr apply_one es (Some t) = Some (stretch t 0 pos @ weave t pos es)"
  using assms
proof (induction es arbitrary: pos)
  case Nil
  then show ?case using stretch_decompose(1) [of t pos] by simp
next
  case (Cons e es)
  let ?r = "te_replacement e" and ?w = "weave t (e_end e) es"
  from Cons.prems have c: "pos \<le> e_start e" "e_start e \<le> e_end e" "is_char_boundary t (e_start e)"
      "is_char_boundary t (e_end e)" "edit_chain t (e_end e) es" by auto
  have "foldr apply_one es (Some t) = Some (stretch t 0 (e_end e) @ ?w)"
    using Cons.IH c by blast
  also have "stretch t 0 (e_end e) = stretch t 0 (e_start e) @ stretch t (e_start e) (e_end e)"
    using stretch_split(1) [of t 0 "e_start e" "e_end e"] c by simp
  finally have *: "foldr apply_one (e # es) (Some t) =
      replace_range (stretch t 0 (e_start e) @ stretch t (e_start e) (e_end e) @ ?w)
        (e_start e) (e_end e) ?r"
    by simp
  have "replace_range (stretch t 0 (e_start e) @ stretch t (e_start e) (e_end e) @ ?w)
        (e_start e) (e_end e) ?r = Some (stretch t 0 (e_start e) @ ?r @ ?w)"
    unfolding replace_range_Some_iff
    using stretch_split(2) [of t "e_start e" "e_start e" "e_end e"]
      stretch_decompose(2) [of t "e_start e"] c
    by (intro exI [of _ "stretch t 0 (e_start e)"] exI [of _ "stretch t (e_start e) (e_end e)"]
        exI [of _ ?w]) auto
  moreover have "stretch t 0 (e_start e) = stretch t 0 pos @ stretch t pos (e_start e)"
    using stretch_split(1) [of t 0 pos "e_start e"] c Cons.prems(2) by simp
  ultimately show ?case using * by simp
qed

section \<open>Coalescing keeps the weave\<close>

lemma edit_chain_append:
  "edit_chain t pos (xs @ ys) \<longleftrightarrow>
     edit_chain t pos xs \<and> edit_chain t (if xs = [] then pos else e_end (last xs)) ys"
  by (induction xs arbitrary: pos) auto

lemma weave_merge_two:
  assumes "e_end m = e_start e" "is_char_boundary t (e_end m)"
  shows "weave t pos (m # e # es) =
    weave t pos (\<lparr>te_range = \<lparr>tr_start = e_start m, tr_end = e_end e\<rparr>,
      te_replacement = te_replacement m @ te_replacement e\<rparr> # es)"
  using assms by simp

lemma weave_append_cong:
  assumes "\<And>p. weave t p ys = weave t p zs"
  shows "weave t pos (xs @ ys) = weave t pos (xs @ zs)"
  by (induction xs arbitrary: pos) (simp_all add: assms)

lemma merge_step_chain:
  assumes "edit_chain t pos (ms @ e # es)"
  shows "edit_chain t pos (merge_step ms e @ es)"
    and "weave t pos (merge_step ms e @ es) = weave t pos (ms @ e # es)"
proof -
  show "edit_chain t pos (merge_step ms e @ es)"
    using assms by (cases ms rule: rev_cases) (auto simp: merge_step_def edit_chain_append)
  show "weave t pos (merge_step ms e @ es) = weave t pos (ms @ e # es)"
  proof (cases "ms \<noteq> [] \<and> e_end (last ms) = e_start e")
    case True
    then obtain ns m where ms: "ms = ns @ [m]" and eq: "e_end m = e_start e"
      by (cases ms rule: rev_cases) auto
    have b: "is_char_boundary t (e_end m)" using assms ms by (simp add: edit_chain_append)
    show ?thesis
      using True ms weave_append_cong [of t "m # e # es", OF weave_merge_two [OF eq b], of pos ns]
      by (simp add: merge_step_def)
  next
    case False
    then have "merge_step ms e = ms @ [e]" unfolding merge_step_def by auto
    then show ?thesis by simp
  qed
qed

lemma foldl_merge_step_chain:
  assumes "edit_chain t pos (ms @ es)"
  shows "edit_chain t pos (foldl merge_step ms es) \<and>
    weave t pos (foldl merge_step ms es) = weave t pos (ms @ es)"
  using assms
proof (induction es arbitrary: ms)
  case (Cons e es)
  then show ?case using merge_step_chain [of t pos ms e es] by auto
qed simp

lemma coalesce_chain:
  assumes "edit_chain t pos es"
  shows "edit_chain t pos (coalesce es)" "weave t pos (coalesce es) = weave t pos es"
  using foldl_merge_step_chain [of t pos "[]" es] assms by (simp_all add: coalesce_def)

text \<open>After coalescing, neighbouring edits are strictly apart.\<close>

fun separated :: "text_edit list \<Rightarrow> bool" where
  "separated (e # e' # es) \<longleftrightarrow> e_end e \<noteq> e_start e' \<and> separated (e' # es)"
| "separated _ \<longleftrightarrow> True"

lemma separated_snoc:
  "separated (xs @ [x]) \<longleftrightarrow>
     separated xs \<and> (xs = [] \<or> e_end (last xs) \<noteq> e_start x)"
  by (induction xs rule: separated.induct) auto

lemma separated_coalesce: "separated (coalesce es)"
proof -
  have "separated ms \<Longrightarrow> separated (foldl merge_step ms es)" for ms
  proof (induction es arbitrary: ms)
    case (Cons e es)
    have "separated (merge_step ms e)"
      using Cons.prems separated_snoc [of ms e]
      by (cases ms rule: rev_cases) (auto simp: merge_step_def separated_snoc)
    then show ?case using Cons.IH by simp
  qed simp
  then show ?thesis by (simp add: coalesce_def)
qed

section \<open>The checks decide validity\<close>

lemma check_ranges_Ok:
  "check_ranges t n es = Ok u \<longleftrightarrow>
     (\<forall>e \<in> set es. e_start e \<le> e_end e \<and> e_end e \<le> n \<and>
        is_char_boundary t (e_start e) \<and> is_char_boundary t (e_end e))"
  by (induction es) auto

lemma check_overlaps_chain:
  assumes "\<forall>e \<in> set es. e_start e \<le> e_end e \<and>
      is_char_boundary t (e_start e) \<and> is_char_boundary t (e_end e)"
  shows "check_overlaps es = Ok u \<longleftrightarrow> edit_chain t 0 es"
proof -
  have "edit_chain t 0 es \<longleftrightarrow> edit_chain t (e_start (hd es)) es" if "es \<noteq> []" for es
    using that by (cases es) auto
  with assms show ?thesis
    by (induction es rule: check_overlaps.induct) auto
qed

lemma normalize_text_edits_Ok:
  "normalize_text_edits t es = Ok es' \<longleftrightarrow>
     valid_edits t es \<and> es' = coalesce (sort_key edit_key es)"
proof -
  let ?s = "sort_key edit_key es" and ?n = "as_u32 (str_len t)"
  have chain: "edit_chain t p xs \<Longrightarrow> \<forall>e \<in> set xs. e_start e \<le> e_end e \<and>
      is_char_boundary t (e_start e) \<and> is_char_boundary t (e_end e)" for p xs
    by (induction xs arbitrary: p) auto
  have "check_ranges t ?n ?s = Ok () \<and> check_overlaps ?s = Ok () \<longleftrightarrow> valid_edits t es"
    using check_overlaps_chain [of ?s t "()"] chain [of 0 ?s]
    by (auto simp: check_ranges_Ok valid_edits_def)
  then show ?thesis
    by (auto simp: normalize_text_edits_def Let_def res_bind_Ok_iff)
qed

section \<open>Properties\<close>

lemma edit_chain_weave_len:
  assumes "edit_chain t pos es" "is_char_boundary t pos"
  shows "int (str_len (weave t pos es)) =
    int (str_len t) - int pos + sum_list (map delta_bytes es)"
  using assms
proof (induction es arbitrary: pos)
  case Nil
  then show ?case
    using stretch_split(2) [of t pos pos "str_len t"] is_char_boundary_le [of t pos] by simp
next
  case (Cons e es)
  then show ?case
    using stretch_split(2) [of t pos pos "e_start e"] by (auto simp: delta_bytes_def)
qed

lemma sum_list_sort_key: "sum_list (map f (sort_key k xs)) = sum_list (map f xs)"
  for f :: "'a \<Rightarrow> 'b::comm_monoid_add"
  by (metis mset_map mset_sort sum_mset_sum_list)

lemma apply_text_edits_cases:
  obtains (ok) "valid_edits t es"
      "apply_text_edits t es = Some (Ok (weave t 0 (sort_key edit_key es)))"
  | (err) e where "\<not> valid_edits t es" "apply_text_edits t es = Some (Err e)"
proof (cases "normalize_text_edits t es")
  case (Inl e)
  then have "\<not> valid_edits t es" using normalize_text_edits_Ok [of t es] by force
  with Inl show thesis using err by (simp add: apply_text_edits_def)
next
  case (Inr es')
  then have v: "valid_edits t es" and es': "es' = coalesce (sort_key edit_key es)"
    by (simp_all add: normalize_text_edits_Ok)
  then have "edit_chain t 0 (sort_key edit_key es)" by (simp add: valid_edits_def)
  then have "foldr apply_one es' (Some t) = Some (weave t 0 (sort_key edit_key es))"
    using coalesce_chain foldr_apply_one [of t 0 es'] es' by simp
  with Inr v show thesis using ok by (simp add: apply_text_edits_def)
qed

text \<open>
  Property C1. Applying a list of edits never panics: when the edits are valid (in bounds,
  on character boundaries, not overlapping once sorted) the result is the forward weave
  of the sorted edits, and otherwise it is an error value.
\<close>

theorem apply_text_edits_correct:
  "(valid_edits t es \<longrightarrow>
      apply_text_edits t es = Some (Ok (weave t 0 (sort_key edit_key es)))) \<and>
   (\<not> valid_edits t es \<longrightarrow> (\<exists>e. apply_text_edits t es = Some (Err e)))"
  by (cases rule: apply_text_edits_cases [of t es]) auto

theorem apply_text_edits_correct_witness:
  "valid_edits [97, 98, 99, 100, 101, 102]
     [text_edit_new \<lparr>tr_start = 2, tr_end = 4\<rparr> [88, 88], text_edit_insert 0 [33],
      text_edit_new \<lparr>tr_start = 5, tr_end = 6\<rparr> []] \<and>
   apply_text_edits [97, 98, 99, 100, 101, 102]
     [text_edit_new \<lparr>tr_start = 2, tr_end = 4\<rparr> [88, 88], text_edit_insert 0 [33],
      text_edit_new \<lparr>tr_start = 5, tr_end = 6\<rparr> []] =
     Some (Ok [33, 97, 98, 88, 88, 101])"
proof -
  let ?t = "[97, 98, 99, 100, 101, 102] :: rstr"
  let ?es = "[text_edit_new \<lparr>tr_start = 2, tr_end = 4\<rparr> [88, 88], text_edit_insert 0 [33],
      text_edit_new \<lparr>tr_start = 5, tr_end = 6\<rparr> []]"
  have v: "valid_edits ?t ?es" by (simp add: nova_eval)
  have w: "weave ?t 0 (sort_key edit_key ?es) = [33, 97, 98, 88, 88, 101]" by (simp add: nova_eval)
  show ?thesis using v w apply_text_edits_correct [of ?t ?es] by simp
qed

text \<open>
  Property C21. The result does not depend on the order in which the edits are given, as
  long as no two edits have the same range (two insertions at one offset keep their order).
\<close>

theorem apply_text_edits_perm:
  assumes "mset es = mset es'" "inj_on edit_key (set es)"
  shows "apply_text_edits t es = apply_text_edits t es'"
proof -
  have "sort_key edit_key es = sort_key edit_key es'"
  proof (rule properties_for_sort_key)
    show "mset (sort_key edit_key es') = mset es" using assms(1) by simp
    fix k assume k: "k \<in> set (sort_key edit_key es')"
    from assms(1) have eq: "set es = set es'" by (metis set_mset_mset)
    have one: "filter (\<lambda>y. edit_key k = edit_key y) zs = replicate (count (mset zs) k) k"
      if "mset zs = mset es" for zs
    proof -
      from that have "set zs = set es" by (metis set_mset_mset)
      then have "filter (\<lambda>y. edit_key k = edit_key y) zs = filter (\<lambda>y. k = y) zs"
        using assms(2) k eq by (intro filter_cong) (auto simp: inj_on_def)
      also have "\<dots> = replicate (count (mset zs) k) k"
        by (simp add: replicate_count_mset_eq_filter_eq)
      finally show ?thesis .
    qed
    show "filter (\<lambda>y. edit_key k = edit_key y) (sort_key edit_key es') =
        filter (\<lambda>y. edit_key k = edit_key y) es"
      using one [of es] one [of "sort_key edit_key es'"] assms(1) by simp
  qed simp
  then show ?thesis by (simp add: apply_text_edits_def normalize_text_edits_def)
qed

theorem apply_text_edits_perm_witness:
  "apply_text_edits [97, 98, 99] [text_edit_insert 2 [88], text_edit_insert 1 [89]] =
   apply_text_edits [97, 98, 99] [text_edit_insert 1 [89], text_edit_insert 2 [88]]"
  by (rule apply_text_edits_perm)
    (simp_all add: text_edit_insert_def text_edit_new_def edit_key_def inj_on_def)

text \<open>
  The byte length of an edited text is the length of the original plus the
  \<^verbatim>\<open>delta_bytes\<close> of the edits.
\<close>

lemma apply_text_edits_length:
  assumes "apply_text_edits t es = Some (Ok out)"
  shows "int (str_len out) = int (str_len t) + sum_list (map delta_bytes es)"
proof -
  from assms have v: "valid_edits t es" and out: "out = weave t 0 (sort_key edit_key es)"
    by (cases rule: apply_text_edits_cases [of t es]; simp)+
  from v have "edit_chain t 0 (sort_key edit_key es)" by (simp add: valid_edits_def)
  from edit_chain_weave_len [OF this] show ?thesis by (simp add: out sum_list_sort_key)
qed

end
