(* ===== verification/Line_Index.thy ===== *)
theory Line_Index
  imports Text_Edit
begin

text \<open>
  Line and column conversion, after \<^verbatim>\<open>crates/nova-core/src/text.rs\<close>:
  the pre-computed line table \<^verbatim>\<open>LineIndex\<close>, conversion of byte
  offsets to byte line/column pairs and to UTF-16 positions, and back. A panic of the
  source (a slice at an offset that is not a character boundary, an index out of range)
  is the outer \<open>None\<close> of a result.
\<close>

section \<open>Data\<close>

record line_col =
  lc_line :: nat
  lc_col :: nat

record position =
  pos_line :: nat
  pos_character :: nat

record lsp_range =
  rng_start :: position
  rng_end :: position

record line_index =
  li_starts :: "nat list"
  li_ends :: "nat list"
  li_text_len :: nat

definition position_new :: "nat \<Rightarrow> nat \<Rightarrow> position" where
  "position_new line character = \<lparr>pos_line = line, pos_character = character\<rparr>"

definition range_new :: "position \<Rightarrow> position \<Rightarrow> lsp_range" where
  "range_new s e = \<lparr>rng_start = s, rng_end = e\<rparr>"

definition range_point :: "position \<Rightarrow> lsp_range" where
  "range_point p = \<lparr>rng_start = p, rng_end = p\<rparr>"

section \<open>Building the table\<close>

text \<open>
  The scanning loop of \<^verbatim>\<open>LineIndex::new\<close>, from byte index \<open>i\<close> on: the
  starts and the ends it pushes. Line feed is 10, carriage return 13.
\<close>

fun scan_lines :: "nat \<Rightarrow> nat list \<Rightarrow> nat list \<times> nat list" where
  "scan_lines i [] = ([], [])"
| "scan_lines i (b # bs) =
     (if b = 10 then
        (case scan_lines (i + 1) bs of (ss, es) \<Rightarrow> (as_u32 (i + 1) # ss, as_u32 i # es))
      else if b = 13 then
        (if bs \<noteq> [] \<and> hd bs = 10 then
           (case scan_lines (i + 2) (tl bs) of (ss, es) \<Rightarrow> (as_u32 (i + 2) # ss, as_u32 i # es))
         else
           (case scan_lines (i + 1) bs of (ss, es) \<Rightarrow> (as_u32 (i + 1) # ss, as_u32 i # es)))
      else scan_lines (i + 1) bs)"

definition line_index_new :: "rstr \<Rightarrow> line_index" where
  "line_index_new text =
     (case scan_lines 0 (as_bytes text) of (ss, es) \<Rightarrow>
        \<lparr>li_starts = 0 # ss, li_ends = es @ [as_u32 (str_len text)],
         li_text_len = as_u32 (str_len text)\<rparr>)"

definition line_count :: "line_index \<Rightarrow> nat" where
  "line_count li = as_u32 (length (li_starts li))"

definition line_start :: "line_index \<Rightarrow> nat \<Rightarrow> nat option" where
  "line_start li line = vec_get (li_starts li) line"

definition line_end :: "line_index \<Rightarrow> nat \<Rightarrow> nat option" where
  "line_end li line = vec_get (li_ends li) line"

section \<open>Conversions\<close>

text \<open>
  \<^verbatim>\<open>slice::binary_search\<close> on a sorted slice without duplicates: the index
  of the element, or the index at which it would be inserted.
\<close>

definition binary_search :: "nat list \<Rightarrow> nat \<Rightarrow> (nat, nat) result" where
  "binary_search xs x =
     (let k = length (takeWhile (\<lambda>y. y < x) xs)
      in if k < length xs \<and> xs ! k = x then Ok k else Err k)"

definition line_of_offset :: "line_index \<Rightarrow> nat \<Rightarrow> nat" where
  "line_of_offset li offset =
     (case binary_search (li_starts li) (min offset (li_text_len li)) of
        Inr line \<Rightarrow> line
      | Inl ins \<Rightarrow> sat_sub ins 1)"

text \<open>
  \<open>add\<close> and \<open>sub\<close> are addition and subtraction of \<^verbatim>\<open>TextSize\<close> values,
  operations of the \<^verbatim>\<open>text-size\<close> crate; the theorems only use that the sum
  is exact when it fits into 32 bits and the difference when it is not negative.
\<close>

definition exact_u32_add :: "(nat \<Rightarrow> nat \<Rightarrow> nat) \<Rightarrow> bool" where
  "exact_u32_add add \<longleftrightarrow> (\<forall>a b. a + b \<le> u32_max \<longrightarrow> add a b = a + b)"

definition exact_u32_sub :: "(nat \<Rightarrow> nat \<Rightarrow> nat) \<Rightarrow> bool" where
  "exact_u32_sub sub \<longleftrightarrow> (\<forall>a b. b \<le> a \<longrightarrow> sub a b = a - b)"

definition line_col_of ::
  "(nat \<Rightarrow> nat \<Rightarrow> nat) \<Rightarrow> line_index \<Rightarrow> nat \<Rightarrow> line_col option" where
  "line_col_of sub li offset =
     (let off = min offset (li_text_len li); line = line_of_offset li off in
      case (vec_get (li_starts li) line, vec_get (li_ends li) line) of
        (Some s, Some e) \<Rightarrow> Some \<lparr>lc_line = as_u32 line, lc_col = sub (min off e) s\<rparr>
      | _ \<Rightarrow> None)"

definition offset_of_line_col ::
  "(nat \<Rightarrow> nat \<Rightarrow> nat) \<Rightarrow> line_index \<Rightarrow> line_col \<Rightarrow> nat option" where
  "offset_of_line_col add li lc =
     (case line_start li (lc_line lc) of None \<Rightarrow> None
      | Some s \<Rightarrow> (case line_end li (lc_line lc) of None \<Rightarrow> None
         | Some e \<Rightarrow> (let offset = add s (lc_col lc) in
              if offset > e then None else Some offset)))"

definition position_of :: "line_index \<Rightarrow> rstr \<Rightarrow> nat \<Rightarrow> position option" where
  "position_of li text offset =
     (let off = min offset (li_text_len li); line = line_of_offset li off in
      case (vec_get (li_starts li) line, vec_get (li_ends li) line) of
        (Some s, Some e) \<Rightarrow>
          map_option (\<lambda>m. \<lparr>pos_line = as_u32 line, pos_character = utf16_len m\<rparr>)
            (str_slice text s (min off e))
      | _ \<Rightarrow> None)"

text \<open>The loop over \<^verbatim>\<open>char_indices\<close> of \<^verbatim>\<open>offset_of_position\<close>.\<close>

fun walk_utf16 ::
  "(nat \<Rightarrow> nat \<Rightarrow> nat) \<Rightarrow> nat \<Rightarrow> nat \<Rightarrow> nat \<Rightarrow> nat \<Rightarrow> nat \<Rightarrow> rstr \<Rightarrow> nat option" where
  "walk_utf16 add l_start l_end character utf16 byte_idx [] =
     (if utf16 = character then Some l_end else None)"
| "walk_utf16 add l_start l_end character utf16 byte_idx (ch # cs) =
     (if utf16 = character then Some (add l_start byte_idx)
      else if utf16 + len_utf16 ch > character then None
      else walk_utf16 add l_start l_end character (utf16 + len_utf16 ch)
             (byte_idx + len_utf8 ch) cs)"

definition offset_of_position ::
  "(nat \<Rightarrow> nat \<Rightarrow> nat) \<Rightarrow> line_index \<Rightarrow> rstr \<Rightarrow> position \<Rightarrow> nat option option" where
  "offset_of_position add li text p =
     (case line_start li (pos_line p) of None \<Rightarrow> Some None
      | Some s \<Rightarrow> (case line_end li (pos_line p) of None \<Rightarrow> Some None
         | Some e \<Rightarrow> (case str_slice text s e of None \<Rightarrow> None
            | Some line_text \<Rightarrow>
                Some (if pos_character p = 0 then Some s
                      else walk_utf16 add s e (pos_character p) 0 0 line_text))))"

definition range_of :: "line_index \<Rightarrow> rstr \<Rightarrow> text_range \<Rightarrow> lsp_range option" where
  "range_of li text r =
     (case (position_of li text (tr_start r), position_of li text (tr_end r)) of
        (Some s, Some e) \<Rightarrow> Some \<lparr>rng_start = s, rng_end = e\<rparr>
      | _ \<Rightarrow> None)"

text \<open>
  \<open>new_range\<close> is \<^verbatim>\<open>TextRange::new\<close> of the \<^verbatim>\<open>text-size\<close> crate,
  \<open>None\<close> where it panics; its documentation says it does so exactly when the end is
  before the start.
\<close>

definition text_range_new_spec :: "(nat \<Rightarrow> nat \<Rightarrow> text_range option) \<Rightarrow> bool" where
  "text_range_new_spec new_range \<longleftrightarrow>
     (\<forall>s e. new_range s e = (if s \<le> e then Some \<lparr>tr_start = s, tr_end = e\<rparr> else None))"

definition text_range_of ::
  "(nat \<Rightarrow> nat \<Rightarrow> nat) \<Rightarrow> (nat \<Rightarrow> nat \<Rightarrow> text_range option) \<Rightarrow> line_index \<Rightarrow> rstr \<Rightarrow>
     lsp_range \<Rightarrow> text_range option option" where
  "text_range_of add new_range li text r =
     (case offset_of_position add li text (rng_start r) of None \<Rightarrow> None
      | Some None \<Rightarrow> Some None
      | Some (Some s) \<Rightarrow>
          (case offset_of_position add li text (rng_end r) of None \<Rightarrow> None
           | Some None \<Rightarrow> Some None
           | Some (Some e) \<Rightarrow> map_option Some (new_range s e)))"

lemmas line_index_eval [nova_eval] =
  position_new_def range_new_def line_index_new_def line_start_def line_end_def
  binary_search_def line_of_offset_def line_col_of_def offset_of_line_col_def position_of_def
  offset_of_position_def range_of_def text_range_of_def range_point_def vec_get_def Let_def u32_max_def

section \<open>The scan by characters\<close>

text \<open>
  Line terminators are ASCII, so the byte scan sees them exactly where the text has the
  characters: the scan by bytes is a scan by characters.
\<close>

fun scan_chars :: "nat \<Rightarrow> rstr \<Rightarrow> nat list \<times> nat list" where
  "scan_chars i [] = ([], [])"
| "scan_chars i (c # cs) =
     (if c = 10 then (case scan_chars (i + 1) cs of (ss, es) \<Rightarrow> ((i + 1) # ss, i # es))
      else if c = 13 then
        (if cs \<noteq> [] \<and> hd cs = 10 then
           (case scan_chars (i + 2) (tl cs) of (ss, es) \<Rightarrow> ((i + 2) # ss, i # es))
         else (case scan_chars (i + 1) cs of (ss, es) \<Rightarrow> ((i + 1) # ss, i # es)))
      else scan_chars (i + len_utf8 c) cs)"

lemma scan_lines_skip:
  "10 \<notin> set bs \<Longrightarrow> 13 \<notin> set bs \<Longrightarrow> scan_lines i (bs @ rest) = scan_lines (i + length bs) rest"
  by (induction bs arbitrary: i) auto

lemma utf8_encode_newline [simp]: "utf8_encode 10 = [10]" "utf8_encode 13 = [13]"
  by (simp_all add: utf8_encode_def)

lemma len_utf8_newline [simp]: "len_utf8 10 = 1" "len_utf8 13 = 1"
  by (simp_all add: len_utf8_def)

lemma hd_as_bytes_newline: "as_bytes cs \<noteq> [] \<and> hd (as_bytes cs) = 10 \<longleftrightarrow> cs \<noteq> [] \<and> hd cs = 10"
proof (cases cs)
  case (Cons c cs')
  have "utf8_encode c \<noteq> []" by (simp add: utf8_encode_def)
  moreover have "hd (utf8_encode c) = 10 \<longleftrightarrow> c = 10"
    by (auto simp: utf8_encode_def)
  ultimately show ?thesis using Cons by auto
qed simp

lemma scan_lines_chars:
  assumes "i + str_len s \<le> u32_max"
  shows "scan_lines i (as_bytes s) = scan_chars i s"
  using assms
proof (induction i s rule: scan_chars.induct)
  case (2 i c cs)
  consider (lf) "c = 10" | (crlf) cs' where "c = 13" "cs = 10 # cs'"
    | (cr) "c = 13" "\<not> (cs \<noteq> [] \<and> hd cs = 10)" | (other) "c \<noteq> 10" "c \<noteq> 13"
    by (cases cs) auto
  then show ?case
  proof cases
    case lf
    have "scan_lines (i + 1) (as_bytes cs) = scan_chars (i + 1) cs"
      using 2(1) lf 2(5) by simp
    moreover have "i + 1 \<le> u32_max" using 2(5) lf by simp
    ultimately show ?thesis using lf by simp
  next
    case crlf
    have "scan_lines (i + 2) (as_bytes cs') = scan_chars (i + 2) cs'"
      using 2(2) crlf 2(5) by simp
    moreover have "i + 2 \<le> u32_max" using 2(5) crlf by simp
    ultimately show ?thesis using crlf by simp
  next
    case cr
    have "scan_lines (i + 1) (as_bytes cs) = scan_chars (i + 1) cs"
      using 2(3) cr 2(5) by simp
    moreover have "i + 1 \<le> u32_max" using 2(5) cr by simp
    moreover have "\<not> (as_bytes cs \<noteq> [] \<and> hd (as_bytes cs) = 10)"
      using cr hd_as_bytes_newline [of cs] by blast
    ultimately show ?thesis using cr by auto
  next
    case other
    then have "10 \<notin> set (utf8_encode c)" "13 \<notin> set (utf8_encode c)"
      by (simp_all add: ascii_in_utf8_encode)
    then have "scan_lines i (as_bytes (c # cs)) = scan_lines (i + len_utf8 c) (as_bytes cs)"
      by (simp add: scan_lines_skip)
    with other 2(4,5) show ?thesis by simp
  qed
qed simp

section \<open>Well-formed line tables\<close>

text \<open>
  The starts and ends of the lines of \<open>t\<close>: each line starts at or before its end, ends
  before the next starts, all of them are character boundaries, and the last line ends
  with the text.
\<close>

fun lines_wf :: "rstr \<Rightarrow> nat list \<Rightarrow> nat list \<Rightarrow> bool" where
  "lines_wf t [s] [e] \<longleftrightarrow> s \<le> e \<and> is_char_boundary t s \<and> e = str_len t"
| "lines_wf t (s # s' # ss) (e # es) \<longleftrightarrow>
     s \<le> e \<and> e < s' \<and> is_char_boundary t s \<and> is_char_boundary t e \<and> lines_wf t (s' # ss) es"
| "lines_wf t _ _ \<longleftrightarrow> False"

lemma scan_chars_wf:
  assumes "t = pre @ s" "str_len pre = i" "l \<le> i" "is_char_boundary t l"
  shows "lines_wf t (l # fst (scan_chars i s)) (snd (scan_chars i s) @ [str_len t])"
  using assms
proof (induction i s arbitrary: pre l rule: scan_chars.induct)
  case (1 i)
  then show ?case by simp
next
  case (2 i c cs)
  have bi: "is_char_boundary t i" using 2(5,6) by (auto simp: is_char_boundary_iff)
  consider (lf) "c = 10" | (crlf) cs' where "c = 13" "cs = 10 # cs'"
    | (cr) "c = 13" "\<not> (cs \<noteq> [] \<and> hd cs = 10)" | (other) "c \<noteq> 10" "c \<noteq> 13"
    by (cases cs) auto
  then show ?case
  proof cases
    case lf
    have b: "is_char_boundary t (i + 1)"
      using 2(5,6) lf unfolding is_char_boundary_iff
      by (intro exI [of _ "pre @ [10]"] exI [of _ cs]) simp
    have "lines_wf t ((i + 1) # fst (scan_chars (i + 1) cs)) (snd (scan_chars (i + 1) cs) @ [str_len t])"
      using 2(1) [OF lf, of "pre @ [c]" "i + 1"] 2(5,6) lf b by simp
    then show ?thesis using lf 2(7,8) bi by (auto split: prod.splits)
  next
    case crlf
    have b: "is_char_boundary t (i + 2)"
      using 2(5,6) crlf unfolding is_char_boundary_iff
      by (intro exI [of _ "pre @ [13, 10]"] exI [of _ cs']) simp
    have "lines_wf t ((i + 2) # fst (scan_chars (i + 2) cs')) (snd (scan_chars (i + 2) cs') @ [str_len t])"
      using 2(2) [of "pre @ [13, 10]" "i + 2"] 2(5,6) crlf b by simp
    then show ?thesis using crlf 2(7,8) bi by (auto split: prod.splits)
  next
    case cr
    have b: "is_char_boundary t (i + 1)"
      using 2(5,6) cr unfolding is_char_boundary_iff
      by (intro exI [of _ "pre @ [13]"] exI [of _ cs]) simp
    have "lines_wf t ((i + 1) # fst (scan_chars (i + 1) cs)) (snd (scan_chars (i + 1) cs) @ [str_len t])"
      using 2(3) [of "pre @ [13]" "i + 1"] 2(5,6) cr b by simp
    then show ?thesis using cr 2(7,8) bi by (auto split: prod.splits)
  next
    case other
    then show ?thesis using 2(4) [of "pre @ [c]" l] 2(5-8) by simp
  qed
qed

definition line_index_wf :: "rstr \<Rightarrow> line_index \<Rightarrow> bool" where
  "line_index_wf t li \<longleftrightarrow>
     lines_wf t (li_starts li) (li_ends li) \<and> li_text_len li = str_len t \<and>
     li_starts li \<noteq> [] \<and> hd (li_starts li) = 0"

lemma line_index_new_wf:
  assumes "str_len t \<le> u32_max"
  shows "line_index_wf t (line_index_new t)"
proof -
  have "scan_lines 0 (as_bytes t) = scan_chars 0 t" using assms by (simp add: scan_lines_chars)
  then show ?thesis
    using scan_chars_wf [of t "[]" t 0 0] assms
    by (auto simp: line_index_new_def line_index_wf_def split: prod.splits)
qed

lemma lines_wf_nth:
  assumes "lines_wf t ss es"
  shows "length es = length ss"
    and "k < length ss \<Longrightarrow> ss ! k \<le> es ! k \<and> is_char_boundary t (ss ! k) \<and>
      is_char_boundary t (es ! k)"
    and "Suc k < length ss \<Longrightarrow> es ! k < ss ! Suc k"
    and "es \<noteq> [] \<and> last es = str_len t"
proof -
  have "length es = length ss \<and>
    (\<forall>k < length ss. ss ! k \<le> es ! k \<and> is_char_boundary t (ss ! k) \<and>
      is_char_boundary t (es ! k)) \<and>
    (\<forall>k. Suc k < length ss \<longrightarrow> es ! k < ss ! Suc k) \<and> es \<noteq> [] \<and> last es = str_len t"
    using assms by (induction t ss es rule: lines_wf.induct) (auto simp: nth_Cons split: nat.splits)
  then show "length es = length ss"
    and "k < length ss \<Longrightarrow> ss ! k \<le> es ! k \<and> is_char_boundary t (ss ! k) \<and>
      is_char_boundary t (es ! k)"
    and "Suc k < length ss \<Longrightarrow> es ! k < ss ! Suc k"
    and "es \<noteq> [] \<and> last es = str_len t"
    by blast+
qed

lemma lines_wf_mono:
  assumes "lines_wf t ss es" "i < j" "j < length ss"
  shows "es ! i < ss ! j"
  using assms(2,3)
proof (induction j)
  case (Suc j)
  show ?case
  proof (cases "i = j")
    case True
    then show ?thesis using lines_wf_nth(3) [OF assms(1)] Suc.prems by blast
  next
    case False
    with Suc have "es ! i < ss ! j" by simp
    also have "ss ! j \<le> es ! j" using lines_wf_nth(2) [OF assms(1), of j] Suc.prems by simp
    also have "es ! j < ss ! Suc j" using lines_wf_nth(3) [OF assms(1)] Suc.prems by blast
    finally show ?thesis .
  qed
qed simp

lemma lines_wf_starts_less:
  assumes "lines_wf t ss es" "i < j" "j < length ss"
  shows "ss ! i < ss ! j"
  using lines_wf_mono [OF assms] lines_wf_nth(2) [OF assms(1), of i] assms(2,3) by auto

lemma lines_wf_index_le:
  assumes "lines_wf t ss es" "k < length ss"
  shows "k \<le> ss ! k" "es ! k \<le> str_len t"
proof -
  show "k \<le> ss ! k"
    using assms(2)
  proof (induction k)
    case (Suc k)
    then show ?case using lines_wf_starts_less [OF assms(1), of k "Suc k"] by simp
  qed simp
  show "es ! k \<le> str_len t"
    using is_char_boundary_le lines_wf_nth(2) [OF assms] by blast
qed

text \<open>The line of an offset is the one that starts last at or before it.\<close>

lemma line_of_offset_eq:
  assumes "line_index_wf t li" "k < length (li_starts li)" "li_starts li ! k \<le> off"
    and "off \<le> str_len t" "Suc k < length (li_starts li) \<Longrightarrow> off < li_starts li ! Suc k"
  shows "line_of_offset li off = k"
proof -
  let ?ss = "li_starts li"
  have wf: "lines_wf t ?ss (li_ends li)" and len: "li_text_len li = str_len t"
    using assms(1) by (simp_all add: line_index_wf_def)
  have less: "i < j \<Longrightarrow> j < length ?ss \<Longrightarrow> ?ss ! i < ?ss ! j" for i j
    using lines_wf_starts_less [OF wf] .
  have before: "?ss ! i < off" if "i < k" for i
    using less [OF that assms(2)] assms(3) by linarith
  show ?thesis
  proof (cases "?ss ! k = off")
    case True
    have "takeWhile (\<lambda>y. y < off) ?ss = take k ?ss"
      using before True by (intro takeWhile_eq_take_P_nth) auto
    then have "length (takeWhile (\<lambda>y. y < off) ?ss) = k" using assms(2) by simp
    then show ?thesis
      using True assms(2,4) len by (simp add: line_of_offset_def binary_search_def)
  next
    case False
    have "takeWhile (\<lambda>y. y < off) ?ss = take (Suc k) ?ss"
      using before False assms(3,5) by (intro takeWhile_eq_take_P_nth) (auto simp: less_Suc_eq)
    then have "length (takeWhile (\<lambda>y. y < off) ?ss) = Suc k" using assms(2) by simp
    then show ?thesis
      using assms(4,5) len by (auto simp: line_of_offset_def binary_search_def)
  qed
qed

lemma line_of_offset_exists:
  assumes "line_index_wf t li" "off \<le> str_len t"
  obtains k where "k < length (li_starts li)" "li_starts li ! k \<le> off"
    "Suc k < length (li_starts li) \<Longrightarrow> off < li_starts li ! Suc k" "line_of_offset li off = k"
proof -
  let ?ss = "li_starts li"
  let ?P = "\<lambda>k. k < length ?ss \<and> ?ss ! k \<le> off"
  have 0: "?P 0" using assms(1) by (auto simp: line_index_wf_def simp flip: hd_conv_nth)
  define k where "k = (GREATEST k. ?P k)"
  have P: "?P k" unfolding k_def by (rule GreatestI_nat [where P = ?P and k = 0 and b = "length ?ss"]) (use 0 in auto)
  have "off < ?ss ! Suc k" if "Suc k < length ?ss"
  proof (rule ccontr)
    assume "\<not> off < ?ss ! Suc k"
    with that have "?P (Suc k)" by simp
    then have "Suc k \<le> k" unfolding k_def
      by (rule Greatest_le_nat [where b = "length ?ss"]) auto
    then show False by simp
  qed
  with P show thesis using that [of k] line_of_offset_eq [OF assms(1), of k off] assms(2) by blast
qed

section \<open>The UTF-16 walk\<close>

lemma walk_utf16_Some:
  assumes "exact_u32_add add" "l_end = l_start + byte_idx + str_len cs" "l_end \<le> u32_max"
    and "utf16 \<le> character"
  shows "walk_utf16 add l_start l_end character utf16 byte_idx cs = Some off \<longleftrightarrow>
    (\<exists>a b. cs = a @ b \<and> utf16 + utf16_len a = character \<and> off = l_start + byte_idx + str_len a)"
  using assms(2-4)
proof (induction cs arbitrary: utf16 byte_idx)
  case Nil
  then show ?case by auto
next
  case (Cons c cs)
  have add: "add l_start byte_idx = l_start + byte_idx"
    using assms(1) Cons.prems(1,2) by (simp add: exact_u32_add_def)
  have split: "(\<exists>a b. c # cs = a @ b \<and> Q a) \<longleftrightarrow> Q [] \<or> (\<exists>a b. cs = a @ b \<and> Q (c # a))" for Q
    by (auto simp: Cons_eq_append_conv)
  show ?case
    unfolding split [where Q = "\<lambda>a. utf16 + utf16_len a = character \<and>
      off = l_start + byte_idx + str_len a"]
  proof (cases "utf16 = character")
    case True
    have "\<not> (\<exists>a b. cs = a @ b \<and> utf16 + utf16_len (c # a) = character \<and>
        off = l_start + byte_idx + str_len (c # a))"
      using True len_utf16_pos [of c] by auto
    with True add show "(walk_utf16 add l_start l_end character utf16 byte_idx (c # cs) = Some off) =
      (utf16 + utf16_len [] = character \<and> off = l_start + byte_idx + str_len [] \<or>
       (\<exists>a b. cs = a @ b \<and> utf16 + utf16_len (c # a) = character \<and>
          off = l_start + byte_idx + str_len (c # a)))"
      by auto
  next
    case False
    show "(walk_utf16 add l_start l_end character utf16 byte_idx (c # cs) = Some off) =
      (utf16 + utf16_len [] = character \<and> off = l_start + byte_idx + str_len [] \<or>
       (\<exists>a b. cs = a @ b \<and> utf16 + utf16_len (c # a) = character \<and>
          off = l_start + byte_idx + str_len (c # a)))"
    proof (cases "utf16 + len_utf16 c > character")
      case True
      with False show ?thesis by auto
    next
      case le: False
      have "walk_utf16 add l_start l_end character (utf16 + len_utf16 c) (byte_idx + len_utf8 c) cs
          = Some off \<longleftrightarrow> (\<exists>a b. cs = a @ b \<and> utf16 + len_utf16 c + utf16_len a = character \<and>
            off = l_start + (byte_idx + len_utf8 c) + str_len a)"
        by (rule Cons.IH) (use Cons.prems le in auto)
      with False le show ?thesis by (simp add: add.assoc)
    qed
  qed
qed

section \<open>Properties of the conversions\<close>

lemma line_text:
  assumes "line_index_wf t li" "k < length (li_starts li)" "is_char_boundary t off"
    and "li_starts li ! k \<le> off" "off \<le> li_ends li ! k"
  obtains a b where "str_slice t (li_starts li ! k) off = Some a"
    "str_slice t (li_starts li ! k) (li_ends li ! k) = Some (a @ b)"
    "off = li_starts li ! k + str_len a"
    "li_ends li ! k = li_starts li ! k + str_len a + str_len b"
proof -
  let ?s = "li_starts li ! k" and ?e = "li_ends li ! k"
  have wf: "lines_wf t (li_starts li) (li_ends li)" using assms(1) by (simp add: line_index_wf_def)
  have b: "is_char_boundary t ?s" "is_char_boundary t ?e"
    using lines_wf_nth(2) [OF wf assms(2)] by auto
  from str_slice_defined [OF b(1) assms(3,4)] obtain a where a: "str_slice t ?s off = Some a" by blast
  from str_slice_defined [OF assms(3) b(2) assms(5)] obtain c where c: "str_slice t off ?e = Some c"
    by blast
  from a obtain x y where x: "t = x @ a @ y" "str_len x = ?s" "off = ?s + str_len a"
    by (auto simp: str_slice_Some_iff)
  from c obtain u v where u: "t = u @ c @ v" "str_len u = off" "?e = off + str_len c"
    by (auto simp: str_slice_Some_iff)
  have "x @ a = u \<and> y = c @ v"
    using prefix_len_inj [of "x @ a" y u "c @ v"] x u by simp
  then have "str_slice t ?s ?e = Some (a @ c)"
    unfolding str_slice_Some_iff using x u
    by (intro exI [of _ x] exI [of _ v]) auto
  with a x u show thesis using that [of a c] by simp
qed

lemma line_index_bounds:
  assumes "line_index_wf t li" "k < length (li_starts li)"
  shows "k \<le> str_len t" "k < length (li_ends li)" "li_ends li ! k \<le> str_len t"
    "li_starts li ! k \<le> li_ends li ! k" "is_char_boundary t (li_ends li ! k)"
proof -
  have wf: "lines_wf t (li_starts li) (li_ends li)" using assms(1) by (simp add: line_index_wf_def)
  show "li_starts li ! k \<le> li_ends li ! k" "is_char_boundary t (li_ends li ! k)"
    "k < length (li_ends li)" "li_ends li ! k \<le> str_len t"
    using lines_wf_nth(1,2) [OF wf] lines_wf_index_le [OF wf assms(2)] assms(2) by auto
  then show "k \<le> str_len t" using lines_wf_index_le [OF wf assms(2)] by linarith
qed

lemma offset_of_position_Some:
  assumes "line_index_wf t li" "exact_u32_add add" "str_len t \<le> u32_max"
  shows "offset_of_position add li t p = Some (Some off) \<longleftrightarrow>
    pos_line p < length (li_starts li) \<and>
    (\<exists>a b. str_slice t (li_starts li ! pos_line p) (li_ends li ! pos_line p) = Some (a @ b) \<and>
       utf16_len a = pos_character p \<and> off = li_starts li ! pos_line p + str_len a)"
    (is "?l \<longleftrightarrow> ?k \<and> ?r")
proof (cases "pos_line p < length (li_starts li)")
  case True
  let ?s = "li_starts li ! pos_line p" and ?e = "li_ends li ! pos_line p"
  note bnd = line_index_bounds [OF assms(1) True]
  obtain m where m: "str_slice t ?s ?e = Some m" "?e = ?s + str_len m"
    by (rule line_text [OF assms(1) True bnd(5,4) order_refl]) auto
  have walk: "walk_utf16 add ?s ?e (pos_character p) 0 0 m = Some off \<longleftrightarrow>
      (\<exists>a b. m = a @ b \<and> utf16_len a = pos_character p \<and> off = ?s + str_len a)"
    using walk_utf16_Some [OF assms(2), of ?e ?s 0 m 0 "pos_character p" off] m bnd assms(3) by simp
  have zero: "(\<exists>a b. m = a @ b \<and> utf16_len a = 0 \<and> off = ?s + str_len a) \<longleftrightarrow> off = ?s"
  proof -
    have "utf16_len a = 0 \<Longrightarrow> a = []" for a by (cases a) auto
    then show ?thesis by auto
  qed
  have "?l \<longleftrightarrow> (\<exists>a b. m = a @ b \<and> utf16_len a = pos_character p \<and> off = ?s + str_len a)"
    using True bnd m walk zero
    by (auto simp: offset_of_position_def line_start_def line_end_def vec_get_def)
  with True m show ?thesis by auto
next
  case False
  then show ?thesis by (simp add: offset_of_position_def line_start_def vec_get_def)
qed



text \<open>
  Property C7. Converting a byte offset that is a character boundary to a UTF-16 position
  and back gives the offset again, clamped to the end of its line (an offset between the
  two bytes of a CRLF terminator comes back as the line end).
\<close>

theorem position_offset_roundtrip:
  assumes "str_len t \<le> u32_max" "exact_u32_add add" "is_char_boundary t off"
  shows "\<exists>p. position_of (line_index_new t) t off = Some p \<and>
    offset_of_position add (line_index_new t) t p =
      Some (Some (min off (li_ends (line_index_new t) ! line_of_offset (line_index_new t) off)))"
proof -
  let ?li = "line_index_new t"
  have wf: "line_index_wf t ?li" using line_index_new_wf [OF assms(1)] .
  have off: "off \<le> str_len t" using is_char_boundary_le [OF assms(3)] .
  from line_of_offset_exists [OF wf off] obtain k where
    k: "k < length (li_starts ?li)" "li_starts ?li ! k \<le> off" "line_of_offset ?li off = k" by metis
  note bnd = line_index_bounds [OF wf k(1)]
  let ?o = "min off (li_ends ?li ! k)"
  have o: "is_char_boundary t ?o" "li_starts ?li ! k \<le> ?o" "?o \<le> li_ends ?li ! k"
    using assms(3) bnd k(2) by (auto simp: min_def)
  obtain a b where ab: "str_slice t (li_starts ?li ! k) ?o = Some a"
      "str_slice t (li_starts ?li ! k) (li_ends ?li ! k) = Some (a @ b)"
      "?o = li_starts ?li ! k + str_len a"
    by (rule line_text [OF wf k(1) o]) blast
  have "li_text_len ?li = str_len t" using wf by (simp add: line_index_wf_def)
  moreover have "as_u32 k = k" using bnd(1) assms(1) by simp
  ultimately have "position_of ?li t off = Some \<lparr>pos_line = k, pos_character = utf16_len a\<rparr>"
    using off k bnd ab by (simp add: position_of_def vec_get_def Let_def min_absorb1)
  moreover have "offset_of_position add ?li t \<lparr>pos_line = k, pos_character = utf16_len a\<rparr> =
      Some (Some ?o)"
    unfolding offset_of_position_Some [OF wf assms(2,1)] using k ab by auto
  ultimately show ?thesis using k(3) by auto
qed

theorem position_offset_roundtrip_witness:
  "position_of (line_index_new [97, 128512, 98, 10, 120]) [97, 128512, 98, 10, 120] 5 =
     Some \<lparr>pos_line = 0, pos_character = 3\<rparr> \<and>
   offset_of_position (+) (line_index_new [97, 128512, 98, 10, 120]) [97, 128512, 98, 10, 120]
     \<lparr>pos_line = 0, pos_character = 3\<rparr> = Some (Some 5)"
proof -
  let ?t = "[97, 128512, 98, 10, 120] :: rstr"
  have h: "str_len ?t \<le> u32_max" "exact_u32_add (+)" "is_char_boundary ?t 5"
    by (simp_all add: nova_eval exact_u32_add_def)
  have p: "position_of (line_index_new ?t) ?t 5 = Some \<lparr>pos_line = 0, pos_character = 3\<rparr>"
    by (simp add: nova_eval)
  have m: "min 5 (li_ends (line_index_new ?t) ! line_of_offset (line_index_new ?t) 5) = 5"
    by (simp add: nova_eval)
  show ?thesis using position_offset_roundtrip [OF h] unfolding p m by auto
qed

text \<open>
  Property C8. Conversely, a UTF-16 position that converts to an offset is the position of
  that offset, and the offset is a character boundary of the text; no position inside a
  surrogate pair, past its line or past the last line is ever given an offset.
\<close>

theorem offset_position_roundtrip:
  assumes "str_len t \<le> u32_max" "exact_u32_add add"
    and "offset_of_position add (line_index_new t) t p = Some (Some off)"
  shows "position_of (line_index_new t) t off = Some p \<and> is_char_boundary t off"
proof -
  let ?li = "line_index_new t"
  have wf: "line_index_wf t ?li" using line_index_new_wf [OF assms(1)] .
  from assms(3) obtain a b where p: "pos_line p < length (li_starts ?li)"
    and ab: "str_slice t (li_starts ?li ! pos_line p) (li_ends ?li ! pos_line p) = Some (a @ b)"
      "utf16_len a = pos_character p" "off = li_starts ?li ! pos_line p + str_len a"
    unfolding offset_of_position_Some [OF wf assms(2,1)] by auto
  let ?k = "pos_line p" and ?s = "li_starts ?li ! pos_line p"
  note bnd = line_index_bounds [OF wf p]
  have l: "lines_wf t (li_starts ?li) (li_ends ?li)" "li_text_len ?li = str_len t"
    using wf by (simp_all add: line_index_wf_def)
  from ab(1) obtain x y where x: "t = x @ (a @ b) @ y" "str_len x = ?s"
      "li_ends ?li ! ?k = ?s + str_len (a @ b)"
    by (auto simp: str_slice_Some_iff)
  have off: "?s \<le> off" "off \<le> li_ends ?li ! ?k" "off \<le> str_len t"
    using ab(3) x bnd(3) by auto
  have "line_of_offset ?li off = ?k"
    using line_of_offset_eq [OF wf p off(1,3)] lines_wf_nth(3) [OF l(1), of ?k] off(2)
    by (metis le_less_trans)
  moreover have "str_slice t ?s off = Some a"
    unfolding str_slice_Some_iff using x ab(3) by (intro exI [of _ x] exI [of _ "b @ y"]) simp
  moreover have "as_u32 ?k = ?k" using bnd(1) assms(1) by simp
  ultimately have "position_of ?li t off = Some p"
    using off l(2) p bnd(2) ab(2) by (simp add: position_of_def vec_get_def Let_def min_absorb1)
  moreover have "is_char_boundary t off"
    unfolding is_char_boundary_iff using x ab(3)
    by (intro exI [of _ "x @ a"] exI [of _ "b @ y"]) simp
  ultimately show ?thesis by blast
qed

theorem offset_position_roundtrip_witness:
  "position_of (line_index_new [97, 128512, 98, 10, 120]) [97, 128512, 98, 10, 120] 6 =
     Some \<lparr>pos_line = 0, pos_character = 4\<rparr>"
proof -
  let ?t = "[97, 128512, 98, 10, 120] :: rstr"
  have h: "str_len ?t \<le> u32_max" "exact_u32_add (+)"
      "offset_of_position (+) (line_index_new ?t) ?t \<lparr>pos_line = 0, pos_character = 4\<rparr> = Some (Some 6)"
    by (simp_all add: nova_eval exact_u32_add_def)
  show ?thesis using offset_position_roundtrip [OF h] by simp
qed

text \<open>
  Property C23. Byte line/column pairs round-trip for every offset of the text, with the
  same clamping at the line end.
\<close>

theorem line_col_roundtrip:
  assumes "str_len t \<le> u32_max" "exact_u32_add add" "exact_u32_sub sub" "off \<le> str_len t"
  shows "\<exists>lc. line_col_of sub (line_index_new t) off = Some lc \<and>
    offset_of_line_col add (line_index_new t) lc =
      Some (min off (li_ends (line_index_new t) ! line_of_offset (line_index_new t) off))"
proof -
  let ?li = "line_index_new t"
  have wf: "line_index_wf t ?li" using line_index_new_wf [OF assms(1)] .
  from line_of_offset_exists [OF wf assms(4)] obtain k where
    k: "k < length (li_starts ?li)" "li_starts ?li ! k \<le> off" "line_of_offset ?li off = k" by metis
  note bnd = line_index_bounds [OF wf k(1)]
  let ?s = "li_starts ?li ! k" and ?o = "min off (li_ends ?li ! k)"
  have o: "?s \<le> ?o" using k(2) bnd(4) by simp
  have "li_text_len ?li = str_len t" using wf by (simp add: line_index_wf_def)
  moreover have "as_u32 k = k" using bnd(1) assms(1) by simp
  moreover have "sub ?o ?s = ?o - ?s" using assms(3) o by (simp add: exact_u32_sub_def)
  ultimately have "line_col_of sub ?li off = Some \<lparr>lc_line = k, lc_col = ?o - ?s\<rparr>"
    using assms(4) k bnd o by (simp add: line_col_of_def vec_get_def Let_def min_absorb1)
  moreover have "add ?s (?o - ?s) = ?o"
  proof -
    have "?s + (?o - ?s) \<le> u32_max" using o bnd(3) assms(1,4) by linarith
    then have "add ?s (?o - ?s) = ?s + (?o - ?s)" using assms(2) unfolding exact_u32_add_def by blast
    then show ?thesis using o by simp
  qed
  ultimately show ?thesis
    using k bnd(2) by (simp add: offset_of_line_col_def line_start_def line_end_def vec_get_def)
qed

theorem line_col_roundtrip_witness:
  "line_col_of (-) (line_index_new [97, 10, 98]) 2 = Some \<lparr>lc_line = 1, lc_col = 0\<rparr> \<and>
   offset_of_line_col (+) (line_index_new [97, 10, 98]) \<lparr>lc_line = 1, lc_col = 0\<rparr> = Some 2"
proof -
  let ?t = "[97, 10, 98] :: rstr"
  have h: "str_len ?t \<le> u32_max" "exact_u32_add (+)" "exact_u32_sub (-)" "2 \<le> str_len ?t"
    by (simp_all add: nova_eval exact_u32_add_def exact_u32_sub_def)
  have l: "line_col_of (-) (line_index_new ?t) 2 = Some \<lparr>lc_line = 1, lc_col = 0\<rparr>"
    by (simp add: nova_eval)
  have m: "min 2 (li_ends (line_index_new ?t) ! line_of_offset (line_index_new ?t) 2) = 2"
    by (simp add: nova_eval)
  show ?thesis using line_col_roundtrip [OF h] unfolding l m by auto
qed

end
