(* ===== verification/Document.thy ===== *)
theory Document
  imports Line_Index
begin

text \<open>
  Open text documents, after \<^verbatim>\<open>crates/nova-vfs/src/document.rs\<close>: a text with
  a version and a table of line offsets, changed by the incremental edits an editor sends.
  An operation that mutates the document returns the new document together with its
  result, also when the result is an error; the outer \<open>None\<close> is a panic.
\<close>

section \<open>Data and operations\<close>

record content_change =
  cc_range :: "lsp_range option"
  cc_text :: rstr

definition content_change_full :: "rstr \<Rightarrow> content_change" where
  "content_change_full text = \<lparr>cc_range = None, cc_text = text\<rparr>"

definition content_change_replace :: "lsp_range \<Rightarrow> rstr \<Rightarrow> content_change" where
  "content_change_replace rng text = \<lparr>cc_range = Some rng, cc_text = text\<rparr>"

datatype document_error = DocumentNotOpen | InvalidRange

record document =
  doc_text :: rstr
  doc_version :: int
  doc_line_offsets :: "nat list"

text \<open>The scanning loop of \<^verbatim>\<open>compute_line_offsets\<close>, from byte index \<open>i\<close> on.\<close>

fun offsets_from :: "nat \<Rightarrow> nat list \<Rightarrow> nat list" where
  "offsets_from i [] = []"
| "offsets_from i (b # bs) =
     (if b = 10 then (i + 1) # offsets_from (i + 1) bs
      else if b = 13 then
        (if bs \<noteq> [] \<and> hd bs = 10 then (i + 2) # offsets_from (i + 2) (tl bs)
         else (i + 1) # offsets_from (i + 1) bs)
      else offsets_from (i + 1) bs)"

definition compute_line_offsets :: "rstr \<Rightarrow> nat list" where
  "compute_line_offsets text = 0 # offsets_from 0 (as_bytes text)"

text \<open>
  The loop of \<^verbatim>\<open>utf16_column_to_byte_offset_clamped\<close> over
  \<^verbatim>\<open>char_indices\<close>; the comparison adds without a check, the update saturates.
\<close>

fun clamp_walk :: "nat \<Rightarrow> nat \<Rightarrow> nat \<Rightarrow> nat \<Rightarrow> rstr \<Rightarrow> nat" where
  "clamp_walk len column_utf16 col idx [] = len"
| "clamp_walk len column_utf16 col idx (ch # cs) =
     (if col \<ge> column_utf16 then idx
      else if as_u32 (col + len_utf16 ch) > column_utf16 then idx
      else clamp_walk len column_utf16 (min (col + len_utf16 ch) u32_max) (idx + len_utf8 ch) cs)"

definition utf16_column_to_byte_offset_clamped :: "rstr \<Rightarrow> nat \<Rightarrow> nat" where
  "utf16_column_to_byte_offset_clamped line column_utf16 =
     clamp_walk (str_len line) column_utf16 0 0 line"

definition document_new :: "rstr \<Rightarrow> int \<Rightarrow> document" where
  "document_new text version =
     \<lparr>doc_text = text, doc_version = version, doc_line_offsets = compute_line_offsets text\<rparr>"

definition end_position :: "document \<Rightarrow> position option" where
  "end_position d =
     (let last_line = as_u32 (sat_sub (length (doc_line_offsets d)) 1);
          l_start = (if doc_line_offsets d = [] then 0 else last (doc_line_offsets d))
      in map_option (\<lambda>line_text. position_new last_line (as_u32 (utf16_len line_text)))
           (str_slice (doc_text d) l_start (str_len (doc_text d))))"

text \<open>The end of a line without its terminator, as computed from the bytes.\<close>

definition strip_terminator :: "nat list \<Rightarrow> nat \<Rightarrow> nat \<Rightarrow> nat option" where
  "strip_terminator bytes l_start l_end =
     (if l_end > l_start then
        (case vec_get bytes (l_end - 1) of None \<Rightarrow> None
         | Some b \<Rightarrow>
             if b = 10 then
               (if l_end - 1 > l_start then
                  (case vec_get bytes (l_end - 2) of None \<Rightarrow> None
                   | Some b' \<Rightarrow> Some (if b' = 13 then l_end - 2 else l_end - 1))
                else Some (l_end - 1))
             else if b = 13 then Some (l_end - 1)
             else Some l_end)
      else Some l_end)"

definition position_to_offset :: "document \<Rightarrow> position \<Rightarrow> nat option" where
  "position_to_offset d p =
     (let line = pos_line p; offs = doc_line_offsets d; text = doc_text d in
      if line \<ge> length offs then Some (str_len text)
      else
        (let l_start = offs ! line;
             l_end = (if line + 1 < length offs then offs ! (line + 1) else str_len text)
         in case strip_terminator (as_bytes text) l_start l_end of None \<Rightarrow> None
            | Some l_end' \<Rightarrow>
                map_option (\<lambda>line_slice.
                    l_start + utf16_column_to_byte_offset_clamped line_slice (pos_character p))
                  (str_slice text l_start l_end')))"

text \<open>
  \<^verbatim>\<open>apply_change\<close>: the text and the table are updated before the offsets are
  narrowed to 32 bits, so an offset that does not fit is reported on a changed document.
\<close>

definition apply_change ::
  "document \<Rightarrow> content_change \<Rightarrow> (document \<times> (document_error, text_edit) result) option" where
  "apply_change d change =
     (case (case cc_range change of
              Some rng \<Rightarrow> Some rng
            | None \<Rightarrow> map_option (\<lambda>e. range_new (position_new 0 0) e) (end_position d)) of
        None \<Rightarrow> None
      | Some rng \<Rightarrow>
          (case (position_to_offset d (rng_start rng), position_to_offset d (rng_end rng)) of
             (Some start, Some end) \<Rightarrow>
               if start > end \<or> end > str_len (doc_text d) then Some (d, Err InvalidRange)
               else
                 (case replace_range (doc_text d) start end (cc_text change) of None \<Rightarrow> None
                  | Some text \<Rightarrow>
                      (let d' = d\<lparr>doc_text := text, doc_line_offsets := compute_line_offsets text\<rparr>
                       in if start > u32_max \<or> end > u32_max then Some (d', Err InvalidRange)
                          else Some (d', Ok (text_edit_new \<lparr>tr_start = start, tr_end = end\<rparr>
                                              (cc_text change)))))
           | _ \<Rightarrow> None))"

text \<open>The loop of \<^verbatim>\<open>apply_changes\<close>; the edits so far are lost on an error.\<close>

fun apply_change_list ::
  "document \<Rightarrow> content_change list \<Rightarrow> (document \<times> (document_error, text_edit list) result) option" where
  "apply_change_list d [] = Some (d, Ok [])"
| "apply_change_list d (change # changes) =
     (case apply_change d change of None \<Rightarrow> None
      | Some (d', Inl e) \<Rightarrow> Some (d', Err e)
      | Some (d', Inr edit) \<Rightarrow>
          map_option (\<lambda>(d'', r). (d'', map_sum id (\<lambda>es. edit # es) r)) (apply_change_list d' changes))"

definition apply_changes ::
  "document \<Rightarrow> int \<Rightarrow> content_change list \<Rightarrow>
     (document \<times> (document_error, text_edit list) result) option" where
  "apply_changes d new_version changes =
     (case apply_change_list d changes of None \<Rightarrow> None
      | Some (d', Inl e) \<Rightarrow> Some (d', Err e)
      | Some (d', Inr edits) \<Rightarrow> Some (d'\<lparr>doc_version := new_version\<rparr>, Ok edits))"

lemmas document_eval [nova_eval] =
  content_change_full_def content_change_replace_def compute_line_offsets_def
  utf16_column_to_byte_offset_clamped_def document_new_def end_position_def
  strip_terminator_def position_to_offset_def apply_change_def apply_changes_def
  utf16_len_def

section \<open>The lines of a text\<close>

text \<open>
  The specification both line tables implement: a text is cut into lines, each a content
  without line terminators and the terminator that ends it (none for the last line).
  \<open>cur\<close> is the content of the line so far.
\<close>

fun lines_at :: "rstr \<Rightarrow> rstr \<Rightarrow> (rstr \<times> rstr) list" where
  "lines_at cur [] = [(cur, [])]"
| "lines_at cur (c # cs) =
     (if c = 10 then (cur, [10]) # lines_at [] cs
      else if c = 13 then
        (if cs \<noteq> [] \<and> hd cs = 10 then (cur, [13, 10]) # lines_at [] (tl cs)
         else (cur, [13]) # lines_at [] cs)
      else lines_at (cur @ [c]) cs)"

definition text_lines :: "rstr \<Rightarrow> (rstr \<times> rstr) list" where
  "text_lines t = lines_at [] t"

definition newline_free :: "rstr \<Rightarrow> bool" where
  "newline_free s \<longleftrightarrow> 10 \<notin> set s \<and> 13 \<notin> set s"

abbreviation joined :: "(rstr \<times> rstr) list \<Rightarrow> rstr" where
  "joined ls \<equiv> concat (map (\<lambda>(l, e). l @ e) ls)"

fun starts_from :: "nat \<Rightarrow> (rstr \<times> rstr) list \<Rightarrow> nat list" where
  "starts_from i [] = []"
| "starts_from i ((l, e) # ls) = i # starts_from (i + str_len l + str_len e) ls"

fun ends_from :: "nat \<Rightarrow> (rstr \<times> rstr) list \<Rightarrow> nat list" where
  "ends_from i [] = []"
| "ends_from i ((l, e) # ls) = (i + str_len l) # ends_from (i + str_len l + str_len e) ls"

lemma hd_10_cases: "cs \<noteq> [] \<and> hd cs = (10 :: nat) \<longleftrightarrow> (\<exists>cs'. cs = 10 # cs')"
  by (cases cs) auto

lemma lines_at_joined: "joined (lines_at cur s) = cur @ s"
  by (induction cur s rule: lines_at.induct) (auto simp: hd_10_cases)

lemma lines_at_not_Nil [simp]: "lines_at cur s \<noteq> []"
  by (induction cur s rule: lines_at.induct) auto

lemma lines_at_ok:
  assumes "newline_free cur"
  shows "(\<forall>x \<in> set (lines_at cur s). newline_free (fst x)) \<and>
    (\<forall>x \<in> set (butlast (lines_at cur s)). snd x \<in> {[10], [13], [13, 10]}) \<and>
    snd (last (lines_at cur s)) = []"
  using assms
  by (induction cur s rule: lines_at.induct) (auto simp: newline_free_def)

lemma scan_chars_lines:
  "i # fst (scan_chars (i + str_len cur) s) = starts_from i (lines_at cur s) \<and>
   snd (scan_chars (i + str_len cur) s) @ [i + str_len cur + str_len s] =
     ends_from i (lines_at cur s)"
proof (induction cur s arbitrary: i rule: lines_at.induct)
  case (2 cur c cs)
  consider (lf) "c = 10" | (crlf) cs' where "c = 13" "cs = 10 # cs'"
    | (cr) "c = 13" "\<not> (cs \<noteq> [] \<and> hd cs = 10)" | (other) "c \<noteq> 10" "c \<noteq> 13"
    by (cases cs) auto
  then show ?case
  proof cases
    case lf
    then show ?thesis using 2(1) [of "i + str_len cur + 1"]
      by (auto simp: split_beta add.assoc)
  next
    case crlf
    then show ?thesis using 2(2) [of "i + str_len cur + 2"]
      by (auto simp: split_beta add.assoc)
  next
    case cr
    then show ?thesis using 2(3) [of "i + str_len cur + 1"]
      by (auto simp: split_beta add.assoc)
  next
    case other
    then show ?thesis using 2(4) [of i] by (auto simp: add.assoc)
  qed
qed simp

lemma offsets_from_lines: "offsets_from i (as_bytes s) = fst (scan_chars i s)"
proof (induction i s rule: scan_chars.induct)
  case (2 i c cs)
  have skip: "10 \<notin> set bs \<Longrightarrow> 13 \<notin> set bs \<Longrightarrow>
      offsets_from i (bs @ rest) = offsets_from (i + length bs) rest" for bs rest i
    by (induction bs arbitrary: i) auto
  consider (lf) "c = 10" | (crlf) cs' where "c = 13" "cs = 10 # cs'"
    | (cr) "c = 13" "\<not> (cs \<noteq> [] \<and> hd cs = 10)" | (other) "c \<noteq> 10" "c \<noteq> 13"
    by (cases cs) auto
  then show ?case
  proof cases
    case lf
    then show ?thesis using 2(1) by (simp add: split_beta)
  next
    case crlf
    then show ?thesis using 2(2) by (simp add: split_beta)
  next
    case cr
    then have "\<not> (as_bytes cs \<noteq> [] \<and> hd (as_bytes cs) = 10)"
      using hd_as_bytes_newline [of cs] by blast
    with cr show ?thesis using 2(3) by (auto simp: split_beta)
  next
    case other
    then have "10 \<notin> set (utf8_encode c)" "13 \<notin> set (utf8_encode c)"
      by (simp_all add: ascii_in_utf8_encode)
    with other 2(4) skip show ?thesis by simp
  qed
qed simp

lemma compute_line_offsets_eq: "compute_line_offsets t = starts_from 0 (text_lines t)"
  using scan_chars_lines [of 0 "[]" t]
  by (simp add: compute_line_offsets_def text_lines_def offsets_from_lines)

lemma line_index_new_eq:
  assumes "str_len t \<le> u32_max"
  shows "li_starts (line_index_new t) = starts_from 0 (text_lines t)"
    and "li_ends (line_index_new t) = ends_from 0 (text_lines t)"
proof -
  have "scan_lines 0 (as_bytes t) = scan_chars 0 t" using assms by (simp add: scan_lines_chars)
  then show "li_starts (line_index_new t) = starts_from 0 (text_lines t)"
    and "li_ends (line_index_new t) = ends_from 0 (text_lines t)"
    using scan_chars_lines [of 0 "[]" t] assms
    by (simp_all add: line_index_new_def text_lines_def split_beta)
qed

lemma length_starts_from [simp]: "length (starts_from i ls) = length ls"
  by (induction i ls rule: starts_from.induct) auto

lemma length_ends_from [simp]: "length (ends_from i ls) = length ls"
  by (induction i ls rule: ends_from.induct) auto

lemma starts_from_nth:
  "k < length ls \<Longrightarrow> starts_from i ls ! k = i + str_len (joined (take k ls))"
proof (induction i ls arbitrary: k rule: starts_from.induct)
  case (2 i l e ls)
  then show ?case by (cases k) auto
qed simp

lemma ends_from_nth:
  "k < length ls \<Longrightarrow> ends_from i ls ! k = i + str_len (joined (take k ls)) + str_len (fst (ls ! k))"
proof (induction i ls arbitrary: k rule: ends_from.induct)
  case (2 i l e ls)
  then show ?case by (cases k) auto
qed simp

text \<open>The place of the \<open>k\<close>-th line in the text.\<close>

lemma text_line_at:
  assumes "k < length (text_lines t)"
  obtains a l e b where "t = a @ l @ e @ b" "text_lines t ! k = (l, e)" "newline_free l"
    "starts_from 0 (text_lines t) ! k = str_len a"
    "ends_from 0 (text_lines t) ! k = str_len a + str_len l"
    "Suc k < length (text_lines t) \<Longrightarrow> e \<in> {[10], [13], [13, 10]} \<and>
       starts_from 0 (text_lines t) ! Suc k = str_len a + str_len l + str_len e"
    "Suc k = length (text_lines t) \<Longrightarrow> e = [] \<and> b = []"
proof -
  let ?ls = "text_lines t"
  obtain l e where le: "?ls ! k = (l, e)" by fastforce
  have ls: "?ls = take k ?ls @ (l, e) # drop (Suc k) ?ls"
    using id_take_nth_drop [OF assms] le by simp
  have ok: "\<forall>x \<in> set ?ls. newline_free (fst x)"
      "\<forall>x \<in> set (butlast ?ls). snd x \<in> {[10], [13], [13, 10]}" "snd (last ?ls) = []"
    using lines_at_ok [of "[]" t] by (simp_all add: text_lines_def newline_free_def)
  have "t = joined ?ls" by (simp add: text_lines_def lines_at_joined)
  also have "\<dots> = joined (take k ?ls) @ l @ e @ joined (drop (Suc k) ?ls)"
    using arg_cong [OF ls, of joined] by simp
  finally have t: "t = joined (take k ?ls) @ l @ e @ joined (drop (Suc k) ?ls)" .
  have next_line: "e \<in> {[10], [13], [13, 10]} \<and> starts_from 0 ?ls ! Suc k =
      str_len (joined (take k ?ls)) + str_len l + str_len e" if "Suc k < length ?ls"
  proof -
    have "(l, e) \<in> set (butlast ?ls)"
      using that nth_butlast [of k ?ls] nth_mem [of k "butlast ?ls"] le by simp
    with ok(2) have "e \<in> {[10], [13], [13, 10]}" by force
    then show ?thesis
      using that starts_from_nth [of "Suc k" ?ls 0] assms le by (simp add: take_Suc_conv_app_nth)
  qed
  have last_line: "e = [] \<and> joined (drop (Suc k) ?ls) = []" if "Suc k = length ?ls"
  proof -
    have "last ?ls = (l, e)" using that le last_conv_nth [of ?ls]
      by (metis diff_Suc_1 length_0_conv nat.distinct(1))
    with ok(3) that show ?thesis by simp
  qed
  show thesis
  proof (rule that [OF t le _ _ _ next_line last_line])
    show "newline_free l" using ok(1) nth_mem [OF assms] le by force
  qed (use starts_from_nth [OF assms, of 0] ends_from_nth [OF assms, of 0] le in auto)
qed

section \<open>Positions in a document\<close>

text \<open>The invariant: the table always belongs to the text.\<close>

definition doc_wf :: "document \<Rightarrow> bool" where
  "doc_wf d \<longleftrightarrow> doc_line_offsets d = compute_line_offsets (doc_text d)"

text \<open>The prefix a clamped column denotes: the longest one that fits.\<close>

lemma clamp_walk_prefix:
  assumes "clamp_walk (idx + str_len s) column col idx s = r"
  obtains a b where "s = a @ b" "r = idx + str_len a"
  using assms
proof (induction s arbitrary: col idx thesis)
  case Nil
  then show ?case using Nil.prems(1) [of "[]" "[]"] by simp
next
  case (Cons c s)
  show ?case
  proof (cases "col \<ge> column \<or> as_u32 (col + len_utf16 c) > column")
    case True
    then show ?thesis using Cons.prems(1) [of "[]" "c # s"] Cons.prems(2) by auto
  next
    case False
    then have "clamp_walk ((idx + len_utf8 c) + str_len s) column
        (min (col + len_utf16 c) u32_max) (idx + len_utf8 c) s = r"
      using Cons.prems(2) by (simp add: add.assoc)
    then obtain a b where "s = a @ b" "r = idx + len_utf8 c + str_len a"
      using Cons.IH by blast
    then show ?thesis using Cons.prems(1) [of "c # a" b] by simp
  qed
qed

lemma clamp_walk_exact:
  assumes "col + utf16_len (a @ b) \<le> u32_max" "column = col + utf16_len a"
    "len = idx + str_len (a @ b)"
  shows "clamp_walk len column col idx (a @ b) = idx + str_len a"
  using assms
proof (induction a arbitrary: col idx)
  case Nil
  then show ?case by (cases b) auto
next
  case (Cons c a)
  then have "as_u32 (col + len_utf16 c) = col + len_utf16 c"
      "min (col + len_utf16 c) u32_max = col + len_utf16 c" by simp_all
  with Cons show ?case by (simp add: add.assoc)
qed

lemma set_as_bytes_ascii: "b < 0x80 \<Longrightarrow> b \<in> set (as_bytes s) \<longleftrightarrow> b \<in> set s"
  by (induction s) (auto simp: ascii_in_utf8_encode)

lemma last_byte_newline_free:
  assumes "newline_free l" "l \<noteq> []"
  shows "\<exists>x. vec_get (as_bytes (a @ l @ r)) (str_len a + str_len l - 1) = Some x \<and> x \<noteq> 10 \<and> x \<noteq> 13"
proof -
  have pos: "0 < str_len l" using assms(2) by (simp add: neq0_conv [symmetric])
  then have i: "str_len a + str_len l - 1 = length (as_bytes a) + (str_len l - 1)" by simp
  have "(as_bytes (a @ l @ r)) ! (str_len a + str_len l - 1) = (as_bytes l @ as_bytes r) ! (str_len l - 1)"
    unfolding i as_bytes_simps by (rule nth_append_length_plus)
  also have "\<dots> = as_bytes l ! (str_len l - 1)" using pos by (simp add: nth_append)
  finally have "(as_bytes (a @ l @ r)) ! (str_len a + str_len l - 1) = as_bytes l ! (str_len l - 1)" .
  moreover have "as_bytes l ! (str_len l - 1) \<in> set (as_bytes l)" using pos by (intro nth_mem) simp
  then have "as_bytes l ! (str_len l - 1) \<noteq> 10 \<and> as_bytes l ! (str_len l - 1) \<noteq> 13"
    using assms(1) set_as_bytes_ascii [of 10 l] set_as_bytes_ascii [of 13 l]
    by (auto simp: newline_free_def)
  ultimately show ?thesis using pos by (simp add: vec_get_def)
qed

lemma strip_terminator_line:
  assumes "newline_free l" "e \<in> {[10], [13], [13, 10]} \<or> e = [] \<and> b = []"
  shows "strip_terminator (as_bytes (a @ l @ e @ b)) (str_len a) (str_len a + str_len l + str_len e) =
    Some (str_len a + str_len l)"
proof (cases "l = []")
  case True
  have get: "vec_get (as_bytes (a @ e @ b)) (str_len a + j) = vec_get (as_bytes (e @ b)) j" for j
    by (simp add: vec_get_def nth_append)
  from assms(2) consider "e = [10]" | "e = [13]" | "e = [13, 10]" | "e = []" "b = []" by blast
  then show ?thesis
    using True get [of 0] get [of 1]
    by cases (simp_all add: strip_terminator_def vec_get_def)
next
  case False
  obtain x where x: "vec_get (as_bytes (a @ l @ e @ b)) (str_len a + str_len l - Suc 0) = Some x"
      "x \<noteq> 10" "x \<noteq> 13"
    using last_byte_newline_free [OF assms(1) False, of a "e @ b"] by auto
  have pos: "0 < str_len l" using False by (simp add: neq0_conv [symmetric])
  have get: "vec_get (as_bytes (a @ l @ e @ b)) (str_len a + str_len l + j) =
      vec_get (as_bytes (e @ b)) j" for j
    by (simp add: vec_get_def nth_append)
  let ?n = "str_len a + str_len l" and ?bs = "as_bytes (a @ l @ e @ b)"
  have gt: "?n + str_len e > str_len a" using pos by simp
  from assms(2) consider "e = [10]" | "e = [13]" | "e = [13, 10]" | "e = []" "b = []" by blast
  then show ?thesis
  proof cases
    case 1
    then have "vec_get ?bs (?n + str_len e - 1) = Some 10" "?n + str_len e - 2 = ?n - Suc 0"
      using get [of 0] by (simp_all add: vec_get_def)
    then show ?thesis using x gt pos 1 unfolding strip_terminator_def by simp
  next
    case 2
    then have "vec_get ?bs (?n + str_len e - 1) = Some 13"
      using get [of 0] by (simp add: vec_get_def)
    then show ?thesis using gt 2 unfolding strip_terminator_def by simp
  next
    case 3
    then have "vec_get ?bs (?n + str_len e - 1) = Some 10" "vec_get ?bs (?n + str_len e - 2) = Some 13"
      using get [of 0] get [of 1] by (simp_all add: vec_get_def)
    then show ?thesis using gt pos 3 unfolding strip_terminator_def by simp
  next
    case 4
    then show ?thesis using x gt unfolding strip_terminator_def by simp
  qed
qed

lemma position_to_offset_line:
  assumes "doc_wf d" "pos_line p < length (text_lines (doc_text d))"
    and "doc_text d = a @ l @ e @ b" "text_lines (doc_text d) ! pos_line p = (l, e)"
    and "starts_from 0 (text_lines (doc_text d)) ! pos_line p = str_len a"
  shows "position_to_offset d p =
    Some (str_len a + utf16_column_to_byte_offset_clamped l (pos_character p))"
proof -
  let ?ls = "text_lines (doc_text d)" and ?k = "pos_line p"
  obtain a' l' e' b' where x: "doc_text d = a' @ l' @ e' @ b'" "?ls ! ?k = (l', e')" "newline_free l'"
    "starts_from 0 ?ls ! ?k = str_len a'"
    "Suc ?k < length ?ls \<Longrightarrow> e' \<in> {[10], [13], [13, 10]} \<and>
       starts_from 0 ?ls ! Suc ?k = str_len a' + str_len l' + str_len e'"
    "Suc ?k = length ?ls \<Longrightarrow> e' = [] \<and> b' = []"
    by (rule text_line_at [OF assms(2)]) blast
  have eq: "l' = l" "e' = e" "a' = a" "b' = b"
    using x(1,2,4) assms(3-5) prefix_len_inj [of a' "l' @ e' @ b'" a "l @ e @ b"] by auto
  note x = x [unfolded eq]
  have offs: "doc_line_offsets d = starts_from 0 ?ls"
    using assms(1) by (simp add: doc_wf_def compute_line_offsets_eq)
  have l_end: "(if ?k + 1 < length ?ls then starts_from 0 ?ls ! (?k + 1) else str_len (doc_text d)) =
      str_len a + str_len l + str_len e"
  proof (cases "Suc ?k < length ?ls")
    case True
    with x(5) show ?thesis by simp
  next
    case False
    then have "Suc ?k = length ?ls" using assms(2) by linarith
    from x(6) [OF this] x(1) have "str_len (doc_text d) = str_len a + str_len l + str_len e" by simp
    with False show ?thesis by simp
  qed
  have "Suc ?k < length ?ls \<or> Suc ?k = length ?ls" using assms(2) by linarith
  then have e: "e \<in> {[10], [13], [13, 10]} \<or> e = [] \<and> b = []"
    using x(5,6) by blast
  have slice: "str_slice (doc_text d) (str_len a) (str_len a + str_len l) = Some l"
    unfolding str_slice_Some_iff using x(1) by (intro exI [of _ a] exI [of _ "e @ b"]) simp
  show ?thesis
    using assms(2) strip_terminator_line [OF x(3) e, of a, folded x(1)] l_end slice
    unfolding position_to_offset_def offs Let_def assms(5) by simp
qed

lemma position_to_offset_boundary:
  assumes "doc_wf d"
  obtains off where "position_to_offset d p = Some off" "is_char_boundary (doc_text d) off"
proof (cases "pos_line p < length (text_lines (doc_text d))")
  case True
  obtain a l e b where x: "doc_text d = a @ l @ e @ b"
    "text_lines (doc_text d) ! pos_line p = (l, e)"
    "starts_from 0 (text_lines (doc_text d)) ! pos_line p = str_len a"
    by (rule text_line_at [OF True]) blast
  obtain l1 l2 where l: "l = l1 @ l2"
      "utf16_column_to_byte_offset_clamped l (pos_character p) = str_len l1"
    by (rule clamp_walk_prefix [of 0 l "pos_character p" 0
          "utf16_column_to_byte_offset_clamped l (pos_character p)"])
      (simp_all add: utf16_column_to_byte_offset_clamped_def)
  have "is_char_boundary (doc_text d) (str_len a + str_len l1)"
    unfolding is_char_boundary_iff using x(1) l(1)
    by (intro exI [of _ "a @ l1"] exI [of _ "l2 @ e @ b"]) simp
  then show thesis using that position_to_offset_line [OF assms True x] l(2) by simp
next
  case False
  then have "position_to_offset d p = Some (str_len (doc_text d))"
    using assms by (simp add: position_to_offset_def doc_wf_def compute_line_offsets_eq)
  then show thesis using that by simp
qed

lemma str_slice_to_end: "str_slice (a @ l) (str_len a) (str_len (a @ l)) = Some l"
  unfolding str_slice_Some_iff by (intro exI [of _ a] exI [of _ "[]"]) simp

lemma end_position_offset:
  assumes "doc_wf d" "str_len (doc_text d) \<le> u32_max"
  obtains p where "end_position d = Some p" "position_to_offset d p = Some (str_len (doc_text d))"
proof -
  let ?t = "doc_text d" and ?ls = "text_lines (doc_text d)"
  have ne: "?ls \<noteq> []" by (simp add: text_lines_def)
  then have k: "length ?ls - 1 < length ?ls" "Suc (length ?ls - 1) = length ?ls" by auto
  obtain a l e b where y: "?t = a @ l @ e @ b" "?ls ! (length ?ls - 1) = (l, e)"
    "starts_from 0 ?ls ! (length ?ls - 1) = str_len a" "e = [] \<and> b = []"
    by (rule text_line_at [OF k(1)]) (use k(2) in blast)
  then have x: "?t = a @ l" "?ls ! (length ?ls - 1) = (l, [])"
    "starts_from 0 ?ls ! (length ?ls - 1) = str_len a" by simp_all
  have offs: "doc_line_offsets d = starts_from 0 ?ls"
    using assms(1) by (simp add: doc_wf_def compute_line_offsets_eq)
  then have nn: "doc_line_offsets d \<noteq> []" using ne by (metis length_0_conv length_starts_from)
  have la: "last (doc_line_offsets d) = str_len a"
    using nn x(3) offs by (simp add: last_conv_nth)
  have l16: "utf16_len l \<le> u32_max" using utf16_len_le_str_len [of l] assms(2) x(1) by simp
  have n: "length ?ls - 1 \<le> u32_max"
    using line_index_bounds(1) [OF line_index_new_wf [OF assms(2)], of "length ?ls - 1"] k(1)
      assms(2) by (simp add: line_index_new_eq)
  let ?p = "\<lparr>pos_line = length ?ls - 1, pos_character = utf16_len l\<rparr>"
  have "end_position d = Some ?p"
    using str_slice_to_end [of a l] la nn n l16 x(1)
    by (simp add: end_position_def Let_def offs position_new_def)
  moreover have "utf16_column_to_byte_offset_clamped l (utf16_len l) = str_len l"
    using clamp_walk_exact [of 0 l "[]" "utf16_len l" "str_len l" 0] l16
    by (simp add: utf16_column_to_byte_offset_clamped_def)
  then have "position_to_offset d ?p = Some (str_len ?t)"
    using position_to_offset_line [OF assms(1), of ?p a l "[]" "[]"] k x by simp
  ultimately show thesis using that by blast
qed

section \<open>Properties\<close>

lemma replace_range_defined:
  assumes "is_char_boundary t i" "is_char_boundary t j" "i \<le> j"
  shows "\<exists>t'. replace_range t i j r = Some t'"
proof -
  from str_slice_defined [OF assms] obtain m where "str_slice t i j = Some m" by blast
  then obtain a b where "t = a @ m @ b" "str_len a = i" "j = i + str_len m"
    by (auto simp: str_slice_Some_iff)
  then have "replace_range t i j r = Some (a @ r @ b)" unfolding replace_range_Some_iff by blast
  then show ?thesis by blast
qed

text \<open>
  One change: it returns, keeps the table in step with the text, leaves the version alone,
  and reports the edit that leads from the old text to the new one.
\<close>

lemma apply_change_cases:
  assumes "doc_wf d"
  obtains d' r where "apply_change d c = Some (d', r)" "doc_wf d'"
    "doc_version d' = doc_version d"
    "\<And>e. r = Ok e \<Longrightarrow> apply_one e (Some (doc_text d)) = Some (doc_text d')"
proof -
  have "\<exists>p. end_position d = Some p"
  proof -
    have offs: "doc_line_offsets d = starts_from 0 (text_lines (doc_text d))"
      using assms by (simp add: doc_wf_def compute_line_offsets_eq)
    have ne: "text_lines (doc_text d) \<noteq> []" by (simp add: text_lines_def)
    then have k: "length (text_lines (doc_text d)) - 1 < length (text_lines (doc_text d))" by simp
    obtain a l e b where "doc_text d = a @ l @ e @ b"
        "starts_from 0 (text_lines (doc_text d)) ! (length (text_lines (doc_text d)) - 1) = str_len a"
      by (rule text_line_at [OF k]) blast
    moreover have nn: "doc_line_offsets d \<noteq> []"
      using offs ne by (metis length_0_conv length_starts_from)
    ultimately have "last (doc_line_offsets d) = str_len a \<and> doc_text d = a @ (l @ e @ b)"
      using offs by (simp add: last_conv_nth)
    then show ?thesis
      using str_slice_to_end [of a "l @ e @ b"] nn by (simp add: end_position_def Let_def)
  qed
  then obtain rng where rng: "(case cc_range c of Some rng \<Rightarrow> Some rng
      | None \<Rightarrow> map_option (\<lambda>e. range_new (position_new 0 0) e) (end_position d)) = Some rng"
    by (cases "cc_range c") auto
  obtain i where i: "position_to_offset d (rng_start rng) = Some i" "is_char_boundary (doc_text d) i"
    using position_to_offset_boundary [OF assms] by blast
  obtain j where j: "position_to_offset d (rng_end rng) = Some j" "is_char_boundary (doc_text d) j"
    using position_to_offset_boundary [OF assms] by blast
  show thesis
  proof (cases "i \<le> j")
    case False
    then have "apply_change d c = Some (d, Err InvalidRange)"
      using rng i j by (simp add: apply_change_def)
    then show thesis using that assms by blast
  next
    case True
    from replace_range_defined [OF i(2) j(2) True] obtain t' where
      t': "replace_range (doc_text d) i j (cc_text c) = Some t'" by blast
    let ?d = "d\<lparr>doc_text := t', doc_line_offsets := compute_line_offsets t'\<rparr>"
    have wf: "doc_wf ?d" "doc_version ?d = doc_version d" by (simp_all add: doc_wf_def)
    have "apply_change d c = Some (?d, if i > u32_max \<or> j > u32_max then Err InvalidRange
        else Ok (text_edit_new \<lparr>tr_start = i, tr_end = j\<rparr> (cc_text c)))"
      using rng i j t' True is_char_boundary_le [OF j(2)] by (simp add: apply_change_def)
    moreover have "apply_one (text_edit_new \<lparr>tr_start = i, tr_end = j\<rparr> (cc_text c)) (Some (doc_text d))
        = Some t'"
      using t' by (simp add: apply_one_def text_edit_new_def)
    ultimately show thesis
      using that [OF _ wf] by (cases "i > u32_max \<or> j > u32_max") simp_all
  qed
qed

lemma apply_change_list_cases:
  assumes "doc_wf d"
  obtains d' r where "apply_change_list d cs = Some (d', r)" "doc_wf d'"
    "doc_version d' = doc_version d"
    "\<And>es. r = Ok es \<Longrightarrow> length es = length cs \<and>
       fold apply_one es (Some (doc_text d)) = Some (doc_text d')"
  using assms
proof (induction cs arbitrary: d thesis)
  case Nil
  then show ?case by simp
next
  case (Cons c cs)
  obtain d1 r1 where 1: "apply_change d c = Some (d1, r1)" "doc_wf d1"
      "doc_version d1 = doc_version d"
      "\<And>e. r1 = Ok e \<Longrightarrow> apply_one e (Some (doc_text d)) = Some (doc_text d1)"
    using apply_change_cases [OF Cons.prems(2)] by blast
  show ?case
  proof (cases r1)
    case (Inl e)
    with 1 Cons.prems(1) [of d1 "Err e"] show ?thesis by simp
  next
    case (Inr e)
    obtain d2 r2 where 2: "apply_change_list d1 cs = Some (d2, r2)" "doc_wf d2"
        "doc_version d2 = doc_version d1"
        "\<And>es. r2 = Ok es \<Longrightarrow> length es = length cs \<and>
           fold apply_one es (Some (doc_text d1)) = Some (doc_text d2)"
      using Cons.IH [OF _ 1(2)] by blast
    show ?thesis
      using Cons.prems(1) [of d2 "map_sum id ((#) e) r2"] 1 2 Inr by (cases r2) auto
  qed
qed

text \<open>
  Property C2. A batch of editor changes never panics. It keeps the line table equal to the
  table of the current text; on success the version is the new one and the reported edits,
  replayed one after another on the old text, give the new text; on an error the old
  version stays.
\<close>

theorem apply_changes_sound:
  assumes "doc_wf d"
  shows "\<exists>d' r. apply_changes d v cs = Some (d', r) \<and> doc_wf d' \<and>
    (case r of
       Inl _ \<Rightarrow> doc_version d' = doc_version d
     | Inr es \<Rightarrow> doc_version d' = v \<and> length es = length cs \<and>
         fold apply_one es (Some (doc_text d)) = Some (doc_text d'))"
proof -
  obtain d' r where x: "apply_change_list d cs = Some (d', r)" "doc_wf d'"
    "doc_version d' = doc_version d"
    "\<And>es. r = Ok es \<Longrightarrow> length es = length cs \<and>
       fold apply_one es (Some (doc_text d)) = Some (doc_text d')"
    using apply_change_list_cases [OF assms] by blast
  show ?thesis
  proof (cases r)
    case (Inl e)
    with x show ?thesis by (simp add: apply_changes_def)
  next
    case (Inr es)
    with x show ?thesis by (simp add: apply_changes_def doc_wf_def)
  qed
qed

theorem apply_changes_sound_witness:
  "\<exists>d'. apply_changes (document_new [97, 10, 98] 1) 2
      [content_change_replace (range_new (position_new 1 0) (position_new 1 9)) [99, 100]] =
      Some (d', Ok [text_edit_new \<lparr>tr_start = 2, tr_end = 3\<rparr> [99, 100]]) \<and>
    doc_text d' = [97, 10, 99, 100] \<and> doc_version d' = 2 \<and> doc_wf d'"
proof -
  have wf: "doc_wf (document_new [97, 10, 98] 1)" by (simp add: doc_wf_def document_new_def)
  let ?cs = "[content_change_replace (range_new (position_new 1 0) (position_new 1 9)) [99, 100]]"
  have "apply_changes (document_new [97, 10, 98] 1) 2 ?cs =
      Some (\<lparr>doc_text = [97, 10, 99, 100], doc_version = 2, doc_line_offsets = [0, 2]\<rparr>,
        Ok [text_edit_new \<lparr>tr_start = 2, tr_end = 3\<rparr> [99, 100]])"
    by (simp add: nova_eval)
  with apply_changes_sound [OF wf, of 2 ?cs] show ?thesis by auto
qed

text \<open>
  Property C19. A change without a range replaces the whole document: the result is exactly
  the new document, and the reported edit spans the old text.
\<close>

theorem apply_changes_full:
  assumes "doc_wf d" "str_len (doc_text d) \<le> u32_max"
  shows "apply_changes d v [content_change_full s] =
    Some (document_new s v, Ok [text_edit_new \<lparr>tr_start = 0, tr_end = str_len (doc_text d)\<rparr> s])"
proof -
  obtain p where p: "end_position d = Some p" "position_to_offset d p = Some (str_len (doc_text d))"
    using end_position_offset [OF assms] by blast
  have 0: "position_to_offset d (position_new 0 0) = Some 0"
  proof -
    have k: "0 < length (text_lines (doc_text d))" by (simp add: text_lines_def)
    obtain a l e b where x: "doc_text d = a @ l @ e @ b" "text_lines (doc_text d) ! 0 = (l, e)"
        "starts_from 0 (text_lines (doc_text d)) ! 0 = str_len a"
      by (rule text_line_at [OF k]) blast
    have a: "str_len a = 0" using x(3) starts_from_nth [OF k, of 0] by simp
    have "utf16_column_to_byte_offset_clamped l 0 = 0"
      by (cases l) (simp_all add: utf16_column_to_byte_offset_clamped_def)
    then show ?thesis
      using position_to_offset_line [OF assms(1), of "position_new 0 0" a l e b] k x a
      by (simp add: position_new_def)
  qed
  have "replace_range (doc_text d) 0 (str_len (doc_text d)) s = Some s"
    unfolding replace_range_Some_iff
    by (intro exI [of _ "[]"] exI [of _ "doc_text d"]) simp
  then show ?thesis
    using p 0 assms(2)
    by (simp add: apply_changes_def apply_change_def content_change_full_def range_new_def
        document_new_def)
qed

theorem apply_changes_full_witness:
  "apply_changes (document_new [97, 10, 98, 10] 1) 2 [content_change_full [120]] =
     Some (document_new [120] 2, Ok [text_edit_new \<lparr>tr_start = 0, tr_end = 4\<rparr> [120]])"
proof -
  have h: "doc_wf (document_new [97, 10, 98, 10] 1)"
      "str_len (doc_text (document_new [97, 10, 98, 10] 1)) \<le> u32_max"
    by (simp_all add: doc_wf_def document_new_def nova_eval)
  show ?thesis using apply_changes_full [OF h, of 2 "[120]"] by (simp add: document_new_def nova_eval)
qed

text \<open>
  Property C16. The clamping conversion of an open document agrees with the strict one of the
  line index wherever the strict one is defined, so both components read an editor
  position the same way.
\<close>

theorem position_to_offset_agrees:
  assumes "str_len t \<le> u32_max" "exact_u32_add add"
    and "offset_of_position add (line_index_new t) t p = Some (Some off)"
  shows "position_to_offset (document_new t v) p = Some off"
proof -
  let ?ls = "text_lines t"
  from assms(3) obtain x y where p: "pos_line p < length ?ls"
    and xy: "str_slice t (starts_from 0 ?ls ! pos_line p) (ends_from 0 ?ls ! pos_line p) = Some (x @ y)"
      "utf16_len x = pos_character p" "off = starts_from 0 ?ls ! pos_line p + str_len x"
    unfolding offset_of_position_Some [OF line_index_new_wf [OF assms(1)] assms(2,1)]
      line_index_new_eq [OF assms(1)] by auto
  obtain a l e b where l: "t = a @ l @ e @ b" "?ls ! pos_line p = (l, e)"
      "starts_from 0 ?ls ! pos_line p = str_len a"
      "ends_from 0 ?ls ! pos_line p = str_len a + str_len l"
    by (rule text_line_at [OF p]) blast
  have "str_slice t (str_len a) (str_len a + str_len l) = Some l"
    unfolding str_slice_Some_iff using l(1) by (intro exI [of _ a] exI [of _ "e @ b"]) simp
  with xy l(3,4) have lxy: "l = x @ y" by simp
  have "utf16_len (x @ y) \<le> u32_max"
    using utf16_len_le_str_len [of l] assms(1) l(1) lxy by simp
  then have "utf16_column_to_byte_offset_clamped l (pos_character p) = str_len x"
    using clamp_walk_exact [of 0 x y "pos_character p" "str_len l" 0] xy(2) [symmetric] lxy
    by (simp add: utf16_column_to_byte_offset_clamped_def)
  moreover have "doc_wf (document_new t v)" by (simp add: doc_wf_def document_new_def)
  ultimately show ?thesis
    using position_to_offset_line [of "document_new t v" p a l e b] p l xy(3)
    by (simp add: document_new_def)
qed

theorem position_to_offset_agrees_witness:
  "position_to_offset (document_new [97, 128512, 98] 1) \<lparr>pos_line = 0, pos_character = 3\<rparr> = Some 5"
proof -
  let ?t = "[97, 128512, 98] :: rstr"
  have h: "str_len ?t \<le> u32_max" "exact_u32_add (+)"
      "offset_of_position (+) (line_index_new ?t) ?t \<lparr>pos_line = 0, pos_character = 3\<rparr> = Some (Some 5)"
    by (simp_all add: nova_eval exact_u32_add_def)
  show ?thesis using position_to_offset_agrees [OF h] .
qed

end
