(* ===== verification/File_Registry.thy ===== *)
theory File_Registry
  imports Nova_Prelude "HOL-Library.AList"
begin

text \<open>
  Stable file identifiers, after \<^verbatim>\<open>crates/nova-vfs/src/file_id.rs\<close>. A
  \<^verbatim>\<open>HashMap\<close> is an association list with distinct keys; \<^verbatim>\<open>FileId\<close>
  is the number it wraps. The outer \<open>None\<close> of an operation is the panic
  \<^verbatim>\<open>too many file ids allocated\<close>.
\<close>

section \<open>The registry\<close>

record 'p file_id_registry =
  path_to_id :: "('p \<times> nat) list"
  id_to_path :: "'p option list"

definition registry_new :: "'p file_id_registry" where
  "registry_new = \<lparr>path_to_id = [], id_to_path = []\<rparr>"

definition reg_file_id :: "'p file_id_registry \<Rightarrow> 'p \<Rightarrow> ('p file_id_registry \<times> nat) option" where
  "reg_file_id r path =
     (case map_of (path_to_id r) path of
        Some fid \<Rightarrow> Some (r, fid)
      | None \<Rightarrow>
          (let raw = length (id_to_path r) in
           if raw > u32_max then None
           else Some (r\<lparr>id_to_path := id_to_path r @ [Some path],
                        path_to_id := AList.update path raw (path_to_id r)\<rparr>, raw)))"

text \<open>\<^verbatim>\<open>if let Some(slot) = v.get_mut(i) { *slot = x }\<close> is list update.\<close>

definition reg_rename_path ::
  "'p file_id_registry \<Rightarrow> 'p \<Rightarrow> 'p \<Rightarrow> ('p file_id_registry \<times> nat) option" where
  "reg_rename_path r from to =
     (case map_of (path_to_id r) from of
        None \<Rightarrow> reg_file_id r to
      | Some id_from \<Rightarrow>
          (let p2i = AList.delete from (path_to_id r) in
           case map_of p2i to of
             Some id_to \<Rightarrow>
               Some (r\<lparr>path_to_id := p2i, id_to_path := (id_to_path r)[id_from := None]\<rparr>, id_to)
           | None \<Rightarrow>
               Some (r\<lparr>path_to_id := AList.update to id_from p2i,
                       id_to_path := (id_to_path r)[id_from := Some to]\<rparr>, id_from)))"

definition reg_rename_path_displacing ::
  "'p file_id_registry \<Rightarrow> 'p \<Rightarrow> 'p \<Rightarrow> ('p file_id_registry \<times> nat) option" where
  "reg_rename_path_displacing r from to =
     (case map_of (path_to_id r) from of
        None \<Rightarrow> reg_file_id r to
      | Some id_from \<Rightarrow>
          (let p2i = AList.delete from (path_to_id r);
               i2p = (case map_of p2i to of
                        Some id_to \<Rightarrow> (if id_to \<noteq> id_from then (id_to_path r)[id_to := None]
                                      else id_to_path r)
                      | None \<Rightarrow> id_to_path r);
               p2i' = AList.delete to p2i
           in Some (r\<lparr>path_to_id := AList.update to id_from p2i',
                      id_to_path := i2p[id_from := Some to]\<rparr>, id_from)))"

definition reg_all_file_ids :: "'p file_id_registry \<Rightarrow> nat list" where
  "reg_all_file_ids r = remdups_adj (sort (map snd (path_to_id r)))"

definition reg_get_id :: "'p file_id_registry \<Rightarrow> 'p \<Rightarrow> nat option" where
  "reg_get_id r path = map_of (path_to_id r) path"

definition reg_get_path :: "'p file_id_registry \<Rightarrow> nat \<Rightarrow> 'p option" where
  "reg_get_path r fid = Option.bind (vec_get (id_to_path r) fid) (\<lambda>p. p)"

lemmas registry_eval [nova_eval] =
  registry_new_def reg_file_id_def reg_rename_path_def reg_rename_path_displacing_def
  reg_all_file_ids_def reg_get_id_def reg_get_path_def

section \<open>Invariant\<close>

text \<open>The two tables are inverse to each other.\<close>

definition reg_wf :: "'p file_id_registry \<Rightarrow> bool" where
  "reg_wf r \<longleftrightarrow> distinct (map fst (path_to_id r)) \<and>
     (\<forall>p fid. map_of (path_to_id r) p = Some fid \<longleftrightarrow>
        fid < length (id_to_path r) \<and> id_to_path r ! fid = Some p)"

lemma reg_get_id_eq: "reg_get_id r = map_of (path_to_id r)"
  by (simp add: reg_get_id_def fun_eq_iff)

lemma reg_wf_new: "reg_wf registry_new"
  by (simp add: reg_wf_def registry_new_def)

lemma reg_wf_inj:
  assumes "reg_wf r" "reg_get_id r p = Some fid" "reg_get_id r q = Some fid"
  shows "p = q"
  using assms by (simp add: reg_wf_def reg_get_id_def)

lemma reg_wf_inverse:
  assumes "reg_wf r"
  shows "reg_get_path r fid = Some p \<longleftrightarrow> reg_get_id r p = Some fid"
  using assms
  by (auto simp: reg_wf_def reg_get_id_def reg_get_path_def vec_get_def bind_eq_Some_conv)

text \<open>What each operation does to the map of paths, as a function.\<close>

lemma reg_file_id_spec:
  assumes "reg_wf r" "reg_file_id r p = Some (r', fid)"
  shows "reg_wf r' \<and> reg_get_id r' = (reg_get_id r)(p \<mapsto> fid) \<and>
    (reg_get_id r p = None \<longrightarrow> (\<forall>q. reg_get_id r q \<noteq> Some fid)) \<and>
    (\<forall>i. reg_get_id r p = Some i \<longrightarrow> i = fid)"
proof (cases "map_of (path_to_id r) p")
  case None
  then have r': "r' = r\<lparr>id_to_path := id_to_path r @ [Some p],
        path_to_id := AList.update p fid (path_to_id r)\<rparr>" "fid = length (id_to_path r)"
    using assms(2) by (auto simp: reg_file_id_def Let_def split: if_splits)
  have "distinct (map fst (path_to_id r'))"
    using assms(1) r'(1) by (simp add: reg_wf_def distinct_update)
  moreover have "map_of (path_to_id r') = (map_of (path_to_id r))(p \<mapsto> fid)"
    using r'(1) by (simp add: update_conv')
  ultimately show ?thesis
    using assms(1) None r'
    by (auto simp: reg_wf_def reg_get_id_def nth_append less_Suc_eq fun_upd_def)
next
  case (Some i)
  with assms show ?thesis by (auto simp: reg_file_id_def reg_get_id_def fun_upd_idem)
qed

lemma inverse_tables_move:
  assumes wf: "\<forall>p f. m p = Some f \<longleftrightarrow> f < length l \<and> l ! f = Some p"
    and i: "m from = Some i" and free: "(m(from := None)) to = None"
  shows "\<forall>p f. (m(from := None, to \<mapsto> i)) p = Some f \<longleftrightarrow>
    f < length (l[i := Some to]) \<and> l[i := Some to] ! f = Some p"
proof (intro allI)
  fix p f
  have li: "i < length l" "l ! i = Some from" using wf i by auto
  show "(m(from := None, to \<mapsto> i)) p = Some f \<longleftrightarrow>
    f < length (l[i := Some to]) \<and> l[i := Some to] ! f = Some p"
  proof (cases "f = i")
    case True
    have "(m(from := None, to \<mapsto> i)) p = Some i \<longleftrightarrow> p = to"
      using wf li i by (cases "p = from") auto
    with True li show ?thesis by auto
  next
    case False
    have "(m(from := None, to \<mapsto> i)) p = Some f \<longleftrightarrow> m p = Some f"
      using False free i by (cases "p = from") (auto split: if_splits)
    with False show ?thesis using wf by simp
  qed
qed

lemma inverse_tables_drop:
  assumes "\<forall>p f. m p = Some f \<longleftrightarrow> f < length l \<and> l ! f = Some p" "m from = Some i"
  shows "\<forall>p f. (m(from := None)) p = Some f \<longleftrightarrow>
    f < length (l[i := None]) \<and> l[i := None] ! f = Some p"
proof -
  have "f = i" if "f < length l" "l ! f = Some from" for f
  proof -
    have "m from = Some f" using assms(1) that by blast
    with assms(2) show ?thesis by simp
  qed
  with assms show ?thesis by (auto simp: nth_list_update)
qed

lemma reg_rename_spec:
  assumes "reg_wf r" "reg_rename_path r from to = Some (r', fid)" "reg_get_id r from = Some i"
  shows "reg_wf r' \<and> reg_get_id r' = ((reg_get_id r)(from := None))(to \<mapsto> fid) \<and>
    fid = (if to \<noteq> from then (case reg_get_id r to of Some j \<Rightarrow> j | None \<Rightarrow> i) else i)"
proof (cases "((map_of (path_to_id r))(from := None)) to")
  case None
  from assms(3) have i: "map_of (path_to_id r) from = Some i" by (simp add: reg_get_id_def)
  have r': "r' = r\<lparr>path_to_id := AList.update to i (AList.delete from (path_to_id r)),
      id_to_path := (id_to_path r)[i := Some to]\<rparr>" "fid = i"
    using assms(2) i None by (auto simp: reg_rename_path_def Let_def delete_conv')
  have "distinct (map fst (path_to_id r'))"
    using assms(1) r'(1) by (simp add: reg_wf_def distinct_update distinct_delete)
  moreover have m: "map_of (path_to_id r') = ((map_of (path_to_id r))(from := None))(to \<mapsto> i)"
    using r'(1) by (simp add: update_conv' delete_conv')
  ultimately have "reg_wf r'"
    using inverse_tables_move [of "map_of (path_to_id r)" "id_to_path r" "from" i to] assms(1) i None r'
    by (simp add: reg_wf_def)
  with m i None r' show ?thesis
    by (auto simp: reg_get_id_def split: if_splits)
next
  case (Some j)
  from assms(3) have i: "map_of (path_to_id r) from = Some i" by (simp add: reg_get_id_def)
  have r': "r' = r\<lparr>path_to_id := AList.delete from (path_to_id r),
      id_to_path := (id_to_path r)[i := None]\<rparr>" "fid = j"
    using assms(2) i Some by (auto simp: reg_rename_path_def Let_def delete_conv')
  have "distinct (map fst (path_to_id r'))"
    using assms(1) r'(1) by (simp add: reg_wf_def distinct_delete)
  moreover have m: "map_of (path_to_id r') = (map_of (path_to_id r))(from := None)"
    using r'(1) by (simp add: delete_conv')
  ultimately have "reg_wf r'"
    using inverse_tables_drop [of "map_of (path_to_id r)" "id_to_path r" "from" i] assms(1) i r'
    by (simp add: reg_wf_def)
  moreover have "(map_of (path_to_id r))(from := None) =
      (map_of (path_to_id r))(from := None, to \<mapsto> j)"
    using Some by (metis fun_upd_triv)
  ultimately show ?thesis
    using m i Some r' by (auto simp: reg_get_id_def split: if_splits)
qed

lemma reg_displace_spec:
  assumes "reg_wf r" "reg_rename_path_displacing r from to = Some (r', fid)"
    and "reg_get_id r from = Some i"
  shows "reg_wf r' \<and> reg_get_id r' = ((reg_get_id r)(from := None))(to \<mapsto> fid) \<and> fid = i"
proof -
  let ?m = "map_of (path_to_id r)" and ?l = "id_to_path r"
  from assms(3) have i: "?m from = Some i" by (simp add: reg_get_id_def)
  have inv: "\<forall>p f. ?m p = Some f \<longleftrightarrow> f < length ?l \<and> ?l ! f = Some p"
    using assms(1) by (simp add: reg_wf_def)
  define l1 where "l1 = (case (?m(from := None)) to of
      Some j \<Rightarrow> if j \<noteq> i then ?l[j := None] else ?l | None \<Rightarrow> ?l)"
  have r': "r' = r\<lparr>path_to_id := AList.update to i (AList.delete to (AList.delete from (path_to_id r))),
      id_to_path := l1[i := Some to]\<rparr>" "fid = i"
    using assms(2) i by (auto simp: reg_rename_path_displacing_def Let_def delete_conv' l1_def)
  have m: "map_of (path_to_id r') = ?m(from := None, to \<mapsto> i)"
    using r'(1) by (simp add: update_conv' delete_conv')
  have "\<forall>p f. (?m(from := None, to \<mapsto> i)) p = Some f \<longleftrightarrow>
      f < length (l1[i := Some to]) \<and> l1[i := Some to] ! f = Some p"
  proof (cases "(?m(from := None)) to")
    case None
    then show ?thesis using inverse_tables_move [OF inv i] by (simp add: l1_def)
  next
    case (Some j)
    then have to: "to \<noteq> from" "?m to = Some j" by (auto split: if_splits)
    then have "j \<noteq> i" using inv i by fastforce
    with Some have l1: "l1 = ?l[j := None]" by (simp add: l1_def)
    have inv1: "\<forall>p f. (?m(to := None)) p = Some f \<longleftrightarrow> f < length l1 \<and> l1 ! f = Some p"
      using inverse_tables_drop [OF inv to(2)] l1 by simp
    have from1: "(?m(to := None)) from = Some i" and free1: "(?m(to := None, from := None)) to = None"
      using i to by simp_all
    have eq: "?m(to := None, from := None, to \<mapsto> i) = ?m(from := None, to \<mapsto> i)"
      by (auto simp: fun_eq_iff)
    show ?thesis using inverse_tables_move [OF inv1 from1 free1] unfolding eq .
  qed
  moreover have "distinct (map fst (path_to_id r'))"
    using assms(1) r'(1) by (simp add: reg_wf_def distinct_update distinct_delete)
  ultimately have "reg_wf r'" using r' m by (simp add: reg_wf_def)
  with m r' show ?thesis by (simp add: reg_get_id_eq)
qed

section \<open>The interface other components rely on\<close>

text \<open>
  A registry gives every interned path one identifier, shared with no other path. A client
  that tracks a set of paths by their identifiers can follow each operation by updating
  its set of identifiers; these are the facts the tracking of open documents needs.
\<close>

locale id_registry =
  fixes inv :: "'r \<Rightarrow> bool"
    and get_id :: "'r \<Rightarrow> 'p \<Rightarrow> nat option"
    and intern :: "'r \<Rightarrow> 'p \<Rightarrow> ('r \<times> nat) option"
    and rename :: "'r \<Rightarrow> 'p \<Rightarrow> 'p \<Rightarrow> ('r \<times> nat) option"
  assumes get_id_inj: "inv r \<Longrightarrow> get_id r p = Some i \<Longrightarrow> get_id r q = Some i \<Longrightarrow> p = q"
    and intern_law: "inv r \<Longrightarrow> intern r p = Some (r', i) \<Longrightarrow>
      inv r' \<and> get_id r' = (get_id r)(p \<mapsto> i) \<and> (\<forall>j. get_id r p = Some j \<longrightarrow> j = i)"
    and rename_law: "inv r \<Longrightarrow> rename r from to = Some (r', i) \<Longrightarrow> get_id r from = Some j \<Longrightarrow>
      inv r' \<and> get_id r' = ((get_id r)(from := None))(to \<mapsto> i) \<and>
      i = (if to \<noteq> from then (case get_id r to of Some k \<Rightarrow> k | None \<Rightarrow> j) else j)"
    and rename_unknown: "inv r \<Longrightarrow> get_id r from = None \<Longrightarrow> rename r from to = intern r to"
begin

definition tracked :: "'r \<Rightarrow> 'p set \<Rightarrow> nat set" where
  "tracked r ps = {i. \<exists>p \<in> ps. get_id r p = Some i}"

definition interned :: "'r \<Rightarrow> 'p set \<Rightarrow> bool" where
  "interned r ps \<longleftrightarrow> (\<forall>p \<in> ps. get_id r p \<noteq> None)"

lemma tracked_intern:
  assumes "inv r" "intern r p = Some (r', i)" "interned r ps"
  shows "tracked r' ps = tracked r ps" "interned r' ps"
proof -
  from intern_law [OF assms(1,2)] have m: "get_id r' = (get_id r)(p \<mapsto> i)"
    and old: "\<And>j. get_id r p = Some j \<Longrightarrow> j = i" by auto
  have same: "get_id r' q = get_id r q" if "q \<in> ps" for q
    using that assms(3) m old by (cases "get_id r q") (auto simp: interned_def)
  then show "tracked r' ps = tracked r ps" by (simp add: tracked_def)
  show "interned r' ps" using same assms(3) by (simp add: interned_def)
qed

lemma tracked_insert:
  "get_id r p = Some i \<Longrightarrow> tracked r (insert p ps) = insert i (tracked r ps)"
  by (auto simp: tracked_def)

lemma tracked_remove:
  assumes "inv r" "get_id r p = Some i"
  shows "tracked r (ps - {p}) = tracked r ps - {i}"
  using assms get_id_inj by (auto simp: tracked_def)

lemma tracked_remove_unknown: "get_id r p = None \<Longrightarrow> tracked r (ps - {p}) = tracked r ps"
  by (auto simp: tracked_def)

lemma tracked_rename_open:
  assumes "inv r" "rename r from to = Some (r', i)" "get_id r from = Some j"
    and "interned r ps" "from \<in> ps"
  shows "tracked r' (insert to (ps - {from})) = insert i (tracked r ps - {j})"
    and "interned r' (insert to (ps - {from}))"
proof -
  from rename_law [OF assms(1-3)]
  have m: "get_id r' = ((get_id r)(from := None))(to \<mapsto> i)"
    and i: "i = (if to \<noteq> from then (case get_id r to of Some k \<Rightarrow> k | None \<Rightarrow> j) else j)" by auto
  have keep: "get_id r' q = get_id r q" if "q \<noteq> from" "q \<noteq> to" for q using m that by simp
  have "tracked r' (insert to (ps - {from})) = insert i (tracked r' (ps - {from}))"
    using tracked_insert m by simp
  also have "\<dots> = insert i (tracked r' (ps - {from, to}))"
    using m by (auto simp: tracked_def)
  also have "\<dots> = insert i (tracked r (ps - {from, to}))"
    using keep by (auto simp: tracked_def)
  also have "\<dots> = insert i (tracked r (ps - {from}))"
  proof (cases "to \<in> ps \<and> to \<noteq> from")
    case True
    then obtain k where "get_id r to = Some k" using assms(4) by (auto simp: interned_def)
    with i True show ?thesis by (auto simp: tracked_def)
  next
    case False
    then have "ps - {from, to} = ps - {from}" by auto
    then show ?thesis by simp
  qed
  also have "\<dots> = insert i (tracked r ps - {j})"
    using tracked_remove [OF assms(1,3)] by simp
  finally show "tracked r' (insert to (ps - {from})) = insert i (tracked r ps - {j})" .
  show "interned r' (insert to (ps - {from}))" using m assms(4) by (auto simp: interned_def)
qed

lemma tracked_rename_closed:
  assumes "inv r" "rename r from to = Some (r', i)" "interned r ps" "from \<notin> ps"
  shows "inv r'" "tracked r' ps = tracked r ps" "interned r' ps"
proof -
  have "inv r' \<and> tracked r' ps = tracked r ps \<and> interned r' ps"
  proof (cases "get_id r from")
    case None
    then have "intern r to = Some (r', i)" using rename_unknown assms(1,2) by simp
    then show ?thesis
      using intern_law [OF assms(1)] tracked_intern [OF assms(1) _ assms(3)] by blast
  next
    case (Some j)
    from rename_law [OF assms(1,2) Some]
    have l: "inv r'" "get_id r' = ((get_id r)(from := None))(to \<mapsto> i)"
      "i = (if to \<noteq> from then (case get_id r to of Some k \<Rightarrow> k | None \<Rightarrow> j) else j)" by auto
    have same: "get_id r' q = get_id r q" if "q \<in> ps" for q
      using that l assms(3,4) by (cases "get_id r q") (auto simp: interned_def)
    then show ?thesis using l(1) assms(3) by (simp add: tracked_def interned_def)
  qed
  then show "inv r'" "tracked r' ps = tracked r ps" "interned r' ps" by auto
qed

end

interpretation reg: id_registry reg_wf reg_get_id reg_file_id reg_rename_path
proof unfold_locales
  fix r :: "'a file_id_registry" and p q i
  assume "reg_wf r" "reg_get_id r p = Some i" "reg_get_id r q = Some i"
  then show "p = q" by (rule reg_wf_inj)
next
  fix r r' :: "'a file_id_registry" and p i
  assume "reg_wf r" "reg_file_id r p = Some (r', i)"
  then show "reg_wf r' \<and> reg_get_id r' = (reg_get_id r)(p \<mapsto> i) \<and>
      (\<forall>j. reg_get_id r p = Some j \<longrightarrow> j = i)"
    using reg_file_id_spec [of r p r' i] by simp
next
  fix r r' :: "'a file_id_registry" and "from" to i j
  assume "reg_wf r" "reg_rename_path r from to = Some (r', i)" "reg_get_id r from = Some j"
  then show "reg_wf r' \<and> reg_get_id r' = ((reg_get_id r)(from := None))(to \<mapsto> i) \<and>
      i = (if to \<noteq> from then (case reg_get_id r to of Some k \<Rightarrow> k | None \<Rightarrow> j) else j)"
    by (rule reg_rename_spec)
next
  fix r :: "'a file_id_registry" and "from" to
  assume "reg_wf r" "reg_get_id r from = None"
  then show "reg_rename_path r from to = reg_file_id r to"
    by (simp add: reg_rename_path_def reg_get_id_def)
qed

section \<open>Properties\<close>

lemma sorted_dedup: "sorted xs \<Longrightarrow> sorted_wrt (<) (remdups_adj xs)" for xs :: "nat list"
  by (induction xs rule: remdups_adj.induct) (auto simp: less_le)

text \<open>Any sequence of registrations and renames, in one type.\<close>

datatype 'p reg_op = FileIdOp 'p | RenameOp 'p 'p | DisplaceOp 'p 'p

definition reg_apply :: "'p file_id_registry \<Rightarrow> 'p reg_op \<Rightarrow> ('p file_id_registry \<times> nat) option" where
  "reg_apply r c = (case c of FileIdOp p \<Rightarrow> reg_file_id r p
     | RenameOp p q \<Rightarrow> reg_rename_path r p q
     | DisplaceOp p q \<Rightarrow> reg_rename_path_displacing r p q)"

inductive reg_reachable :: "'p file_id_registry \<Rightarrow> bool" where
  reach_new: "reg_reachable registry_new"
| reach_step: "reg_reachable r \<Longrightarrow> reg_apply r c = Some (r', i) \<Longrightarrow> reg_reachable r'"

lemma reg_apply_wf: "reg_wf r \<Longrightarrow> reg_apply r c = Some (r', i) \<Longrightarrow> reg_wf r' \<and>
    reg_get_id r' (case c of FileIdOp p \<Rightarrow> p | RenameOp p q \<Rightarrow> q | DisplaceOp p q \<Rightarrow> q) = Some i"
proof (cases c)
  case (FileIdOp p)
  assume "reg_wf r" "reg_apply r c = Some (r', i)"
  with FileIdOp show ?thesis using reg_file_id_spec [of r p r' i] by (simp add: reg_apply_def)
next
  case (RenameOp p q)
  assume "reg_wf r" "reg_apply r c = Some (r', i)"
  with RenameOp show ?thesis
    using reg_rename_spec [of r p q r' i] reg_file_id_spec [of r q r' i]
    by (cases "reg_get_id r p") (auto simp: reg_apply_def reg.rename_unknown)
next
  case (DisplaceOp p q)
  assume "reg_wf r" "reg_apply r c = Some (r', i)"
  with DisplaceOp show ?thesis
    using reg_displace_spec [of r p q r' i] reg_file_id_spec [of r q r' i]
    by (cases "reg_get_id r p")
      (auto simp: reg_apply_def reg_rename_path_displacing_def reg_get_id_def)
qed

lemma reg_reachable_wf: "reg_reachable r \<Longrightarrow> reg_wf r"
  by (induction rule: reg_reachable.induct) (auto simp: reg_wf_new dest: reg_apply_wf)

text \<open>
  Property C6. After any sequence of registrations and renames, forward and reverse lookup
  are inverse to each other (so no identifier belongs to two paths), and the sorted list of
  identifiers has each identifier in use exactly once.
\<close>

theorem registry_bijective:
  assumes "reg_reachable r"
  shows "(reg_get_path r fid = Some p \<longleftrightarrow> reg_get_id r p = Some fid) \<and>
    set (reg_all_file_ids r) = {i. \<exists>q. reg_get_id r q = Some i} \<and>
    sorted_wrt (<) (reg_all_file_ids r)"
proof -
  have wf: "reg_wf r" using assms by (rule reg_reachable_wf)
  then have d: "distinct (map fst (path_to_id r))" by (simp add: reg_wf_def)
  have "set (reg_all_file_ids r) = snd ` set (path_to_id r)" by (simp add: reg_all_file_ids_def)
  also have "\<dots> = {i. \<exists>q. reg_get_id r q = Some i}"
    using d by (force simp: reg_get_id_def image_def)
  finally have "set (reg_all_file_ids r) = {i. \<exists>q. reg_get_id r q = Some i}" .
  moreover have "sorted_wrt (<) (reg_all_file_ids r)"
    unfolding reg_all_file_ids_def by (rule sorted_dedup) simp
  ultimately show ?thesis using reg_wf_inverse [OF wf] by blast
qed

theorem registry_bijective_witness:
  "reg_get_path \<lparr>path_to_id = [(''b'', 0)], id_to_path = [Some ''b'']\<rparr> 0 = Some ''b''"
proof -
  let ?r = "\<lparr>path_to_id = [(''b'', 0)], id_to_path = [Some ''b'']\<rparr> :: string file_id_registry"
  have 1: "reg_apply registry_new (FileIdOp ''a'') =
      Some (\<lparr>path_to_id = [(''a'', 0)], id_to_path = [Some ''a'']\<rparr>, 0)"
    by (simp add: reg_apply_def nova_eval)
  have 2: "reg_apply \<lparr>path_to_id = [(''a'', 0)], id_to_path = [Some ''a'']\<rparr> (RenameOp ''a'' ''b'') =
      Some (?r, 0)"
    by (simp add: reg_apply_def nova_eval)
  have "reg_reachable ?r" by (rule reach_step [OF reach_step [OF reach_new 1] 2])
  moreover have "reg_get_id ?r ''b'' = Some 0" by (simp add: nova_eval)
  ultimately show ?thesis using registry_bijective [of ?r 0 "''b''"] by blast
qed

text \<open>
  Property C20. Renaming a registered path: the result is the identifier the destination has
  afterwards, the source is forgotten (unless both are the same path) and no other path
  changes its identifier. A plain rename keeps the destination's identifier when it has
  one; the displacing rename always keeps the source's.
\<close>

theorem rename_keeps_identity:
  assumes "reg_reachable r" "reg_get_id r from = Some i"
  shows "(\<exists>r'. reg_rename_path r from to =
        Some (r', if to = from then i else case reg_get_id r to of Some j \<Rightarrow> j | None \<Rightarrow> i) \<and>
        reg_get_id r' = ((reg_get_id r)(from := None))
          (to \<mapsto> if to = from then i else case reg_get_id r to of Some j \<Rightarrow> j | None \<Rightarrow> i)) \<and>
    (\<exists>r'. reg_rename_path_displacing r from to = Some (r', i) \<and>
        reg_get_id r' = ((reg_get_id r)(from := None))(to \<mapsto> i))"
proof -
  have wf: "reg_wf r" using assms(1) by (rule reg_reachable_wf)
  from assms(2) obtain x y where x: "reg_rename_path r from to = Some (x, y)"
    by (cases "map_of (AList.delete from (path_to_id r)) to")
      (auto simp: reg_rename_path_def reg_get_id_def)
  from assms(2) obtain u v where u: "reg_rename_path_displacing r from to = Some (u, v)"
    by (auto simp: reg_rename_path_displacing_def reg_get_id_def Let_def)
  show ?thesis
    using x u reg_rename_spec [OF wf x assms(2)] reg_displace_spec [OF wf u assms(2)]
    by (auto split: if_splits)
qed

theorem rename_keeps_identity_witness:
  "\<exists>r'. reg_rename_path \<lparr>path_to_id = [(''a'', 0)], id_to_path = [Some ''a'']\<rparr> ''a'' ''b'' = Some (r', 0) \<and>
     reg_get_id r' ''b'' = Some 0 \<and> reg_get_id r' ''a'' = None"
proof -
  let ?r = "\<lparr>path_to_id = [(''a'', 0)], id_to_path = [Some ''a'']\<rparr> :: string file_id_registry"
  have 1: "reg_apply registry_new (FileIdOp ''a'') = Some (?r, 0)"
    by (simp add: reg_apply_def nova_eval)
  have r: "reg_reachable ?r" by (rule reach_step [OF reach_new 1])
  have i: "reg_get_id ?r ''a'' = Some 0" "reg_get_id ?r ''b'' = None" by (simp_all add: nova_eval)
  show ?thesis using rename_keeps_identity [OF r i(1), of "''b''"] i by auto
qed

end
