(* ===== verification/Virtual_Docs.thy ===== *)
theory Virtual_Docs
  imports Rust_Str
begin

text \<open>
  Virtual documents, after \<^verbatim>\<open>crates/nova-vfs/src/virtual_documents.rs\<close> and
  \<^verbatim>\<open>virtual_documents_fs.rs\<close>: a store of decompiled sources bounded by a byte
  budget with eviction of the least recently used, and the file system adapter that
  serves them. The cache itself is the \<^verbatim>\<open>lru\<close> crate, a parameter of the
  model; so is the base file system.
\<close>

section \<open>Paths\<close>

datatype archive_kind = Jar | Jmod

record archive_path =
  ap_kind :: archive_kind
  ap_archive :: rstr
  ap_entry :: rstr

datatype vfs_path =
    Local rstr
  | Archive archive_path
  | Decompiled rstr rstr
  | LegacyDecompiled rstr
  | Uri rstr

definition is_decompiled_path :: "vfs_path \<Rightarrow> bool" where
  "is_decompiled_path path =
     (case path of Decompiled _ _ \<Rightarrow> True | LegacyDecompiled _ \<Rightarrow> True | _ \<Rightarrow> False)"

section \<open>The cache\<close>

text \<open>
  The operations of \<^verbatim>\<open>LruCache\<close> the store calls, and their documented
  behaviour: \<open>entries\<close> lists the entries from least to most recently used;
  \<^verbatim>\<open>put\<close> and \<^verbatim>\<open>get\<close> make an entry the most recent one,
  \<^verbatim>\<open>pop_lru\<close> removes the least recent one.
\<close>

record 'c lru_ops =
  lru_unbounded :: 'c
  lru_put :: "'c \<Rightarrow> vfs_path \<Rightarrow> rstr \<Rightarrow> 'c \<times> rstr option"
  lru_pop :: "'c \<Rightarrow> vfs_path \<Rightarrow> 'c \<times> rstr option"
  lru_pop_lru :: "'c \<Rightarrow> 'c \<times> (vfs_path \<times> rstr) option"
  lru_get :: "'c \<Rightarrow> vfs_path \<Rightarrow> 'c \<times> rstr option"
  lru_contains :: "'c \<Rightarrow> vfs_path \<Rightarrow> bool"

definition without :: "vfs_path \<Rightarrow> (vfs_path \<times> rstr) list \<Rightarrow> (vfs_path \<times> rstr) list" where
  "without k es = filter (\<lambda>e. fst e \<noteq> k) es"

definition lru_spec :: "'c lru_ops \<Rightarrow> ('c \<Rightarrow> (vfs_path \<times> rstr) list) \<Rightarrow> bool" where
  "lru_spec ops entries \<longleftrightarrow>
     entries (lru_unbounded ops) = [] \<and>
     (\<forall>c k v. entries (fst (lru_put ops c k v)) = without k (entries c) @ [(k, v)] \<and>
        snd (lru_put ops c k v) = map_of (entries c) k) \<and>
     (\<forall>c k. entries (fst (lru_pop ops c k)) = without k (entries c) \<and>
        snd (lru_pop ops c k) = map_of (entries c) k) \<and>
     (\<forall>c. entries (fst (lru_pop_lru ops c)) = tl (entries c) \<and>
        snd (lru_pop_lru ops c) = (if entries c = [] then None else Some (hd (entries c)))) \<and>
     (\<forall>c k. entries (fst (lru_get ops c k)) =
          (case map_of (entries c) k of None \<Rightarrow> entries c | Some v \<Rightarrow> without k (entries c) @ [(k, v)]) \<and>
        snd (lru_get ops c k) = map_of (entries c) k) \<and>
     (\<forall>c k. lru_contains ops c k \<longleftrightarrow> map_of (entries c) k \<noteq> None)"

section \<open>The store\<close>

record 'c virtual_document_store =
  vd_max_bytes :: nat
  vd_total_bytes :: nat
  vd_lru :: 'c

definition vd_new :: "'c lru_ops \<Rightarrow> nat \<Rightarrow> 'c virtual_document_store" where
  "vd_new ops max_bytes =
     \<lparr>vd_max_bytes = max_bytes, vd_total_bytes = 0, vd_lru = lru_unbounded ops\<rparr>"

text \<open>The eviction loop; \<open>None\<close> is a loop that does not end.\<close>

partial_function (option) evict_loop ::
  "'c lru_ops \<Rightarrow> 'c virtual_document_store \<Rightarrow> 'c virtual_document_store option" where
  "evict_loop ops s =
     (if vd_total_bytes s > vd_max_bytes s then
        (case lru_pop_lru ops (vd_lru s) of
           (c, None) \<Rightarrow> Some (s\<lparr>vd_lru := c, vd_total_bytes := 0\<rparr>)
         | (c, Some (_, evicted_text)) \<Rightarrow>
             evict_loop ops (s\<lparr>vd_lru := c,
               vd_total_bytes := sat_sub (vd_total_bytes s) (str_len evicted_text)\<rparr>))
      else Some s)"

definition vd_insert_text ::
  "'c lru_ops \<Rightarrow> 'c virtual_document_store \<Rightarrow> vfs_path \<Rightarrow> rstr \<Rightarrow>
     'c virtual_document_store option" where
  "vd_insert_text ops s path text =
     (if \<not> is_decompiled_path path then Some s
      else
        (let bytes = str_len text in
         if vd_max_bytes s = 0 \<or> bytes > vd_max_bytes s then
           (case lru_pop ops (vd_lru s) path of
              (c, Some prev) \<Rightarrow>
                Some (s\<lparr>vd_lru := c, vd_total_bytes := sat_sub (vd_total_bytes s) (str_len prev)\<rparr>)
            | (c, None) \<Rightarrow> Some (s\<lparr>vd_lru := c\<rparr>))
         else
           (case lru_put ops (vd_lru s) path text of (c, old) \<Rightarrow>
              (let total = (case old of
                              Some prev \<Rightarrow> sat_sub (vd_total_bytes s) (str_len prev)
                            | None \<Rightarrow> vd_total_bytes s)
               in evict_loop ops
                    (s\<lparr>vd_lru := c, vd_total_bytes := sat_add_u64 total bytes\<rparr>)))))"

definition vd_get_text ::
  "'c lru_ops \<Rightarrow> 'c virtual_document_store \<Rightarrow> vfs_path \<Rightarrow>
     'c virtual_document_store \<times> rstr option" where
  "vd_get_text ops s path =
     (if \<not> is_decompiled_path path then (s, None)
      else (case lru_get ops (vd_lru s) path of (c, r) \<Rightarrow> (s\<lparr>vd_lru := c\<rparr>, r)))"

definition vd_contains :: "'c lru_ops \<Rightarrow> 'c virtual_document_store \<Rightarrow> vfs_path \<Rightarrow> bool" where
  "vd_contains ops s path \<longleftrightarrow> is_decompiled_path path \<and> lru_contains ops (vd_lru s) path"

section \<open>The file system adapter\<close>

text \<open>
  The kinds of \<^verbatim>\<open>io::Error\<close> the adapter inspects; the messages are dropped. The
  file system below is given by its read operations.
\<close>

datatype io_error_kind = Unsupported | InvalidData | NotFound | OtherKind nat

record base_fs =
  fs_read_bytes :: "vfs_path \<Rightarrow> (io_error_kind, nat list) result"
  fs_read_to_string :: "vfs_path \<Rightarrow> (io_error_kind, rstr) result"
  fs_exists :: "vfs_path \<Rightarrow> bool"

text \<open>Insert, then return: a call that updates the store and keeps the result.\<close>

definition store_then ::
  "'c virtual_document_store option \<Rightarrow> 'r \<Rightarrow> ('c virtual_document_store \<times> 'r) option" where
  "store_then s r = map_option (\<lambda>s'. (s', r)) s"

definition vdfs_read_to_string ::
  "'c lru_ops \<Rightarrow> base_fs \<Rightarrow> 'c virtual_document_store \<Rightarrow> vfs_path \<Rightarrow>
     ('c virtual_document_store \<times> (io_error_kind, rstr) result) option" where
  "vdfs_read_to_string ops base s path =
     (if is_decompiled_path path then
        (case vd_get_text ops s path of
           (s', Some text) \<Rightarrow> Some (s', Ok text)
         | (s', None) \<Rightarrow>
             if \<not> fs_exists base path then Some (s', Err NotFound)
             else (case fs_read_to_string base path of
                     Inr text \<Rightarrow> store_then (vd_insert_text ops s' path text) (Ok text)
                   | Inl e \<Rightarrow> Some (s', Err (if e = Unsupported then NotFound else e))))
      else Some (s, fs_read_to_string base path))"

definition vdfs_read_bytes ::
  "'c lru_ops \<Rightarrow> base_fs \<Rightarrow> 'c virtual_document_store \<Rightarrow> vfs_path \<Rightarrow>
     ('c virtual_document_store \<times> (io_error_kind, nat list) result) option" where
  "vdfs_read_bytes ops base s path =
     (if is_decompiled_path path then
        (case vd_get_text ops s path of
           (s', Some text) \<Rightarrow> Some (s', Ok (as_bytes text))
         | (s', None) \<Rightarrow>
             if \<not> fs_exists base path then Some (s', Err NotFound)
             else
               (case fs_read_bytes base path of
                  Inr bytes \<Rightarrow>
                    (case from_utf8 bytes of
                       Some text \<Rightarrow> store_then (vd_insert_text ops s' path text) (Ok bytes)
                     | None \<Rightarrow> Some (s', Ok bytes))
                | Inl e \<Rightarrow>
                    if e = Unsupported \<or> e = InvalidData then
                      (case fs_read_to_string base path of
                         Inr text \<Rightarrow>
                           store_then (vd_insert_text ops s' path text) (Ok (as_bytes text))
                       | Inl e' \<Rightarrow> Some (s', Err (if e' = Unsupported then NotFound else e')))
                    else Some (s', Err e)))
      else Some (s, fs_read_bytes base path))"

definition vdfs_exists ::
  "'c lru_ops \<Rightarrow> base_fs \<Rightarrow> 'c virtual_document_store \<Rightarrow> vfs_path \<Rightarrow> bool" where
  "vdfs_exists ops base s path =
     (if is_decompiled_path path then vd_contains ops s path \<or> fs_exists base path
      else fs_exists base path)"

lemmas virtual_docs_eval [nova_eval] =
  is_decompiled_path_def without_def vd_new_def vd_insert_text_def vd_get_text_def
  vd_contains_def store_then_def vdfs_read_to_string_def vdfs_read_bytes_def vdfs_exists_def
  sat_add_u64_def u64_max_def

section \<open>Budget\<close>

definition vd_bytes :: "(vfs_path \<times> rstr) list \<Rightarrow> nat" where
  "vd_bytes es = sum_list (map (\<lambda>e. str_len (snd e)) es)"

text \<open>
  The invariant: the running total is exact and within the budget, and only decompiled
  paths are stored, each once.
\<close>

definition vd_wf ::
  "('c \<Rightarrow> (vfs_path \<times> rstr) list) \<Rightarrow> 'c virtual_document_store \<Rightarrow> bool" where
  "vd_wf entries s \<longleftrightarrow> vd_total_bytes s = vd_bytes (entries (vd_lru s)) \<and>
     vd_total_bytes s \<le> vd_max_bytes s \<and>
     distinct (map fst (entries (vd_lru s))) \<and>
     (\<forall>e \<in> set (entries (vd_lru s)). is_decompiled_path (fst e))"

lemma vd_bytes_simps [simp]:
  "vd_bytes [] = 0" "vd_bytes (e # es) = str_len (snd e) + vd_bytes es"
  "vd_bytes (es @ fs) = vd_bytes es + vd_bytes fs"
  by (simp_all add: vd_bytes_def)

lemma vd_bytes_without:
  assumes "distinct (map fst es)"
  shows "vd_bytes es = vd_bytes (without k es) +
    (case map_of es k of None \<Rightarrow> 0 | Some v \<Rightarrow> str_len v)"
  using assms
proof (induction es)
  case (Cons e es)
  have "fst e = k \<Longrightarrow> filter (\<lambda>e. fst e \<noteq> k) es = es"
    using Cons.prems by (auto simp: filter_id_conv image_iff)
  moreover have "fst e = k \<Longrightarrow> map_of es k = None"
    using Cons.prems by (auto simp: map_of_eq_None_iff)
  ultimately show ?case using Cons by (cases e) (auto simp: without_def)
qed (simp add: without_def)

text \<open>
  Eviction drops entries from the old end until the rest fits, so what remains is the
  longest fitting suffix of the entries.
\<close>

lemma evict_loop_suffix:
  assumes "lru_spec ops entries" "vd_total_bytes s = vd_bytes (entries (vd_lru s))"
  shows "\<exists>s' n. evict_loop ops s = Some s' \<and> vd_max_bytes s' = vd_max_bytes s \<and>
    entries (vd_lru s') = drop n (entries (vd_lru s)) \<and>
    vd_total_bytes s' = vd_bytes (entries (vd_lru s')) \<and> vd_total_bytes s' \<le> vd_max_bytes s \<and>
    (\<forall>m < n. vd_bytes (drop m (entries (vd_lru s))) > vd_max_bytes s)"
  using assms(2)
proof (induction "entries (vd_lru s)" arbitrary: s)
  case Nil
  then have "evict_loop ops s = Some s" by (simp add: evict_loop.simps)
  with Nil show ?case by (intro exI [of _ s] exI [of _ 0]) simp
next
  case (Cons e es)
  show ?case
  proof (cases "vd_total_bytes s > vd_max_bytes s")
    case False
    then have "evict_loop ops s = Some s" by (simp add: evict_loop.simps)
    with Cons False show ?thesis by (intro exI [of _ s] exI [of _ 0]) simp
  next
    case True
    define s1 where "s1 = s\<lparr>vd_lru := fst (lru_pop_lru ops (vd_lru s)),
        vd_total_bytes := sat_sub (vd_total_bytes s) (str_len (snd e))\<rparr>"
    have pop: "entries (fst (lru_pop_lru ops (vd_lru s))) = es"
        "snd (lru_pop_lru ops (vd_lru s)) = Some e"
      using assms(1) Cons(2) [symmetric] by (simp_all add: lru_spec_def)
    then have run: "evict_loop ops s = evict_loop ops s1"
      using True by (cases "lru_pop_lru ops (vd_lru s)", cases e)
        (simp add: evict_loop.simps [of ops s] s1_def)
    have e1: "es = entries (vd_lru s1)" using pop by (simp add: s1_def)
    have t1: "vd_total_bytes s1 = vd_bytes (entries (vd_lru s1))"
      using Cons(2,3) pop by (simp add: s1_def flip: Cons(2))
    obtain s' n where ih: "evict_loop ops s1 = Some s'" "vd_max_bytes s' = vd_max_bytes s1"
        "entries (vd_lru s') = drop n es" "vd_total_bytes s' = vd_bytes (entries (vd_lru s'))"
        "vd_total_bytes s' \<le> vd_max_bytes s1" "\<forall>m < n. vd_bytes (drop m es) > vd_max_bytes s1"
      using Cons(1) [OF e1 t1] e1 by metis
    have "\<forall>m < Suc n. vd_bytes (drop m (e # es)) > vd_max_bytes s"
    proof (intro allI impI)
      fix m assume "m < Suc n"
      then show "vd_bytes (drop m (e # es)) > vd_max_bytes s"
        using ih(6) True Cons(3) by (cases m) (auto simp: s1_def simp flip: Cons(2))
    qed
    then show ?thesis
      using ih run by (intro exI [of _ s'] exI [of _ "Suc n"]) (simp add: s1_def flip: Cons(2))
  qed
qed

section \<open>Properties\<close>

lemma without_subset: "set (without k es) \<subseteq> set es"
  by (auto simp: without_def)

lemma distinct_without: "distinct (map fst es) \<Longrightarrow> distinct (map fst (without k es))"
  by (auto simp: without_def distinct_map intro: inj_on_subset)

lemma map_of_without [simp]: "map_of (without k es) k = None"
  by (auto simp: without_def map_of_eq_None_iff)

lemma map_of_drop_last:
  assumes "distinct (map fst (es @ [(k, v)]))" "n \<le> length es"
  shows "map_of (drop n (es @ [(k, v)])) k = Some v"
proof -
  have "(k, v) \<in> set (drop n (es @ [(k, v)]))" using assms(2) by simp
  moreover have "distinct (map fst (drop n (es @ [(k, v)])))"
    using assms(1) by (metis distinct_drop drop_map)
  ultimately show ?thesis using map_of_eq_Some_iff by fast
qed

lemma vd_insert_fitting:
  assumes spec: "lru_spec ops entries" and wf: "vd_wf entries s"
    and "2 * vd_max_bytes s \<le> u64_max" "is_decompiled_path path"
    and fits: "0 < vd_max_bytes s" "str_len text \<le> vd_max_bytes s"
  shows "\<exists>s'. vd_insert_text ops s path text = Some s' \<and> vd_wf entries s' \<and>
    vd_max_bytes s' = vd_max_bytes s \<and> map_of (entries (vd_lru s')) path = Some text"
proof -
  let ?es = "entries (vd_lru s)"
  obtain c old where put: "lru_put ops (vd_lru s) path text = (c, old)" by fastforce
  have c: "entries c = without path ?es @ [(path, text)]" "old = map_of ?es path"
    using spec put unfolding lru_spec_def by (metis fst_conv snd_conv)+
  have d: "distinct (map fst ?es)" using wf by (simp add: vd_wf_def)
  have dc: "distinct (map fst (entries c))"
    using distinct_without [OF d, of path] c(1) by (auto simp: without_def)
  have old_total: "(case old of Some prev \<Rightarrow> sat_sub (vd_total_bytes s) (str_len prev)
      | None \<Rightarrow> vd_total_bytes s) = vd_bytes (without path ?es)"
    using wf c(2) vd_bytes_without [OF d, of path] by (auto simp: vd_wf_def split: option.splits)
  have "vd_bytes (without path ?es) \<le> vd_max_bytes s"
    using wf vd_bytes_without [OF d, of path] by (simp add: vd_wf_def)
  then have tot: "sat_add_u64 (vd_bytes (without path ?es)) (str_len text) = vd_bytes (entries c)"
    using assms(3) fits(2) c(1) by (simp add: sat_add_u64_id)
  define s1 where "s1 = s\<lparr>vd_lru := c, vd_total_bytes := vd_bytes (entries c)\<rparr>"
  have run: "vd_insert_text ops s path text = evict_loop ops s1"
    using assms(4) fits put old_total tot by (simp add: vd_insert_text_def s1_def)
  obtain s' n where s': "evict_loop ops s1 = Some s'" "vd_max_bytes s' = vd_max_bytes s"
      "entries (vd_lru s') = drop n (entries c)" "vd_total_bytes s' = vd_bytes (entries (vd_lru s'))"
      "vd_total_bytes s' \<le> vd_max_bytes s" "\<forall>m < n. vd_bytes (drop m (entries c)) > vd_max_bytes s"
    using evict_loop_suffix [OF spec, of s1] by (auto simp: s1_def)
  have n: "n \<le> length (without path ?es)"
  proof (rule ccontr)
    assume "\<not> n \<le> length (without path ?es)"
    then have "vd_bytes (drop (length (without path ?es)) (entries c)) > vd_max_bytes s"
      using s'(6) by simp
    then show False using fits(2) c(1) by simp
  qed
  have "map_of (entries (vd_lru s')) path = Some text"
    using map_of_drop_last [OF _ n, of path "text"] dc c(1) s'(3) by simp
  moreover have "distinct (map fst (entries (vd_lru s')))"
    unfolding s'(3) using dc by (metis distinct_drop drop_map)
  moreover have "\<forall>e \<in> set (entries c). is_decompiled_path (fst e)"
    using wf assms(4) c(1) without_subset [of path ?es] by (auto simp: vd_wf_def)
  then have "\<forall>e \<in> set (entries (vd_lru s')). is_decompiled_path (fst e)"
    unfolding s'(3) by (meson in_set_dropD)
  ultimately have "map_of (entries (vd_lru s')) path = Some text" "vd_wf entries s'"
    using s'(2,4,5) by (simp_all add: vd_wf_def)
  then show ?thesis using run s'(1,2) by auto
qed

lemma vd_insert_other:
  assumes spec: "lru_spec ops entries" and wf: "vd_wf entries s"
    and "\<not> is_decompiled_path path \<or> vd_max_bytes s = 0 \<or> str_len text > vd_max_bytes s"
  shows "\<exists>s'. vd_insert_text ops s path text = Some s' \<and> vd_wf entries s' \<and>
    vd_max_bytes s' = vd_max_bytes s \<and> map_of (entries (vd_lru s')) path = None"
proof (cases "is_decompiled_path path")
  case False
  then have "map_of (entries (vd_lru s)) path = None"
    using wf by (auto simp: vd_wf_def map_of_eq_None_iff)
  with False wf show ?thesis by (simp add: vd_insert_text_def)
next
  case True
  let ?es = "entries (vd_lru s)"
  obtain c old where pop: "lru_pop ops (vd_lru s) path = (c, old)" by fastforce
  have c: "entries c = without path ?es" "old = map_of ?es path"
    using spec pop unfolding lru_spec_def by (metis fst_conv snd_conv)+
  have d: "distinct (map fst ?es)" using wf by (simp add: vd_wf_def)
  define s1 where "s1 = s\<lparr>vd_lru := c, vd_total_bytes := vd_bytes (without path ?es)\<rparr>"
  have "vd_insert_text ops s path text = Some s1"
    using True assms(3) pop c wf vd_bytes_without [OF d, of path]
    by (auto simp: vd_insert_text_def s1_def vd_wf_def split: option.splits)
  moreover have "vd_wf entries s1"
    using wf c distinct_without [OF d, of path] vd_bytes_without [OF d, of path] without_subset [of path ?es]
    by (auto simp: vd_wf_def s1_def)
  ultimately show ?thesis using c(1) by (simp add: s1_def)
qed

text \<open>
  Property C17. Storing a virtual document ends, whatever was stored before, and keeps the
  byte total exact and within the budget. A decompiled document that fits the budget is
  found afterwards with its new text; one that does not fit, and any other kind of path,
  is not stored (an older text for it is dropped).
\<close>

theorem vd_insert_text_bounded:
  assumes "lru_spec ops entries" "vd_wf entries s" "2 * vd_max_bytes s \<le> u64_max"
  shows "\<exists>s'. vd_insert_text ops s path text = Some s' \<and> vd_wf entries s' \<and>
    vd_max_bytes s' = vd_max_bytes s \<and>
    snd (vd_get_text ops s' path) =
      (if is_decompiled_path path \<and> 0 < vd_max_bytes s \<and> str_len text \<le> vd_max_bytes s
       then Some text else None)"
proof -
  have get: "snd (vd_get_text ops s' path) =
      (if is_decompiled_path path then map_of (entries (vd_lru s')) path else None)" for s'
    using assms(1) by (auto simp: vd_get_text_def lru_spec_def split_beta)
  show ?thesis
  proof (cases "is_decompiled_path path \<and> 0 < vd_max_bytes s \<and> str_len text \<le> vd_max_bytes s")
    case True
    with vd_insert_fitting [OF assms, of path "text"] get show ?thesis by auto
  next
    case False
    then have "\<not> is_decompiled_path path \<or> vd_max_bytes s = 0 \<or> str_len text > vd_max_bytes s"
      by auto
    from vd_insert_other [OF assms(1,2) this] get False show ?thesis by auto
  qed
qed

text \<open>A cache that satisfies the contract: the list of its entries.\<close>

definition list_lru :: "((vfs_path \<times> rstr) list) lru_ops" where
  "list_lru =
     \<lparr>lru_unbounded = [],
      lru_put = (\<lambda>c k v. (without k c @ [(k, v)], map_of c k)),
      lru_pop = (\<lambda>c k. (without k c, map_of c k)),
      lru_pop_lru = (\<lambda>c. (tl c, if c = [] then None else Some (hd c))),
      lru_get = (\<lambda>c k. (case map_of c k of None \<Rightarrow> c | Some v \<Rightarrow> without k c @ [(k, v)], map_of c k)),
      lru_contains = (\<lambda>c k. map_of c k \<noteq> None)\<rparr>"

lemma list_lru_spec: "lru_spec list_lru (\<lambda>c. c)"
  by (simp add: lru_spec_def list_lru_def)

theorem vd_insert_text_bounded_witness:
  "\<exists>s'. vd_insert_text list_lru
      \<lparr>vd_max_bytes = 12, vd_total_bytes = 12,
       vd_lru = [(LegacyDecompiled [65], [97, 97, 97, 97, 97, 97]),
                 (LegacyDecompiled [66], [98, 98, 98, 98, 98, 98])]\<rparr>
      (LegacyDecompiled [67]) [99, 99, 99] = Some s' \<and>
    vd_total_bytes s' \<le> 12 \<and>
    snd (vd_get_text list_lru s' (LegacyDecompiled [67])) = Some [99, 99, 99]"
proof -
  let ?s = "\<lparr>vd_max_bytes = 12, vd_total_bytes = 12,
       vd_lru = [(LegacyDecompiled [65], [97, 97, 97, 97, 97, 97]),
                 (LegacyDecompiled [66], [98, 98, 98, 98, 98, 98])]\<rparr>"
  have h: "vd_wf (\<lambda>c. c) ?s" "2 * vd_max_bytes ?s \<le> u64_max"
    by (simp_all add: vd_wf_def nova_eval)
  have d: "is_decompiled_path (LegacyDecompiled [67])" "str_len [99, 99, 99] \<le> 12"
    by (simp_all add: nova_eval)
  show ?thesis
    using vd_insert_text_bounded [OF list_lru_spec h, of "LegacyDecompiled [67]" "[99, 99, 99]"] d
    by (auto simp: vd_wf_def)
qed

lemma vd_get_text_wf:
  assumes "lru_spec ops entries" "vd_wf entries s" "is_decompiled_path path"
  shows "vd_wf entries (fst (vd_get_text ops s path))"
    and "vd_max_bytes (fst (vd_get_text ops s path)) = vd_max_bytes s"
    and "snd (vd_get_text ops s path) = map_of (entries (vd_lru s)) path"
    and "map_of (entries (vd_lru (fst (vd_get_text ops s path)))) path = map_of (entries (vd_lru s)) path"
proof -
  let ?es = "entries (vd_lru s)" and ?s' = "fst (vd_get_text ops s path)"
  have d: "distinct (map fst ?es)" using assms(2) by (simp add: vd_wf_def)
  have get: "entries (vd_lru ?s') = (case map_of ?es path of None \<Rightarrow> ?es
        | Some v \<Rightarrow> without path ?es @ [(path, v)])" "vd_total_bytes ?s' = vd_total_bytes s"
    "vd_max_bytes ?s' = vd_max_bytes s"
    "snd (vd_get_text ops s path) = map_of ?es path"
    using assms(1,3) by (auto simp: vd_get_text_def lru_spec_def split_beta)
  show "vd_max_bytes ?s' = vd_max_bytes s" by (rule get(3))
  show "snd (vd_get_text ops s path) = map_of ?es path" by (rule get(4))
  show "map_of (entries (vd_lru ?s')) path = map_of ?es path"
    using get(1) by (auto simp: map_add_def split: option.splits)
  show "vd_wf entries ?s'"
  proof (cases "map_of ?es path")
    case None
    then show ?thesis using get assms(2) by (simp add: vd_wf_def)
  next
    case (Some v)
    have "path \<notin> fst ` set (without path ?es)" by (auto simp: without_def)
    then show ?thesis
      using Some get assms(2,3) vd_bytes_without [OF d, of path] distinct_without [OF d, of path]
        without_subset [of path ?es]
      by (auto simp: vd_wf_def)
  qed
qed

text \<open>
  Property C18. Reading a virtual document through the adapter always returns, keeps the
  store within its budget and never reports the kind \<^verbatim>\<open>Unsupported\<close>; a text that
  was read and fits the budget is served again from memory, whatever the file system
  below answers by then.
\<close>

theorem vdfs_read_cached:
  assumes "lru_spec ops entries" "vd_wf entries s" "2 * vd_max_bytes s \<le> u64_max"
    and "is_decompiled_path path"
  shows "\<exists>s' r. vdfs_read_to_string ops base s path = Some (s', r) \<and> vd_wf entries s' \<and>
    r \<noteq> Err Unsupported \<and>
    (\<forall>text. r = Ok text \<longrightarrow> 0 < vd_max_bytes s \<longrightarrow> str_len text \<le> vd_max_bytes s \<longrightarrow>
       (\<forall>base'. \<exists>s''. vdfs_read_to_string ops base' s' path = Some (s'', Ok text)))"
proof -
  have hit: "\<exists>s''. vdfs_read_to_string ops base' s1 path = Some (s'', Ok t)"
    if "vd_wf entries s1" "map_of (entries (vd_lru s1)) path = Some t" for s1 t base'
    using vd_get_text_wf(3) [OF assms(1) that(1) assms(4)] that(2) assms(4)
    by (auto simp: vdfs_read_to_string_def split: prod.splits option.splits)
  let ?g = "vd_get_text ops s path"
  note g = vd_get_text_wf [OF assms(1,2,4)]
  show ?thesis
  proof (cases "snd ?g")
    case (Some t)
    then have "vdfs_read_to_string ops base s path = Some (fst ?g, Ok t)"
      using assms(4) by (auto simp: vdfs_read_to_string_def split: prod.splits option.splits)
    with g hit [OF g(1)] Some show ?thesis by auto
  next
    case None
    then have miss: "vdfs_read_to_string ops base s path =
        (if \<not> fs_exists base path then Some (fst ?g, Err NotFound)
         else (case fs_read_to_string base path of
            Inr text \<Rightarrow> store_then (vd_insert_text ops (fst ?g) path text) (Ok text)
          | Inl e \<Rightarrow> Some (fst ?g, Err (if e = Unsupported then NotFound else e))))"
      using assms(4) by (cases ?g; cases "fs_read_to_string base path") (simp_all add: vdfs_read_to_string_def)
    show ?thesis
    proof (cases "fs_exists base path \<and> (\<exists>t. fs_read_to_string base path = Inr t)")
      case True
      then obtain t where t: "fs_read_to_string base path = Inr t" by blast
      show ?thesis
      proof (cases "0 < vd_max_bytes s \<and> str_len t \<le> vd_max_bytes s")
        case fits: True
        from vd_insert_fitting [OF assms(1) g(1) _ assms(4), of t] fits assms(3) g(2)
        obtain s' where s': "vd_insert_text ops (fst ?g) path t = Some s'" "vd_wf entries s'"
            "map_of (entries (vd_lru s')) path = Some t" by auto
        then show ?thesis using miss True t hit [OF s'(2,3)] by (auto simp: store_then_def)
      next
        case False
        then have "\<not> is_decompiled_path path \<or> vd_max_bytes (fst ?g) = 0 \<or>
            str_len t > vd_max_bytes (fst ?g)" using g(2) by auto
        from vd_insert_other [OF assms(1) g(1) this]
        obtain s' where "vd_insert_text ops (fst ?g) path t = Some s'" "vd_wf entries s'" by blast
        then show ?thesis using miss True t False by (auto simp: store_then_def)
      qed
    next
      case False
      then have "\<exists>e. vdfs_read_to_string ops base s path = Some (fst ?g, Err e) \<and> e \<noteq> Unsupported"
        using miss by (cases "fs_read_to_string base path") auto
      then show ?thesis using g(1) by auto
    qed
  qed
qed

theorem vdfs_read_cached_witness:
  "\<exists>s' r. vdfs_read_to_string list_lru
      \<lparr>fs_read_bytes = (\<lambda>_. Err Unsupported), fs_read_to_string = (\<lambda>_. Ok [104, 105]),
       fs_exists = (\<lambda>_. True)\<rparr> (vd_new list_lru 64) (Decompiled [48] [65]) = Some (s', r) \<and>
    r \<noteq> Err Unsupported \<and> vd_wf (\<lambda>c. c) s'"
proof -
  have h: "vd_wf (\<lambda>c. c) (vd_new list_lru 64)" "2 * vd_max_bytes (vd_new list_lru 64) \<le> u64_max"
      "is_decompiled_path (Decompiled [48] [65])"
    by (simp_all add: vd_wf_def nova_eval list_lru_def)
  show ?thesis using vdfs_read_cached [OF list_lru_spec h] by metis
qed

end
