(* ===== verification/Overlay_Fs.thy ===== *)
theory Overlay_Fs
  imports Document "HOL-Library.AList"
begin

text \<open>
  The overlay of open documents, after \<^verbatim>\<open>crates/nova-vfs/src/overlay_fs.rs\<close>:
  the map of open documents and the running total of their bytes. The lock serialises the
  operations, so each is a function on the state.
\<close>

section \<open>State and operations\<close>

record 'p overlay_docs =
  ov_docs :: "('p \<times> document) list"
  ov_text_bytes :: nat

definition overlay_new :: "'p overlay_docs" where
  "overlay_new = \<lparr>ov_docs = [], ov_text_bytes = 0\<rparr>"

definition doc_len :: "document \<Rightarrow> nat" where
  "doc_len d = str_len (doc_text d)"

definition ov_open_arc :: "'p overlay_docs \<Rightarrow> 'p \<Rightarrow> rstr \<Rightarrow> int \<Rightarrow> 'p overlay_docs" where
  "ov_open_arc s path text version =
     (let bytes = str_len text;
          old = map_of (ov_docs s) path;
          docs = AList.update path (document_new text version) (ov_docs s);
          total = (case old of Some d \<Rightarrow> sat_sub (ov_text_bytes s) (doc_len d)
                   | None \<Rightarrow> ov_text_bytes s)
      in s\<lparr>ov_docs := docs, ov_text_bytes := sat_add_u64 total bytes\<rparr>)"

definition ov_close :: "'p overlay_docs \<Rightarrow> 'p \<Rightarrow> 'p overlay_docs" where
  "ov_close s path =
     (case map_of (ov_docs s) path of
        Some d \<Rightarrow> s\<lparr>ov_docs := AList.delete path (ov_docs s),
                     ov_text_bytes := sat_sub (ov_text_bytes s) (doc_len d)\<rparr>
      | None \<Rightarrow> s)"

definition ov_estimated_bytes :: "'p overlay_docs \<Rightarrow> nat" where
  "ov_estimated_bytes s = ov_text_bytes s"

definition ov_rename :: "'p overlay_docs \<Rightarrow> 'p \<Rightarrow> 'p \<Rightarrow> 'p overlay_docs \<times> bool" where
  "ov_rename s from to =
     (if from = to then (s, False)
      else
        (case map_of (ov_docs s) from of
           None \<Rightarrow> (s, False)
         | Some d \<Rightarrow>
             (let docs = AList.delete from (ov_docs s); bytes = doc_len d;
                  total = sat_sub (ov_text_bytes s) bytes
              in case map_of docs to of
                   None \<Rightarrow> (s\<lparr>ov_docs := AList.update to d docs,
                              ov_text_bytes := sat_add_u64 total bytes\<rparr>, True)
                 | Some _ \<Rightarrow> (s\<lparr>ov_docs := docs, ov_text_bytes := total\<rparr>, False))))"

definition ov_rename_overwrite :: "'p overlay_docs \<Rightarrow> 'p \<Rightarrow> 'p \<Rightarrow> 'p overlay_docs" where
  "ov_rename_overwrite s from to =
     (case map_of (ov_docs s) from of
        None \<Rightarrow> s
      | Some d \<Rightarrow>
          (let docs = AList.delete from (ov_docs s); bytes = doc_len d;
               old = map_of docs to;
               total = sat_add_u64 (sat_sub (ov_text_bytes s) bytes) bytes
           in s\<lparr>ov_docs := AList.update to d docs,
                ov_text_bytes := (case old of Some o_doc \<Rightarrow> sat_sub total (doc_len o_doc)
                                  | None \<Rightarrow> total)\<rparr>))"

definition ov_is_open :: "'p overlay_docs \<Rightarrow> 'p \<Rightarrow> bool" where
  "ov_is_open s path \<longleftrightarrow> map_of (ov_docs s) path \<noteq> None"

definition ov_apply_changes ::
  "'p overlay_docs \<Rightarrow> 'p \<Rightarrow> int \<Rightarrow> content_change list \<Rightarrow>
     ('p overlay_docs \<times> (document_error, text_edit list) result) option" where
  "ov_apply_changes s path new_version changes =
     (case map_of (ov_docs s) path of
        None \<Rightarrow> Some (s, Err DocumentNotOpen)
      | Some d \<Rightarrow>
          (case apply_changes d new_version changes of
             None \<Rightarrow> None
           | Some (d', r) \<Rightarrow>
               (let before = doc_len d; after = doc_len d' in
                Some (s\<lparr>ov_docs := AList.update path d' (ov_docs s),
                       ov_text_bytes :=
                         (if after \<ge> before then sat_add_u64 (ov_text_bytes s) (after - before)
                          else sat_sub (ov_text_bytes s) (before - after))\<rparr>, r))))"

definition ov_document_text :: "'p overlay_docs \<Rightarrow> 'p \<Rightarrow> rstr option" where
  "ov_document_text s path = map_option doc_text (map_of (ov_docs s) path)"

text \<open>
  Reads: an open document hides the file below, which is only consulted on a miss.
\<close>

definition ov_read_bytes ::
  "('p \<Rightarrow> ('e, nat list) result) \<Rightarrow> 'p overlay_docs \<Rightarrow> 'p \<Rightarrow> ('e, nat list) result" where
  "ov_read_bytes base s path =
     (case ov_document_text s path of Some text \<Rightarrow> Ok (as_bytes text) | None \<Rightarrow> base path)"

definition ov_read_to_string ::
  "('p \<Rightarrow> ('e, rstr) result) \<Rightarrow> 'p overlay_docs \<Rightarrow> 'p \<Rightarrow> ('e, rstr) result" where
  "ov_read_to_string base s path =
     (case ov_document_text s path of Some text \<Rightarrow> Ok text | None \<Rightarrow> base path)"

definition ov_exists :: "('p \<Rightarrow> bool) \<Rightarrow> 'p overlay_docs \<Rightarrow> 'p \<Rightarrow> bool" where
  "ov_exists base s path \<longleftrightarrow> ov_is_open s path \<or> base path"

lemmas overlay_eval [nova_eval] =
  overlay_new_def doc_len_def ov_open_arc_def ov_close_def ov_estimated_bytes_def ov_rename_def
  ov_rename_overwrite_def ov_is_open_def ov_apply_changes_def ov_document_text_def
  ov_read_bytes_def ov_read_to_string_def ov_exists_def

section \<open>Invariant\<close>

definition docs_bytes :: "('p \<times> document) list \<Rightarrow> nat" where
  "docs_bytes ds = sum_list (map (\<lambda>e. doc_len (snd e)) ds)"

text \<open>
  One document per path, every line table in step with its text, and the running total
  exact.
\<close>

definition ov_wf :: "'p overlay_docs \<Rightarrow> bool" where
  "ov_wf s \<longleftrightarrow> distinct (map fst (ov_docs s)) \<and>
     (\<forall>e \<in> set (ov_docs s). doc_wf (snd e)) \<and> ov_text_bytes s = docs_bytes (ov_docs s) \<and>
     ov_text_bytes s \<le> u64_max"

abbreviation len_of :: "document option \<Rightarrow> nat" where
  "len_of x \<equiv> (case x of None \<Rightarrow> 0 | Some d \<Rightarrow> doc_len d)"

lemma docs_bytes_simps [simp]:
  "docs_bytes [] = 0" "docs_bytes (e # ds) = doc_len (snd e) + docs_bytes ds"
  by (simp_all add: docs_bytes_def)

lemma docs_bytes_delete:
  assumes "distinct (map fst ds)"
  shows "docs_bytes ds = docs_bytes (AList.delete p ds) + len_of (map_of ds p)"
  using assms
proof (induction ds)
  case (Cons e ds)
  show ?case
  proof (cases "fst e = p")
    case True
    then have "AList.delete p ds = ds"
      using Cons.prems by (auto simp: AList.delete_idem)
    with True show ?thesis by (cases e) simp
  next
    case False
    then show ?thesis using Cons by (cases e) simp
  qed
qed simp

lemma docs_bytes_update:
  assumes "distinct (map fst ds)"
  shows "docs_bytes (AList.update p d ds) + len_of (map_of ds p) = docs_bytes ds + doc_len d"
  using assms
proof (induction ds)
  case (Cons e ds)
  then have "fst e = p \<Longrightarrow> map_of ds p = None" by (auto simp: map_of_eq_None_iff)
  with Cons show ?case by (cases e) auto
qed simp

lemma docs_bytes_member:
  assumes "distinct (map fst ds)" "map_of ds p = Some d"
  shows "doc_len d \<le> docs_bytes ds"
  using docs_bytes_delete [OF assms(1), of p] assms(2) by simp

lemma update_wf_docs:
  assumes "distinct (map fst ds)" "\<forall>e \<in> set ds. doc_wf (snd e)" "doc_wf d"
  shows "distinct (map fst (AList.update p d ds))" "\<forall>e \<in> set (AList.update p d ds). doc_wf (snd e)"
proof -
  show dis: "distinct (map fst (AList.update p d ds))" using assms(1) by (rule distinct_update)
  show "\<forall>e \<in> set (AList.update p d ds). doc_wf (snd e)"
  proof (clarsimp)
    fix q d' assume "(q, d') \<in> set (AList.update p d ds)"
    then have "((map_of ds)(p \<mapsto> d)) q = Some d'"
      using dis by (metis map_of_eq_Some_iff update_conv')
    then show "doc_wf d'"
      using assms map_of_SomeD [of ds q d'] by (auto split: if_splits)
  qed
qed

lemma delete_wf_docs:
  assumes "distinct (map fst ds)" "\<forall>e \<in> set ds. doc_wf (snd e)"
  shows "distinct (map fst (AList.delete p ds))" "\<forall>e \<in> set (AList.delete p ds). doc_wf (snd e)"
proof -
  show "distinct (map fst (AList.delete p ds))" using assms(1) by (rule distinct_delete)
  show "\<forall>e \<in> set (AList.delete p ds). doc_wf (snd e)" using assms(2) by (simp add: AList.delete_eq)
qed

lemma ov_wf_lookup: "ov_wf s \<Longrightarrow> map_of (ov_docs s) p = Some d \<Longrightarrow> doc_wf d"
  unfolding ov_wf_def by (drule map_of_SomeD) (metis snd_conv)

lemma ov_wf_new: "ov_wf overlay_new"
  by (simp add: ov_wf_def overlay_new_def)

lemma document_new_wf [simp]: "doc_wf (document_new t v)"
  by (simp add: doc_wf_def document_new_def)

text \<open>
  Each operation keeps the invariant, provided the bytes of the open documents fit into
  64 bits afterwards.
\<close>

lemma ov_wfD:
  assumes "ov_wf s"
  shows "distinct (map fst (ov_docs s))" "\<forall>e \<in> set (ov_docs s). doc_wf (snd e)"
    "ov_text_bytes s = docs_bytes (ov_docs s)" "docs_bytes (ov_docs s) \<le> u64_max"
  using assms by (simp_all add: ov_wf_def)

lemma ov_open_arc_docs:
  "ov_docs (ov_open_arc s p t v) = AList.update p (document_new t v) (ov_docs s)"
  by (simp add: ov_open_arc_def Let_def)

lemma ov_open_arc_wf:
  assumes "ov_wf s" "docs_bytes (ov_docs (ov_open_arc s p t v)) \<le> u64_max"
  shows "ov_wf (ov_open_arc s p t v)"
proof -
  let ?ds = "ov_docs s" and ?d = "document_new t v"
  note w = ov_wfD [OF assms(1)]
  have "docs_bytes (AList.update p ?d ?ds) =
      sat_add_u64 (case map_of ?ds p of Some d \<Rightarrow> sat_sub (ov_text_bytes s) (doc_len d)
                   | None \<Rightarrow> ov_text_bytes s) (str_len t)"
    using docs_bytes_update [OF w(1), of p ?d] docs_bytes_member [OF w(1), of p] w(3) assms(2)
    by (cases "map_of ?ds p")
      (auto simp: sat_add_u64_def doc_len_def document_new_def ov_open_arc_docs)
  then show "ov_wf (ov_open_arc s p t v)"
    using update_wf_docs [OF w(1,2), of ?d p] assms(2)
    by (simp add: ov_wf_def ov_open_arc_def Let_def)
qed

lemma ov_close_wf:
  assumes "ov_wf s"
  shows "ov_wf (ov_close s p)" "map_of (ov_docs (ov_close s p)) = (map_of (ov_docs s))(p := None)"
proof -
  note w = ov_wfD [OF assms]
  show "ov_wf (ov_close s p)"
    using assms delete_wf_docs [OF w(1,2), of p] docs_bytes_delete [OF w(1), of p] w(3,4)
    by (cases "map_of (ov_docs s) p") (auto simp: ov_wf_def ov_close_def)
  show "map_of (ov_docs (ov_close s p)) = (map_of (ov_docs s))(p := None)"
    by (cases "map_of (ov_docs s) p") (auto simp: ov_close_def delete_conv' fun_upd_idem)
qed

lemma ov_rename_wf:
  assumes "ov_wf s"
  shows "ov_wf (fst (ov_rename s from to))"
    and "map_of (ov_docs (fst (ov_rename s from to))) =
      (case map_of (ov_docs s) from of
         None \<Rightarrow> map_of (ov_docs s)
       | Some d \<Rightarrow> if from = to then map_of (ov_docs s)
           else ((map_of (ov_docs s))(from := None))
             (to \<mapsto> case map_of (ov_docs s) to of Some d' \<Rightarrow> d' | None \<Rightarrow> d))"
proof -
  let ?ds = "ov_docs s" and ?del = "AList.delete from (ov_docs s)"
  note w = ov_wfD [OF assms]
  note del = delete_wf_docs [OF w(1,2), of "from"]
  show "ov_wf (fst (ov_rename s from to))"
  proof (cases "if from = to then None else map_of ?ds from")
    case None
    then show ?thesis using assms by (auto simp: ov_rename_def split: if_splits)
  next
    case move: (Some d)
    then have ne: "from \<noteq> to" and Some: "map_of ?ds from = Some d" by (auto split: if_splits)
    have tot: "docs_bytes ?ds = docs_bytes ?del + doc_len d"
      using docs_bytes_delete [OF w(1), of "from"] Some by simp
    have d: "doc_wf d" using ov_wf_lookup [OF assms Some] .
    show ?thesis
    proof (cases "map_of ?del to")
      case None
      then have "docs_bytes (AList.update to d ?del) = docs_bytes ?ds"
        using docs_bytes_update [OF del(1), of to d] tot by simp
      then show ?thesis
        using Some None ne assms update_wf_docs [OF del d, of to] tot w
        by (simp add: ov_rename_def Let_def ov_wf_def sat_add_u64_id del: map_of_eq_Some_iff)
    next
      case (Some d')
      then show ?thesis
        using \<open>map_of ?ds from = Some d\<close> ne assms del tot w
        by (simp add: ov_rename_def Let_def ov_wf_def del: map_of_eq_Some_iff)
    qed
  qed
  show "map_of (ov_docs (fst (ov_rename s from to))) =
      (case map_of ?ds from of
         None \<Rightarrow> map_of ?ds
       | Some d \<Rightarrow> if from = to then map_of ?ds
           else ((map_of ?ds)(from := None))
             (to \<mapsto> case map_of ?ds to of Some d' \<Rightarrow> d' | None \<Rightarrow> d))"
    by (cases "map_of ?ds from"; cases "map_of ?ds to")
      (auto simp: ov_rename_def Let_def delete_conv' update_conv' fun_eq_iff)
qed

lemma ov_rename_overwrite_wf:
  assumes "ov_wf s"
  shows "ov_wf (ov_rename_overwrite s from to)"
proof (cases "map_of (ov_docs s) from")
  case None
  then show ?thesis using assms by (simp add: ov_rename_overwrite_def)
next
  case (Some d)
  let ?ds = "ov_docs s" and ?del = "AList.delete from (ov_docs s)"
  note w = ov_wfD [OF assms]
  note del = delete_wf_docs [OF w(1,2), of "from"]
  have tot: "docs_bytes ?ds = docs_bytes ?del + doc_len d"
    using docs_bytes_delete [OF w(1), of "from"] Some by simp
  have d: "doc_wf d" using ov_wf_lookup [OF assms Some] .
  have "sat_add_u64 (sat_sub (docs_bytes ?ds) (doc_len d)) (doc_len d) = docs_bytes ?ds"
    using tot w(4) by (simp add: sat_add_u64_id)
  then show ?thesis
    using Some update_wf_docs [OF del d, of to] docs_bytes_update [OF del(1), of to d] tot w
    by (cases "map_of ?del to") (auto simp: ov_rename_overwrite_def Let_def ov_wf_def)
qed

lemma ov_apply_changes_wf:
  assumes "ov_wf s"
  obtains s' r where "ov_apply_changes s p v cs = Some (s', r)"
    "docs_bytes (ov_docs s') \<le> u64_max \<Longrightarrow> ov_wf s'"
    "\<And>q. map_of (ov_docs s') q = None \<longleftrightarrow> map_of (ov_docs s) q = None"
proof (cases "map_of (ov_docs s) p")
  case None
  then show thesis using that [of s "Err DocumentNotOpen"] assms by (simp add: ov_apply_changes_def)
next
  case (Some d)
  note w = ov_wfD [OF assms]
  have d: "doc_wf d" using ov_wf_lookup [OF assms Some] .
  obtain d' r where ac: "apply_changes d v cs = Some (d', r)" "doc_wf d'"
  proof -
    obtain d1 r1 where "apply_change_list d cs = Some (d1, r1)" "doc_wf d1"
      using apply_change_list_cases [OF d] by blast
    then show thesis using that by (cases r1) (auto simp: apply_changes_def doc_wf_def)
  qed
  define s' where "s' = s\<lparr>ov_docs := AList.update p d' (ov_docs s),
     ov_text_bytes := (if doc_len d' \<ge> doc_len d
        then sat_add_u64 (ov_text_bytes s) (doc_len d' - doc_len d)
        else sat_sub (ov_text_bytes s) (doc_len d - doc_len d'))\<rparr>"
  have "ov_apply_changes s p v cs = Some (s', r)"
    using Some ac by (simp add: ov_apply_changes_def s'_def Let_def)
  moreover have "ov_wf s'" if "docs_bytes (ov_docs s') \<le> u64_max"
    using that update_wf_docs [OF w(1,2) ac(2), of p] docs_bytes_update [OF w(1), of p d'] Some w
      docs_bytes_member [OF w(1) Some]
    by (auto simp: ov_wf_def s'_def sat_add_u64_def)
  moreover have "map_of (ov_docs s') q = None \<longleftrightarrow> map_of (ov_docs s) q = None" for q
    using Some by (auto simp: s'_def update_conv')
  ultimately show thesis using that by blast
qed

end
