(* ===== verification/Vfs_State.thy ===== *)
theory Vfs_State
  imports Overlay_Fs File_Registry Virtual_Docs
begin

text \<open>
  The virtual file system, after \<^verbatim>\<open>crates/nova-vfs/src/vfs.rs\<close>,
  \<^verbatim>\<open>open_documents.rs\<close> and \<^verbatim>\<open>change.rs\<close>: the facade that keeps the
  overlay of open documents, the identifiers of files, the set of open identifiers and
  the store of virtual documents consistent with each other. The outer \<open>None\<close> of an
  operation is a panic (identifiers exhausted).
\<close>

section \<open>Open documents and change events\<close>

definition open_docs_open :: "nat set \<Rightarrow> nat \<Rightarrow> nat set" where
  "open_docs_open docs file = insert file docs"

definition open_docs_close :: "nat set \<Rightarrow> nat \<Rightarrow> nat set" where
  "open_docs_close docs file = docs - {file}"

definition open_docs_is_open :: "nat set \<Rightarrow> nat \<Rightarrow> bool" where
  "open_docs_is_open docs file \<longleftrightarrow> file \<in> docs"

datatype file_change_kind = KCreated | KModified | KDeleted | KMoved

datatype file_change =
    FCreated vfs_path
  | FModified vfs_path
  | FDeleted vfs_path
  | FMoved vfs_path vfs_path

fun file_change_kind_of :: "file_change \<Rightarrow> file_change_kind" where
  "file_change_kind_of (FCreated _) = KCreated"
| "file_change_kind_of (FModified _) = KModified"
| "file_change_kind_of (FDeleted _) = KDeleted"
| "file_change_kind_of (FMoved _ _) = KMoved"

fun file_change_paths :: "file_change \<Rightarrow> vfs_path list" where
  "file_change_paths (FCreated p) = [p]"
| "file_change_paths (FModified p) = [p]"
| "file_change_paths (FDeleted p) = [p]"
| "file_change_paths (FMoved from to) = [from, to]"

datatype change_kind = CKFileSystem file_change_kind | CKDocument

datatype change_event =
    FileSystemEvent file_change
  | DocumentChanged (ev_file: nat) (ev_path: vfs_path) (ev_version: int) (ev_edits: "text_edit list")

fun change_event_kind :: "change_event \<Rightarrow> change_kind" where
  "change_event_kind (FileSystemEvent c) = CKFileSystem (file_change_kind_of c)"
| "change_event_kind (DocumentChanged _ _ _ _) = CKDocument"

section \<open>The facade\<close>

record 'c vfs =
  vfs_fs :: "vfs_path overlay_docs"
  vfs_ids :: "vfs_path file_id_registry"
  vfs_open_docs :: "nat set"
  vfs_virtual :: "'c virtual_document_store"

definition vfs_new :: "'c lru_ops \<Rightarrow> nat \<Rightarrow> 'c vfs" where
  "vfs_new ops virtual_document_max_bytes =
     \<lparr>vfs_fs = overlay_new, vfs_ids = registry_new, vfs_open_docs = {},
      vfs_virtual = vd_new ops virtual_document_max_bytes\<rparr>"

definition vfs_estimated_bytes :: "'c vfs \<Rightarrow> nat" where
  "vfs_estimated_bytes v =
     sat_add_u64 (ov_estimated_bytes (vfs_fs v)) (vd_total_bytes (vfs_virtual v))"

definition vfs_file_id :: "'c vfs \<Rightarrow> vfs_path \<Rightarrow> ('c vfs \<times> nat) option" where
  "vfs_file_id v path =
     map_option (\<lambda>(ids, i). (v\<lparr>vfs_ids := ids\<rparr>, i)) (reg_file_id (vfs_ids v) path)"

definition vfs_get_id :: "'c vfs \<Rightarrow> vfs_path \<Rightarrow> nat option" where
  "vfs_get_id v path = reg_get_id (vfs_ids v) path"

definition vfs_path_for_id :: "'c vfs \<Rightarrow> nat \<Rightarrow> vfs_path option" where
  "vfs_path_for_id v fid = reg_get_path (vfs_ids v) fid"

definition vfs_rename_path :: "'c vfs \<Rightarrow> vfs_path \<Rightarrow> vfs_path \<Rightarrow> ('c vfs \<times> nat) option" where
  "vfs_rename_path v from to =
     (let id_from = vfs_get_id v from;
          from_open = ov_is_open (vfs_fs v) from;
          fs = (if from_open then fst (ov_rename (vfs_fs v) from to) else vfs_fs v)
      in case reg_rename_path (vfs_ids v) from to of
           None \<Rightarrow> None
         | Some (ids, fid) \<Rightarrow>
             (let docs1 = (if from_open then
                             (case id_from of
                                Some i \<Rightarrow> if i \<noteq> fid then open_docs_close (vfs_open_docs v) i
                                         else vfs_open_docs v
                              | None \<Rightarrow> vfs_open_docs v)
                           else vfs_open_docs v);
                  docs2 = (if from_open \<and> ov_is_open fs to then open_docs_open docs1 fid else docs1)
              in Some (v\<lparr>vfs_fs := fs, vfs_ids := ids, vfs_open_docs := docs2\<rparr>, fid)))"

definition vfs_open_document_arc ::
  "'c vfs \<Rightarrow> vfs_path \<Rightarrow> rstr \<Rightarrow> int \<Rightarrow> ('c vfs \<times> nat) option" where
  "vfs_open_document_arc v path text version =
     (case vfs_file_id v path of
        None \<Rightarrow> None
      | Some (v', fid) \<Rightarrow>
          Some (v'\<lparr>vfs_fs := ov_open_arc (vfs_fs v') path text version,
                   vfs_open_docs := open_docs_open (vfs_open_docs v') fid\<rparr>, fid))"

definition vfs_store_virtual_document ::
  "'c lru_ops \<Rightarrow> 'c vfs \<Rightarrow> vfs_path \<Rightarrow> rstr \<Rightarrow> 'c vfs option" where
  "vfs_store_virtual_document ops v path text =
     map_option (\<lambda>s. v\<lparr>vfs_virtual := s\<rparr>) (vd_insert_text ops (vfs_virtual v) path text)"

definition vfs_close_document :: "'c vfs \<Rightarrow> vfs_path \<Rightarrow> 'c vfs" where
  "vfs_close_document v path =
     (let docs = (case vfs_get_id v path of
                    Some i \<Rightarrow> open_docs_close (vfs_open_docs v) i
                  | None \<Rightarrow> vfs_open_docs v)
      in v\<lparr>vfs_open_docs := docs, vfs_fs := ov_close (vfs_fs v) path\<rparr>)"

definition vfs_apply_document_changes ::
  "'c vfs \<Rightarrow> vfs_path \<Rightarrow> int \<Rightarrow> content_change list \<Rightarrow>
     ('c vfs \<times> (document_error, change_event) result) option" where
  "vfs_apply_document_changes v path new_version changes =
     (case vfs_file_id v path of
        None \<Rightarrow> None
      | Some (v', fid) \<Rightarrow>
          (case ov_apply_changes (vfs_fs v') path new_version changes of
             None \<Rightarrow> None
           | Some (fs, r) \<Rightarrow>
               Some (v'\<lparr>vfs_fs := fs\<rparr>,
                     map_sum (\<lambda>e. e) (\<lambda>edits. DocumentChanged fid path new_version edits) r)))"

text \<open>
  Reads go to the overlay, then to the virtual documents, then to the base file system;
  a read may touch the store of virtual documents.
\<close>

definition vfs_read_to_string ::
  "'c lru_ops \<Rightarrow> base_fs \<Rightarrow> 'c vfs \<Rightarrow> vfs_path \<Rightarrow>
     ('c vfs \<times> (io_error_kind, rstr) result) option" where
  "vfs_read_to_string ops base v path =
     (case ov_document_text (vfs_fs v) path of
        Some text \<Rightarrow> Some (v, Ok text)
      | None \<Rightarrow> map_option (\<lambda>(s, r). (v\<lparr>vfs_virtual := s\<rparr>, r))
                 (vdfs_read_to_string ops base (vfs_virtual v) path))"

definition vfs_read_bytes ::
  "'c lru_ops \<Rightarrow> base_fs \<Rightarrow> 'c vfs \<Rightarrow> vfs_path \<Rightarrow>
     ('c vfs \<times> (io_error_kind, nat list) result) option" where
  "vfs_read_bytes ops base v path =
     (case ov_document_text (vfs_fs v) path of
        Some text \<Rightarrow> Some (v, Ok (as_bytes text))
      | None \<Rightarrow> map_option (\<lambda>(s, r). (v\<lparr>vfs_virtual := s\<rparr>, r))
                 (vdfs_read_bytes ops base (vfs_virtual v) path))"

definition vfs_exists :: "'c lru_ops \<Rightarrow> base_fs \<Rightarrow> 'c vfs \<Rightarrow> vfs_path \<Rightarrow> bool" where
  "vfs_exists ops base v path \<longleftrightarrow>
     ov_exists (vdfs_exists ops base (vfs_virtual v)) (vfs_fs v) path"

lemmas vfs_eval [nova_eval] =
  open_docs_open_def open_docs_close_def open_docs_is_open_def vfs_new_def vfs_estimated_bytes_def
  vfs_file_id_def vfs_get_id_def vfs_path_for_id_def vfs_rename_path_def
  vfs_open_document_arc_def vfs_store_virtual_document_def vfs_close_document_def
  vfs_apply_document_changes_def vfs_read_to_string_def vfs_read_bytes_def vfs_exists_def

section \<open>Steps and the invariant\<close>

text \<open>
  A run of the file system: any sequence of its operations, as long as the texts of the
  open documents fit into the address space. The file system below may answer every read
  differently.
\<close>

inductive vfs_step :: "'c lru_ops \<Rightarrow> 'c vfs \<Rightarrow> 'c vfs \<Rightarrow> bool" for ops :: "'c lru_ops" where
  step_file_id: "vfs_file_id v p = Some (v', i) \<Longrightarrow> vfs_step ops v v'"
| step_rename: "vfs_rename_path v p q = Some (v', i) \<Longrightarrow> vfs_step ops v v'"
| step_open: "vfs_open_document_arc v p t n = Some (v', i) \<Longrightarrow> vfs_step ops v v'"
| step_close: "vfs_close_document v p = v' \<Longrightarrow> vfs_step ops v v'"
| step_change: "vfs_apply_document_changes v p n cs = Some (v', r) \<Longrightarrow> vfs_step ops v v'"
| step_store: "vfs_store_virtual_document ops v p t = Some v' \<Longrightarrow> vfs_step ops v v'"
| step_read: "vfs_read_to_string ops base v p = Some (v', t) \<Longrightarrow> vfs_step ops v v'"
| step_read_bytes: "vfs_read_bytes ops base v p = Some (v', b) \<Longrightarrow> vfs_step ops v v'"

inductive vfs_reachable :: "'c lru_ops \<Rightarrow> 'c vfs \<Rightarrow> bool" for ops :: "'c lru_ops" where
  reachable_new: "vfs_reachable ops (vfs_new ops n)"
| reachable_step: "vfs_reachable ops v \<Longrightarrow> vfs_step ops v v' \<Longrightarrow>
    docs_bytes (ov_docs (vfs_fs v')) \<le> u64_max \<Longrightarrow> vfs_reachable ops v'"

abbreviation open_paths :: "'c vfs \<Rightarrow> vfs_path set" where
  "open_paths v \<equiv> dom (map_of (ov_docs (vfs_fs v)))"

definition vfs_wf :: "'c vfs \<Rightarrow> bool" where
  "vfs_wf v \<longleftrightarrow> ov_wf (vfs_fs v) \<and> reg_wf (vfs_ids v) \<and>
     reg.interned (vfs_ids v) (open_paths v) \<and>
     vfs_open_docs v = reg.tracked (vfs_ids v) (open_paths v)"

lemma vfs_wfD:
  assumes "vfs_wf v"
  shows "ov_wf (vfs_fs v)" "reg_wf (vfs_ids v)" "reg.interned (vfs_ids v) (open_paths v)"
    "vfs_open_docs v = reg.tracked (vfs_ids v) (open_paths v)"
  using assms by (simp_all add: vfs_wf_def)

lemma vfs_new_wf: "vfs_wf (vfs_new ops n)"
  by (simp add: vfs_wf_def vfs_new_def ov_wf_new reg_wf_new reg.interned_def reg.tracked_def)
    (simp add: overlay_new_def)

lemma vfs_file_id_wf:
  assumes "vfs_wf v" "vfs_file_id v p = Some (v', i)"
  shows "vfs_wf v'" "vfs_fs v' = vfs_fs v" "reg_get_id (vfs_ids v') p = Some i"
proof -
  note w = vfs_wfD [OF assms(1)]
  from assms(2) obtain ids where ids: "reg_file_id (vfs_ids v) p = Some (ids, i)"
      "v' = v\<lparr>vfs_ids := ids\<rparr>"
    by (auto simp: vfs_file_id_def)
  note t = reg.tracked_intern [OF w(2) ids(1) w(3)]
  have "reg_wf ids" "reg_get_id ids p = Some i" using reg.intern_law [OF w(2) ids(1)] by auto
  with w t ids(2) show "vfs_wf v'" "vfs_fs v' = vfs_fs v" "reg_get_id (vfs_ids v') p = Some i"
    by (simp_all add: vfs_wf_def)
qed

lemma vfs_open_wf:
  assumes "vfs_wf v" "vfs_open_document_arc v p t n = Some (v', i)"
    "docs_bytes (ov_docs (vfs_fs v')) \<le> u64_max"
  shows "vfs_wf v'"
proof -
  from assms(2) obtain v1 where v1: "vfs_file_id v p = Some (v1, i)"
      "v' = v1\<lparr>vfs_fs := ov_open_arc (vfs_fs v1) p t n,
                vfs_open_docs := insert i (vfs_open_docs v1)\<rparr>"
    by (auto simp: vfs_open_document_arc_def open_docs_open_def split: option.splits)
  note f = vfs_file_id_wf [OF assms(1) v1(1)]
  note w = vfs_wfD [OF f(1)]
  have op: "open_paths v' = insert p (open_paths v1)"
    using v1(2) by (simp add: ov_open_arc_docs update_conv')
  have "ov_wf (vfs_fs v')" using ov_open_arc_wf [OF w(1)] assms(3) v1(2) by simp
  moreover have "vfs_open_docs v' = reg.tracked (vfs_ids v1) (open_paths v')"
    unfolding op using reg.tracked_insert [OF f(3)] w(4) v1(2) by simp
  moreover have "reg.interned (vfs_ids v1) (open_paths v')"
    unfolding op using w(3) f(3) by (auto simp: reg.interned_def)
  ultimately show ?thesis using v1(2) w(2) by (simp add: vfs_wf_def)
qed

lemma vfs_close_wf:
  assumes "vfs_wf v"
  shows "vfs_wf (vfs_close_document v p)"
proof -
  let ?v = "vfs_close_document v p"
  note w = vfs_wfD [OF assms]
  note c = ov_close_wf [OF w(1), of p]
  have fs: "vfs_fs ?v = ov_close (vfs_fs v) p" "vfs_ids ?v = vfs_ids v"
    by (simp_all add: vfs_close_document_def Let_def)
  have op: "open_paths ?v = open_paths v - {p}" unfolding fs c(2) by auto
  have "vfs_open_docs ?v = reg.tracked (vfs_ids v) (open_paths v - {p})"
    using w(4) reg.tracked_remove [OF w(2), of p] reg.tracked_remove_unknown [of "vfs_ids v" p]
    by (cases "reg_get_id (vfs_ids v) p")
      (simp_all add: vfs_close_document_def vfs_get_id_def open_docs_close_def)
  moreover have "reg.interned (vfs_ids v) (open_paths v - {p})"
    using w(3) by (auto simp: reg.interned_def)
  ultimately show ?thesis using w c(1) op fs by (simp add: vfs_wf_def)
qed

lemma vfs_rename_wf:
  assumes "vfs_wf v" "vfs_rename_path v from to = Some (v', i)"
  shows "vfs_wf v'"
proof -
  note w = vfs_wfD [OF assms(1)]
  from assms(2) obtain ids where r: "reg_rename_path (vfs_ids v) from to = Some (ids, i)"
    and ids: "vfs_ids v' = ids"
    by (auto simp: vfs_rename_path_def Let_def split: option.splits)
  show ?thesis
  proof (cases "from \<in> open_paths v")
    case False
    then have same: "vfs_fs v' = vfs_fs v" "vfs_open_docs v' = vfs_open_docs v"
      using assms(2) by (auto simp: vfs_rename_path_def Let_def ov_is_open_def dom_def split: option.splits)
    from reg.tracked_rename_closed [OF w(2) r w(3) False] w same ids
    show ?thesis by (simp add: vfs_wf_def)
  next
    case True
    then obtain j where j: "reg_get_id (vfs_ids v) from = Some j"
      using w(3) by (auto simp: reg.interned_def)
    have fs: "vfs_fs v' = fst (ov_rename (vfs_fs v) from to)"
      using assms(2) True by (auto simp: vfs_rename_path_def Let_def ov_is_open_def split: option.splits)
    note o = ov_rename_wf [OF w(1), of "from" to]
    have op: "open_paths v' = insert to (open_paths v - {from})"
      unfolding fs o(2) using True by (auto split: option.splits)
    have "to \<in> open_paths v'" unfolding op by simp
    then have io: "ov_is_open (fst (ov_rename (vfs_fs v) from to)) to"
      unfolding fs by (auto simp: ov_is_open_def)
    have fo: "ov_is_open (vfs_fs v) from" using True by (auto simp: ov_is_open_def)
    have "vfs_open_docs v' = insert i (if j \<noteq> i then vfs_open_docs v - {j} else vfs_open_docs v)"
      using assms(2) r j io fo
      by (auto simp: vfs_rename_path_def vfs_get_id_def Let_def open_docs_open_def
          open_docs_close_def)
    then have docs: "vfs_open_docs v' = insert i (vfs_open_docs v - {j})" by auto
    have "reg_wf ids" using reg.rename_law [OF w(2) r j] by blast
    moreover have "ov_wf (vfs_fs v')" using o(1) fs by simp
    ultimately show ?thesis
      using reg.tracked_rename_open [OF w(2) r j w(3) True] w(4) docs
      by (simp only: vfs_wf_def op ids)
  qed
qed

lemma vfs_change_wf:
  assumes "vfs_wf v" "vfs_apply_document_changes v p n cs = Some (v', r)"
    "docs_bytes (ov_docs (vfs_fs v')) \<le> u64_max"
  shows "vfs_wf v'"
proof -
  from assms(2) obtain v1 i where v1: "vfs_file_id v p = Some (v1, i)"
    by (auto simp: vfs_apply_document_changes_def split: option.splits)
  note f = vfs_file_id_wf [OF assms(1) v1]
  note w = vfs_wfD [OF f(1)]
  obtain s' r' where s': "ov_apply_changes (vfs_fs v1) p n cs = Some (s', r')"
    "docs_bytes (ov_docs s') \<le> u64_max \<Longrightarrow> ov_wf s'"
    "\<And>q. map_of (ov_docs s') q = None \<longleftrightarrow> map_of (ov_docs (vfs_fs v1)) q = None"
    using ov_apply_changes_wf [OF w(1)] by blast
  have v': "v' = v1\<lparr>vfs_fs := s'\<rparr>"
    using assms(2) v1 s'(1) by (simp add: vfs_apply_document_changes_def)
  have "open_paths v' = open_paths v1" using v' s'(3) by (auto simp: dom_def)
  with w v' s'(2) assms(3) show ?thesis by (simp add: vfs_wf_def)
qed

lemma vfs_step_wf:
  assumes "vfs_step ops v v'" "vfs_wf v" "docs_bytes (ov_docs (vfs_fs v')) \<le> u64_max"
  shows "vfs_wf v'"
  using assms
proof (cases rule: vfs_step.cases)
  case (step_store p t)
  with assms(2) show ?thesis
    by (auto simp: vfs_store_virtual_document_def vfs_wf_def)
next
  case (step_read base p t)
  with assms(2) show ?thesis
    by (auto simp: vfs_read_to_string_def vfs_wf_def split: option.splits)
next
  case (step_read_bytes base p b)
  with assms(2) show ?thesis
    by (auto simp: vfs_read_bytes_def vfs_wf_def split: option.splits)
next
  case (step_file_id p i)
  then show ?thesis using vfs_file_id_wf(1) assms(2) by blast
next
  case (step_rename p q i)
  then show ?thesis using vfs_rename_wf assms(2) by blast
next
  case (step_open p t n i)
  then show ?thesis using vfs_open_wf assms(2,3) by blast
next
  case (step_close p)
  then show ?thesis using vfs_close_wf [OF assms(2), of p] by simp
next
  case (step_change p n cs r)
  then show ?thesis using vfs_change_wf assms(2,3) by blast
qed

lemma vfs_reachable_wf: "vfs_reachable ops v \<Longrightarrow> vfs_wf v"
  by (induction rule: vfs_reachable.induct) (auto intro: vfs_new_wf vfs_step_wf)

section \<open>Properties\<close>


lemma list_vfs_open_reachable:
  assumes "vfs_open_document_arc (vfs_new ops n) p t k = Some (v, i)" "str_len t \<le> u64_max"
  shows "vfs_reachable ops v"
proof -
  have "docs_bytes (ov_docs (vfs_fs v)) = str_len t"
    using assms(1)
    by (auto simp: vfs_open_document_arc_def vfs_file_id_def vfs_new_def ov_open_arc_docs
        overlay_new_def docs_bytes_def doc_len_def document_new_def split: option.splits)
  then show ?thesis
    using reachable_step [OF reachable_new step_open [OF assms(1)]] assms(2) by simp
qed


text \<open>
  Property C5. Renaming a path with an open document to a path that is not open moves the
  document: reads through the new path see the unsaved text, the old path is no longer
  open, and the identifier returned is open and belongs to the new path.
\<close>

theorem vfs_rename_keeps_text:
  assumes "vfs_reachable ops v" "ov_document_text (vfs_fs v) from = Some t"
    and "\<not> ov_is_open (vfs_fs v) to" "vfs_rename_path v from to = Some (v', i)"
  shows "vfs_read_to_string ops base v' to = Some (v', Ok t) \<and>
    \<not> ov_is_open (vfs_fs v') from \<and>
    vfs_get_id v' to = Some i \<and> open_docs_is_open (vfs_open_docs v') i"
proof -
  have wf: "vfs_wf v" using vfs_reachable_wf [OF assms(1)] .
  note w = vfs_wfD [OF wf]
  have wf': "vfs_wf v'" using vfs_rename_wf [OF wf assms(4)] .
  note w' = vfs_wfD [OF wf']
  from assms(2) obtain d where d: "map_of (ov_docs (vfs_fs v)) from = Some d" "doc_text d = t"
    by (auto simp: ov_document_text_def)
  have to: "map_of (ov_docs (vfs_fs v)) to = None" and ne: "from \<noteq> to"
    using assms(3) d by (auto simp: ov_is_open_def)
  have fs: "vfs_fs v' = fst (ov_rename (vfs_fs v) from to)"
    using assms(4) d by (auto simp: vfs_rename_path_def Let_def ov_is_open_def split: option.splits)
  have m: "map_of (ov_docs (vfs_fs v')) = ((map_of (ov_docs (vfs_fs v)))(from := None))(to \<mapsto> d)"
    unfolding fs ov_rename_wf(2) [OF w(1)] using d to ne by simp
  from assms(4) have "\<exists>ids. reg_rename_path (vfs_ids v) from to = Some (ids, i) \<and> vfs_ids v' = ids"
    by (auto simp: vfs_rename_path_def Let_def split: option.splits)
  then have r: "reg_rename_path (vfs_ids v) from to = Some (vfs_ids v', i)" by blast
  obtain j where j: "reg_get_id (vfs_ids v) from = Some j"
    using w(3) d by (auto simp: reg.interned_def)
  have gid: "reg_get_id (vfs_ids v') to = Some i" using reg.rename_law [OF w(2) r j] by simp
  have "i \<in> vfs_open_docs v'" unfolding w'(4) using gid m by (auto simp: reg.tracked_def)
  then show ?thesis
    using m d ne gid
    by (simp add: vfs_read_to_string_def ov_document_text_def ov_is_open_def vfs_get_id_def
        open_docs_is_open_def)
qed

theorem vfs_rename_keeps_text_witness:
  "\<exists>v v'. vfs_open_document_arc (vfs_new list_lru 64) (Local [97]) [104, 105] 1 = Some (v, 0) \<and>
     vfs_rename_path v (Local [97]) (Local [98]) = Some (v', 0) \<and>
     vfs_read_to_string list_lru
       \<lparr>fs_read_bytes = (\<lambda>_. Err NotFound), fs_read_to_string = (\<lambda>_. Err NotFound),
        fs_exists = (\<lambda>_. False)\<rparr> v' (Local [98]) = Some (v', Ok [104, 105])"
proof -
  obtain v where v: "vfs_open_document_arc (vfs_new list_lru 64) (Local [97]) [104, 105] 1 = Some (v, 0)"
      "ov_document_text (vfs_fs v) (Local [97]) = Some [104, 105]"
      "\<not> ov_is_open (vfs_fs v) (Local [98])"
      "\<exists>v'. vfs_rename_path v (Local [97]) (Local [98]) = Some (v', 0)"
    by (simp add: nova_eval)
  have r: "vfs_reachable list_lru v" by (rule list_vfs_open_reachable [OF v(1)]) (simp add: nova_eval)
  from v(4) obtain v' where "vfs_rename_path v (Local [97]) (Local [98]) = Some (v', 0)" by blast
  from vfs_rename_keeps_text [OF r v(2,3) this] this v(1) show ?thesis by blast
qed

text \<open>
  Property C4. Editing an open document never panics, and a successful edit is announced
  by an event that names the document's identifier, path and new version; replaying its
  edits on the text that could be read before gives the text that can be read afterwards.
\<close>

theorem vfs_change_event_replays:
  assumes "vfs_reachable ops v" "ov_document_text (vfs_fs v) p = Some t"
  shows "\<exists>v' r. vfs_apply_document_changes v p n cs = Some (v', r) \<and>
    (\<forall>ev. r = Ok ev \<longrightarrow>
       (\<exists>i es t'. ev = DocumentChanged i p n es \<and> vfs_path_for_id v' i = Some p \<and>
          fold apply_one es (Some t) = Some t' \<and>
          vfs_read_to_string ops base v' p = Some (v', Ok t')))"
proof -
  have wf: "vfs_wf v" using vfs_reachable_wf [OF assms(1)] .
  note w = vfs_wfD [OF wf]
  from assms(2) obtain d where d: "map_of (ov_docs (vfs_fs v)) p = Some d" "doc_text d = t"
    by (auto simp: ov_document_text_def)
  obtain i where i: "reg_get_id (vfs_ids v) p = Some i"
    using w(3) d by (auto simp: reg.interned_def)
  then have fid: "vfs_file_id v p = Some (v, i)"
    by (simp add: vfs_file_id_def reg_file_id_def reg_get_id_def)
  have dw: "doc_wf d" using ov_wf_lookup [OF w(1) d(1)] .
  obtain d1 r1 where c: "apply_change_list d cs = Some (d1, r1)"
      "\<And>es. r1 = Ok es \<Longrightarrow> length es = length cs \<and>
         fold apply_one es (Some (doc_text d)) = Some (doc_text d1)"
    using apply_change_list_cases [OF dw] by blast
  have path: "vfs_path_for_id v i = Some p"
    using reg_wf_inverse [OF w(2)] i by (simp add: vfs_path_for_id_def)
  show ?thesis
  proof (cases r1)
    case (Inl e)
    then show ?thesis using c(1) d fid
      by (auto simp: vfs_apply_document_changes_def ov_apply_changes_def apply_changes_def Let_def)
  next
    case (Inr es)
    then have "fold apply_one es (Some t) = Some (doc_text d1)" using c(2) d(2) by simp
    then show ?thesis using c(1) d fid path Inr
      by (auto simp: vfs_apply_document_changes_def ov_apply_changes_def apply_changes_def Let_def
          vfs_path_for_id_def vfs_read_to_string_def ov_document_text_def update_conv')
  qed
qed

theorem vfs_change_event_replays_witness:
  "\<exists>v v' ev. vfs_open_document_arc (vfs_new list_lru 64) (Local [97]) [104, 105] 1 = Some (v, 0) \<and>
     vfs_apply_document_changes v (Local [97]) 2 [content_change_full [120]] = Some (v', Ok ev) \<and>
     (\<exists>es. ev = DocumentChanged 0 (Local [97]) 2 es \<and> fold apply_one es (Some [104, 105]) = Some [120])"
proof -
  obtain v where v: "vfs_open_document_arc (vfs_new list_lru 64) (Local [97]) [104, 105] 1 = Some (v, 0)"
      "ov_document_text (vfs_fs v) (Local [97]) = Some [104, 105]"
      "\<exists>v'. vfs_apply_document_changes v (Local [97]) 2 [content_change_full [120]] =
        Some (v', Ok (DocumentChanged 0 (Local [97]) 2 [text_edit_new \<lparr>tr_start = 0, tr_end = 2\<rparr> [120]])) \<and>
        ov_document_text (vfs_fs v') (Local [97]) = Some [120]"
    by (simp add: nova_eval)
  have r: "vfs_reachable list_lru v" by (rule list_vfs_open_reachable [OF v(1)]) (simp add: nova_eval)
  from vfs_change_event_replays [OF r v(2), of 2 "[content_change_full [120]]"] v(1,3)
  show ?thesis by (fastforce simp: vfs_read_to_string_def)
qed

end
