(* ===== verification/Hir_Body.thy ===== *)
theory Hir_Body
  imports Nova_Prelude "HOL-Library.Monad_Syntax"
begin

text \<open>
  The method body representation that flow analysis works on, after
  \<^verbatim>\<open>crates/nova-hir/src/body.rs\<close>: arenas of locals, expressions and statements
  addressed by identifiers, and the builder that allocates them. Looking up an identifier
  that is out of range, where Rust panics, is the value \<open>None\<close>. Names and messages are
  strings of bytes.
\<close>

section \<open>Data\<close>

record span =
  sp_start :: nat
  sp_end :: nat

datatype local_kind = LParam | LLocal

record local_var =
  lv_name :: string
  lv_kind :: local_kind
  lv_span :: span

datatype unary_op = NotOp

datatype binary_op = EqEq | NotEq | AndAnd | OrOr

datatype expr_kind =
    ELocal nat
  | ENull
  | EBool bool
  | EInt int
  | EString string
  | ENew string "nat list"
  | EUnary unary_op nat
  | EBinary binary_op nat nat
  | EFieldAccess nat string
  | ECall "nat option" string "nat list"
  | EInvalid "nat list"

record expr =
  ex_kind :: expr_kind
  ex_span :: span

record switch_arm =
  arm_values :: "nat list"
  arm_has_default :: bool
  arm_body :: nat
  arm_is_arrow :: bool

datatype stmt_kind =
    SBlock "nat list"
  | SLet nat "nat option"
  | SAssign nat nat
  | SExpr nat
  | SIf nat nat "nat option"
  | SWhile nat nat
  | SDoWhile nat nat
  | SFor "nat option" "nat option" "nat option" nat
  | SSwitch nat "switch_arm list"
  | STry nat "nat list" "nat option"
  | SReturn "nat option"
  | SThrow nat
  | SBreak
  | SContinue
  | SNop

record stmt =
  st_kind :: stmt_kind
  st_span :: span

record body =
  b_locals :: "local_var list"
  b_exprs :: "expr list"
  b_stmts :: "stmt list"
  b_root :: nat

definition body_expr :: "body \<Rightarrow> nat \<Rightarrow> expr option" where
  "body_expr b i = vec_get (b_exprs b) i"

definition body_stmt :: "body \<Rightarrow> nat \<Rightarrow> stmt option" where
  "body_stmt b i = vec_get (b_stmts b) i"

section \<open>The builder\<close>

record body_builder =
  bb_locals :: "local_var list"
  bb_exprs :: "expr list"
  bb_stmts :: "stmt list"

definition body_builder_new :: body_builder where
  "body_builder_new = \<lparr>bb_locals = [], bb_exprs = [], bb_stmts = []\<rparr>"

definition bb_local_with_span ::
  "body_builder \<Rightarrow> string \<Rightarrow> local_kind \<Rightarrow> span \<Rightarrow> body_builder \<times> nat" where
  "bb_local_with_span bb name kind spn =
     (bb\<lparr>bb_locals := bb_locals bb @ [\<lparr>lv_name = name, lv_kind = kind, lv_span = spn\<rparr>]\<rparr>,
      as_u32 (length (bb_locals bb)))"

definition bb_expr_with_span :: "body_builder \<Rightarrow> expr_kind \<Rightarrow> span \<Rightarrow> body_builder \<times> nat" where
  "bb_expr_with_span bb kind spn =
     (bb\<lparr>bb_exprs := bb_exprs bb @ [\<lparr>ex_kind = kind, ex_span = spn\<rparr>]\<rparr>,
      as_u32 (length (bb_exprs bb)))"

definition bb_stmt_with_span :: "body_builder \<Rightarrow> stmt_kind \<Rightarrow> span \<Rightarrow> body_builder \<times> nat" where
  "bb_stmt_with_span bb kind spn =
     (bb\<lparr>bb_stmts := bb_stmts bb @ [\<lparr>st_kind = kind, st_span = spn\<rparr>]\<rparr>,
      as_u32 (length (bb_stmts bb)))"

definition bb_finish :: "body_builder \<Rightarrow> nat \<Rightarrow> body" where
  "bb_finish bb root =
     \<lparr>b_locals = bb_locals bb, b_exprs = bb_exprs bb, b_stmts = bb_stmts bb, b_root = root\<rparr>"

definition body_empty :: "span \<Rightarrow> body" where
  "body_empty rng =
     (case bb_stmt_with_span body_builder_new (SBlock []) rng of (bb, root) \<Rightarrow> bb_finish bb root)"

lemmas hir_eval [nova_eval] =
  body_expr_def body_stmt_def vec_get_def body_builder_new_def bb_local_with_span_def
  bb_expr_with_span_def bb_stmt_with_span_def bb_finish_def body_empty_def

section \<open>Well-formed bodies\<close>

text \<open>
  The identifiers an expression or statement refers to. A body is well-formed when every
  reference stays in range and goes to something allocated earlier, the way the builder is
  used: children first.
\<close>

fun expr_children :: "expr_kind \<Rightarrow> nat list" where
  "expr_children (ENew _ args) = args"
| "expr_children (EUnary _ e) = [e]"
| "expr_children (EBinary _ l r) = [l, r]"
| "expr_children (EFieldAccess e _) = [e]"
| "expr_children (ECall r _ args) = (case r of None \<Rightarrow> args | Some e \<Rightarrow> e # args)"
| "expr_children (EInvalid es) = es"
| "expr_children _ = []"

fun expr_locals :: "expr_kind \<Rightarrow> nat list" where
  "expr_locals (ELocal l) = [l]"
| "expr_locals _ = []"

abbreviation opt_list :: "'a option \<Rightarrow> 'a list" where
  "opt_list x \<equiv> (case x of None \<Rightarrow> [] | Some y \<Rightarrow> [y])"

fun stmt_children :: "stmt_kind \<Rightarrow> nat list" where
  "stmt_children (SBlock ss) = ss"
| "stmt_children (SIf _ t e) = t # opt_list e"
| "stmt_children (SWhile _ s) = [s]"
| "stmt_children (SDoWhile s _) = [s]"
| "stmt_children (SFor i _ u s) = opt_list i @ opt_list u @ [s]"
| "stmt_children (SSwitch _ arms) = map arm_body arms"
| "stmt_children (STry s cs f) = s # cs @ opt_list f"
| "stmt_children _ = []"

fun stmt_exprs :: "stmt_kind \<Rightarrow> nat list" where
  "stmt_exprs (SLet _ i) = opt_list i"
| "stmt_exprs (SAssign _ v) = [v]"
| "stmt_exprs (SExpr e) = [e]"
| "stmt_exprs (SIf c _ _) = [c]"
| "stmt_exprs (SWhile c _) = [c]"
| "stmt_exprs (SDoWhile _ c) = [c]"
| "stmt_exprs (SFor _ c _ _) = opt_list c"
| "stmt_exprs (SSwitch e arms) = e # concat (map arm_values arms)"
| "stmt_exprs (SReturn e) = opt_list e"
| "stmt_exprs (SThrow e) = [e]"
| "stmt_exprs _ = []"

fun stmt_locals :: "stmt_kind \<Rightarrow> nat list" where
  "stmt_locals (SLet l _) = [l]"
| "stmt_locals (SAssign l _) = [l]"
| "stmt_locals _ = []"

definition expr_wf_at :: "nat \<Rightarrow> nat \<Rightarrow> expr_kind \<Rightarrow> bool" where
  "expr_wf_at n_locals i k \<longleftrightarrow> list_all (\<lambda>c. c < i) (expr_children k) \<and>
     list_all (\<lambda>l. l < n_locals) (expr_locals k)"

definition stmt_wf_at :: "nat \<Rightarrow> nat \<Rightarrow> nat \<Rightarrow> stmt_kind \<Rightarrow> bool" where
  "stmt_wf_at n_locals n_exprs i k \<longleftrightarrow> list_all (\<lambda>c. c < i) (stmt_children k) \<and>
     list_all (\<lambda>e. e < n_exprs) (stmt_exprs k) \<and> list_all (\<lambda>l. l < n_locals) (stmt_locals k)"

definition bb_wf :: "body_builder \<Rightarrow> bool" where
  "bb_wf bb \<longleftrightarrow>
     (\<forall>i < length (bb_exprs bb). expr_wf_at (length (bb_locals bb)) i (ex_kind (bb_exprs bb ! i))) \<and>
     (\<forall>i < length (bb_stmts bb).
        stmt_wf_at (length (bb_locals bb)) (length (bb_exprs bb)) i (st_kind (bb_stmts bb ! i)))"

definition body_wf :: "body \<Rightarrow> bool" where
  "body_wf b \<longleftrightarrow>
     (\<forall>i < length (b_exprs b). expr_wf_at (length (b_locals b)) i (ex_kind (b_exprs b ! i))) \<and>
     (\<forall>i < length (b_stmts b).
        stmt_wf_at (length (b_locals b)) (length (b_exprs b)) i (st_kind (b_stmts b ! i))) \<and>
     b_root b < length (b_stmts b)"

text \<open>
  Allocating an expression or statement whose references were returned by earlier
  allocations keeps the arena well-formed.
\<close>

lemma expr_wf_at_mono: "expr_wf_at n i k \<Longrightarrow> n \<le> n' \<Longrightarrow> expr_wf_at n' i k"
  by (auto simp: expr_wf_at_def list_all_iff)

lemma stmt_wf_at_mono: "stmt_wf_at n m i k \<Longrightarrow> n \<le> n' \<Longrightarrow> m \<le> m' \<Longrightarrow> stmt_wf_at n' m' i k"
  by (force simp: stmt_wf_at_def list_all_iff)

lemma bb_wf_new: "bb_wf body_builder_new"
  by (simp add: bb_wf_def body_builder_new_def)

lemma bb_wf_local: "bb_wf bb \<Longrightarrow> bb_wf (fst (bb_local_with_span bb name kind spn))"
  by (auto simp: bb_wf_def bb_local_with_span_def intro: expr_wf_at_mono stmt_wf_at_mono)

lemma bb_wf_expr:
  assumes "bb_wf bb" "expr_wf_at (length (bb_locals bb)) (length (bb_exprs bb)) kind"
  shows "bb_wf (fst (bb_expr_with_span bb kind spn))"
  using assms
  by (auto simp: bb_wf_def bb_expr_with_span_def nth_append less_Suc_eq intro: stmt_wf_at_mono)

lemma bb_wf_stmt:
  assumes "bb_wf bb"
    "stmt_wf_at (length (bb_locals bb)) (length (bb_exprs bb)) (length (bb_stmts bb)) kind"
  shows "bb_wf (fst (bb_stmt_with_span bb kind spn))"
  using assms by (auto simp: bb_wf_def bb_stmt_with_span_def nth_append less_Suc_eq)

lemma bb_wf_finish: "bb_wf bb \<Longrightarrow> root < length (bb_stmts bb) \<Longrightarrow> body_wf (bb_finish bb root)"
  by (simp add: bb_wf_def body_wf_def bb_finish_def)

lemma body_wf_expr:
  assumes "body_wf b" "body_expr b e = Some x"
  shows "e < length (b_exprs b)" "\<And>c. c \<in> set (expr_children (ex_kind x)) \<Longrightarrow> c < e"
    "\<And>l. l \<in> set (expr_locals (ex_kind x)) \<Longrightarrow> l < length (b_locals b)"
  using assms
  by (auto simp: body_wf_def body_expr_def vec_get_def expr_wf_at_def list_all_iff split: if_splits)

lemma body_wf_stmt:
  assumes "body_wf b" "body_stmt b s = Some x"
  shows "s < length (b_stmts b)" "\<And>c. c \<in> set (stmt_children (st_kind x)) \<Longrightarrow> c < s"
    "\<And>e. e \<in> set (stmt_exprs (st_kind x)) \<Longrightarrow> e < length (b_exprs b)"
    "\<And>l. l \<in> set (stmt_locals (st_kind x)) \<Longrightarrow> l < length (b_locals b)"
  using assms
  by (auto simp: body_wf_def body_stmt_def vec_get_def stmt_wf_at_def list_all_iff split: if_splits)

lemma body_expr_Some: "e < length (b_exprs b) \<Longrightarrow> \<exists>x. body_expr b e = Some x"
  by (simp add: body_expr_def vec_get_def)

lemma body_stmt_Some: "s < length (b_stmts b) \<Longrightarrow> \<exists>x. body_stmt b s = Some x"
  by (simp add: body_stmt_def vec_get_def)

section \<open>Recursion over an arena\<close>

text \<open>
  The analyses recurse along references of an arena. \<open>arena_rec z f n\<close> is such a recursion
  with body \<open>f\<close>, cut off with the value \<open>z\<close> at depth \<open>n\<close>. With the size of the arena as
  depth nothing that ends in the program is cut off: a longer chain of calls would visit
  some identifier twice and run forever.
\<close>

primrec arena_rec :: "('i \<Rightarrow> 'r) \<Rightarrow> (('i \<Rightarrow> 'r) \<Rightarrow> 'i \<Rightarrow> 'r) \<Rightarrow> nat \<Rightarrow> 'i \<Rightarrow> 'r" where
  "arena_rec z f 0 = z"
| "arena_rec z f (Suc n) = f (arena_rec z f n)"

text \<open>A recursion that only goes to smaller identifiers satisfies its equation.\<close>

definition descends :: "nat \<Rightarrow> ((nat \<Rightarrow> 'r) \<Rightarrow> nat \<Rightarrow> 'r) \<Rightarrow> bool" where
  "descends n f \<longleftrightarrow> (\<forall>g h i. i < n \<longrightarrow> (\<forall>c < i. g c = h c) \<longrightarrow> f g i = f h i)"

lemma arena_rec_depth:
  assumes "descends n f" "i < n" "i < j" "i < k"
  shows "arena_rec z f j i = arena_rec z f k i"
  using assms(2-4)
proof (induction i arbitrary: j k rule: less_induct)
  case (less i)
  then obtain j' k' where jk: "j = Suc j'" "k = Suc k'" by (metis less_imp_Suc_add)
  have "\<forall>c < i. arena_rec z f j' c = arena_rec z f k' c"
  proof (intro allI impI)
    fix c assume "c < i"
    then show "arena_rec z f j' c = arena_rec z f k' c"
      using less.IH [of c j' k'] less.prems jk by linarith
  qed
  with assms(1) less.prems(1) show ?case by (simp add: jk descends_def)
qed

lemma arena_rec_unfold:
  assumes "descends n f" "i < n"
  shows "arena_rec z f n i = f (arena_rec z f n) i"
proof -
  obtain n' where n: "n = Suc n'" using assms(2) by (cases n) auto
  have "\<forall>c < i. arena_rec z f n' c = arena_rec z f n c"
  proof (intro allI impI)
    fix c assume "c < i"
    then show "arena_rec z f n' c = arena_rec z f n c"
      using arena_rec_depth [OF assms(1), of c n' n] assms(2) n by simp
  qed
  then have "f (arena_rec z f n') i = f (arena_rec z f n) i"
    using assms unfolding descends_def by blast
  then show ?thesis by (simp add: n)
qed

section \<open>Constant conditions\<close>

text \<open>
  \<^verbatim>\<open>eval_const_bool\<close> of \<^verbatim>\<open>crates/nova-flow/src/flow.rs\<close>; \<open>rec\<close> is the
  recursive call.
\<close>

definition eval_const_bool_step ::
  "body \<Rightarrow> (nat \<Rightarrow> bool option option) \<Rightarrow> nat \<Rightarrow> bool option option" where
  "eval_const_bool_step b rec e =
     (case body_expr b e of None \<Rightarrow> None
      | Some x \<Rightarrow>
          (case ex_kind x of
             EBool value \<Rightarrow> Some (Some value)
           | EUnary NotOp e' \<Rightarrow> map_option (map_option Not) (rec e')
           | EBinary AndAnd lhs rhs \<Rightarrow>
               (case rec lhs of None \<Rightarrow> None
                | Some None \<Rightarrow> Some None
                | Some (Some v) \<Rightarrow> if v then rec rhs else Some (Some False))
           | EBinary OrOr lhs rhs \<Rightarrow>
               (case rec lhs of None \<Rightarrow> None
                | Some None \<Rightarrow> Some None
                | Some (Some v) \<Rightarrow> if v then Some (Some True) else rec rhs)
           | _ \<Rightarrow> Some None))"

definition eval_const_bool :: "body \<Rightarrow> nat \<Rightarrow> bool option option" where
  "eval_const_bool b e =
     arena_rec (\<lambda>_. None) (eval_const_bool_step b) (length (b_exprs b)) e"

lemma eval_const_bool_descends:
  assumes "body_wf b"
  shows "descends (length (b_exprs b)) (eval_const_bool_step b)"
proof -
  have "eval_const_bool_step b g e = eval_const_bool_step b h e" if "\<forall>c < e. g c = h c" for g h e
  proof (cases "body_expr b e")
    case None
    then show ?thesis by (simp add: eval_const_bool_step_def)
  next
    case (Some x)
    have "g c = h c" if "c \<in> set (expr_children (ex_kind x))" for c
      using body_wf_expr(2) [OF assms Some that] \<open>\<forall>c < e. g c = h c\<close> by simp
    with Some show ?thesis
      by (cases "ex_kind x")
        (auto simp: eval_const_bool_step_def split: unary_op.splits binary_op.splits option.splits)
  qed
  then show ?thesis by (simp add: descends_def)
qed

lemma eval_const_bool_unfold:
  assumes "body_wf b" "e < length (b_exprs b)"
  shows "eval_const_bool b e = eval_const_bool_step b (eval_const_bool b) e"
  using arena_rec_unfold [OF eval_const_bool_descends [OF assms(1)] assms(2)]
  by (simp add: eval_const_bool_def [abs_def])

lemma eval_const_bool_total:
  assumes "body_wf b" "e < length (b_exprs b)"
  shows "\<exists>r. eval_const_bool b e = Some r"
  using assms(2)
proof (induction e rule: less_induct)
  case (less e)
  from body_expr_Some [OF less.prems] obtain x where x: "body_expr b e = Some x" by blast
  have ih: "\<forall>c \<in> set (expr_children (ex_kind x)). \<exists>r. eval_const_bool b c = Some r"
    using less.IH body_wf_expr [OF assms(1) x] less.prems by (meson less_trans)
  show ?case
    using ih unfolding eval_const_bool_unfold [OF assms(1) less.prems]
    by (cases "ex_kind x")
      (auto simp: eval_const_bool_step_def x split: unary_op.splits binary_op.splits option.splits)
qed

text \<open>
  The truth values an expression can take: a constant takes its value, the logical
  operators short-circuit, anything else may be either.
\<close>

inductive may_be :: "body \<Rightarrow> nat \<Rightarrow> bool \<Rightarrow> bool" for b :: body where
  may_const: "body_expr b e = Some x \<Longrightarrow> ex_kind x = EBool v \<Longrightarrow> may_be b e v"
| may_not: "body_expr b e = Some x \<Longrightarrow> ex_kind x = EUnary NotOp e' \<Longrightarrow> may_be b e' v \<Longrightarrow>
    may_be b e (\<not> v)"
| may_and_false: "body_expr b e = Some x \<Longrightarrow> ex_kind x = EBinary AndAnd l r \<Longrightarrow>
    may_be b l False \<Longrightarrow> may_be b e False"
| may_and: "body_expr b e = Some x \<Longrightarrow> ex_kind x = EBinary AndAnd l r \<Longrightarrow>
    may_be b l True \<Longrightarrow> may_be b r v \<Longrightarrow> may_be b e v"
| may_or_true: "body_expr b e = Some x \<Longrightarrow> ex_kind x = EBinary OrOr l r \<Longrightarrow>
    may_be b l True \<Longrightarrow> may_be b e True"
| may_or: "body_expr b e = Some x \<Longrightarrow> ex_kind x = EBinary OrOr l r \<Longrightarrow>
    may_be b l False \<Longrightarrow> may_be b r v \<Longrightarrow> may_be b e v"
| may_other: "body_expr b e = Some x \<Longrightarrow>
    (\<forall>v. ex_kind x \<noteq> EBool v) \<Longrightarrow> (\<forall>e'. ex_kind x \<noteq> EUnary NotOp e') \<Longrightarrow>
    (\<forall>l r. ex_kind x \<noteq> EBinary AndAnd l r \<and> ex_kind x \<noteq> EBinary OrOr l r) \<Longrightarrow> may_be b e v"

lemma eval_const_bool_sound:
  assumes "body_wf b" "may_be b e v" "eval_const_bool b e = Some (Some w)"
  shows "v = w"
  using assms(2,3)
proof (induction arbitrary: w rule: may_be.induct)
  case (may_const e x v)
  then show ?case
    using eval_const_bool_unfold [OF assms(1) body_wf_expr(1) [OF assms(1) may_const(1)]]
    by (simp add: eval_const_bool_step_def)
next
  case (may_not e x e' v)
  then show ?case
    using eval_const_bool_unfold [OF assms(1) body_wf_expr(1) [OF assms(1) may_not(1)]]
    by (auto simp: eval_const_bool_step_def)
next
  case (may_and_false e x l r)
  then show ?case
    using eval_const_bool_unfold [OF assms(1) body_wf_expr(1) [OF assms(1) may_and_false(1)]]
    by (auto simp: eval_const_bool_step_def split: option.splits if_splits)
next
  case (may_and e x l r v)
  then show ?case
    using eval_const_bool_unfold [OF assms(1) body_wf_expr(1) [OF assms(1) may_and(1)]]
    by (auto simp: eval_const_bool_step_def split: option.splits if_splits)
next
  case (may_or_true e x l r)
  then show ?case
    using eval_const_bool_unfold [OF assms(1) body_wf_expr(1) [OF assms(1) may_or_true(1)]]
    by (auto simp: eval_const_bool_step_def split: option.splits if_splits)
next
  case (may_or e x l r v)
  then show ?case
    using eval_const_bool_unfold [OF assms(1) body_wf_expr(1) [OF assms(1) may_or(1)]]
    by (auto simp: eval_const_bool_step_def split: option.splits if_splits)
next
  case (may_other e x v)
  then show ?case
    using eval_const_bool_unfold [OF assms(1) body_wf_expr(1) [OF assms(1) may_other(1)]]
    by (auto simp: eval_const_bool_step_def split: expr_kind.splits unary_op.splits binary_op.splits)
qed

declare eval_const_bool_def [nova_eval] eval_const_bool_step_def [nova_eval]

end
