(* ===== verification/Flow_Cfg.thy ===== *)
theory Flow_Cfg
  imports Hir_Body
begin

text \<open>
  Control-flow graphs, after \<^verbatim>\<open>crates/nova-flow/src/cfg.rs\<close>: basic blocks with
  their terminators, the iterator over successors, the graph builder and the search for
  reachable blocks. \<open>None\<close> is a panic (an index out of range) or a loop that does not end.
\<close>

section \<open>Blocks and terminators\<close>

datatype terminator =
    TGoto nat "nat option"
  | TMulti "nat list" nat
  | TIf nat nat nat nat
  | TSwitch nat "nat list" nat
  | TReturn "nat option" nat
  | TThrow nat nat
  | TExit

record basic_block =
  blk_stmts :: "nat list"
  blk_term :: terminator

datatype successors =
    SuccNone
  | SuccOne nat
  | SuccTwo "nat list" nat
  | SuccMany "nat list" "nat option"

fun terminator_successors :: "terminator \<Rightarrow> successors" where
  "terminator_successors (TGoto target _) = SuccOne target"
| "terminator_successors (TIf _ then_target else_target _) = SuccTwo [then_target, else_target] 0"
| "terminator_successors (TMulti targets _) = SuccMany targets None"
| "terminator_successors (TSwitch _ targets _) = SuccMany targets None"
| "terminator_successors (TReturn _ _) = SuccNone"
| "terminator_successors (TThrow _ _) = SuccNone"
| "terminator_successors TExit = SuccNone"

fun from_stmt :: "terminator \<Rightarrow> nat option" where
  "from_stmt (TGoto _ from) = from"
| "from_stmt (TIf _ _ _ from) = Some from"
| "from_stmt (TSwitch _ _ from) = Some from"
| "from_stmt (TMulti _ from) = Some from"
| "from_stmt (TReturn _ from) = Some from"
| "from_stmt (TThrow _ from) = Some from"
| "from_stmt TExit = None"

fun successors_next :: "successors \<Rightarrow> nat option \<times> successors" where
  "successors_next SuccNone = (None, SuccNone)"
| "successors_next (SuccOne bb) = (Some bb, SuccNone)"
| "successors_next (SuccTwo blocks idx) =
     (vec_get blocks idx,
      if idx + 1 \<ge> length blocks then SuccNone else SuccTwo blocks (idx + 1))"
| "successors_next (SuccMany (x # xs) extra) = (Some x, SuccMany xs extra)"
| "successors_next (SuccMany [] extra) = (extra, SuccMany [] None)"

text \<open>What a \<^verbatim>\<open>for\<close> loop over the iterator sees.\<close>

fun succ_left :: "successors \<Rightarrow> nat" where
  "succ_left SuccNone = 0"
| "succ_left (SuccOne _) = 1"
| "succ_left (SuccTwo blocks idx) = length blocks - idx"
| "succ_left (SuccMany xs extra) = length xs + (case extra of None \<Rightarrow> 0 | Some _ \<Rightarrow> 1)"

function drain :: "successors \<Rightarrow> nat list" where
  "drain s = (case successors_next s of (None, _) \<Rightarrow> [] | (Some x, s') \<Rightarrow> x # drain s')"
  by pat_completeness auto
termination
proof (relation "measure succ_left", goal_cases)
  case (2 s x s' y)
  then have "successors_next s = (Some y, s')" by simp
  then show ?case
    by (cases s rule: successors_next.cases) (auto simp: vec_get_def split: if_splits)
qed simp

declare drain.simps [simp del, nova_eval]

definition block_successors :: "basic_block \<Rightarrow> nat list" where
  "block_successors bb = drain (terminator_successors (blk_term bb))"

text \<open>The targets, read off the terminator.\<close>

fun targets_of :: "terminator \<Rightarrow> nat list" where
  "targets_of (TGoto t _) = [t]"
| "targets_of (TIf _ t e _) = [t, e]"
| "targets_of (TMulti ts _) = ts"
| "targets_of (TSwitch _ ts _) = ts"
| "targets_of _ = []"

lemma drain_small:
  "drain SuccNone = []" "drain (SuccOne x) = [x]" "drain (SuccTwo [x, y] 0) = [x, y]"
  by (simp_all add: drain.simps vec_get_def)

lemma drain_many: "drain (SuccMany xs None) = xs"
  by (induction xs) (simp_all add: drain.simps [of "SuccMany _ _"])

lemma block_successors_eq: "block_successors bb = targets_of (blk_term bb)"
  by (cases "blk_term bb") (simp_all add: block_successors_def drain_many drain_small)

section \<open>Graphs\<close>

record control_flow_graph =
  cfg_entry :: nat
  cfg_blocks :: "basic_block list"
  cfg_preds :: "nat list list"

definition cfg_successors :: "control_flow_graph \<Rightarrow> nat \<Rightarrow> nat list option" where
  "cfg_successors g bb = map_option block_successors (vec_get (cfg_blocks g) bb)"

definition cfg_predecessors :: "control_flow_graph \<Rightarrow> nat \<Rightarrow> nat list option" where
  "cfg_predecessors g bb = vec_get (cfg_preds g) bb"

text \<open>The search: a stack of blocks to visit, its top at the end.\<close>

partial_function (option) reach_loop ::
  "control_flow_graph \<Rightarrow> bool list \<Rightarrow> nat list \<Rightarrow> bool list option" where
  "reach_loop g reachable stack =
     (if stack = [] then Some reachable
      else
        (case vec_get reachable (last stack) of
           None \<Rightarrow> None
         | Some seen \<Rightarrow>
             if seen then reach_loop g reachable (butlast stack)
             else
               (case cfg_successors g (last stack) of
                  None \<Rightarrow> None
                | Some succs \<Rightarrow>
                    reach_loop g (reachable[last stack := True]) (butlast stack @ succs))))"

definition reachable_blocks :: "control_flow_graph \<Rightarrow> bool list option" where
  "reachable_blocks g =
     reach_loop g (replicate (length (cfg_blocks g)) False) [cfg_entry g]"

section \<open>The graph builder\<close>

record cfg_builder =
  cb_blocks :: "basic_block list"
  cb_preds :: "nat list list"

definition cfg_builder_new :: cfg_builder where
  "cfg_builder_new = \<lparr>cb_blocks = [], cb_preds = []\<rparr>"

definition new_block :: "cfg_builder \<Rightarrow> cfg_builder \<times> nat" where
  "new_block cb =
     (cb\<lparr>cb_blocks := cb_blocks cb @ [\<lparr>blk_stmts = [], blk_term = TExit\<rparr>],
         cb_preds := cb_preds cb @ [[]]\<rparr>, length (cb_blocks cb))"

definition push_stmt :: "cfg_builder \<Rightarrow> nat \<Rightarrow> nat \<Rightarrow> cfg_builder option" where
  "push_stmt cb bb stmt =
     (case vec_get (cb_blocks cb) bb of None \<Rightarrow> None
      | Some blk \<Rightarrow>
          Some (cb\<lparr>cb_blocks := (cb_blocks cb)[bb := blk\<lparr>blk_stmts := blk_stmts blk @ [stmt]\<rparr>]\<rparr>))"

definition set_terminator :: "cfg_builder \<Rightarrow> nat \<Rightarrow> terminator \<Rightarrow> cfg_builder option" where
  "set_terminator cb bb term =
     (case vec_get (cb_blocks cb) bb of None \<Rightarrow> None
      | Some blk \<Rightarrow> Some (cb\<lparr>cb_blocks := (cb_blocks cb)[bb := blk\<lparr>blk_term := term\<rparr>]\<rparr>))"

definition push_pred :: "nat \<Rightarrow> nat list list \<Rightarrow> nat \<Rightarrow> nat list list option" where
  "push_pred from preds to =
     (case vec_get preds to of None \<Rightarrow> None | Some ps \<Rightarrow> Some (preds[to := ps @ [from]]))"

definition cfg_build :: "cfg_builder \<Rightarrow> nat \<Rightarrow> control_flow_graph option" where
  "cfg_build cb entry =
     map_option (\<lambda>preds. \<lparr>cfg_entry = entry, cfg_blocks = cb_blocks cb, cfg_preds = preds\<rparr>)
       (fold_opt (\<lambda>preds (idx, bb). fold_opt (push_pred idx) preds (block_successors bb))
          (map (\<lambda>_. []) (cb_preds cb)) (enumerate 0 (cb_blocks cb)))"

lemmas flow_cfg_eval [nova_eval] =
  block_successors_def cfg_successors_def cfg_predecessors_def reachable_blocks_def
  reach_loop.simps cfg_builder_new_def new_block_def push_stmt_def set_terminator_def
  push_pred_def cfg_build_def

section \<open>Well-formed graphs\<close>

definition blocks_wf :: "basic_block list \<Rightarrow> bool" where
  "blocks_wf bs \<longleftrightarrow> (\<forall>bb \<in> set bs. \<forall>t \<in> set (targets_of (blk_term bb)). t < length bs)"

definition cfg_edge :: "control_flow_graph \<Rightarrow> nat \<Rightarrow> nat \<Rightarrow> bool" where
  "cfg_edge g i j \<longleftrightarrow> i < length (cfg_blocks g) \<and> j \<in> set (targets_of (blk_term (cfg_blocks g ! i)))"

definition cfg_wf :: "control_flow_graph \<Rightarrow> bool" where
  "cfg_wf g \<longleftrightarrow> blocks_wf (cfg_blocks g) \<and> cfg_entry g < length (cfg_blocks g) \<and>
     length (cfg_preds g) = length (cfg_blocks g) \<and>
     (\<forall>j < length (cfg_blocks g). \<forall>i. i \<in> set (cfg_preds g ! j) \<longleftrightarrow> cfg_edge g i j)"

lemma cfg_edge_less: "blocks_wf (cfg_blocks g) \<Longrightarrow> cfg_edge g i j \<Longrightarrow>
    i < length (cfg_blocks g) \<and> j < length (cfg_blocks g)"
  by (auto simp: cfg_edge_def blocks_wf_def)

lemma push_preds_ok:
  assumes "\<forall>t \<in> set ts. t < length preds"
  shows "\<exists>preds'. fold_opt (push_pred i) preds ts = Some preds' \<and> length preds' = length preds \<and>
    (\<forall>j < length preds. set (preds' ! j) = set (preds ! j) \<union> (if j \<in> set ts then {i} else {}))"
  using assms
proof (induction ts arbitrary: preds)
  case (Cons t ts)
  let ?p = "preds[t := preds ! t @ [i]]"
  have s: "push_pred i preds t = Some ?p" using Cons.prems by (simp add: push_pred_def vec_get_def)
  from Cons.prems have "\<forall>t \<in> set ts. t < length ?p" by simp
  from Cons.IH [OF this] obtain q where q: "fold_opt (push_pred i) ?p ts = Some q"
      "length q = length preds"
      "\<forall>j < length preds. set (q ! j) = set (?p ! j) \<union> (if j \<in> set ts then {i} else {})" by auto
  have "\<forall>j < length preds. set (q ! j) = set (preds ! j) \<union> (if j \<in> set (t # ts) then {i} else {})"
  proof (intro allI impI)
    fix j assume j: "j < length preds"
    show "set (q ! j) = set (preds ! j) \<union> (if j \<in> set (t # ts) then {i} else {})"
      using q(3) [rule_format, OF j] j by (cases "t = j") auto
  qed
  with q s show ?case by simp
qed simp

lemma fill_preds_ok:
  assumes "\<forall>bb \<in> set bs. \<forall>t \<in> set (targets_of (blk_term bb)). t < length preds"
  shows "\<exists>preds'. fold_opt (\<lambda>preds (idx, bb). fold_opt (push_pred idx) preds (block_successors bb))
      preds (enumerate k bs) = Some preds' \<and> length preds' = length preds \<and>
    (\<forall>j < length preds. set (preds' ! j) = set (preds ! j) \<union>
       {i. k \<le> i \<and> i < k + length bs \<and> j \<in> set (targets_of (blk_term (bs ! (i - k))))})"
  using assms
proof (induction bs arbitrary: k preds)
  case (Cons bb bs)
  from Cons.prems have "\<forall>t \<in> set (block_successors bb). t < length preds"
    by (simp add: block_successors_eq)
  from push_preds_ok [OF this, of k] obtain p where
    p: "fold_opt (push_pred k) preds (block_successors bb) = Some p" "length p = length preds"
      "\<forall>j < length preds. set (p ! j) = set (preds ! j) \<union>
         (if j \<in> set (targets_of (blk_term bb)) then {k} else {})"
    by (auto simp: block_successors_eq)
  from Cons.IH [of p "Suc k"] Cons.prems p(2) obtain q where
    q: "fold_opt (\<lambda>preds (idx, bb). fold_opt (push_pred idx) preds (block_successors bb))
        p (enumerate (Suc k) bs) = Some q" "length q = length preds"
      "\<forall>j < length preds. set (q ! j) = set (p ! j) \<union>
         {i. Suc k \<le> i \<and> i < Suc k + length bs \<and> j \<in> set (targets_of (blk_term (bs ! (i - Suc k))))}"
    by auto
  have split: "{i. k \<le> i \<and> i < k + length (bb # bs) \<and>
        j \<in> set (targets_of (blk_term ((bb # bs) ! (i - k))))} =
      (if j \<in> set (targets_of (blk_term bb)) then {k} else {}) \<union>
      {i. Suc k \<le> i \<and> i < Suc k + length bs \<and> j \<in> set (targets_of (blk_term (bs ! (i - Suc k))))}" for j
    by (auto simp: nth_Cons' Suc_diff_le split: if_splits)
  have "\<forall>j < length preds. set (q ! j) = set (preds ! j) \<union>
      {i. k \<le> i \<and> i < k + length (bb # bs) \<and> j \<in> set (targets_of (blk_term ((bb # bs) ! (i - k))))}"
    using q(3) p(3) unfolding split by auto
  with p(1) q(1,2) show ?case by simp
next
  case Nil
  then show ?case by (auto intro: exI [of _ preds])
qed

lemma cfg_build_wf:
  assumes "blocks_wf (cb_blocks cb)" "length (cb_preds cb) = length (cb_blocks cb)"
    "entry < length (cb_blocks cb)"
  shows "\<exists>g. cfg_build cb entry = Some g \<and> cfg_wf g \<and> cfg_blocks g = cb_blocks cb \<and> cfg_entry g = entry"
proof -
  have "\<forall>bb \<in> set (cb_blocks cb). \<forall>t \<in> set (targets_of (blk_term bb)).
      t < length (map (\<lambda>_. [] :: nat list) (cb_preds cb))"
    using assms(1,2) by (simp add: blocks_wf_def)
  from fill_preds_ok [OF this, of 0] assms show ?thesis
    by (auto simp: cfg_build_def cfg_wf_def cfg_edge_def)
qed

section \<open>Reachability\<close>

definition unseen :: "bool list \<Rightarrow> nat" where
  "unseen r = length (filter Not r)"

lemma unseen_update:
  assumes "i < length r" "\<not> r ! i"
  shows "unseen (r[i := True]) < unseen r"
proof -
  have "r = take i r @ False # drop (Suc i) r" using id_take_nth_drop [OF assms(1)] assms(2) by simp
  then have "unseen r = unseen (take i r) + 1 + unseen (drop (Suc i) r)"
    unfolding unseen_def by (metis One_nat_def append.simps(1) filter.simps(1) filter.simps(2)
        filter_append length_Cons length_append list.size(3) add.assoc append_Cons)
  moreover have "unseen (r[i := True]) = unseen (take i r) + unseen (drop (Suc i) r)"
    using assms(1) by (simp add: upd_conv_take_nth_drop unseen_def)
  ultimately show ?thesis by simp
qed

text \<open>
  What the search maintains: seen blocks and blocks on the stack can be reached, and the
  successors of a seen block are seen or on the stack.
\<close>

definition reach_inv :: "control_flow_graph \<Rightarrow> bool list \<Rightarrow> nat list \<Rightarrow> bool" where
  "reach_inv g r stack \<longleftrightarrow> length r = length (cfg_blocks g) \<and>
     (\<forall>i \<in> set stack. i < length r \<and> (cfg_edge g)\<^sup>*\<^sup>* (cfg_entry g) i) \<and>
     (\<forall>i < length r. r ! i \<longrightarrow> (cfg_edge g)\<^sup>*\<^sup>* (cfg_entry g) i \<and>
        (\<forall>j. cfg_edge g i j \<longrightarrow> r ! j \<or> j \<in> set stack)) \<and>
     (r ! cfg_entry g \<or> cfg_entry g \<in> set stack)"

lemma reach_inv_pop:
  assumes "reach_inv g r (stack @ [i])" "r ! i"
  shows "reach_inv g r stack"
  using assms by (auto simp: reach_inv_def)

lemma reach_inv_visit:
  assumes "reach_inv g r (stack @ [i])" "\<not> r ! i" "blocks_wf (cfg_blocks g)"
  shows "reach_inv g (r[i := True]) (stack @ targets_of (blk_term (cfg_blocks g ! i)))"
proof -
  let ?ts = "targets_of (blk_term (cfg_blocks g ! i))"
  from assms(1) have i: "i < length r" "(cfg_edge g)\<^sup>*\<^sup>* (cfg_entry g) i"
    and len: "length r = length (cfg_blocks g)" by (auto simp: reach_inv_def)
  have edge: "cfg_edge g i j \<longleftrightarrow> j \<in> set ?ts" for j using i len by (simp add: cfg_edge_def)
  have ts: "j < length r \<and> (cfg_edge g)\<^sup>*\<^sup>* (cfg_entry g) j" if "j \<in> set ?ts" for j
    using that edge [of j] cfg_edge_less [OF assms(3)] i(2) len
    by (metis rtranclp.rtrancl_into_rtrancl)
  show ?thesis
    unfolding reach_inv_def
  proof (intro conjI)
    show "length (r[i := True]) = length (cfg_blocks g)" using len by simp
    show "\<forall>k \<in> set (stack @ ?ts). k < length (r[i := True]) \<and> (cfg_edge g)\<^sup>*\<^sup>* (cfg_entry g) k"
      using assms(1) ts by (auto simp: reach_inv_def)
    show "\<forall>k < length (r[i := True]). r[i := True] ! k \<longrightarrow> (cfg_edge g)\<^sup>*\<^sup>* (cfg_entry g) k \<and>
        (\<forall>j. cfg_edge g k j \<longrightarrow> r[i := True] ! j \<or> j \<in> set (stack @ ?ts))"
    proof (intro allI impI)
      fix k assume k: "k < length (r[i := True])" "r[i := True] ! k"
      show "(cfg_edge g)\<^sup>*\<^sup>* (cfg_entry g) k \<and>
          (\<forall>j. cfg_edge g k j \<longrightarrow> r[i := True] ! j \<or> j \<in> set (stack @ ?ts))"
      proof (cases "k = i")
        case True
        then show ?thesis using i(2) edge by simp
      next
        case False
        then have old: "r ! k" using k by simp
        have "r[i := True] ! j \<or> j \<in> set (stack @ ?ts)" if "cfg_edge g k j" for j
        proof -
          have "r ! j \<or> j \<in> set (stack @ [i])"
            using assms(1) old k(1) that unfolding reach_inv_def by simp
          then show ?thesis using i(1) by (cases "j = i") auto
        qed
        then show ?thesis using assms(1) old k(1) by (simp add: reach_inv_def)
      qed
    qed
    show "r[i := True] ! cfg_entry g \<or> cfg_entry g \<in> set (stack @ ?ts)"
      using assms(1) i(1) by (cases "cfg_entry g = i") (auto simp: reach_inv_def)
  qed
qed

lemma reach_loop_ok:
  assumes "reach_inv g r stack" "blocks_wf (cfg_blocks g)"
  shows "\<exists>r'. reach_loop g r stack = Some r' \<and> reach_inv g r' []"
  using assms(1)
proof (induction "(unseen r, length stack)" arbitrary: r stack rule: wf_induct_rule
    [OF wf_lex_prod [OF wf_less wf_less]])
  case (1 r stack)
  show ?case
  proof (cases stack rule: rev_cases)
    case Nil
    then show ?thesis using 1(2) by (simp add: reach_loop.simps)
  next
    case (snoc st i)
    have i: "i < length r" "length r = length (cfg_blocks g)"
      using 1(2) snoc by (auto simp: reach_inv_def)
    show ?thesis
    proof (cases "r ! i")
      case True
      have "reach_loop g r stack = reach_loop g r st"
        using snoc True i by (simp add: reach_loop.simps [of g r "st @ [i]"] vec_get_def)
      moreover have "reach_inv g r st" using reach_inv_pop 1(2) snoc True by blast
      ultimately show ?thesis using 1(1) [of r st] snoc by simp
    next
      case False
      let ?ts = "targets_of (blk_term (cfg_blocks g ! i))"
      have "reach_loop g r stack = reach_loop g (r[i := True]) (st @ ?ts)"
        using snoc False i
        by (simp add: reach_loop.simps [of g r "st @ [i]"] vec_get_def cfg_successors_def block_successors_eq)
      moreover have "reach_inv g (r[i := True]) (st @ ?ts)"
        using reach_inv_visit 1(2) snoc False assms(2) by blast
      ultimately show ?thesis
        using 1(1) [of "r[i := True]" "st @ ?ts"] unseen_update [OF i(1) False] by simp
    qed
  qed
qed

lemma reachable_blocks_ok:
  assumes "blocks_wf (cfg_blocks g)" "cfg_entry g < length (cfg_blocks g)"
  shows "\<exists>r. reachable_blocks g = Some r \<and> length r = length (cfg_blocks g) \<and>
    (\<forall>i < length (cfg_blocks g). r ! i \<longleftrightarrow> (cfg_edge g)\<^sup>*\<^sup>* (cfg_entry g) i)"
proof -
  have "reach_inv g (replicate (length (cfg_blocks g)) False) [cfg_entry g]"
    using assms(2) by (simp add: reach_inv_def)
  from reach_loop_ok [OF this assms(1)] obtain r where r: "reachable_blocks g = Some r" "reach_inv g r []"
    by (auto simp: reachable_blocks_def)
  have len: "length r = length (cfg_blocks g)"
    and seen: "r ! i \<Longrightarrow> i < length r \<Longrightarrow> (cfg_edge g)\<^sup>*\<^sup>* (cfg_entry g) i" for i
    using r(2) by (simp_all add: reach_inv_def)
  have all: "r ! i" if "(cfg_edge g)\<^sup>*\<^sup>* (cfg_entry g) i" for i
    using that
  proof (induction rule: rtranclp_induct)
    case base
    then show ?case using r(2) by (simp add: reach_inv_def)
  next
    case (step j k)
    have "j < length r" using cfg_edge_less [OF assms(1) step(2)] r(2) by (simp add: reach_inv_def)
    with step r(2) show ?case by (simp add: reach_inv_def)
  qed
  show ?thesis using r(1) len seen all by metis
qed

text \<open>
  Property C40. On a graph whose jumps stay in range, the search for reachable blocks ends
  and marks exactly the blocks to which a path leads from the entry.
\<close>

theorem reachable_blocks_exact:
  assumes "blocks_wf (cfg_blocks g)" "cfg_entry g < length (cfg_blocks g)"
  shows "\<exists>r. reachable_blocks g = Some r \<and> length r = length (cfg_blocks g) \<and>
    (\<forall>i < length (cfg_blocks g). r ! i \<longleftrightarrow> (cfg_edge g)\<^sup>*\<^sup>* (cfg_entry g) i)"
  using reachable_blocks_ok [OF assms] .

theorem reachable_blocks_exact_witness:
  "\<exists>r. reachable_blocks \<lparr>cfg_entry = 0,
      cfg_blocks = [\<lparr>blk_stmts = [], blk_term = TGoto 1 None\<rparr>, \<lparr>blk_stmts = [], blk_term = TExit\<rparr>,
        \<lparr>blk_stmts = [], blk_term = TGoto 1 None\<rparr>], cfg_preds = [[], [0, 2], []]\<rparr> = Some r \<and> r ! 1"
proof -
  let ?g = "\<lparr>cfg_entry = 0,
      cfg_blocks = [\<lparr>blk_stmts = [], blk_term = TGoto 1 None\<rparr>, \<lparr>blk_stmts = [], blk_term = TExit\<rparr>,
        \<lparr>blk_stmts = [], blk_term = TGoto 1 None\<rparr>], cfg_preds = [[], [0, 2], []]\<rparr>"
  have h: "blocks_wf (cfg_blocks ?g)" "cfg_entry ?g < length (cfg_blocks ?g)"
    by (simp_all add: blocks_wf_def)
  have "cfg_edge ?g 0 1" by (simp add: cfg_edge_def)
  then have e: "(cfg_edge ?g)\<^sup>*\<^sup>* (cfg_entry ?g) 1" by (simp add: r_into_rtranclp)
  from reachable_blocks_exact [OF h] obtain r where "reachable_blocks ?g = Some r"
      "\<forall>i < length (cfg_blocks ?g). r ! i \<longleftrightarrow> (cfg_edge ?g)\<^sup>*\<^sup>* (cfg_entry ?g) i" by blast
  with e show ?thesis by simp
qed

end
