(* ===== verification/Flow_Build.thy ===== *)
theory Flow_Build
  imports Flow_Cfg
begin

text \<open>
  Lowering a method body to a control-flow graph, after the part of
  \<^verbatim>\<open>crates/nova-flow/src/flow.rs\<close> headed \<^verbatim>\<open>CFG construction\<close>. The
  \<^verbatim>\<open>match\<close> of \<^verbatim>\<open>build_stmt\<close> is one definition per kind of
  statement; \<open>rec\<close> stands for the recursive call. Stacks have their top at the end of
  the list, as the vectors of the source.
\<close>

section \<open>The state of the builder\<close>

record break_context =
  bc_break :: nat
  bc_continue :: "nat option"

record finally_context =
  fc_bb :: nat
  fc_scope_start :: nat
  fc_targets :: "nat list"

record hir_cfg_builder =
  hb_cfg :: cfg_builder
  hb_break :: "break_context list"
  hb_finally :: "finally_context list"
  hb_exit :: nat

type_synonym build_result = "(hir_cfg_builder \<times> nat option) option"
type_synonym build_rec = "nat \<Rightarrow> hir_cfg_builder \<Rightarrow> nat \<Rightarrow> build_result"

definition hb_new_block :: "hir_cfg_builder \<Rightarrow> hir_cfg_builder \<times> nat" where
  "hb_new_block s = (case new_block (hb_cfg s) of (c, bb) \<Rightarrow> (s\<lparr>hb_cfg := c\<rparr>, bb))"

primrec hb_new_blocks :: "hir_cfg_builder \<Rightarrow> nat \<Rightarrow> hir_cfg_builder \<times> nat list" where
  "hb_new_blocks s 0 = (s, [])"
| "hb_new_blocks s (Suc n) =
     (case hb_new_block s of (s1, bb) \<Rightarrow>
        (case hb_new_blocks s1 n of (s2, bbs) \<Rightarrow> (s2, bb # bbs)))"

definition hb_set_terminator :: "hir_cfg_builder \<Rightarrow> nat \<Rightarrow> terminator \<Rightarrow> hir_cfg_builder option" where
  "hb_set_terminator s bb t = map_option (\<lambda>c. s\<lparr>hb_cfg := c\<rparr>) (set_terminator (hb_cfg s) bb t)"

definition hb_push_stmt :: "hir_cfg_builder \<Rightarrow> nat \<Rightarrow> nat \<Rightarrow> hir_cfg_builder option" where
  "hb_push_stmt s bb stmt = map_option (\<lambda>c. s\<lparr>hb_cfg := c\<rparr>) (push_stmt (hb_cfg s) bb stmt)"

text \<open>\<^verbatim>\<open>if let Some(bb) = fallthrough { set_terminator(bb, Goto { target, from: None }) }\<close>.\<close>

definition hb_join :: "hir_cfg_builder \<Rightarrow> nat option \<Rightarrow> nat \<Rightarrow> hir_cfg_builder option" where
  "hb_join s fallthrough target =
     (case fallthrough of None \<Rightarrow> Some s | Some bb \<Rightarrow> hb_set_terminator s bb (TGoto target None))"

text \<open>The terminator of a branch, cut down when the condition is constant.\<close>

definition branch_terminator :: "bool option \<Rightarrow> nat \<Rightarrow> nat \<Rightarrow> nat \<Rightarrow> nat \<Rightarrow> terminator" where
  "branch_terminator const cond then_bb else_bb stmt =
     (case const of
        Some v \<Rightarrow> TGoto (if v then then_bb else else_bb) (Some stmt)
      | None \<Rightarrow> TIf cond then_bb else_bb stmt)"

section \<open>Sequences and structured statements\<close>

definition build_seq_step ::
  "build_rec \<Rightarrow> hir_cfg_builder \<times> nat option \<times> nat option \<Rightarrow> nat \<Rightarrow>
     (hir_cfg_builder \<times> nat option \<times> nat option) option" where
  "build_seq_step rec st stmt =
     (case st of (s, reachable_current, unreachable_current) \<Rightarrow>
        (case reachable_current of
           Some cur \<Rightarrow> do { (s1, r) \<leftarrow> rec stmt s cur; Some (s1, r, unreachable_current) }
         | None \<Rightarrow>
             (case (case unreachable_current of Some bb \<Rightarrow> (s, bb) | None \<Rightarrow> hb_new_block s) of
                (s1, cur) \<Rightarrow> do { (s2, r) \<leftarrow> rec stmt s1 cur; Some (s2, None, r) })))"

definition build_seq :: "build_rec \<Rightarrow> nat list \<Rightarrow> hir_cfg_builder \<Rightarrow> nat \<Rightarrow> build_result" where
  "build_seq rec stmts s entry =
     do {
       (s1, reachable_current, _) \<leftarrow> fold_opt (build_seq_step rec) (s, Some entry, None) stmts;
       Some (s1, reachable_current)
     }"

definition build_simple :: "nat \<Rightarrow> hir_cfg_builder \<Rightarrow> nat \<Rightarrow> build_result" where
  "build_simple stmt s entry = do { s1 \<leftarrow> hb_push_stmt s entry stmt; Some (s1, Some entry) }"

definition build_if ::
  "body \<Rightarrow> build_rec \<Rightarrow> nat \<Rightarrow> nat \<Rightarrow> nat \<Rightarrow> nat option \<Rightarrow> hir_cfg_builder \<Rightarrow> nat \<Rightarrow> build_result" where
  "build_if b rec stmt condition then_branch else_branch s entry =
     (case hb_new_block s of (s1, then_entry) \<Rightarrow>
     (case hb_new_block s1 of (s2, else_entry) \<Rightarrow>
     (case hb_new_block s2 of (s3, join) \<Rightarrow>
      do {
        const \<leftarrow> eval_const_bool b condition;
        s4 \<leftarrow> hb_set_terminator s3 entry (branch_terminator const condition then_entry else_entry stmt);
        (s5, then_ft) \<leftarrow> rec then_branch s4 then_entry;
        s6 \<leftarrow> hb_join s5 then_ft join;
        (s7, else_ft) \<leftarrow> (case else_branch of
            Some st \<Rightarrow> rec st s6 else_entry
          | None \<Rightarrow> Some (s6, Some else_entry));
        s8 \<leftarrow> hb_join s7 else_ft join;
        Some (s8, if then_ft \<noteq> None \<or> else_ft \<noteq> None then Some join else None)
      })))"

definition build_while ::
  "body \<Rightarrow> build_rec \<Rightarrow> nat \<Rightarrow> nat \<Rightarrow> nat \<Rightarrow> hir_cfg_builder \<Rightarrow> nat \<Rightarrow> build_result" where
  "build_while b rec stmt condition wbody s entry =
     (case hb_new_block s of (s1, cond_bb) \<Rightarrow>
     (case hb_new_block s1 of (s2, body_bb) \<Rightarrow>
     (case hb_new_block s2 of (s3, after_bb) \<Rightarrow>
      do {
        s4 \<leftarrow> hb_set_terminator s3 entry (TGoto cond_bb None);
        const \<leftarrow> eval_const_bool b condition;
        s5 \<leftarrow> hb_set_terminator s4 cond_bb (branch_terminator const condition body_bb after_bb stmt);
        let s6 = s5\<lparr>hb_break := hb_break s5 @ [\<lparr>bc_break = after_bb, bc_continue = Some cond_bb\<rparr>]\<rparr>;
        (s7, ft) \<leftarrow> rec wbody s6 body_bb;
        s8 \<leftarrow> hb_join (s7\<lparr>hb_break := butlast (hb_break s7)\<rparr>) ft cond_bb;
        Some (s8, Some after_bb)
      })))"

definition build_do_while ::
  "body \<Rightarrow> build_rec \<Rightarrow> nat \<Rightarrow> nat \<Rightarrow> nat \<Rightarrow> hir_cfg_builder \<Rightarrow> nat \<Rightarrow> build_result" where
  "build_do_while b rec stmt wbody condition s entry =
     (case hb_new_block s of (s1, body_bb) \<Rightarrow>
     (case hb_new_block s1 of (s2, cond_bb) \<Rightarrow>
     (case hb_new_block s2 of (s3, after_bb) \<Rightarrow>
      do {
        s4 \<leftarrow> hb_set_terminator s3 entry (TGoto body_bb None);
        let s5 = s4\<lparr>hb_break := hb_break s4 @ [\<lparr>bc_break = after_bb, bc_continue = Some cond_bb\<rparr>]\<rparr>;
        (s6, ft) \<leftarrow> rec wbody s5 body_bb;
        s7 \<leftarrow> hb_join (s6\<lparr>hb_break := butlast (hb_break s6)\<rparr>) ft cond_bb;
        const \<leftarrow> eval_const_bool b condition;
        s8 \<leftarrow> hb_set_terminator s7 cond_bb (branch_terminator const condition body_bb after_bb stmt);
        Some (s8, Some after_bb)
      })))"

text \<open>The loop of a \<^verbatim>\<open>for\<close> statement, after its initialisation ended in \<open>init_end\<close>.\<close>

definition build_for_loop ::
  "body \<Rightarrow> build_rec \<Rightarrow> nat \<Rightarrow> nat option \<Rightarrow> nat option \<Rightarrow> nat \<Rightarrow> hir_cfg_builder \<Rightarrow> nat \<Rightarrow>
     build_result" where
  "build_for_loop b rec stmt condition update fbody s init_end =
     (case hb_new_block s of (s1, cond_bb) \<Rightarrow>
     (case hb_new_block s1 of (s2, body_bb) \<Rightarrow>
     (case (if update \<noteq> None then hb_new_block s2 else (s2, cond_bb)) of (s3, update_bb) \<Rightarrow>
     (case hb_new_block s3 of (s4, after_bb) \<Rightarrow>
      do {
        s5 \<leftarrow> hb_set_terminator s4 init_end (TGoto cond_bb None);
        term \<leftarrow> (case condition of
            Some cond \<Rightarrow> do {
              const \<leftarrow> eval_const_bool b cond;
              Some (branch_terminator const cond body_bb after_bb stmt) }
          | None \<Rightarrow> Some (TGoto body_bb (Some stmt)));
        s6 \<leftarrow> hb_set_terminator s5 cond_bb term;
        let s7 = s6\<lparr>hb_break := hb_break s6 @ [\<lparr>bc_break = after_bb, bc_continue = Some update_bb\<rparr>]\<rparr>;
        (s8, ft) \<leftarrow> rec fbody s7 body_bb;
        s9 \<leftarrow> hb_join (s8\<lparr>hb_break := butlast (hb_break s8)\<rparr>) ft update_bb;
        s10 \<leftarrow> (case update of
            Some update_stmt \<Rightarrow> do {
              (s', uft) \<leftarrow> rec update_stmt s9 update_bb;
              hb_join s' uft cond_bb }
          | None \<Rightarrow> Some s9);
        Some (s10, Some after_bb)
      }))))"

definition build_for ::
  "body \<Rightarrow> build_rec \<Rightarrow> nat \<Rightarrow> nat option \<Rightarrow> nat option \<Rightarrow> nat option \<Rightarrow> nat \<Rightarrow> hir_cfg_builder \<Rightarrow>
     nat \<Rightarrow> build_result" where
  "build_for b rec stmt init condition update fbody s entry =
     do {
       (s1, init_ft) \<leftarrow> (case init of
           Some i \<Rightarrow> rec i s entry
         | None \<Rightarrow> Some (s, Some entry));
       (case init_ft of
          None \<Rightarrow> Some (s1, None)
        | Some init_end \<Rightarrow> build_for_loop b rec stmt condition update fbody s1 init_end)
     }"

text \<open>One arm of a \<^verbatim>\<open>switch\<close>: it falls through to the next unless it is an arrow.\<close>

definition build_switch_arm ::
  "build_rec \<Rightarrow> nat list \<Rightarrow> nat \<Rightarrow> hir_cfg_builder \<Rightarrow> nat \<times> switch_arm \<Rightarrow> hir_cfg_builder option" where
  "build_switch_arm rec arm_entries after_bb s ia =
     (case ia of (idx, arm) \<Rightarrow>
        do {
          arm_entry \<leftarrow> vec_get arm_entries idx;
          (s1, ft) \<leftarrow> rec (arm_body arm) s arm_entry;
          let next_target =
            (if arm_is_arrow arm then after_bb
             else (case vec_get arm_entries (idx + 1) of Some t \<Rightarrow> t | None \<Rightarrow> after_bb));
          hb_join s1 ft next_target
        })"

definition build_switch ::
  "build_rec \<Rightarrow> nat \<Rightarrow> nat \<Rightarrow> switch_arm list \<Rightarrow> hir_cfg_builder \<Rightarrow> nat \<Rightarrow> build_result" where
  "build_switch rec stmt expression arms s entry =
     (case hb_new_block s of (s1, after_bb) \<Rightarrow>
     (case hb_new_blocks s1 (length arms) of (s2, arm_entries) \<Rightarrow>
      do {
        let targets = arm_entries @ (if list_ex arm_has_default arms then [] else [after_bb]);
        s3 \<leftarrow> hb_set_terminator s2 entry (TSwitch expression targets stmt);
        let s4 = s3\<lparr>hb_break := hb_break s3 @ [\<lparr>bc_break = after_bb, bc_continue = None\<rparr>]\<rparr>;
        s5 \<leftarrow> fold_opt (build_switch_arm rec arm_entries after_bb) s4 (enumerate 0 arms);
        Some (s5\<lparr>hb_break := butlast (hb_break s5)\<rparr>, Some after_bb)
      }))"

section \<open>Try statements\<close>

definition build_catch ::
  "build_rec \<Rightarrow> nat \<Rightarrow> hir_cfg_builder \<Rightarrow> nat \<times> nat \<Rightarrow> hir_cfg_builder option" where
  "build_catch rec join s ce =
     (case ce of (catch, catch_entry) \<Rightarrow>
        do { (s1, ft) \<leftarrow> rec catch s catch_entry; hb_join s1 ft join })"

text \<open>Where the copy of a \<^verbatim>\<open>finally\<close> block for abrupt exits continues.\<close>

definition finally_terminator :: "nat list \<Rightarrow> nat \<Rightarrow> terminator" where
  "finally_terminator targets stmt =
     (case remdups_adj (sort targets) of
        [] \<Rightarrow> TExit
      | [only] \<Rightarrow> TGoto only None
      | ts \<Rightarrow> TMulti ts stmt)"

definition build_try_body ::
  "build_rec \<Rightarrow> nat \<Rightarrow> nat list \<Rightarrow> nat \<Rightarrow> nat list \<Rightarrow> nat \<Rightarrow> hir_cfg_builder \<Rightarrow>
     hir_cfg_builder option" where
  "build_try_body rec tbody catches body_entry catch_entries join s =
     do {
       (s1, ft) \<leftarrow> rec tbody s body_entry;
       s2 \<leftarrow> hb_join s1 ft join;
       fold_opt (build_catch rec join) s2 (zip catches catch_entries)
     }"

definition try_entry_terminator :: "nat \<Rightarrow> nat list \<Rightarrow> nat \<Rightarrow> terminator" where
  "try_entry_terminator body_entry catch_entries stmt =
     (if catch_entries = [] then TGoto body_entry (Some stmt)
      else TMulti (body_entry # catch_entries) stmt)"

definition build_try_plain ::
  "build_rec \<Rightarrow> nat \<Rightarrow> nat \<Rightarrow> nat list \<Rightarrow> hir_cfg_builder \<Rightarrow> nat \<Rightarrow> build_result" where
  "build_try_plain rec stmt tbody catches s entry =
     (case hb_new_block s of (s1, after_bb) \<Rightarrow>
     (case hb_new_block s1 of (s2, body_entry) \<Rightarrow>
     (case hb_new_blocks s2 (length catches) of (s3, catch_entries) \<Rightarrow>
      do {
        s4 \<leftarrow> hb_set_terminator s3 entry (try_entry_terminator body_entry catch_entries stmt);
        s5 \<leftarrow> build_try_body rec tbody catches body_entry catch_entries after_bb s4;
        Some (s5, Some after_bb)
      })))"

definition build_try_finally ::
  "build_rec \<Rightarrow> nat \<Rightarrow> nat \<Rightarrow> nat list \<Rightarrow> nat \<Rightarrow> hir_cfg_builder \<Rightarrow> nat \<Rightarrow> build_result" where
  "build_try_finally rec stmt tbody catches finally_stmt s entry =
     (case hb_new_block s of (s1, after_bb) \<Rightarrow>
     (case hb_new_block s1 of (s2, normal) \<Rightarrow>
     (case hb_new_block s2 of (s3, abrupt) \<Rightarrow>
     (case hb_new_block s3 of (s4, body_entry) \<Rightarrow>
     (case hb_new_blocks s4 (length catches) of (s5, catch_entries) \<Rightarrow>
      do {
        s6 \<leftarrow> hb_set_terminator s5 entry (try_entry_terminator body_entry catch_entries stmt);
        let s7 = s6\<lparr>hb_finally := hb_finally s6 @
                     [\<lparr>fc_bb = abrupt, fc_scope_start = after_bb, fc_targets = []\<rparr>]\<rparr>;
        s8 \<leftarrow> build_try_body rec tbody catches body_entry catch_entries normal s7;
        ctx \<leftarrow> (if hb_finally s8 = [] then None else Some (last (hb_finally s8)));
        let s9 = s8\<lparr>hb_finally := butlast (hb_finally s8)\<rparr>;
        (s10, ft) \<leftarrow> rec finally_stmt s9 normal;
        s11 \<leftarrow> hb_join s10 ft after_bb;
        (s12, ft') \<leftarrow> rec finally_stmt s11 abrupt;
        s13 \<leftarrow> (case ft' of
            None \<Rightarrow> Some s12
          | Some end_bb \<Rightarrow> hb_set_terminator s12 end_bb (finally_terminator (fc_targets ctx) stmt));
        Some (s13, Some after_bb)
      })))))"

definition build_try ::
  "build_rec \<Rightarrow> nat \<Rightarrow> nat \<Rightarrow> nat list \<Rightarrow> nat option \<Rightarrow> hir_cfg_builder \<Rightarrow> nat \<Rightarrow> build_result" where
  "build_try rec stmt tbody catches finally s entry =
     (case finally of
        None \<Rightarrow> build_try_plain rec stmt tbody catches s entry
      | Some finally_stmt \<Rightarrow> build_try_finally rec stmt tbody catches finally_stmt s entry)"

section \<open>Jumps\<close>

text \<open>
  Leaving every enclosing \<^verbatim>\<open>finally\<close>: each context gets the next outer one as a
  target, the outermost the exit block.
\<close>

definition exit_targets :: "hir_cfg_builder \<Rightarrow> finally_context list" where
  "exit_targets s =
     map (\<lambda>(idx, ctx).
         ctx\<lparr>fc_targets := fc_targets ctx @
              [if idx = 0 then hb_exit s else fc_bb (hb_finally s ! (idx - 1))]\<rparr>)
       (enumerate 0 (hb_finally s))"

definition build_leave ::
  "nat \<Rightarrow> terminator \<Rightarrow> hir_cfg_builder \<Rightarrow> nat \<Rightarrow> build_result" where
  "build_leave stmt term s entry =
     (if hb_finally s = [] then
        do { s1 \<leftarrow> hb_set_terminator s entry term; Some (s1, None) }
      else
        do {
          s1 \<leftarrow> hb_push_stmt s entry stmt;
          let s2 = s1\<lparr>hb_finally := exit_targets s1\<rparr>;
          s3 \<leftarrow> hb_set_terminator s2 entry (TGoto (fc_bb (last (hb_finally s))) (Some stmt));
          Some (s3, None)
        })"

text \<open>The number of innermost contexts a jump to \<open>target\<close> leaves.\<close>

definition leaving_count :: "finally_context list \<Rightarrow> nat \<Rightarrow> nat" where
  "leaving_count fs target = length (takeWhile (\<lambda>ctx. target < fc_scope_start ctx) (rev fs))"

definition jump_targets :: "finally_context list \<Rightarrow> nat \<Rightarrow> nat \<Rightarrow> finally_context list" where
  "jump_targets fs leave_start target =
     map (\<lambda>(idx, ctx).
         if idx < leave_start then ctx
         else ctx\<lparr>fc_targets := fc_targets ctx @
                [if idx = leave_start then target else fc_bb (fs ! (idx - 1))]\<rparr>)
       (enumerate 0 fs)"

definition build_jump :: "nat \<Rightarrow> nat \<Rightarrow> hir_cfg_builder \<Rightarrow> nat \<Rightarrow> build_result" where
  "build_jump stmt target s entry =
     (let leaving = leaving_count (hb_finally s) target in
      if hb_finally s = [] \<or> leaving = 0 then
        do { s1 \<leftarrow> hb_set_terminator s entry (TGoto target (Some stmt)); Some (s1, None) }
      else
        do {
          let s1 = s\<lparr>hb_finally :=
                jump_targets (hb_finally s) (length (hb_finally s) - leaving) target\<rparr>;
          s2 \<leftarrow> hb_set_terminator s1 entry (TGoto (fc_bb (last (hb_finally s))) (Some stmt));
          Some (s2, None)
        })"

definition break_target :: "hir_cfg_builder \<Rightarrow> nat \<Rightarrow> nat" where
  "break_target s entry =
     (if hb_break s = [] then entry else bc_break (last (hb_break s)))"

definition continue_target :: "hir_cfg_builder \<Rightarrow> nat \<Rightarrow> nat" where
  "continue_target s entry =
     (case List.map_filter bc_continue (rev (hb_break s)) of [] \<Rightarrow> entry | t # _ \<Rightarrow> t)"

section \<open>Statements and bodies\<close>

definition build_stmt_step :: "body \<Rightarrow> build_rec \<Rightarrow> build_rec" where
  "build_stmt_step b rec stmt s entry =
     (case body_stmt b stmt of
        None \<Rightarrow> None
      | Some x \<Rightarrow>
          (case st_kind x of
             SBlock stmts \<Rightarrow> build_seq rec stmts s entry
           | SLet _ _ \<Rightarrow> build_simple stmt s entry
           | SAssign _ _ \<Rightarrow> build_simple stmt s entry
           | SExpr _ \<Rightarrow> build_simple stmt s entry
           | SNop \<Rightarrow> build_simple stmt s entry
           | SIf condition then_branch else_branch \<Rightarrow>
               build_if b rec stmt condition then_branch else_branch s entry
           | SWhile condition wbody \<Rightarrow> build_while b rec stmt condition wbody s entry
           | SDoWhile wbody condition \<Rightarrow> build_do_while b rec stmt wbody condition s entry
           | SFor init condition update fbody \<Rightarrow>
               build_for b rec stmt init condition update fbody s entry
           | SSwitch expression arms \<Rightarrow> build_switch rec stmt expression arms s entry
           | STry tbody catches finally \<Rightarrow> build_try rec stmt tbody catches finally s entry
           | SReturn value \<Rightarrow> build_leave stmt (TReturn value stmt) s entry
           | SThrow exception \<Rightarrow> build_leave stmt (TThrow exception stmt) s entry
           | SBreak \<Rightarrow> build_jump stmt (break_target s entry) s entry
           | SContinue \<Rightarrow> build_jump stmt (continue_target s entry) s entry))"

definition build_stmt :: "body \<Rightarrow> build_rec" where
  "build_stmt b = arena_rec (\<lambda>_ _ _. None) (build_stmt_step b) (length (b_stmts b))"

definition hir_cfg_builder_new :: "hir_cfg_builder option" where
  "hir_cfg_builder_new =
     (case new_block cfg_builder_new of (c, exit_bb) \<Rightarrow>
        map_option (\<lambda>c'. \<lparr>hb_cfg = c', hb_break = [], hb_finally = [], hb_exit = exit_bb\<rparr>)
          (set_terminator c exit_bb TExit))"

definition build_cfg :: "body \<Rightarrow> control_flow_graph option" where
  "build_cfg b =
     do {
       s \<leftarrow> hir_cfg_builder_new;
       (case hb_new_block s of (s1, entry) \<Rightarrow>
          do {
            (s2, _) \<leftarrow> build_stmt b (b_root b) s1 entry;
            cfg_build (hb_cfg s2) entry
          })
     }"

lemmas flow_build_eval [nova_eval] =
  hb_new_block_def hb_set_terminator_def hb_push_stmt_def hb_join_def branch_terminator_def
  build_seq_step_def build_seq_def build_simple_def build_if_def build_while_def
  build_do_while_def build_for_loop_def build_for_def build_switch_arm_def build_switch_def
  build_catch_def finally_terminator_def build_try_body_def try_entry_terminator_def
  build_try_plain_def build_try_finally_def build_try_def exit_targets_def build_leave_def
  leaving_count_def jump_targets_def build_jump_def break_target_def continue_target_def
  build_stmt_step_def build_stmt_def hir_cfg_builder_new_def build_cfg_def

section \<open>The builder stays in range\<close>

text \<open>
  The statements a block may hold, and the expressions a terminator may evaluate: what the
  analyses that walk the blocks rely on.
\<close>

definition simple_kind :: "stmt_kind \<Rightarrow> bool" where
  "simple_kind k = (case k of SLet _ _ \<Rightarrow> True | SAssign _ _ \<Rightarrow> True | SExpr _ \<Rightarrow> True | SNop \<Rightarrow> True
     | SReturn _ \<Rightarrow> True | SThrow _ \<Rightarrow> True | _ \<Rightarrow> False)"

definition simple_stmt :: "body \<Rightarrow> nat \<Rightarrow> bool" where
  "simple_stmt b st = (case body_stmt b st of None \<Rightarrow> False | Some x \<Rightarrow> simple_kind (st_kind x))"

fun term_exprs :: "terminator \<Rightarrow> nat list" where
  "term_exprs (TIf c _ _ _) = [c]"
| "term_exprs (TSwitch e _ _) = [e]"
| "term_exprs (TReturn v _) = opt_list v"
| "term_exprs (TThrow e _) = [e]"
| "term_exprs _ = []"

fun branches_differ :: "terminator \<Rightarrow> bool" where
  "branches_differ (TIf _ t e _) \<longleftrightarrow> t \<noteq> e"
| "branches_differ _ \<longleftrightarrow> True"

definition term_ok :: "body \<Rightarrow> nat \<Rightarrow> terminator \<Rightarrow> bool" where
  "term_ok b n t \<longleftrightarrow> (\<forall>x \<in> set (targets_of t). x < n) \<and> (\<forall>e \<in> set (term_exprs t). e < length (b_exprs b)) \<and>
     (\<forall>st. from_stmt t = Some st \<longrightarrow> st < length (b_stmts b)) \<and> branches_differ t"

definition block_ok :: "body \<Rightarrow> nat \<Rightarrow> basic_block \<Rightarrow> bool" where
  "block_ok b n blk \<longleftrightarrow> term_ok b n (blk_term blk) \<and> (\<forall>st \<in> set (blk_stmts blk). simple_stmt b st)"

abbreviation nb :: "hir_cfg_builder \<Rightarrow> nat" where
  "nb s \<equiv> length (cb_blocks (hb_cfg s))"

definition hb_inv :: "body \<Rightarrow> hir_cfg_builder \<Rightarrow> bool" where
  "hb_inv b s \<longleftrightarrow> length (cb_preds (hb_cfg s)) = nb s \<and>
     (\<forall>blk \<in> set (cb_blocks (hb_cfg s)). block_ok b (nb s) blk) \<and>
     (\<forall>c \<in> set (hb_break s). bc_break c < nb s \<and> (\<forall>t. bc_continue c = Some t \<longrightarrow> t < nb s)) \<and>
     (\<forall>c \<in> set (hb_finally s). fc_bb c < nb s \<and> (\<forall>t \<in> set (fc_targets c). t < nb s)) \<and>
     hb_exit s < nb s"

text \<open>What a step of the builder does to the state around it.\<close>

definition hb_ext :: "body \<Rightarrow> hir_cfg_builder \<Rightarrow> hir_cfg_builder \<Rightarrow> bool" where
  "hb_ext b s s' \<longleftrightarrow> hb_inv b s' \<and> nb s \<le> nb s' \<and> hb_break s' = hb_break s \<and>
     length (hb_finally s') = length (hb_finally s)"

definition hb_post :: "body \<Rightarrow> hir_cfg_builder \<Rightarrow> build_result \<Rightarrow> bool" where
  "hb_post b s m \<longleftrightarrow> (\<exists>s' r. m = Some (s', r) \<and> hb_ext b s s' \<and> (\<forall>bb. r = Some bb \<longrightarrow> bb < nb s'))"

lemma hb_ext_refl: "hb_inv b s \<Longrightarrow> hb_ext b s s"
  by (simp add: hb_ext_def)

lemma hb_ext_trans: "hb_ext b s s' \<Longrightarrow> hb_ext b s' s'' \<Longrightarrow> hb_ext b s s''"
  by (auto simp: hb_ext_def)

lemma hb_extD: "hb_ext b s s' \<Longrightarrow> hb_inv b s'" "hb_ext b s s' \<Longrightarrow> nb s \<le> nb s'"
  by (simp_all add: hb_ext_def)

lemma hb_postI: "hb_ext b s s' \<Longrightarrow> (\<And>bb. r = Some bb \<Longrightarrow> bb < nb s') \<Longrightarrow> hb_post b s (Some (s', r))"
  by (auto simp: hb_post_def)

lemma hb_postE:
  assumes "hb_post b s m"
  obtains s' r where "m = Some (s', r)" "hb_ext b s s'" "\<And>bb. r = Some bb \<Longrightarrow> bb < nb s'"
  using assms by (auto simp: hb_post_def)

lemma hb_post_ext: "hb_ext b s s1 \<Longrightarrow> hb_post b s1 m \<Longrightarrow> hb_post b s m"
  unfolding hb_post_def using hb_ext_trans by blast

lemma term_ok_mono: "term_ok b n t \<Longrightarrow> n \<le> n' \<Longrightarrow> term_ok b n' t"
  by (auto simp: term_ok_def)

lemma block_ok_mono: "block_ok b n blk \<Longrightarrow> n \<le> n' \<Longrightarrow> block_ok b n' blk"
  by (auto simp: block_ok_def intro: term_ok_mono)

lemma hb_new_block_ok:
  assumes "hb_inv b s"
  obtains s' where "hb_new_block s = (s', nb s)" "hb_ext b s s'" "nb s' = Suc (nb s)"
    "hb_finally s' = hb_finally s"
proof -
  let ?s = "fst (hb_new_block s)"
  have s: "hb_new_block s = (?s, nb s)" "nb ?s = Suc (nb s)" "hb_finally ?s = hb_finally s"
    "hb_break ?s = hb_break s"
    by (simp_all add: hb_new_block_def new_block_def)
  have "block_ok b (Suc (nb s)) blk" if "blk \<in> set (cb_blocks (hb_cfg s))" for blk
    using that assms block_ok_mono [of b "nb s" blk "Suc (nb s)"] by (simp add: hb_inv_def)
  moreover have "block_ok b n \<lparr>blk_stmts = [], blk_term = TExit\<rparr>" for n
    by (simp add: block_ok_def term_ok_def)
  moreover note assms
  ultimately have "hb_inv b ?s"
    by (force simp: hb_inv_def hb_new_block_def new_block_def)
  with s have "hb_ext b s ?s" by (simp add: hb_ext_def)
  with s show thesis using that by blast
qed

lemma hb_new_blocks_ok:
  assumes "hb_inv b s"
  obtains s' bbs where "hb_new_blocks s n = (s', bbs)" "hb_ext b s s'" "length bbs = n"
    "\<forall>bb \<in> set bbs. bb < nb s'" "hb_finally s' = hb_finally s"
  using assms
proof (induction n arbitrary: s thesis)
  case 0
  then show ?case by (simp add: hb_ext_refl)
next
  case (Suc n)
  obtain s1 where s1: "hb_new_block s = (s1, nb s)" "hb_ext b s s1" "nb s1 = Suc (nb s)"
      "hb_finally s1 = hb_finally s"
    using hb_new_block_ok [OF Suc.prems(2)] by blast
  obtain s2 bbs where s2: "hb_new_blocks s1 n = (s2, bbs)" "hb_ext b s1 s2" "length bbs = n"
      "\<forall>bb \<in> set bbs. bb < nb s2" "hb_finally s2 = hb_finally s1"
    using Suc.IH [OF _ hb_extD(1) [OF s1(2)]] by blast
  show ?case
    using Suc.prems(1) [of s2 "nb s # bbs"] s1 s2 hb_extD(2) [OF s2(2)] hb_ext_trans [OF s1(2) s2(2)]
    by simp
qed

lemma hb_update_block_ok:
  assumes "hb_inv b s" "bb < nb s" "block_ok b (nb s) blk"
  shows "hb_ext b s (s\<lparr>hb_cfg := (hb_cfg s)\<lparr>cb_blocks := (cb_blocks (hb_cfg s))[bb := blk]\<rparr>\<rparr>)"
proof -
  have "block_ok b (nb s) x" if "x \<in> set ((cb_blocks (hb_cfg s))[bb := blk])" for x
    using set_list_update_subset [OF that] assms by (auto simp: hb_inv_def)
  with assms show ?thesis by (auto simp: hb_ext_def hb_inv_def)
qed

lemma hb_set_terminator_ok:
  assumes "hb_inv b s" "bb < nb s" "term_ok b (nb s) t"
  obtains s' where "hb_set_terminator s bb t = Some s'" "hb_ext b s s'" "nb s' = nb s"
    "hb_finally s' = hb_finally s"
proof -
  let ?blk = "cb_blocks (hb_cfg s) ! bb"
  have "block_ok b (nb s) ?blk" using assms by (simp add: hb_inv_def)
  then have "block_ok b (nb s) (?blk\<lparr>blk_term := t\<rparr>)" using assms(3) by (simp add: block_ok_def)
  from hb_update_block_ok [OF assms(1,2) this] show thesis
    using that assms(2) by (simp add: hb_set_terminator_def set_terminator_def vec_get_def)
qed

lemma hb_push_stmt_ok:
  assumes "hb_inv b s" "bb < nb s" "simple_stmt b st"
  obtains s' where "hb_push_stmt s bb st = Some s'" "hb_ext b s s'" "nb s' = nb s"
    "hb_finally s' = hb_finally s" "hb_exit s' = hb_exit s"
proof -
  let ?blk = "cb_blocks (hb_cfg s) ! bb"
  have "block_ok b (nb s) ?blk" using assms by (simp add: hb_inv_def)
  then have "block_ok b (nb s) (?blk\<lparr>blk_stmts := blk_stmts ?blk @ [st]\<rparr>)"
    using assms(3) by (auto simp: block_ok_def)
  from hb_update_block_ok [OF assms(1,2) this] show thesis
    using that assms(2) by (simp add: hb_push_stmt_def push_stmt_def vec_get_def)
qed

lemma hb_join_ok:
  assumes "hb_inv b s" "\<And>bb. r = Some bb \<Longrightarrow> bb < nb s" "target < nb s"
  obtains s' where "hb_join s r target = Some s'" "hb_ext b s s'" "nb s' = nb s"
    "hb_finally s' = hb_finally s"
proof (cases r)
  case None
  then show thesis using that [of s] assms(1) by (simp add: hb_join_def hb_ext_refl)
next
  case (Some bb)
  have "term_ok b (nb s) (TGoto target None)" using assms(3) by (simp add: term_ok_def)
  from hb_set_terminator_ok [OF assms(1) assms(2) [OF Some] this] Some show thesis
    using that by (auto simp: hb_join_def)
qed

section \<open>Every statement is lowered\<close>

definition rec_ok :: "body \<Rightarrow> build_rec \<Rightarrow> nat \<Rightarrow> bool" where
  "rec_ok b rec st \<longleftrightarrow> (\<forall>s entry. hb_inv b s \<longrightarrow> entry < nb s \<longrightarrow> hb_post b s (rec st s entry))"

lemma rec_okE:
  assumes "rec_ok b rec st" "hb_inv b s" "entry < nb s"
  obtains s' r where "rec st s entry = Some (s', r)" "hb_ext b s s'" "\<And>bb. r = Some bb \<Longrightarrow> bb < nb s'"
proof -
  have "hb_post b s (rec st s entry)" using assms by (simp add: rec_ok_def)
  then show thesis by (rule hb_postE) (rule that)
qed

text \<open>The body of a loop or switch is built with its jump targets on the stack.\<close>

lemma hb_push_break_inv:
  assumes "hb_inv b s" "bc_break ctx < nb s" "\<And>t. bc_continue ctx = Some t \<Longrightarrow> t < nb s"
  shows "hb_inv b (s\<lparr>hb_break := hb_break s @ [ctx]\<rparr>)"
  using assms by (auto simp: hb_inv_def)

lemma hb_pop_break_ext:
  assumes "hb_ext b (s\<lparr>hb_break := hb_break s @ [ctx]\<rparr>) s'"
  shows "hb_ext b s (s'\<lparr>hb_break := butlast (hb_break s')\<rparr>)"
  using assms by (auto simp: hb_ext_def hb_inv_def)

lemma rec_in_loop:
  assumes "rec_ok b rec st" "hb_inv b s" "entry < nb s"
    "bc_break ctx < nb s" "\<And>t. bc_continue ctx = Some t \<Longrightarrow> t < nb s"
  obtains s' r where "rec st (s\<lparr>hb_break := hb_break s @ [ctx]\<rparr>) entry = Some (s', r)"
    "hb_ext b s (s'\<lparr>hb_break := butlast (hb_break s')\<rparr>)" "\<And>bb. r = Some bb \<Longrightarrow> bb < nb s'"
proof -
  let ?s = "s\<lparr>hb_break := hb_break s @ [ctx]\<rparr>"
  have "hb_inv b ?s" using hb_push_break_inv [OF assms(2,4,5)] by blast
  then obtain s' r where "rec st ?s entry = Some (s', r)" "hb_ext b ?s s'"
      "\<And>bb. r = Some bb \<Longrightarrow> bb < nb s'"
    using rec_okE [OF assms(1), of ?s entry] assms(3) by auto
  then show thesis using that hb_pop_break_ext by blast
qed

lemma branch_ok:
  assumes "cond < length (b_exprs b)" "t < n" "e < n" "stmt < length (b_stmts b)" "t \<noteq> e"
  shows "term_ok b n (branch_terminator c cond t e stmt)"
  using assms by (auto simp: branch_terminator_def term_ok_def split: option.splits)

lemma goto_ok: "t < n \<Longrightarrow> (\<And>x. st = Some x \<Longrightarrow> x < length (b_stmts b)) \<Longrightarrow> term_ok b n (TGoto t st)"
  by (auto simp: term_ok_def)

lemma build_simple_ok:
  assumes "hb_inv b s" "entry < nb s" "simple_stmt b stmt"
  shows "hb_post b s (build_simple stmt s entry)"
proof -
  obtain s' where "hb_push_stmt s entry stmt = Some s'" "hb_ext b s s'" "nb s' = nb s"
    using hb_push_stmt_ok [OF assms] by blast
  then show ?thesis using assms(2) by (auto simp: build_simple_def intro: hb_postI)
qed

lemma build_seq_ok:
  assumes "\<forall>st \<in> set stmts. rec_ok b rec st" "hb_inv b s" "entry < nb s"
  shows "hb_post b s (build_seq rec stmts s entry)"
proof -
  let ?P = "\<lambda>(s', rc, uc). hb_ext b s s' \<and> (\<forall>bb. rc = Some bb \<longrightarrow> bb < nb s') \<and>
      (\<forall>bb. uc = Some bb \<longrightarrow> bb < nb s')"
  have "\<exists>y. build_seq_step rec x st = Some y \<and> ?P y" if P: "?P x" and st: "st \<in> set stmts" for x st
  proof -
    obtain s1 rc uc where x: "x = (s1, rc, uc)" by (cases x)
    with P have e: "hb_ext b s s1" "\<And>bb. rc = Some bb \<Longrightarrow> bb < nb s1" "\<And>bb. uc = Some bb \<Longrightarrow> bb < nb s1"
      by auto
    note i = hb_extD(1) [OF e(1)]
    have ok: "rec_ok b rec st" using assms(1) st by blast
    show ?thesis
    proof (cases rc)
      case (Some cur)
      obtain s2 r where "rec st s1 cur = Some (s2, r)" "hb_ext b s1 s2" "\<And>bb. r = Some bb \<Longrightarrow> bb < nb s2"
        using rec_okE [OF ok i e(2) [OF Some]] by blast
      then show ?thesis
        using x Some e hb_ext_trans [OF e(1)] hb_extD(2) [of b s1 s2]
        by (fastforce simp: build_seq_step_def)
    next
      case None
      obtain s2 cur where s2: "(case uc of Some bb \<Rightarrow> (s1, bb) | None \<Rightarrow> hb_new_block s1) = (s2, cur)"
        "hb_ext b s1 s2" "cur < nb s2"
      proof (cases uc)
        case None
        obtain s2 where "hb_new_block s1 = (s2, nb s1)" "hb_ext b s1 s2" "nb s2 = Suc (nb s1)"
          using hb_new_block_ok [OF i] by blast
        with None show thesis using that by simp
      next
        case (Some bb)
        then show thesis using that e(3) hb_ext_refl [OF i] by simp
      qed
      obtain s3 r where s3: "rec st s2 cur = Some (s3, r)" "hb_ext b s2 s3" "\<And>bb. r = Some bb \<Longrightarrow> bb < nb s3"
        using rec_okE [OF ok hb_extD(1) [OF s2(2)] s2(3)] by blast
      have "hb_ext b s s3" using hb_ext_trans e(1) s2(2) s3(2) by blast
      then show ?thesis
        using x None s2(1) s3(1,3) by (simp add: build_seq_step_def)
    qed
  qed
  from fold_opt_invariant [of ?P "(s, Some entry, None)" stmts "build_seq_step rec", OF _ this]
  show ?thesis
    using hb_ext_refl [OF assms(2)] assms(3) by (auto simp: build_seq_def hb_post_def)
qed

lemma build_if_ok:
  assumes wf: "body_wf b" and inv: "hb_inv b s" "entry < nb s"
    and cond: "condition < length (b_exprs b)" "stmt < length (b_stmts b)"
    and r1: "rec_ok b rec then_branch" and r2: "\<And>st. else_branch = Some st \<Longrightarrow> rec_ok b rec st"
  shows "hb_post b s (build_if b rec stmt condition then_branch else_branch s entry)"
proof -
  obtain s1 where s1: "hb_new_block s = (s1, nb s)" "hb_ext b s s1" "nb s1 = Suc (nb s)"
    using hb_new_block_ok [OF inv(1)] by blast
  obtain s2 where s2: "hb_new_block s1 = (s2, nb s1)" "hb_ext b s1 s2" "nb s2 = Suc (nb s1)"
    using hb_new_block_ok [OF hb_extD(1) [OF s1(2)]] by blast
  obtain s3 where s3: "hb_new_block s2 = (s3, nb s2)" "hb_ext b s2 s3" "nb s3 = Suc (nb s2)"
    using hb_new_block_ok [OF hb_extD(1) [OF s2(2)]] by blast
  obtain c where c: "eval_const_bool b condition = Some c"
    using eval_const_bool_total [OF wf cond(1)] by blast
  have n3: "entry < nb s3" "nb s < nb s3" "nb s1 < nb s3" using inv(2) s1(3) s2(3) s3(3) by simp_all
  obtain s4 where s4: "hb_set_terminator s3 entry (branch_terminator c condition (nb s) (nb s1) stmt) = Some s4"
      "hb_ext b s3 s4" "nb s4 = nb s3"
    using hb_set_terminator_ok [OF hb_extD(1) [OF s3(2)] n3(1) branch_ok [OF cond(1) n3(2,3) cond(2)]]
      s1(3) by auto
  have n4: "nb s < nb s4" using n3 s4(3) by simp
  obtain s5 tf where s5: "rec then_branch s4 (nb s) = Some (s5, tf)" "hb_ext b s4 s5"
      "\<And>bb. tf = Some bb \<Longrightarrow> bb < nb s5"
    using rec_okE [OF r1 hb_extD(1) [OF s4(2)] n4] by blast
  note m5 = hb_extD(2) [OF s5(2)]
  have n5: "nb s2 < nb s5" using m5 s3(3) s4(3) by simp
  obtain s6 where s6: "hb_join s5 tf (nb s2) = Some s6" "hb_ext b s5 s6" "nb s6 = nb s5"
    using hb_join_ok [OF hb_extD(1) [OF s5(2)] s5(3) n5] by blast
  have eb: "nb s1 < nb s6" using m5 s2(3) s3(3) s4(3) s6(3) by simp
  obtain s7 ef where s7: "(case else_branch of Some st \<Rightarrow> rec st s6 (nb s1)
        | None \<Rightarrow> Some (s6, Some (nb s1))) = Some (s7, ef)"
      "hb_ext b s6 s7" "\<And>bb. ef = Some bb \<Longrightarrow> bb < nb s7"
  proof (cases else_branch)
    case None
    then show thesis using that [of s6 "Some (nb s1)"] eb hb_ext_refl [OF hb_extD(1) [OF s6(2)]] by simp
  next
    case (Some st)
    obtain s7 ef where "rec st s6 (nb s1) = Some (s7, ef)" "hb_ext b s6 s7"
        "\<And>bb. ef = Some bb \<Longrightarrow> bb < nb s7"
      using rec_okE [OF r2 [OF Some] hb_extD(1) [OF s6(2)] eb] by blast
    with Some show thesis using that by simp
  qed
  note m7 = hb_extD(2) [OF s7(2)]
  have n7: "nb s2 < nb s7" using n5 m7 s6(3) by simp
  obtain s8 where s8: "hb_join s7 ef (nb s2) = Some s8" "hb_ext b s7 s8" "nb s8 = nb s7"
    using hb_join_ok [OF hb_extD(1) [OF s7(2)] s7(3) n7] by blast
  have "hb_ext b s s8"
    using s1(2) s2(2) s3(2) s4(2) s5(2) s6(2) s7(2) s8(2) by (blast intro: hb_ext_trans)
  moreover have "nb s2 < nb s8" using n7 s8(3) by simp
  ultimately show ?thesis
    using s1(1) s2(1) s3(1) c s4(1) s5(1) s6(1) s7(1) s8(1)
    by (auto simp: build_if_def intro!: hb_postI split: if_splits)
qed

lemma two_blocks_ok:
  assumes "hb_inv b s"
  obtains s1 s2 where "hb_new_block s = (s1, nb s)" "hb_new_block s1 = (s2, Suc (nb s))"
    "hb_ext b s s2" "nb s2 = nb s + 2" "hb_finally s2 = hb_finally s"
proof -
  obtain s1 where s1: "hb_new_block s = (s1, nb s)" "hb_ext b s s1" "nb s1 = Suc (nb s)"
      "hb_finally s1 = hb_finally s"
    using hb_new_block_ok [OF assms] by blast
  obtain s2 where s2: "hb_new_block s1 = (s2, nb s1)" "hb_ext b s1 s2" "nb s2 = Suc (nb s1)"
      "hb_finally s2 = hb_finally s1"
    using hb_new_block_ok [OF hb_extD(1) [OF s1(2)]] by blast
  show thesis using that [of s1 s2] s1 s2 hb_ext_trans [OF s1(2) s2(2)] by simp
qed

lemma three_blocks_ok:
  assumes "hb_inv b s"
  obtains s1 s2 s3 where "hb_new_block s = (s1, nb s)" "hb_new_block s1 = (s2, Suc (nb s))"
    "hb_new_block s2 = (s3, nb s + 2)" "hb_ext b s s3" "nb s3 = nb s + 3"
    "hb_finally s3 = hb_finally s"
proof -
  obtain s1 s2 where s2: "hb_new_block s = (s1, nb s)" "hb_new_block s1 = (s2, Suc (nb s))"
    "hb_ext b s s2" "nb s2 = nb s + 2" "hb_finally s2 = hb_finally s"
    using two_blocks_ok [OF assms] by blast
  obtain s3 where s3: "hb_new_block s2 = (s3, nb s2)" "hb_ext b s2 s3" "nb s3 = Suc (nb s2)"
      "hb_finally s3 = hb_finally s2"
    using hb_new_block_ok [OF hb_extD(1) [OF s2(3)]] by blast
  show thesis using that [of s1 s2 s3] s2 s3 hb_ext_trans [OF s2(3) s3(2)] by simp
qed

text \<open>The body of a loop, from pushing its targets to joining its end with \<open>back\<close>.\<close>

lemma loop_body_ok:
  assumes "rec_ok b rec st" "hb_inv b s" "entry < nb s" "brk < nb s" "cont < nb s" "back < nb s"
  obtains s1 ft s2 where
    "rec st (s\<lparr>hb_break := hb_break s @ [\<lparr>bc_break = brk, bc_continue = Some cont\<rparr>]\<rparr>) entry = Some (s1, ft)"
    "hb_join (s1\<lparr>hb_break := butlast (hb_break s1)\<rparr>) ft back = Some s2" "hb_ext b s s2"
proof -
  obtain s1 ft where s1:
    "rec st (s\<lparr>hb_break := hb_break s @ [\<lparr>bc_break = brk, bc_continue = Some cont\<rparr>]\<rparr>) entry = Some (s1, ft)"
    "hb_ext b s (s1\<lparr>hb_break := butlast (hb_break s1)\<rparr>)" "\<And>bb. ft = Some bb \<Longrightarrow> bb < nb s1"
    using rec_in_loop [OF assms(1-3), of "\<lparr>bc_break = brk, bc_continue = Some cont\<rparr>"] assms(4,5) by auto
  let ?s1 = "s1\<lparr>hb_break := butlast (hb_break s1)\<rparr>"
  have ft: "\<And>bb. ft = Some bb \<Longrightarrow> bb < nb ?s1" using s1(3) by simp
  have n: "back < nb ?s1" using hb_extD(2) [OF s1(2)] assms(6) by simp
  obtain s2 where "hb_join ?s1 ft back = Some s2" "hb_ext b ?s1 s2"
    using hb_join_ok [OF hb_extD(1) [OF s1(2)] ft n] by blast
  with s1 show thesis using that hb_ext_trans by blast
qed

lemma build_while_ok:
  assumes wf: "body_wf b" and inv: "hb_inv b s" "entry < nb s"
    and cond: "condition < length (b_exprs b)" "stmt < length (b_stmts b)"
    and r: "rec_ok b rec wbody"
  shows "hb_post b s (build_while b rec stmt condition wbody s entry)"
proof -
  obtain s1 s2 s3 where n: "hb_new_block s = (s1, nb s)" "hb_new_block s1 = (s2, Suc (nb s))"
    "hb_new_block s2 = (s3, nb s + 2)" "hb_ext b s s3" "nb s3 = nb s + 3"
    using three_blocks_ok [OF inv(1)] by blast
  have n3: "entry < nb s3" "nb s < nb s3" "Suc (nb s) < nb s3" "nb s + 2 < nb s3"
    using inv(2) n(5) by simp_all
  obtain s4 where s4: "hb_set_terminator s3 entry (TGoto (nb s) None) = Some s4" "hb_ext b s3 s4" "nb s4 = nb s3"
    using hb_set_terminator_ok [OF hb_extD(1) [OF n(4)] n3(1) goto_ok [OF n3(2)]] by blast
  note n4 = n3 [folded s4(3)]
  obtain c where c: "eval_const_bool b condition = Some c"
    using eval_const_bool_total [OF wf cond(1)] by blast
  obtain s5 where s5: "hb_set_terminator s4 (nb s)
        (branch_terminator c condition (Suc (nb s)) (nb s + 2) stmt) = Some s5"
      "hb_ext b s4 s5" "nb s5 = nb s4"
    using hb_set_terminator_ok [OF hb_extD(1) [OF s4(2)] n4(2) branch_ok [OF cond(1) n4(3,4) cond(2)]]
    by auto
  note n5 = n4 [folded s5(3)]
  obtain s6 ft s7 where l:
    "rec wbody (s5\<lparr>hb_break := hb_break s5 @ [\<lparr>bc_break = nb s + 2, bc_continue = Some (nb s)\<rparr>]\<rparr>)
       (Suc (nb s)) = Some (s6, ft)"
    "hb_join (s6\<lparr>hb_break := butlast (hb_break s6)\<rparr>) ft (nb s) = Some s7" "hb_ext b s5 s7"
    using loop_body_ok [OF r hb_extD(1) [OF s5(2)] n5(3,4,2,2)] by blast
  have "hb_ext b s s7" using n(4) s4(2) s5(2) l(3) by (blast intro: hb_ext_trans)
  moreover have "nb s + 2 < nb s7" using n5(4) hb_extD(2) [OF l(3)] by simp
  ultimately show ?thesis
    using n(1-3) s4(1) c s5(1) l(1,2) by (auto simp: build_while_def Let_def intro!: hb_postI)
qed

lemma build_do_while_ok:
  assumes wf: "body_wf b" and inv: "hb_inv b s" "entry < nb s"
    and cond: "condition < length (b_exprs b)" "stmt < length (b_stmts b)"
    and r: "rec_ok b rec wbody"
  shows "hb_post b s (build_do_while b rec stmt wbody condition s entry)"
proof -
  obtain s1 s2 s3 where n: "hb_new_block s = (s1, nb s)" "hb_new_block s1 = (s2, Suc (nb s))"
    "hb_new_block s2 = (s3, nb s + 2)" "hb_ext b s s3" "nb s3 = nb s + 3"
    using three_blocks_ok [OF inv(1)] by blast
  have n3: "entry < nb s3" "nb s < nb s3" "Suc (nb s) < nb s3" "nb s + 2 < nb s3"
    using inv(2) n(5) by simp_all
  obtain s4 where s4: "hb_set_terminator s3 entry (TGoto (nb s) None) = Some s4" "hb_ext b s3 s4" "nb s4 = nb s3"
    using hb_set_terminator_ok [OF hb_extD(1) [OF n(4)] n3(1) goto_ok [OF n3(2)]] by blast
  note n4 = n3 [folded s4(3)]
  obtain s6 ft s7 where l:
    "rec wbody (s4\<lparr>hb_break := hb_break s4 @ [\<lparr>bc_break = nb s + 2, bc_continue = Some (Suc (nb s))\<rparr>]\<rparr>)
       (nb s) = Some (s6, ft)"
    "hb_join (s6\<lparr>hb_break := butlast (hb_break s6)\<rparr>) ft (Suc (nb s)) = Some s7" "hb_ext b s4 s7"
    using loop_body_ok [OF r hb_extD(1) [OF s4(2)] n4(2,4,3,3)] by blast
  have n7: "Suc (nb s) < nb s7" "nb s < nb s7" "nb s + 2 < nb s7"
    using n4 hb_extD(2) [OF l(3)] by simp_all
  obtain c where c: "eval_const_bool b condition = Some c"
    using eval_const_bool_total [OF wf cond(1)] by blast
  obtain s8 where s8: "hb_set_terminator s7 (Suc (nb s))
        (branch_terminator c condition (nb s) (nb s + 2) stmt) = Some s8"
      "hb_ext b s7 s8" "nb s8 = nb s7"
    using hb_set_terminator_ok [OF hb_extD(1) [OF l(3)] n7(1) branch_ok [OF cond(1) n7(2,3) cond(2)]]
    by auto
  have "hb_ext b s s8" using n(4) s4(2) l(3) s8(2) by (blast intro: hb_ext_trans)
  then show ?thesis
    using n(1-3) s4(1) c s8(1,3) l(1,2) n7(3)
    by (auto simp: build_do_while_def Let_def intro!: hb_postI)
qed

lemma build_for_loop_ok:
  assumes wf: "body_wf b" and inv: "hb_inv b s" "init_end < nb s"
    and cond: "\<And>c. condition = Some c \<Longrightarrow> c < length (b_exprs b)" "stmt < length (b_stmts b)"
    and r: "rec_ok b rec fbody" and ru: "\<And>u. update = Some u \<Longrightarrow> rec_ok b rec u"
  shows "hb_post b s (build_for_loop b rec stmt condition update fbody s init_end)"
proof -
  obtain s1 s2 where n: "hb_new_block s = (s1, nb s)" "hb_new_block s1 = (s2, Suc (nb s))"
    "hb_ext b s s2" "nb s2 = nb s + 2"
    using two_blocks_ok [OF inv(1)] by blast
  obtain s3 ub where u: "(if update \<noteq> None then hb_new_block s2 else (s2, nb s)) = (s3, ub)"
    "hb_ext b s2 s3" "ub < nb s3"
  proof (cases "update = None")
    case True
    then show thesis using that [of s2 "nb s"] n(4) hb_ext_refl [OF hb_extD(1) [OF n(3)]] by simp
  next
    case False
    obtain s3 where "hb_new_block s2 = (s3, nb s2)" "hb_ext b s2 s3" "nb s3 = Suc (nb s2)"
      using hb_new_block_ok [OF hb_extD(1) [OF n(3)]] by blast
    with False show thesis using that by simp
  qed
  obtain s4 where s4: "hb_new_block s3 = (s4, nb s3)" "hb_ext b s3 s4" "nb s4 = Suc (nb s3)"
    using hb_new_block_ok [OF hb_extD(1) [OF u(2)]] by blast
  have n4: "init_end < nb s4" "nb s < nb s4" "Suc (nb s) < nb s4" "nb s3 < nb s4" "ub < nb s4"
    using inv(2) n(4) u(3) hb_extD(2) [OF u(2)] s4(3) by simp_all
  obtain s5 where s5: "hb_set_terminator s4 init_end (TGoto (nb s) None) = Some s5" "hb_ext b s4 s5" "nb s5 = nb s4"
    using hb_set_terminator_ok [OF hb_extD(1) [OF s4(2)] n4(1) goto_ok [OF n4(2)]] by blast
  note n5 = n4 [folded s5(3)]
  obtain t where t: "(case condition of
            Some cond \<Rightarrow> Option.bind (eval_const_bool b cond)
              (\<lambda>const. Some (branch_terminator const cond (Suc (nb s)) (nb s3) stmt))
          | None \<Rightarrow> Some (TGoto (Suc (nb s)) (Some stmt))) = Some t" "term_ok b (nb s5) t"
  proof (cases condition)
    case None
    then show thesis
      using that [of "TGoto (Suc (nb s)) (Some stmt)"] goto_ok [OF n5(3), of "Some stmt" b] cond(2) by simp
  next
    case (Some c)
    obtain v where "eval_const_bool b c = Some v"
      using eval_const_bool_total [OF wf cond(1) [OF Some]] by blast
    moreover have "Suc (nb s) \<noteq> nb s3" using n(4) hb_extD(2) [OF u(2)] u(3) by simp
    ultimately show thesis using Some that branch_ok [OF cond(1) [OF Some] n5(3,4) cond(2)] by simp
  qed
  obtain s6 where s6: "hb_set_terminator s5 (nb s) t = Some s6" "hb_ext b s5 s6" "nb s6 = nb s5"
    using hb_set_terminator_ok [OF hb_extD(1) [OF s5(2)] n5(2) t(2)] by blast
  note n6 = n5 [folded s6(3)]
  obtain s8 ft s9 where l:
    "rec fbody (s6\<lparr>hb_break := hb_break s6 @ [\<lparr>bc_break = nb s3, bc_continue = Some ub\<rparr>]\<rparr>)
       (Suc (nb s)) = Some (s8, ft)"
    "hb_join (s8\<lparr>hb_break := butlast (hb_break s8)\<rparr>) ft ub = Some s9" "hb_ext b s6 s9"
    using loop_body_ok [OF r hb_extD(1) [OF s6(2)] n6(3,4,5,5)] by blast
  have n9: "ub < nb s9" "nb s < nb s9" "nb s3 < nb s9" using n6 hb_extD(2) [OF l(3)] by simp_all
  obtain s10 where s10: "(case update of
            Some update_stmt \<Rightarrow> Option.bind (rec update_stmt s9 ub) (\<lambda>(s', uft). hb_join s' uft (nb s))
          | None \<Rightarrow> Some s9) = Some s10" "hb_ext b s9 s10"
  proof (cases update)
    case None
    then show thesis using that hb_ext_refl [OF hb_extD(1) [OF l(3)]] by simp
  next
    case (Some us)
    obtain s' uft where s': "rec us s9 ub = Some (s', uft)" "hb_ext b s9 s'"
        "\<And>bb. uft = Some bb \<Longrightarrow> bb < nb s'"
      using rec_okE [OF ru [OF Some] hb_extD(1) [OF l(3)] n9(1)] by blast
    have n': "nb s < nb s'" using n9(2) hb_extD(2) [OF s'(2)] by simp
    obtain s'' where "hb_join s' uft (nb s) = Some s''" "hb_ext b s' s''"
      using hb_join_ok [OF hb_extD(1) [OF s'(2)] s'(3) n'] by blast
    with Some s' show thesis using that hb_ext_trans by auto
  qed
  have "hb_ext b s s10"
    using n(3) u(2) s4(2) s5(2) s6(2) l(3) s10(2) by (blast intro: hb_ext_trans)
  moreover have "nb s3 < nb s10" using n9(3) hb_extD(2) [OF s10(2)] by simp
  ultimately show ?thesis
    using n(1,2) u(1) s4(1) s5(1) t(1) s6(1) l(1,2) s10(1)
    by (auto simp: build_for_loop_def Let_def intro!: hb_postI)
qed

lemma build_for_ok:
  assumes wf: "body_wf b" and inv: "hb_inv b s" "entry < nb s"
    and cond: "\<And>c. condition = Some c \<Longrightarrow> c < length (b_exprs b)" "stmt < length (b_stmts b)"
    and r: "rec_ok b rec fbody" and ru: "\<And>u. update = Some u \<Longrightarrow> rec_ok b rec u"
    and ri: "\<And>u. init = Some u \<Longrightarrow> rec_ok b rec u"
  shows "hb_post b s (build_for b rec stmt init condition update fbody s entry)"
proof -
  have "hb_post b s (case init of Some i \<Rightarrow> rec i s entry | None \<Rightarrow> Some (s, Some entry))"
    using ri inv hb_ext_refl [OF inv(1)]
    by (cases init) (auto simp: rec_ok_def intro: hb_postI)
  then obtain s1 ft where s1: "(case init of Some i \<Rightarrow> rec i s entry | None \<Rightarrow> Some (s, Some entry)) = Some (s1, ft)"
    "hb_ext b s s1" "\<And>bb. ft = Some bb \<Longrightarrow> bb < nb s1" by (rule hb_postE) blast
  show ?thesis
  proof (cases ft)
    case None
    then show ?thesis using s1 by (auto simp: build_for_def intro: hb_postI)
  next
    case (Some ie)
    have "hb_post b s1 (build_for_loop b rec stmt condition update fbody s1 ie)"
      using build_for_loop_ok [OF wf hb_extD(1) [OF s1(2)] s1(3) [OF Some] cond r ru] by blast
    then show ?thesis using hb_post_ext [OF s1(2)] s1(1) Some by (simp add: build_for_def)
  qed
qed

lemma in_set_enumerateD: "(i, x) \<in> set (enumerate 0 xs) \<Longrightarrow> i < length xs \<and> x = xs ! i"
  by (auto simp: in_set_enumerate_eq)

lemma build_switch_arm_ok:
  assumes "hb_inv b s" "idx < length arm_entries" "\<forall>e \<in> set arm_entries. e < nb s" "after_bb < nb s"
    "rec_ok b rec (arm_body arm)"
  shows "\<exists>s'. build_switch_arm rec arm_entries after_bb s (idx, arm) = Some s' \<and> hb_ext b s s'"
proof -
  have e: "arm_entries ! idx < nb s" using assms(2,3) by simp
  obtain s1 ft where s1: "rec (arm_body arm) s (arm_entries ! idx) = Some (s1, ft)" "hb_ext b s s1"
      "\<And>bb. ft = Some bb \<Longrightarrow> bb < nb s1"
    using rec_okE [OF assms(5,1) e] by blast
  let ?t = "if arm_is_arrow arm then after_bb
    else (case vec_get arm_entries (idx + 1) of Some t \<Rightarrow> t | None \<Rightarrow> after_bb)"
  have "?t < nb s" using assms(3,4) by (auto simp: vec_get_def)
  then have t: "?t < nb s1" using hb_extD(2) [OF s1(2)] by simp
  obtain s2 where "hb_join s1 ft ?t = Some s2" "hb_ext b s1 s2"
    using hb_join_ok [OF hb_extD(1) [OF s1(2)] s1(3) t] by blast
  moreover have "vec_get arm_entries idx = Some (arm_entries ! idx)" using assms(2) by (simp add: vec_get_def)
  ultimately show ?thesis
    using s1 hb_ext_trans [OF s1(2)] by (simp add: build_switch_arm_def Let_def)
qed

lemma build_switch_ok:
  assumes inv: "hb_inv b s" "entry < nb s"
    and e: "expression < length (b_exprs b)" "stmt < length (b_stmts b)"
    and r: "\<forall>arm \<in> set arms. rec_ok b rec (arm_body arm)"
  shows "hb_post b s (build_switch rec stmt expression arms s entry)"
proof -
  obtain s1 where s1: "hb_new_block s = (s1, nb s)" "hb_ext b s s1" "nb s1 = Suc (nb s)"
    using hb_new_block_ok [OF inv(1)] by blast
  obtain s2 ae where s2: "hb_new_blocks s1 (length arms) = (s2, ae)" "hb_ext b s1 s2"
      "length ae = length arms" "\<forall>bb \<in> set ae. bb < nb s2"
    by (rule hb_new_blocks_ok [OF hb_extD(1) [OF s1(2)], where n = "length arms"])
  let ?ts = "ae @ (if list_ex arm_has_default arms then [] else [nb s])"
  have n2: "entry < nb s2" "nb s < nb s2" using inv(2) s1(3) hb_extD(2) [OF s2(2)] by simp_all
  then have "term_ok b (nb s2) (TSwitch expression ?ts stmt)"
    using e s2(4) by (auto simp: term_ok_def)
  then obtain s3 where s3: "hb_set_terminator s2 entry (TSwitch expression ?ts stmt) = Some s3"
      "hb_ext b s2 s3" "nb s3 = nb s2"
    using hb_set_terminator_ok [OF hb_extD(1) [OF s2(2)] n2(1)] by blast
  let ?s4 = "s3\<lparr>hb_break := hb_break s3 @ [\<lparr>bc_break = nb s, bc_continue = None\<rparr>]\<rparr>"
  have i4: "hb_inv b ?s4"
    by (rule hb_push_break_inv [OF hb_extD(1) [OF s3(2)]]) (use n2(2) s3(3) in simp_all)
  have "\<exists>s'. build_switch_arm rec ae (nb s) x ia = Some s' \<and> hb_ext b ?s4 s'"
    if x: "hb_ext b ?s4 x" and ia: "ia \<in> set (enumerate 0 arms)" for x ia
  proof -
    obtain idx arm where ia': "ia = (idx, arm)" by fastforce
    with ia have idx: "idx < length arms" "arm \<in> set arms" using in_set_enumerateD by fastforce+
    have m: "nb s2 \<le> nb x" using hb_extD(2) [OF x] s3(3) by simp
    then have "\<forall>e \<in> set ae. e < nb x" "nb s < nb x" using s2(4) n2(2) by auto
    moreover have "idx < length ae" "rec_ok b rec (arm_body arm)" using idx s2(3) r by simp_all
    ultimately obtain s' where "build_switch_arm rec ae (nb s) x ia = Some s'" "hb_ext b x s'"
      using build_switch_arm_ok [OF hb_extD(1) [OF x], of idx ae "nb s" rec arm] ia' by blast
    then show ?thesis using hb_ext_trans [OF x] by blast
  qed
  from fold_opt_invariant [of "hb_ext b ?s4" ?s4 "enumerate 0 arms"
      "build_switch_arm rec ae (nb s)", OF hb_ext_refl [OF i4] this]
  obtain s5 where s5: "fold_opt (build_switch_arm rec ae (nb s)) ?s4 (enumerate 0 arms) = Some s5"
      "hb_ext b ?s4 s5" by blast
  let ?s6 = "s5\<lparr>hb_break := butlast (hb_break s5)\<rparr>"
  have s6: "hb_ext b s3 ?s6" using hb_pop_break_ext [OF s5(2)] .
  have "hb_ext b s ?s6" using s1(2) s2(2) s3(2) s6 by (blast intro: hb_ext_trans)
  moreover have "nb s < nb ?s6" using hb_extD(2) [OF s6] n2(2) s3(3) by simp
  ultimately have "hb_post b s (Some (?s6, Some (nb s)))" by (auto intro!: hb_postI)
  then show ?thesis using s1(1) s2(1) s3(1) s5(1) by (simp add: build_switch_def Let_def)
qed

lemma build_try_body_ok:
  assumes inv: "hb_inv b s" "body_entry < nb s" "\<forall>e \<in> set catch_entries. e < nb s" "join < nb s"
    and r: "rec_ok b rec tbody" "\<forall>c \<in> set catches. rec_ok b rec c"
  obtains s' where "build_try_body rec tbody catches body_entry catch_entries join s = Some s'"
    "hb_ext b s s'"
proof -
  obtain s1 ft where s1: "rec tbody s body_entry = Some (s1, ft)" "hb_ext b s s1"
      "\<And>bb. ft = Some bb \<Longrightarrow> bb < nb s1"
    using rec_okE [OF r(1) inv(1,2)] by blast
  have n1: "join < nb s1" using inv(4) hb_extD(2) [OF s1(2)] by simp
  obtain s2 where s2: "hb_join s1 ft join = Some s2" "hb_ext b s1 s2"
    using hb_join_ok [OF hb_extD(1) [OF s1(2)] s1(3) n1] by blast
  have e2: "hb_ext b s s2" using hb_ext_trans [OF s1(2) s2(2)] .
  have "\<exists>s'. build_catch rec join x ce = Some s' \<and> hb_ext b s s'"
    if x: "hb_ext b s x" and ce: "ce \<in> set (zip catches catch_entries)" for x ce
  proof -
    obtain c e where ce': "ce = (c, e)" by fastforce
    have "c \<in> set catches" "e \<in> set catch_entries"
      using ce ce' by (auto dest: set_zip_leftD set_zip_rightD)
    then have c: "rec_ok b rec c" "e < nb x" using r(2) inv(3) hb_extD(2) [OF x] by auto
    obtain x1 ft' where x1: "rec c x e = Some (x1, ft')" "hb_ext b x x1" "\<And>bb. ft' = Some bb \<Longrightarrow> bb < nb x1"
      using rec_okE [OF c(1) hb_extD(1) [OF x] c(2)] by blast
    have nx: "join < nb x1" using inv(4) hb_extD(2) [OF x] hb_extD(2) [OF x1(2)] by simp
    obtain x2 where x2: "hb_join x1 ft' join = Some x2" "hb_ext b x1 x2"
      using hb_join_ok [OF hb_extD(1) [OF x1(2)] x1(3) nx] by blast
    have "hb_ext b s x2" using x x1(2) x2(2) by (blast intro: hb_ext_trans)
    with x1(1) x2(1) ce' show ?thesis by (simp add: build_catch_def)
  qed
  from fold_opt_invariant [of "hb_ext b s" s2 "zip catches catch_entries" "build_catch rec join", OF e2 this]
  obtain s3 where "fold_opt (build_catch rec join) s2 (zip catches catch_entries) = Some s3"
    "hb_ext b s s3" by blast
  then show thesis using that s1(1) s2(1) by (simp add: build_try_body_def)
qed

lemma try_entry_ok:
  assumes "body_entry < n" "\<forall>e \<in> set catch_entries. e < n" "stmt < length (b_stmts b)"
  shows "term_ok b n (try_entry_terminator body_entry catch_entries stmt)"
  using assms by (auto simp: try_entry_terminator_def term_ok_def)

lemma finally_terminator_ok:
  assumes "\<forall>t \<in> set ts. t < n" "stmt < length (b_stmts b)"
  shows "term_ok b n (finally_terminator ts stmt)"
proof -
  define ds where "ds = remdups_adj (sort ts)"
  have "\<forall>t \<in> set ds. t < n" using assms(1) by (simp add: ds_def)
  then show ?thesis using assms(2)
    unfolding finally_terminator_def ds_def [symmetric] by (auto simp: term_ok_def split: list.splits)
qed

lemma build_try_plain_ok:
  assumes inv: "hb_inv b s" "entry < nb s" "stmt < length (b_stmts b)"
    and r: "rec_ok b rec tbody" "\<forall>c \<in> set catches. rec_ok b rec c"
  shows "hb_post b s (build_try_plain rec stmt tbody catches s entry)"
proof -
  obtain s1 s2 where n: "hb_new_block s = (s1, nb s)" "hb_new_block s1 = (s2, Suc (nb s))"
    "hb_ext b s s2" "nb s2 = nb s + 2"
    using two_blocks_ok [OF inv(1)] by blast
  obtain s3 ces where s3: "hb_new_blocks s2 (length catches) = (s3, ces)" "hb_ext b s2 s3"
      "\<forall>bb \<in> set ces. bb < nb s3"
    by (rule hb_new_blocks_ok [OF hb_extD(1) [OF n(3)], where n = "length catches"])
  have n3: "entry < nb s3" "nb s < nb s3" "Suc (nb s) < nb s3"
    using inv(2) n(4) hb_extD(2) [OF s3(2)] by simp_all
  obtain s4 where s4: "hb_set_terminator s3 entry (try_entry_terminator (Suc (nb s)) ces stmt) = Some s4"
      "hb_ext b s3 s4" "nb s4 = nb s3"
    using hb_set_terminator_ok [OF hb_extD(1) [OF s3(2)] n3(1) try_entry_ok [OF n3(3) s3(3) inv(3)]] by blast
  obtain s5 where s5: "build_try_body rec tbody catches (Suc (nb s)) ces (nb s) s4 = Some s5" "hb_ext b s4 s5"
    using build_try_body_ok [OF hb_extD(1) [OF s4(2)] _ _ _ r] n3 s3(3) s4(3) by metis
  have "hb_ext b s s5" using n(3) s3(2) s4(2) s5(2) by (blast intro: hb_ext_trans)
  moreover have "nb s < nb s5" using n3(2) s4(3) hb_extD(2) [OF s5(2)] by simp
  ultimately have "hb_post b s (Some (s5, Some (nb s)))" by (auto intro!: hb_postI)
  then show ?thesis using n(1,2) s3(1) s4(1) s5(1) by (simp add: build_try_plain_def)
qed

lemma hb_push_finally_ext:
  assumes "hb_inv b s" "fc_bb ctx < nb s" "fc_targets ctx = []"
  shows "hb_inv b (s\<lparr>hb_finally := hb_finally s @ [ctx]\<rparr>)"
  using assms by (auto simp: hb_inv_def)

lemma hb_pop_finally_ext:
  assumes "hb_ext b (s\<lparr>hb_finally := hb_finally s @ [ctx]\<rparr>) s'"
  shows "hb_ext b s (s'\<lparr>hb_finally := butlast (hb_finally s')\<rparr>)"
    and "hb_finally s' \<noteq> []" "\<forall>t \<in> set (fc_targets (last (hb_finally s'))). t < nb s'"
proof -
  show ne: "hb_finally s' \<noteq> []" using assms by (auto simp: hb_ext_def)
  show "\<forall>t \<in> set (fc_targets (last (hb_finally s'))). t < nb s'"
    using assms ne by (auto simp: hb_ext_def hb_inv_def)
  show "hb_ext b s (s'\<lparr>hb_finally := butlast (hb_finally s')\<rparr>)"
    using assms by (auto simp: hb_ext_def hb_inv_def dest: in_set_butlastD)
qed

lemma build_try_finally_ok:
  assumes inv: "hb_inv b s" "entry < nb s" "stmt < length (b_stmts b)"
    and r: "rec_ok b rec tbody" "\<forall>c \<in> set catches. rec_ok b rec c" "rec_ok b rec finally_stmt"
  shows "hb_post b s (build_try_finally rec stmt tbody catches finally_stmt s entry)"
proof -
  obtain s1 s2 s3 where n: "hb_new_block s = (s1, nb s)" "hb_new_block s1 = (s2, Suc (nb s))"
    "hb_new_block s2 = (s3, nb s + 2)" "hb_ext b s s3" "nb s3 = nb s + 3"
    using three_blocks_ok [OF inv(1)] by blast
  obtain s4 where s4: "hb_new_block s3 = (s4, nb s3)" "hb_ext b s3 s4" "nb s4 = Suc (nb s3)"
    using hb_new_block_ok [OF hb_extD(1) [OF n(4)]] by blast
  obtain s5 ces where s5: "hb_new_blocks s4 (length catches) = (s5, ces)" "hb_ext b s4 s5"
      "\<forall>bb \<in> set ces. bb < nb s5"
    by (rule hb_new_blocks_ok [OF hb_extD(1) [OF s4(2)], where n = "length catches"])
  have n5: "entry < nb s5" "nb s < nb s5" "Suc (nb s) < nb s5" "nb s + 2 < nb s5" "nb s3 < nb s5"
    using inv(2) n(5) s4(3) hb_extD(2) [OF s5(2)] by simp_all
  obtain s6 where s6: "hb_set_terminator s5 entry (try_entry_terminator (nb s3) ces stmt) = Some s6"
      "hb_ext b s5 s6" "nb s6 = nb s5"
    using hb_set_terminator_ok [OF hb_extD(1) [OF s5(2)] n5(1) try_entry_ok [OF n5(5) s5(3) inv(3)]] by blast
  note n6 = n5 [folded s6(3)]
  let ?ctx = "\<lparr>fc_bb = nb s + 2, fc_scope_start = nb s, fc_targets = []\<rparr>"
  let ?s7 = "s6\<lparr>hb_finally := hb_finally s6 @ [?ctx]\<rparr>"
  have i7: "hb_inv b ?s7"
    using hb_push_finally_ext [OF hb_extD(1) [OF s6(2)], of ?ctx] n6(4) by simp
  obtain s8 where s8: "build_try_body rec tbody catches (nb s3) ces (Suc (nb s)) ?s7 = Some s8" "hb_ext b ?s7 s8"
    using build_try_body_ok [OF i7, of "nb s3" ces "Suc (nb s)" rec tbody catches] n6 s5(3) s6(3) r(1,2)
    by auto
  let ?s9 = "s8\<lparr>hb_finally := butlast (hb_finally s8)\<rparr>" and ?last = "last (hb_finally s8)"
  note pop = hb_pop_finally_ext [OF s8(2)]
  have n9: "nb s < nb ?s9" "Suc (nb s) < nb ?s9" "nb s + 2 < nb ?s9"
    using n6 hb_extD(2) [OF pop(1)] by simp_all
  obtain s10 ft where s10: "rec finally_stmt ?s9 (Suc (nb s)) = Some (s10, ft)" "hb_ext b ?s9 s10"
      "\<And>bb. ft = Some bb \<Longrightarrow> bb < nb s10"
    using rec_okE [OF r(3) hb_extD(1) [OF pop(1)] n9(2)] by blast
  have n10: "nb s < nb s10" "nb s + 2 < nb s10" using n9 hb_extD(2) [OF s10(2)] by simp_all
  obtain s11 where s11: "hb_join s10 ft (nb s) = Some s11" "hb_ext b s10 s11" "nb s11 = nb s10"
    using hb_join_ok [OF hb_extD(1) [OF s10(2)] s10(3) n10(1)] by blast
  note n11 = n10 [folded s11(3)]
  obtain s12 ft' where s12: "rec finally_stmt s11 (nb s + 2) = Some (s12, ft')" "hb_ext b s11 s12"
      "\<And>bb. ft' = Some bb \<Longrightarrow> bb < nb s12"
    using rec_okE [OF r(3) hb_extD(1) [OF s11(2)] n11(2)] by blast
  have "nb s8 \<le> nb s12"
    using hb_extD(2) [OF s10(2)] s11(3) hb_extD(2) [OF s12(2)] by simp
  then have "\<forall>t \<in> set (fc_targets ?last). t < nb s12" using pop(3) by auto
  note fin = finally_terminator_ok [OF this inv(3)]
  obtain s13 where s13: "(case ft' of None \<Rightarrow> Some s12
      | Some end_bb \<Rightarrow> hb_set_terminator s12 end_bb (finally_terminator (fc_targets ?last) stmt)) = Some s13"
    "hb_ext b s12 s13"
  proof (cases ft')
    case None
    then show thesis using that hb_ext_refl [OF hb_extD(1) [OF s12(2)]] by simp
  next
    case (Some e)
    obtain s13 where "hb_set_terminator s12 e (finally_terminator (fc_targets ?last) stmt) = Some s13"
        "hb_ext b s12 s13"
      using hb_set_terminator_ok [OF hb_extD(1) [OF s12(2)] s12(3) [OF Some] fin] by blast
    with Some show thesis using that by simp
  qed
  have "hb_ext b s s13"
    by (rule hb_ext_trans [OF n(4) hb_ext_trans [OF s4(2) hb_ext_trans [OF s5(2)
            hb_ext_trans [OF s6(2) hb_ext_trans [OF pop(1) hb_ext_trans [OF s10(2)
            hb_ext_trans [OF s11(2) hb_ext_trans [OF s12(2) s13(2)]]]]]]]])
  moreover have "nb s < nb s13" using n11 hb_extD(2) [OF s12(2)] hb_extD(2) [OF s13(2)] by simp
  ultimately have "hb_post b s (Some (s13, Some (nb s)))" by (auto intro!: hb_postI)
  then show ?thesis
    using n(1-3) s4(1) s5(1) s6(1) s8(1) pop(2) s10(1) s11(1) s12(1) s13(1)
    by (simp add: build_try_finally_def Let_def)
qed

text \<open>Jumps: the contexts only ever get targets in range.\<close>

lemma hb_set_finally_ext:
  assumes "hb_inv b s" "length fs = length (hb_finally s)"
    "\<forall>c \<in> set fs. fc_bb c < nb s \<and> (\<forall>t \<in> set (fc_targets c). t < nb s)"
  shows "hb_ext b s (s\<lparr>hb_finally := fs\<rparr>)"
  using assms by (auto simp: hb_ext_def hb_inv_def)

lemma hb_finally_nth:
  assumes "hb_inv b s" "i < length (hb_finally s)"
  shows "fc_bb (hb_finally s ! i) < nb s" "\<forall>t \<in> set (fc_targets (hb_finally s ! i)). t < nb s"
  using assms nth_mem [OF assms(2)] by (auto simp: hb_inv_def)

lemma exit_targets_ok:
  assumes "hb_inv b s"
  shows "hb_ext b s (s\<lparr>hb_finally := exit_targets s\<rparr>)"
proof (rule hb_set_finally_ext [OF assms])
  show "length (exit_targets s) = length (hb_finally s)" by (simp add: exit_targets_def)
  show "\<forall>c \<in> set (exit_targets s). fc_bb c < nb s \<and> (\<forall>t \<in> set (fc_targets c). t < nb s)"
  proof
    fix c assume "c \<in> set (exit_targets s)"
    then obtain i where i: "i < length (hb_finally s)"
      "c = (hb_finally s ! i)\<lparr>fc_targets := fc_targets (hb_finally s ! i) @
         [if i = 0 then hb_exit s else fc_bb (hb_finally s ! (i - 1))]\<rparr>"
      by (auto simp: exit_targets_def dest!: in_set_enumerateD)
    have "(if i = 0 then hb_exit s else fc_bb (hb_finally s ! (i - 1))) < nb s"
      using assms hb_finally_nth(1) [OF assms, of "i - 1"] i(1) by (auto simp: hb_inv_def)
    with i hb_finally_nth [OF assms i(1)]
    show "fc_bb c < nb s \<and> (\<forall>t \<in> set (fc_targets c). t < nb s)" by auto
  qed
qed

lemma jump_targets_ok:
  assumes "hb_inv b s" "target < nb s"
  shows "hb_ext b s (s\<lparr>hb_finally := jump_targets (hb_finally s) k target\<rparr>)"
proof (rule hb_set_finally_ext [OF assms(1)])
  show "length (jump_targets (hb_finally s) k target) = length (hb_finally s)"
    by (simp add: jump_targets_def)
  show "\<forall>c \<in> set (jump_targets (hb_finally s) k target).
      fc_bb c < nb s \<and> (\<forall>t \<in> set (fc_targets c). t < nb s)"
  proof
    fix c assume "c \<in> set (jump_targets (hb_finally s) k target)"
    then obtain i where i: "i < length (hb_finally s)"
      "c = (if i < k then hb_finally s ! i
         else (hb_finally s ! i)\<lparr>fc_targets := fc_targets (hb_finally s ! i) @
           [if i = k then target else fc_bb (hb_finally s ! (i - 1))]\<rparr>)"
      by (auto simp: jump_targets_def dest!: in_set_enumerateD)
    have "(if i = k then target else fc_bb (hb_finally s ! (i - 1))) < nb s"
      using assms hb_finally_nth(1) [OF assms(1), of "i - 1"] i(1) by auto
    with i hb_finally_nth [OF assms(1) i(1)]
    show "fc_bb c < nb s \<and> (\<forall>t \<in> set (fc_targets c). t < nb s)" by (auto split: if_splits)
  qed
qed

lemma last_finally_less: "hb_inv b s \<Longrightarrow> hb_finally s \<noteq> [] \<Longrightarrow> fc_bb (last (hb_finally s)) < nb s"
  by (simp add: hb_inv_def)

lemma build_leave_ok:
  assumes "hb_inv b s" "entry < nb s" "simple_stmt b stmt" "stmt < length (b_stmts b)"
    and "term_ok b (nb s) t"
  shows "hb_post b s (build_leave stmt t s entry)"
proof (cases "hb_finally s = []")
  case True
  obtain s1 where "hb_set_terminator s entry t = Some s1" "hb_ext b s s1"
    using hb_set_terminator_ok [OF assms(1,2,5)] by blast
  with True show ?thesis by (auto simp: build_leave_def intro: hb_postI)
next
  case False
  obtain s1 where s1: "hb_push_stmt s entry stmt = Some s1" "hb_ext b s s1" "nb s1 = nb s"
      "hb_finally s1 = hb_finally s"
    using hb_push_stmt_ok [OF assms(1-3)] by blast
  let ?s2 = "s1\<lparr>hb_finally := exit_targets s1\<rparr>"
  have s2: "hb_ext b s1 ?s2" using exit_targets_ok [OF hb_extD(1) [OF s1(2)]] .
  have "entry < nb ?s2" "fc_bb (last (hb_finally s)) < nb ?s2"
    using assms(2) s1(3) last_finally_less [OF assms(1) False] by simp_all
  then obtain s3 where "hb_set_terminator ?s2 entry (TGoto (fc_bb (last (hb_finally s))) (Some stmt)) = Some s3"
      "hb_ext b ?s2 s3"
    using hb_set_terminator_ok [OF hb_extD(1) [OF s2] _ goto_ok] assms(4) by (metis option.inject)
  moreover have "hb_ext b s s3" using s1(2) s2 calculation(2) by (blast intro: hb_ext_trans)
  ultimately show ?thesis
    using False s1(1) by (auto simp: build_leave_def Let_def intro: hb_postI)
qed

lemma build_jump_ok:
  assumes "hb_inv b s" "entry < nb s" "target < nb s" "stmt < length (b_stmts b)"
  shows "hb_post b s (build_jump stmt target s entry)"
proof (cases "hb_finally s = [] \<or> leaving_count (hb_finally s) target = 0")
  case True
  have "term_ok b (nb s) (TGoto target (Some stmt))" using assms(3,4) by (simp add: term_ok_def)
  then obtain s1 where "hb_set_terminator s entry (TGoto target (Some stmt)) = Some s1" "hb_ext b s s1"
    using hb_set_terminator_ok [OF assms(1,2)] by blast
  with True show ?thesis by (auto simp: build_jump_def Let_def intro: hb_postI)
next
  case False
  let ?s1 = "s\<lparr>hb_finally := jump_targets (hb_finally s)
    (length (hb_finally s) - leaving_count (hb_finally s) target) target\<rparr>"
  have s1: "hb_ext b s ?s1" using jump_targets_ok [OF assms(1,3)] .
  have "term_ok b (nb ?s1) (TGoto (fc_bb (last (hb_finally s))) (Some stmt))" "entry < nb ?s1"
    using last_finally_less [OF assms(1)] False assms(2,4) by (simp_all add: term_ok_def)
  then obtain s2 where "hb_set_terminator ?s1 entry (TGoto (fc_bb (last (hb_finally s))) (Some stmt)) = Some s2"
      "hb_ext b ?s1 s2"
    using hb_set_terminator_ok [OF hb_extD(1) [OF s1]] by blast
  with False hb_ext_trans [OF s1] show ?thesis
    by (auto simp: build_jump_def Let_def intro: hb_postI)
qed

lemma break_target_less: "hb_inv b s \<Longrightarrow> entry < nb s \<Longrightarrow> break_target s entry < nb s"
  by (auto simp: break_target_def hb_inv_def)

lemma map_filter_hd_in: "List.map_filter f xs = y # ys \<Longrightarrow> \<exists>x \<in> set xs. f x = Some y"
  by (induction xs) (auto simp: List.map_filter_def split: option.splits if_splits)

lemma continue_target_less: "hb_inv b s \<Longrightarrow> entry < nb s \<Longrightarrow> continue_target s entry < nb s"
  by (auto simp: continue_target_def hb_inv_def dest!: map_filter_hd_in split: list.splits)

lemma build_stmt_step_ok:
  assumes wf: "body_wf b" and st: "stmt < length (b_stmts b)"
    and rec: "\<And>c. c < stmt \<Longrightarrow> rec_ok b rec c"
  shows "rec_ok b (build_stmt_step b rec) stmt"
proof -
  obtain x where x: "body_stmt b stmt = Some x" using body_stmt_Some [OF st] by blast
  note c = body_wf_stmt [OF wf x]
  have r: "rec_ok b rec ch" if "ch \<in> set (stmt_children (st_kind x))" for ch
    using rec c(2) that by blast
  have "hb_post b s (build_stmt_step b rec stmt s entry)" if i: "hb_inv b s" "entry < nb s" for s entry
  proof (cases "st_kind x")
    case (SBlock stmts)
    then show ?thesis
      using build_seq_ok [of stmts b rec s entry] r i x by (simp add: build_stmt_step_def)
  next
    case (SIf cnd tb eb)
    then show ?thesis
      using build_if_ok [OF wf i, of cnd stmt rec tb eb] r c(3) st x by (simp add: build_stmt_step_def)
  next
    case (SWhile cnd wb)
    then show ?thesis
      using build_while_ok [OF wf i, of cnd stmt rec wb] r c(3) st x by (simp add: build_stmt_step_def)
  next
    case (SDoWhile wb cnd)
    then show ?thesis
      using build_do_while_ok [OF wf i, of cnd stmt rec wb] r c(3) st x by (simp add: build_stmt_step_def)
  next
    case (SFor ini cnd upd fb)
    then show ?thesis
      using build_for_ok [OF wf i, of cnd stmt rec fb upd ini] r c(3) st x by (simp add: build_stmt_step_def)
  next
    case (SSwitch e arms)
    then show ?thesis
      using build_switch_ok [OF i, of e stmt arms rec] r c(3) st x by (simp add: build_stmt_step_def)
  next
    case (STry tb cs fin)
    then show ?thesis
      using build_try_plain_ok [OF i st, of rec tb cs] build_try_finally_ok [OF i st, of rec tb cs] r x
      by (cases fin) (simp_all add: build_stmt_step_def build_try_def)
  next
    case (SReturn v)
    have "term_ok b (nb s) (TReturn v stmt)" using SReturn c(3) st by (simp add: term_ok_def)
    then show ?thesis
      using build_leave_ok [OF i _ st] SReturn x
      by (simp add: build_stmt_step_def simple_stmt_def simple_kind_def)
  next
    case (SThrow e)
    have "term_ok b (nb s) (TThrow e stmt)" using SThrow c(3) st by (simp add: term_ok_def)
    then show ?thesis
      using build_leave_ok [OF i _ st] SThrow x
      by (simp add: build_stmt_step_def simple_stmt_def simple_kind_def)
  next
    case SBreak
    then show ?thesis
      using build_jump_ok [OF i break_target_less [OF i] st] x by (simp add: build_stmt_step_def)
  next
    case SContinue
    then show ?thesis
      using build_jump_ok [OF i continue_target_less [OF i] st] x by (simp add: build_stmt_step_def)
  qed (use build_simple_ok [OF i, of stmt] x in
        \<open>simp_all add: build_stmt_step_def simple_stmt_def simple_kind_def\<close>)
  then show ?thesis by (simp add: rec_ok_def)
qed

lemma build_stmt_ok:
  assumes "body_wf b" "stmt < length (b_stmts b)"
  shows "rec_ok b (build_stmt b) stmt"
proof -
  have "rec_ok b (arena_rec (\<lambda>_ _ _. None) (build_stmt_step b) n) st" if "st < n" "n \<le> length (b_stmts b)" for n st
    using that
  proof (induction n arbitrary: st)
    case (Suc n)
    have "rec_ok b (arena_rec (\<lambda>_ _ _. None) (build_stmt_step b) n) c" if "c < st" for c
      using Suc.IH [of c] Suc.prems that by simp
    then show ?case using build_stmt_step_ok [OF assms(1)] Suc.prems by simp
  qed simp
  then show ?thesis using assms(2) by (simp add: build_stmt_def)
qed

lemma hir_cfg_builder_new_ok:
  obtains s where "hir_cfg_builder_new = Some s" "hb_inv b s"
proof -
  have "block_ok b n \<lparr>blk_stmts = [], blk_term = TExit\<rparr>" for n by (simp add: block_ok_def term_ok_def)
  then show thesis
    using that by (auto simp: hir_cfg_builder_new_def new_block_def cfg_builder_new_def
        set_terminator_def vec_get_def hb_inv_def)
qed

lemma build_cfg_ok:
  assumes "body_wf b"
  obtains g where "build_cfg b = Some g" "cfg_wf g"
    "\<forall>blk \<in> set (cfg_blocks g). block_ok b (length (cfg_blocks g)) blk"
proof -
  obtain s where s: "hir_cfg_builder_new = Some s" "hb_inv b s" using hir_cfg_builder_new_ok by blast
  obtain s1 where s1: "hb_new_block s = (s1, nb s)" "hb_ext b s s1" "nb s1 = Suc (nb s)"
    using hb_new_block_ok [OF s(2)] by blast
  have root: "b_root b < length (b_stmts b)" using assms by (simp add: body_wf_def)
  have n1: "nb s < nb s1" using s1(3) by simp
  obtain s2 r where s2: "build_stmt b (b_root b) s1 (nb s) = Some (s2, r)" "hb_ext b s1 s2"
    using rec_okE [OF build_stmt_ok [OF assms root] hb_extD(1) [OF s1(2)] n1] by blast
  note i2 = hb_extD(1) [OF s2(2)]
  have ok: "\<forall>blk \<in> set (cb_blocks (hb_cfg s2)). block_ok b (nb s2) blk"
    and len: "length (cb_preds (hb_cfg s2)) = nb s2" using i2 by (simp_all add: hb_inv_def)
  from ok have "blocks_wf (cb_blocks (hb_cfg s2))" by (auto simp: blocks_wf_def block_ok_def term_ok_def)
  moreover have "nb s < nb s2" using n1 hb_extD(2) [OF s2(2)] by simp
  ultimately obtain g where g: "cfg_build (hb_cfg s2) (nb s) = Some g" "cfg_wf g"
      "cfg_blocks g = cb_blocks (hb_cfg s2)"
    using cfg_build_wf [OF _ len] by blast
  then have "build_cfg b = Some g" unfolding build_cfg_def s(1) using s1(1) s2(1) by simp
  with ok g show thesis using that by simp
qed

text \<open>
  Property C29. Lowering a well-formed method body always yields a control-flow graph (no
  index is out of range and the recursion ends). In the graph every jump stays in range,
  the predecessor table is the inverse of the successor relation, blocks hold only simple
  statements of the body, and terminators evaluate only expressions of the body.
\<close>

theorem build_cfg_wf:
  assumes "body_wf b"
  shows "\<exists>g. build_cfg b = Some g \<and> cfg_wf g \<and>
    (\<forall>blk \<in> set (cfg_blocks g). (\<forall>st \<in> set (blk_stmts blk). simple_stmt b st) \<and>
       (\<forall>e \<in> set (term_exprs (blk_term blk)). e < length (b_exprs b)))"
proof -
  obtain g where "build_cfg b = Some g" "cfg_wf g"
    "\<forall>blk \<in> set (cfg_blocks g). block_ok b (length (cfg_blocks g)) blk"
    by (rule build_cfg_ok [OF assms])
  then show ?thesis by (auto simp: block_ok_def term_ok_def)
qed

text \<open>A body with a loop, a conditional and an early exit, for the witnesses.\<close>

definition sample_body :: body where
  "sample_body =
     \<lparr>b_locals = [\<lparr>lv_name = ''p'', lv_kind = LParam, lv_span = \<lparr>sp_start = 0, sp_end = 1\<rparr>\<rparr>,
                  \<lparr>lv_name = ''x'', lv_kind = LLocal, lv_span = \<lparr>sp_start = 2, sp_end = 3\<rparr>\<rparr>],
      b_exprs = [\<lparr>ex_kind = ELocal 0, ex_span = \<lparr>sp_start = 4, sp_end = 5\<rparr>\<rparr>,
                 \<lparr>ex_kind = EInt 1, ex_span = \<lparr>sp_start = 6, sp_end = 7\<rparr>\<rparr>,
                 \<lparr>ex_kind = ELocal 1, ex_span = \<lparr>sp_start = 8, sp_end = 9\<rparr>\<rparr>],
      b_stmts = [\<lparr>st_kind = SLet 1 None, st_span = \<lparr>sp_start = 2, sp_end = 3\<rparr>\<rparr>,
                 \<lparr>st_kind = SAssign 1 1, st_span = \<lparr>sp_start = 6, sp_end = 7\<rparr>\<rparr>,
                 \<lparr>st_kind = SWhile 0 1, st_span = \<lparr>sp_start = 4, sp_end = 7\<rparr>\<rparr>,
                 \<lparr>st_kind = SReturn (Some 2), st_span = \<lparr>sp_start = 8, sp_end = 9\<rparr>\<rparr>,
                 \<lparr>st_kind = SBlock [0, 2, 3], st_span = \<lparr>sp_start = 0, sp_end = 9\<rparr>\<rparr>],
      b_root = 4\<rparr>"

lemma sample_body_wf: "body_wf sample_body"
  by (auto simp: body_wf_def sample_body_def expr_wf_at_def stmt_wf_at_def less_Suc_eq numeral_eq_Suc)

theorem build_cfg_wf_witness: "\<exists>g. build_cfg sample_body = Some g \<and> cfg_wf g"
  using build_cfg_wf [OF sample_body_wf] by blast

end
