(* ===== verification/Dataflow.thy ===== *)
theory Dataflow
  imports Flow_Build
begin

text \<open>
  The worklist iteration that the definite-assignment and the null analysis of
  \<^verbatim>\<open>crates/nova-flow/src/flow.rs\<close> share. The two functions of the source differ
  only in how the state on entry to a block is computed (\<open>new_in\<close>) and in the transfer
  function, so the loop takes both as arguments. The locale states what the loop needs of
  them; inside it the loop is shown to end in the greatest solution of the flow equations.
\<close>

section \<open>The loop\<close>

partial_function (option) dataflow_loop ::
  "(nat \<Rightarrow> 's list \<Rightarrow> 's option) \<Rightarrow> (nat \<Rightarrow> 's \<Rightarrow> 's option) \<Rightarrow> control_flow_graph \<Rightarrow> bool list \<Rightarrow>
   's list \<Rightarrow> 's list \<Rightarrow> nat list \<Rightarrow> ('s list \<times> 's list) option" where
  "dataflow_loop new_in transfer g reachable in_states out_states worklist =
     (case worklist of
        [] \<Rightarrow> Some (in_states, out_states)
      | bb # rest \<Rightarrow>
          do {
            is_reachable \<leftarrow> vec_get reachable bb;
            if \<not> is_reachable then dataflow_loop new_in transfer g reachable in_states out_states rest
            else do {
              ni \<leftarrow> new_in bb out_states;
              old_in \<leftarrow> vec_get in_states bb;
              let in_states' = (if ni \<noteq> old_in then in_states[bb := ni] else in_states);
              no \<leftarrow> transfer bb ni;
              old_out \<leftarrow> vec_get out_states bb;
              if no \<noteq> old_out then do {
                succs \<leftarrow> cfg_successors g bb;
                dataflow_loop new_in transfer g reachable in_states' (out_states[bb := no]) (rest @ succs)
              }
              else dataflow_loop new_in transfer g reachable in_states' out_states rest
            }
          })"

text \<open>The blocks the worklist starts with.\<close>

definition initial_worklist :: "bool list \<Rightarrow> nat list" where
  "initial_worklist reachable = map fst (filter snd (enumerate 0 reachable))"

lemma set_initial_worklist: "set (initial_worklist r) = {i. i < length r \<and> r ! i}"
  by (auto simp: initial_worklist_def in_set_enumerate_eq image_iff)

section \<open>Graphs under analysis\<close>

definition flow_ok :: "body \<Rightarrow> control_flow_graph \<Rightarrow> bool list \<Rightarrow> bool" where
  "flow_ok b g r \<longleftrightarrow> body_wf b \<and> cfg_wf g \<and>
     (\<forall>blk \<in> set (cfg_blocks g). block_ok b (length (cfg_blocks g)) blk) \<and> reachable_blocks g = Some r"

lemma flow_okD:
  assumes "flow_ok b g r"
  shows "body_wf b" "cfg_wf g" "blocks_wf (cfg_blocks g)" "cfg_entry g < length (cfg_blocks g)"
    "length r = length (cfg_blocks g)" "length (cfg_preds g) = length (cfg_blocks g)"
    "\<And>i. i < length (cfg_blocks g) \<Longrightarrow> r ! i \<longleftrightarrow> (cfg_edge g)\<^sup>*\<^sup>* (cfg_entry g) i"
    "\<And>i. i < length (cfg_blocks g) \<Longrightarrow> block_ok b (length (cfg_blocks g)) (cfg_blocks g ! i)"
proof -
  show w: "body_wf b" "cfg_wf g" "blocks_wf (cfg_blocks g)" "cfg_entry g < length (cfg_blocks g)"
    "length (cfg_preds g) = length (cfg_blocks g)"
    using assms by (auto simp: flow_ok_def cfg_wf_def)
  obtain r' where "reachable_blocks g = Some r'" "length r' = length (cfg_blocks g)"
    "\<forall>i < length (cfg_blocks g). r' ! i \<longleftrightarrow> (cfg_edge g)\<^sup>*\<^sup>* (cfg_entry g) i"
    using reachable_blocks_ok [OF w(3,4)] by blast
  then show "length r = length (cfg_blocks g)"
    "\<And>i. i < length (cfg_blocks g) \<Longrightarrow> r ! i \<longleftrightarrow> (cfg_edge g)\<^sup>*\<^sup>* (cfg_entry g) i"
    using assms by (auto simp: flow_ok_def)
  show "\<And>i. i < length (cfg_blocks g) \<Longrightarrow> block_ok b (length (cfg_blocks g)) (cfg_blocks g ! i)"
    using assms by (simp add: flow_ok_def)
qed

lemma flow_ok_preds:
  assumes "flow_ok b g r" "j < length (cfg_blocks g)"
  shows "i \<in> set (cfg_preds g ! j) \<longleftrightarrow> cfg_edge g i j"
  using flow_okD(2) [OF assms(1)] assms(2) by (simp add: cfg_wf_def)

lemma flow_ok_edge:
  assumes "flow_ok b g r" "cfg_edge g i j"
  shows "i < length (cfg_blocks g)" "j < length (cfg_blocks g)" "r ! i \<Longrightarrow> r ! j"
proof -
  show ij: "i < length (cfg_blocks g)" "j < length (cfg_blocks g)"
    using cfg_edge_less [OF flow_okD(3) [OF assms(1)] assms(2)] by auto
  assume "r ! i"
  then show "r ! j"
    using flow_okD(7) [OF assms(1)] ij assms(2) rtranclp.rtrancl_into_rtrancl by metis
qed

lemma flow_ok_entry: "flow_ok b g r \<Longrightarrow> r ! cfg_entry g"
  using flow_okD(4,7) by blast

lemma flow_ok_pred_ex:
  assumes "flow_ok b g r" "j < length (cfg_blocks g)" "r ! j" "j \<noteq> cfg_entry g"
  obtains i where "cfg_edge g i j" "r ! i"
proof -
  have "(cfg_edge g)\<^sup>*\<^sup>* (cfg_entry g) j" using flow_okD(7) [OF assms(1,2)] assms(3) by simp
  then obtain i where "(cfg_edge g)\<^sup>*\<^sup>* (cfg_entry g) i" "cfg_edge g i j"
    using assms(4) by (metis rtranclp.cases)
  then show thesis using that flow_okD(7) [OF assms(1)] flow_ok_edge(1) [OF assms(1)] by blast
qed

lemma build_cfg_flow_ok:
  assumes "body_wf b"
  obtains g r where "build_cfg b = Some g" "flow_ok b g r"
proof -
  obtain g where g: "build_cfg b = Some g" "cfg_wf g"
    "\<forall>blk \<in> set (cfg_blocks g). block_ok b (length (cfg_blocks g)) blk"
    by (rule build_cfg_ok [OF assms])
  moreover from g(2) obtain r where "reachable_blocks g = Some r"
    using reachable_blocks_ok [of g] unfolding cfg_wf_def by blast
  ultimately show thesis using that assms by (simp add: flow_ok_def)
qed

section \<open>What the loop needs of an analysis\<close>

text \<open>
  States are ordered by precision; every block starts with the greatest state. Computing the
  entry state and the transfer never panic on states of the right shape, and both are
  monotone, the entry state in the exit states of the reachable predecessors only.
\<close>

locale dataflow =
  fixes state_ok :: "body \<Rightarrow> 's \<Rightarrow> bool"
    and le :: "'s \<Rightarrow> 's \<Rightarrow> bool"
    and height :: "'s \<Rightarrow> nat"
    and start :: "body \<Rightarrow> 's"
    and new_in :: "body \<Rightarrow> control_flow_graph \<Rightarrow> bool list \<Rightarrow> nat \<Rightarrow> 's list \<Rightarrow> 's option"
    and transfer :: "body \<Rightarrow> control_flow_graph \<Rightarrow> nat \<Rightarrow> 's \<Rightarrow> 's option"
  assumes le_refl: "le s s"
    and le_trans: "le s t \<Longrightarrow> le t u \<Longrightarrow> le s u"
    and le_antisym: "le s t \<Longrightarrow> le t s \<Longrightarrow> s = t"
    and height_less: "le s t \<Longrightarrow> s \<noteq> t \<Longrightarrow> height s < height t"
    and start_ok: "state_ok b (start b)"
    and start_top: "state_ok b s \<Longrightarrow> le s (start b)"
    and new_in_ok: "flow_ok b g r \<Longrightarrow> bb < length (cfg_blocks g) \<Longrightarrow> r ! bb \<Longrightarrow>
      length outs = length (cfg_blocks g) \<Longrightarrow> \<forall>s \<in> set outs. state_ok b s \<Longrightarrow>
      \<exists>s. new_in b g r bb outs = Some s \<and> state_ok b s"
    and new_in_mono: "flow_ok b g r \<Longrightarrow> bb < length (cfg_blocks g) \<Longrightarrow>
      length outs = length (cfg_blocks g) \<Longrightarrow> length outs' = length (cfg_blocks g) \<Longrightarrow>
      \<forall>s \<in> set outs. state_ok b s \<Longrightarrow> \<forall>s \<in> set outs'. state_ok b s \<Longrightarrow>
      (\<And>p. cfg_edge g p bb \<Longrightarrow> r ! p \<Longrightarrow> le (outs ! p) (outs' ! p)) \<Longrightarrow>
      new_in b g r bb outs = Some s \<Longrightarrow> new_in b g r bb outs' = Some s' \<Longrightarrow> le s s'"
    and transfer_ok: "flow_ok b g r \<Longrightarrow> bb < length (cfg_blocks g) \<Longrightarrow> state_ok b s \<Longrightarrow>
      \<exists>s'. transfer b g bb s = Some s' \<and> state_ok b s'"
    and transfer_mono: "flow_ok b g r \<Longrightarrow> bb < length (cfg_blocks g) \<Longrightarrow> state_ok b s \<Longrightarrow>
      state_ok b t \<Longrightarrow> le s t \<Longrightarrow> transfer b g bb s = Some s' \<Longrightarrow> transfer b g bb t = Some t' \<Longrightarrow> le s' t'"
begin

text \<open>One application of the flow equations at a block.\<close>

definition flow_at where
  "flow_at b g r bb outs = Option.bind (new_in b g r bb outs) (transfer b g bb)"

definition states_ok where
  "states_ok b g outs \<longleftrightarrow> length outs = length (cfg_blocks g) \<and> (\<forall>s \<in> set outs. state_ok b s)"

definition solution where
  "solution b g r ins outs \<longleftrightarrow> states_ok b g ins \<and> states_ok b g outs \<and>
     (\<forall>bb < length (cfg_blocks g). r ! bb \<longrightarrow>
        new_in b g r bb outs = Some (ins ! bb) \<and> transfer b g bb (ins ! bb) = Some (outs ! bb))"

text \<open>Assignments of exit states that the flow equations do not lower.\<close>

definition supported where
  "supported b g r outs \<longleftrightarrow> states_ok b g outs \<and>
     (\<forall>bb < length (cfg_blocks g). r ! bb \<longrightarrow> (\<exists>s. flow_at b g r bb outs = Some s \<and> le (outs ! bb) s))"

definition loop_inv where
  "loop_inv b g r ins outs wl \<longleftrightarrow> states_ok b g ins \<and> states_ok b g outs \<and>
     (\<forall>w \<in> set wl. w < length (cfg_blocks g)) \<and>
     (\<forall>bb < length (cfg_blocks g). r ! bb \<longrightarrow> (\<exists>s. flow_at b g r bb outs = Some s \<and> le s (outs ! bb))) \<and>
     (\<forall>bb < length (cfg_blocks g). r ! bb \<longrightarrow> bb \<notin> set wl \<longrightarrow>
        new_in b g r bb outs = Some (ins ! bb) \<and> transfer b g bb (ins ! bb) = Some (outs ! bb)) \<and>
     (\<forall>G. supported b g r G \<longrightarrow> (\<forall>bb < length (cfg_blocks g). r ! bb \<longrightarrow> le (G ! bb) (outs ! bb)))"

lemma states_ok_update:
  "states_ok b g outs \<Longrightarrow> state_ok b s \<Longrightarrow> states_ok b g (outs[i := s])"
  by (auto simp: states_ok_def dest: set_list_update_subset)

lemma states_ok_nth: "states_ok b g outs \<Longrightarrow> i < length (cfg_blocks g) \<Longrightarrow> state_ok b (outs ! i)"
  by (simp add: states_ok_def)

lemma flow_at_ok:
  assumes "flow_ok b g r" "bb < length (cfg_blocks g)" "r ! bb" "states_ok b g outs"
  obtains ni no where "new_in b g r bb outs = Some ni" "transfer b g bb ni = Some no"
    "flow_at b g r bb outs = Some no" "state_ok b ni" "state_ok b no"
  using new_in_ok [OF assms(1-3), of outs] transfer_ok [OF assms(1,2)] assms(4)
  by (force simp: flow_at_def states_ok_def)

lemma flow_at_mono:
  assumes "flow_ok b g r" "bb < length (cfg_blocks g)" "r ! bb" "states_ok b g outs" "states_ok b g outs'"
    "\<And>p. cfg_edge g p bb \<Longrightarrow> r ! p \<Longrightarrow> le (outs ! p) (outs' ! p)"
    "flow_at b g r bb outs = Some s" "flow_at b g r bb outs' = Some s'"
  shows "le s s'"
proof -
  obtain ni where n: "new_in b g r bb outs = Some ni" "transfer b g bb ni = Some s" "state_ok b ni"
    using flow_at_ok [OF assms(1-4)] assms(7) by (metis option.inject)
  obtain ni' where n': "new_in b g r bb outs' = Some ni'" "transfer b g bb ni' = Some s'" "state_ok b ni'"
    using flow_at_ok [OF assms(1-3,5)] assms(8) by (metis option.inject)
  have "le ni ni'"
    using new_in_mono [OF assms(1,2) _ _ _ _ assms(6) n(1) n'(1)] assms(4,5) by (simp add: states_ok_def)
  then show ?thesis using transfer_mono [OF assms(1,2) n(3) n'(3) _ n(2) n'(2)] by blast
qed

text \<open>A block none of whose reachable predecessors changed keeps its entry state.\<close>

lemma new_in_local:
  assumes "flow_ok b g r" "bb < length (cfg_blocks g)" "r ! bb" "states_ok b g outs" "states_ok b g outs'"
    "\<And>p. cfg_edge g p bb \<Longrightarrow> r ! p \<Longrightarrow> outs ! p = outs' ! p"
  shows "new_in b g r bb outs = new_in b g r bb outs'"
proof -
  obtain n where n: "new_in b g r bb outs = Some n" using flow_at_ok [OF assms(1-4)] by blast
  obtain n' where n': "new_in b g r bb outs' = Some n'" using flow_at_ok [OF assms(1-3,5)] by blast
  have o: "length outs = length (cfg_blocks g)" "length outs' = length (cfg_blocks g)"
    "\<forall>s \<in> set outs. state_ok b s" "\<forall>s \<in> set outs'. state_ok b s"
    using assms(4,5) by (simp_all add: states_ok_def)
  have "le n n'" by (rule new_in_mono [OF assms(1,2) o _ n n']) (simp add: assms(6) le_refl)
  moreover have "le n' n"
    by (rule new_in_mono [OF assms(1,2) o(2,1,4,3) _ n' n]) (simp add: assms(6) le_refl)
  ultimately show ?thesis using n n' le_antisym by simp
qed

lemma sum_height_less:
  assumes "i < length outs" "height s < height (outs ! i)"
  shows "sum_list (map height (outs[i := s])) < sum_list (map height outs)"
proof -
  have "sum_list (map height outs) = sum_list (map height (take i outs)) + height (outs ! i) +
      sum_list (map height (drop (Suc i) outs))"
    by (subst id_take_nth_drop [OF assms(1)]) simp
  moreover have "sum_list (map height (outs[i := s])) = sum_list (map height (take i outs)) + height s +
      sum_list (map height (drop (Suc i) outs))"
    using assms(1) by (simp add: upd_conv_take_nth_drop)
  ultimately show ?thesis using assms(2) by simp
qed

text \<open>The exit state of the block at the head of the worklist changes.\<close>

lemma loop_inv_change:
  assumes ok: "flow_ok b g r" and inv: "loop_inv b g r ins outs (bb # rest)" and rb: "r ! bb"
    and ni: "new_in b g r bb outs = Some ni" and no: "transfer b g bb ni = Some no"
  shows "loop_inv b g r (ins[bb := ni]) (outs[bb := no]) (rest @ targets_of (blk_term (cfg_blocks g ! bb)))"
proof -
  let ?n = "length (cfg_blocks g)" and ?o = "outs[bb := no]"
  have bb: "bb < ?n" and so: "states_ok b g outs" and si: "states_ok b g ins"
    using inv by (auto simp: loop_inv_def)
  have fl: "flow_at b g r bb outs = Some no" using ni no by (simp add: flow_at_def)
  have sn: "state_ok b ni" "state_ok b no"
    using flow_at_ok [OF ok bb rb so] ni no by (metis option.inject)+
  have so': "states_ok b g ?o" using states_ok_update [OF so sn(2)] .
  have dec: "le (?o ! c) (outs ! c)" if "c < ?n" for c
    using inv fl bb so that le_refl
    by (cases "c = bb") (auto simp: loop_inv_def states_ok_def rb)
  have edge: "cfg_edge g bb c \<longleftrightarrow> c \<in> set (targets_of (blk_term (cfg_blocks g ! bb)))" for c
    using bb by (simp add: cfg_edge_def)
  have keep: "new_in b g r c ?o = new_in b g r c outs"
    if "c < ?n" "r ! c" "\<not> cfg_edge g bb c" for c
    by (rule new_in_local [OF ok that(1,2) so' so]) (metis nth_list_update_neq that(3))
  have post: "\<exists>s. flow_at b g r c ?o = Some s \<and> le s (?o ! c)" if c: "c < ?n" "r ! c" for c
  proof -
    obtain s' where s': "flow_at b g r c ?o = Some s'" using flow_at_ok [OF ok c so'] by blast
    obtain s where s: "flow_at b g r c outs = Some s" "le s (outs ! c)"
      using inv c by (auto simp: loop_inv_def)
    have "le s' s"
      by (rule flow_at_mono [OF ok c so' so dec s' s(1)]) (use flow_ok_edge(1) [OF ok] in blast)
    moreover have "le s (?o ! c)"
      using s fl bb so le_refl by (cases "c = bb") (auto simp: states_ok_def)
    ultimately show ?thesis using s' le_trans by blast
  qed
  have fixed: "new_in b g r c ?o = Some (ins[bb := ni] ! c) \<and> transfer b g c (ins[bb := ni] ! c) = Some (?o ! c)"
    if c: "c < ?n" "r ! c" "c \<notin> set (rest @ targets_of (blk_term (cfg_blocks g ! bb)))" for c
    using keep [OF c(1,2)] c edge inv ni no bb so si
    by (cases "c = bb") (auto simp: loop_inv_def states_ok_def)
  have great: "le (G ! c) (?o ! c)" if G: "supported b g r G" and c: "c < ?n" "r ! c" for G c
  proof (cases "c = bb")
    case True
    have sG: "states_ok b g G" using G by (simp add: supported_def)
    obtain s where s: "flow_at b g r bb G = Some s" "le (G ! bb) s"
      using G bb rb by (auto simp: supported_def)
    have below: "le (G ! p) (outs ! p)" if "cfg_edge g p bb" "r ! p" for p
      using inv G that flow_ok_edge(1) [OF ok that(1)] by (auto simp: loop_inv_def)
    have "le s no" by (rule flow_at_mono [OF ok bb rb sG so below s(1) fl])
    with s(2) True bb so show ?thesis using le_trans by (auto simp: states_ok_def)
  next
    case False
    then show ?thesis using inv G c by (auto simp: loop_inv_def)
  qed
  have "\<forall>w \<in> set (rest @ targets_of (blk_term (cfg_blocks g ! bb))). w < ?n"
    using inv edge flow_ok_edge(2) [OF ok] by (auto simp: loop_inv_def)
  then show ?thesis
    unfolding loop_inv_def
    using so' states_ok_update [OF si sn(1)] post fixed great by blast
qed

lemma loop_inv_keep:
  assumes ok: "flow_ok b g r" and inv: "loop_inv b g r ins outs (bb # rest)" and rb: "r ! bb"
    and ni: "new_in b g r bb outs = Some ni" and no: "transfer b g bb ni = Some (outs ! bb)"
  shows "loop_inv b g r (ins[bb := ni]) outs rest"
proof -
  have bb: "bb < length (cfg_blocks g)" and so: "states_ok b g outs" and si: "states_ok b g ins"
    using inv by (auto simp: loop_inv_def)
  have "state_ok b ni" using flow_at_ok [OF ok bb rb so] ni by (metis option.inject)
  from states_ok_update [OF si this] show ?thesis
    using inv ni no bb si unfolding loop_inv_def
    by (auto simp: states_ok_def nth_list_update)
qed

lemma loop_inv_skip: "loop_inv b g r ins outs (bb # rest) \<Longrightarrow> \<not> r ! bb \<Longrightarrow> loop_inv b g r ins outs rest"
  unfolding loop_inv_def by auto

text \<open>The loop ends: every round lowers an exit state or shortens the worklist.\<close>

lemma dataflow_loop_inv:
  assumes ok: "flow_ok b g r" and "loop_inv b g r ins outs wl"
  shows "\<exists>ins' outs'. dataflow_loop (new_in b g r) (transfer b g) g r ins outs wl = Some (ins', outs') \<and>
    loop_inv b g r ins' outs' []"
  using assms(2)
proof (induction "(sum_list (map height outs), length wl)" arbitrary: ins outs wl rule: wf_induct_rule
    [OF wf_lex_prod [OF wf_less wf_less]])
  case 1
  let ?loop = "dataflow_loop (new_in b g r) (transfer b g) g r"
  show ?case
  proof (cases wl)
    case Nil
    then show ?thesis using 1(2) by (simp add: dataflow_loop.simps)
  next
    case (Cons bb rest)
    note inv = 1(2) [unfolded Cons]
    have bb: "bb < length (cfg_blocks g)" and so: "states_ok b g outs" and si: "states_ok b g ins"
      using inv by (auto simp: loop_inv_def)
    have len: "bb < length r" "bb < length ins" "bb < length outs"
      using bb so si flow_okD(5) [OF ok] by (simp_all add: states_ok_def)
    show ?thesis
    proof (cases "r ! bb")
      case False
      then have "?loop ins outs wl = ?loop ins outs rest"
        using len by (simp add: Cons dataflow_loop.simps [of _ _ _ _ _ _ "bb # rest"] vec_get_def)
      with 1(1) [OF _ loop_inv_skip [OF inv False]] show ?thesis by (simp add: Cons)
    next
      case True
      obtain ni no where ni: "new_in b g r bb outs = Some ni" and no: "transfer b g bb ni = Some no"
        using flow_at_ok [OF ok bb True so] by blast
      have upd: "(if ni \<noteq> ins ! bb then ins[bb := ni] else ins) = ins[bb := ni]" by auto
      show ?thesis
      proof (cases "no = outs ! bb")
        case same: True
        have "?loop ins outs wl = ?loop (ins[bb := ni]) outs rest"
          using len True ni no same
          by (simp add: Cons dataflow_loop.simps [of _ _ _ _ _ _ "bb # rest"] vec_get_def Let_def upd)
        with 1(1) [OF _ loop_inv_keep [OF ok inv True ni no [unfolded same]]] show ?thesis by (simp add: Cons)
      next
        case diff: False
        let ?ts = "targets_of (blk_term (cfg_blocks g ! bb))"
        have "?loop ins outs wl = ?loop (ins[bb := ni]) (outs[bb := no]) (rest @ ?ts)"
          using len True ni no diff bb
          by (simp add: Cons dataflow_loop.simps [of _ _ _ _ _ _ "bb # rest"] vec_get_def Let_def upd
              cfg_successors_def block_successors_eq)
        moreover have "le no (outs ! bb)"
          using inv bb True ni no by (auto simp: loop_inv_def flow_at_def)
        then have "sum_list (map height (outs[bb := no])) < sum_list (map height outs)"
          using sum_height_less [OF len(3)] height_less diff by blast
        ultimately show ?thesis
          using 1(1) [OF _ loop_inv_change [OF ok inv True ni no]] by simp
      qed
    qed
  qed
qed

lemma dataflow_solution:
  assumes ok: "flow_ok b g r" and ins: "states_ok b g ins"
  shows "\<exists>ins' outs'. dataflow_loop (new_in b g r) (transfer b g) g r ins
        (replicate (length (cfg_blocks g)) (start b)) (initial_worklist r) = Some (ins', outs') \<and>
    solution b g r ins' outs' \<and>
    (\<forall>G. supported b g r G \<longrightarrow> (\<forall>bb < length (cfg_blocks g). r ! bb \<longrightarrow> le (G ! bb) (outs' ! bb)))"
proof -
  let ?top = "replicate (length (cfg_blocks g)) (start b)"
  have top: "states_ok b g ?top" using start_ok by (auto simp: states_ok_def)
  have "\<exists>s. flow_at b g r bb ?top = Some s \<and> le s (?top ! bb)" if "bb < length (cfg_blocks g)" "r ! bb" for bb
    using flow_at_ok [OF ok that top] that(1) start_top by (metis nth_replicate)
  moreover have "le (G ! bb) (?top ! bb)" if "supported b g r G" "bb < length (cfg_blocks g)" for G bb
    using that start_top [OF states_ok_nth [of b g G bb]] by (simp add: supported_def)
  ultimately have "loop_inv b g r ins ?top (initial_worklist r)"
    using ins top flow_okD(5) [OF ok] by (auto simp: loop_inv_def set_initial_worklist)
  from dataflow_loop_inv [OF ok this] show ?thesis
    by (force simp: loop_inv_def solution_def)
qed

end

end
