(* ===== verification/Flow_Diag.thy ===== *)
theory Flow_Diag
  imports Dataflow "HOL-Library.List_Lexorder" "HOL-Library.Char_ord" "HOL-Library.Product_Lexorder"
begin

text \<open>
  Diagnostics of the flow analyses (\<^verbatim>\<open>crates/nova-flow/src/diagnostics.rs\<close> and
  \<^verbatim>\<open>Diagnostic\<close> of \<^verbatim>\<open>crates/nova-types/src/lib.rs\<close>), and the pieces both
  analyses use to walk the inputs of a block. A function of the source that pushes to a
  vector of diagnostics is modelled by the list of diagnostics it pushes.
\<close>

section \<open>Diagnostics\<close>

datatype severity = SevError | SevWarning

record diagnostic =
  dg_severity :: severity
  dg_code :: string
  dg_message :: string
  dg_span :: "span option"

definition diagnostic_error :: "string \<Rightarrow> string \<Rightarrow> span option \<Rightarrow> diagnostic" where
  "diagnostic_error code message sp =
     \<lparr>dg_severity = SevError, dg_code = code, dg_message = message, dg_span = sp\<rparr>"

definition diagnostic_warning :: "string \<Rightarrow> string \<Rightarrow> span option \<Rightarrow> diagnostic" where
  "diagnostic_warning code message sp =
     \<lparr>dg_severity = SevWarning, dg_code = code, dg_message = message, dg_span = sp\<rparr>"

datatype flow_diagnostic_kind = UseBeforeAssignment | UnreachableCode | PossibleNullDereference

record flow_config =
  report_unreachable :: bool
  report_possible_null_deref :: bool

definition flow_config_default :: flow_config where
  "flow_config_default = \<lparr>report_unreachable = True, report_possible_null_deref = True\<rparr>"

fun flow_diagnostic :: "flow_diagnostic_kind \<Rightarrow> span option \<Rightarrow> string \<Rightarrow> diagnostic" where
  "flow_diagnostic UseBeforeAssignment sp message = diagnostic_error ''FLOW_UNASSIGNED'' message sp"
| "flow_diagnostic UnreachableCode sp message = diagnostic_warning ''FLOW_UNREACHABLE'' message sp"
| "flow_diagnostic PossibleNullDereference sp message = diagnostic_warning ''FLOW_NULL_DEREF'' message sp"

lemma flow_diagnostic_code [simp]:
  "dg_code (flow_diagnostic UseBeforeAssignment sp m) = ''FLOW_UNASSIGNED''"
  "dg_code (flow_diagnostic UnreachableCode sp m) = ''FLOW_UNREACHABLE''"
  "dg_code (flow_diagnostic PossibleNullDereference sp m) = ''FLOW_NULL_DEREF''"
  by (simp_all add: diagnostic_error_def diagnostic_warning_def)

lemma flow_diagnostic_span [simp]: "dg_span (flow_diagnostic k sp m) = sp"
  by (cases k) (simp_all add: diagnostic_error_def diagnostic_warning_def)

declare flow_diagnostic.simps [simp del]

section \<open>Inputs of a block\<close>

text \<open>The states flowing in from the reachable predecessors, in the order of the predecessor list.\<close>

definition collect_inputs :: "(nat \<Rightarrow> 's option) \<Rightarrow> bool list \<Rightarrow> nat list \<Rightarrow> 's list option" where
  "collect_inputs f reachable preds =
     fold_opt (\<lambda>acc pred.
         do {
           is_reachable \<leftarrow> vec_get reachable pred;
           if is_reachable then do { s \<leftarrow> f pred; Some (acc @ [s]) } else Some acc
         }) [] preds"

text \<open>Updating the slots of a vector from the matching slots of another.\<close>

definition zip_slots :: "('a \<Rightarrow> 'a \<Rightarrow> 'a) \<Rightarrow> 'a list \<Rightarrow> 'a list \<Rightarrow> 'a list" where
  "zip_slots f out inp = map2 f out inp @ drop (length inp) out"

definition set_slot :: "'a list \<Rightarrow> nat \<Rightarrow> 'a \<Rightarrow> 'a list option" where
  "set_slot state i v = (if i < length state then Some (state[i := v]) else None)"

lemmas flow_diag_eval [nova_eval] =
  diagnostic_error_def diagnostic_warning_def flow_diagnostic.simps flow_config_default_def
  collect_inputs_def zip_slots_def set_slot_def

lemma collect_inputs_acc:
  assumes "\<And>p. p \<in> set preds \<Longrightarrow> p < length r" "\<And>p. p \<in> set preds \<Longrightarrow> r ! p \<Longrightarrow> f p = Some (h p)"
  shows "fold_opt (\<lambda>acc pred. Option.bind (vec_get r pred)
      (\<lambda>ok. if ok then Option.bind (f pred) (\<lambda>s. Some (acc @ [s])) else Some acc)) acc preds =
    Some (acc @ map h (filter (\<lambda>p. r ! p) preds))"
  using assms by (induction preds arbitrary: acc) (auto simp: vec_get_def)

lemma collect_inputs_eq:
  assumes "\<And>p. p \<in> set preds \<Longrightarrow> p < length r" "\<And>p. p \<in> set preds \<Longrightarrow> r ! p \<Longrightarrow> f p = Some (h p)"
  shows "collect_inputs f r preds = Some (map h (filter (\<lambda>p. r ! p) preds))"
  unfolding collect_inputs_def by (subst collect_inputs_acc [where h = h]) (simp_all add: assms)

lemma length_zip_slots [simp]: "length (zip_slots f out inp) = length out"
  by (simp add: zip_slots_def)

lemma nth_zip_slots:
  "i < length out \<Longrightarrow> zip_slots f out inp ! i = (if i < length inp then f (out ! i) (inp ! i) else out ! i)"
  by (simp add: zip_slots_def nth_append)

lemma foldl_zip_slots_length [simp]: "length (foldl (zip_slots f) out inps) = length out"
  by (induction inps arbitrary: out) simp_all

lemma foldl_zip_slots_nth:
  assumes "i < length out" "\<And>s. s \<in> set inps \<Longrightarrow> i < length s"
  shows "foldl (zip_slots f) out inps ! i = foldl f (out ! i) (map (\<lambda>s. s ! i) inps)"
  using assms by (induction inps arbitrary: out) (simp_all add: nth_zip_slots)

section \<open>Heights of state vectors\<close>

lemma list_all2_height:
  fixes h :: "'a \<Rightarrow> nat"
  assumes "list_all2 R s t" "\<And>x y. R x y \<Longrightarrow> x \<noteq> y \<Longrightarrow> h x < h y"
  shows "sum_list (map h s) \<le> sum_list (map h t)"
    and "s \<noteq> t \<Longrightarrow> sum_list (map h s) < sum_list (map h t)"
proof -
  have le: "R x y \<Longrightarrow> h x \<le> h y" for x y using assms(2) [of x y] by (cases "x = y") auto
  show m: "sum_list (map h s) \<le> sum_list (map h t)"
    using assms(1) by (induction rule: list_all2_induct) (auto dest: le)
  show "s \<noteq> t \<Longrightarrow> sum_list (map h s) < sum_list (map h t)"
    using assms(1)
  proof (induction rule: list_all2_induct)
    case (Cons x xs y ys)
    have "sum_list (map h xs) \<le> sum_list (map h ys)"
      using Cons(2) by (induction rule: list_all2_induct) (auto dest: le)
    then show ?case
      using Cons assms(2) [of x y] le [of x y] by (cases "x = y") (auto intro: add_less_le_mono)
  qed simp
qed

end
