(* ===== verification/Flow_Assign.thy ===== *)
theory Flow_Assign
  imports Flow_Diag
begin

text \<open>
  Definite assignment, after \<^verbatim>\<open>crates/nova-flow/src/flow.rs\<close>: the flow states,
  the transfer functions and the diagnostics. The states are shown to be the meet over all
  paths of the graph, and a body without diagnostics never reads an unassigned local.
\<close>

section \<open>Expressions\<close>

text \<open>The checks of a list of expressions, one after the other.\<close>

definition check_all :: "(nat \<Rightarrow> 'd list option) \<Rightarrow> nat list \<Rightarrow> 'd list option" where
  "check_all rec es = fold_opt (\<lambda>ds e. map_option (\<lambda>d. ds @ d) (rec e)) [] es"

definition unassigned_message :: "string \<Rightarrow> string" where
  "unassigned_message name = ''use of local `'' @ name @ ''` before definite assignment''"

text \<open>Whether a short-circuit operator with this left operand never evaluates the right one.\<close>

definition skips_rhs :: "body \<Rightarrow> binary_op \<Rightarrow> nat \<Rightarrow> bool option" where
  "skips_rhs b op lhs =
     (case op of
        AndAnd \<Rightarrow> map_option (\<lambda>c. c = Some False) (eval_const_bool b lhs)
      | OrOr \<Rightarrow> map_option (\<lambda>c. c = Some True) (eval_const_bool b lhs)
      | _ \<Rightarrow> Some False)"

definition check_expr_assigned_step ::
  "body \<Rightarrow> bool list \<Rightarrow> (nat \<Rightarrow> diagnostic list option) \<Rightarrow> nat \<Rightarrow> diagnostic list option" where
  "check_expr_assigned_step b state rec e =
     do {
       x \<leftarrow> body_expr b e;
       (case ex_kind x of
          ELocal l \<Rightarrow>
            if l < length state \<and> \<not> state ! l then
              do {
                lv \<leftarrow> vec_get (b_locals b) l;
                Some [flow_diagnostic UseBeforeAssignment (Some (ex_span x)) (unassigned_message (lv_name lv))]
              }
            else Some []
        | EUnary _ e' \<Rightarrow> rec e'
        | EBinary op lhs rhs \<Rightarrow>
            do {
              ds \<leftarrow> rec lhs;
              skip \<leftarrow> skips_rhs b op lhs;
              if skip then Some ds else map_option (\<lambda>ds'. ds @ ds') (rec rhs)
            }
        | EFieldAccess receiver _ \<Rightarrow> rec receiver
        | ECall receiver _ args \<Rightarrow>
            do {
              ds \<leftarrow> (case receiver of None \<Rightarrow> Some [] | Some r \<Rightarrow> rec r);
              map_option (\<lambda>ds'. ds @ ds') (check_all rec args)
            }
        | ENew _ args \<Rightarrow> check_all rec args
        | EInvalid children \<Rightarrow> check_all rec children
        | ENull \<Rightarrow> Some []
        | EBool _ \<Rightarrow> Some []
        | EInt _ \<Rightarrow> Some []
        | EString _ \<Rightarrow> Some [])
     }"

definition check_expr_assigned :: "body \<Rightarrow> bool list \<Rightarrow> nat \<Rightarrow> diagnostic list option" where
  "check_expr_assigned b state e =
     arena_rec (\<lambda>_. None) (check_expr_assigned_step b state) (length (b_exprs b)) e"

section \<open>Statements, terminators and blocks\<close>

definition transfer_stmt_definite_assignment ::
  "body \<Rightarrow> bool list \<times> diagnostic list \<Rightarrow> nat \<Rightarrow> (bool list \<times> diagnostic list) option" where
  "transfer_stmt_definite_assignment b sd st =
     (case sd of (state, diags) \<Rightarrow>
      do {
        x \<leftarrow> body_stmt b st;
        (case st_kind x of
           SLet local initializer \<Rightarrow>
             (case initializer of
                Some e \<Rightarrow>
                  do {
                    ds \<leftarrow> check_expr_assigned b state e;
                    state' \<leftarrow> set_slot state local True;
                    Some (state', diags @ ds)
                  }
              | None \<Rightarrow> do { state' \<leftarrow> set_slot state local False; Some (state', diags) })
         | SAssign target value \<Rightarrow>
             do {
               ds \<leftarrow> check_expr_assigned b state value;
               state' \<leftarrow> set_slot state target True;
               Some (state', diags @ ds)
             }
         | SExpr e \<Rightarrow> do { ds \<leftarrow> check_expr_assigned b state e; Some (state, diags @ ds) }
         | SReturn value \<Rightarrow>
             (case value of
                None \<Rightarrow> Some (state, diags)
              | Some e \<Rightarrow> do { ds \<leftarrow> check_expr_assigned b state e; Some (state, diags @ ds) })
         | SThrow e \<Rightarrow> do { ds \<leftarrow> check_expr_assigned b state e; Some (state, diags @ ds) }
         | SBlock _ \<Rightarrow> None
         | _ \<Rightarrow> Some (state, diags))
      })"

definition transfer_terminator_definite_assignment ::
  "body \<Rightarrow> terminator \<Rightarrow> bool list \<times> diagnostic list \<Rightarrow> (bool list \<times> diagnostic list) option" where
  "transfer_terminator_definite_assignment b term sd =
     (case sd of (state, diags) \<Rightarrow>
        (case term of
           TIf condition _ _ _ \<Rightarrow>
             map_option (\<lambda>ds. (state, diags @ ds)) (check_expr_assigned b state condition)
         | TSwitch expression _ _ \<Rightarrow>
             map_option (\<lambda>ds. (state, diags @ ds)) (check_expr_assigned b state expression)
         | TReturn value _ \<Rightarrow>
             (case value of
                None \<Rightarrow> Some (state, diags)
              | Some e \<Rightarrow> map_option (\<lambda>ds. (state, diags @ ds)) (check_expr_assigned b state e))
         | TThrow exception _ \<Rightarrow>
             map_option (\<lambda>ds. (state, diags @ ds)) (check_expr_assigned b state exception)
         | _ \<Rightarrow> Some (state, diags)))"

definition transfer_definite_assignment ::
  "body \<Rightarrow> control_flow_graph \<Rightarrow> nat \<Rightarrow> bool list \<Rightarrow> bool list option" where
  "transfer_definite_assignment b g bb in_state =
     do {
       blk \<leftarrow> vec_get (cfg_blocks g) bb;
       state \<leftarrow> fold_opt (\<lambda>s st. map_option fst (transfer_stmt_definite_assignment b (s, []) st))
                  in_state (blk_stmts blk);
       map_option fst (transfer_terminator_definite_assignment b (blk_term blk) (state, []))
     }"

section \<open>States\<close>

definition initial_assigned :: "body \<Rightarrow> bool list" where
  "initial_assigned b = map (\<lambda>local. lv_kind local = LParam) (b_locals b)"

definition meet_assigned :: "nat \<Rightarrow> bool list list \<Rightarrow> bool list" where
  "meet_assigned n_locals inputs =
     (case inputs of
        [] \<Rightarrow> replicate n_locals False
      | first # rest \<Rightarrow> foldl (zip_slots (\<and>)) first rest)"

definition assigned_new_in ::
  "body \<Rightarrow> control_flow_graph \<Rightarrow> bool list \<Rightarrow> nat \<Rightarrow> bool list list \<Rightarrow> bool list option" where
  "assigned_new_in b g reachable bb out_states =
     (if bb = cfg_entry g then Some (initial_assigned b)
      else
        do {
          preds \<leftarrow> cfg_predecessors g bb;
          inputs \<leftarrow> collect_inputs (vec_get out_states) reachable preds;
          Some (meet_assigned (length (b_locals b)) inputs)
        })"

definition definite_assignment_states ::
  "body \<Rightarrow> control_flow_graph \<Rightarrow> bool list \<Rightarrow> (bool list list \<times> bool list list) option" where
  "definite_assignment_states b g reachable =
     (let n_blocks = length (cfg_blocks g); n_locals = length (b_locals b) in
      do {
        in_states \<leftarrow> set_slot (replicate n_blocks (replicate n_locals True)) (cfg_entry g) (initial_assigned b);
        dataflow_loop (assigned_new_in b g reachable) (transfer_definite_assignment b g) g reachable
          in_states (replicate n_blocks (replicate n_locals True)) (initial_worklist reachable)
      })"

definition definite_assignment_block ::
  "body \<Rightarrow> bool list \<Rightarrow> bool list list \<Rightarrow> diagnostic list \<Rightarrow> nat \<times> basic_block \<Rightarrow> diagnostic list option" where
  "definite_assignment_block b reachable in_states diags ib =
     (case ib of (idx, blk) \<Rightarrow>
      do {
        is_reachable \<leftarrow> vec_get reachable idx;
        if \<not> is_reachable then Some diags
        else do {
          state \<leftarrow> vec_get in_states idx;
          sd \<leftarrow> fold_opt (transfer_stmt_definite_assignment b) (state, diags) (blk_stmts blk);
          map_option snd (transfer_terminator_definite_assignment b (blk_term blk) sd)
        }
      })"

definition definite_assignment_diagnostics ::
  "body \<Rightarrow> control_flow_graph \<Rightarrow> bool list \<Rightarrow> diagnostic list option" where
  "definite_assignment_diagnostics b g reachable =
     do {
       (in_states, _) \<leftarrow> definite_assignment_states b g reachable;
       fold_opt (definite_assignment_block b reachable in_states) [] (enumerate 0 (cfg_blocks g))
     }"

lemmas flow_assign_eval [nova_eval] =
  check_all_def unassigned_message_def skips_rhs_def check_expr_assigned_step_def
  check_expr_assigned_def transfer_stmt_definite_assignment_def
  transfer_terminator_definite_assignment_def transfer_definite_assignment_def
  initial_assigned_def meet_assigned_def assigned_new_in_def definite_assignment_states_def
  definite_assignment_block_def definite_assignment_diagnostics_def

section \<open>Checking an expression\<close>

lemma fold_opt_total:
  assumes "\<And>s x. x \<in> set xs \<Longrightarrow> \<exists>s'. f s x = Some s'"
  shows "\<exists>s'. fold_opt f s xs = Some s'"
  using assms
proof (induction xs arbitrary: s)
  case (Cons x xs)
  obtain s' where "f s x = Some s'" using Cons.prems by auto
  with Cons show ?case by simp
qed simp

lemma fold_opt_cong:
  assumes "\<And>s x. x \<in> set xs \<Longrightarrow> f s x = g s x"
  shows "fold_opt f s xs = fold_opt g s xs"
  using assms
proof (induction xs arbitrary: s)
  case (Cons x xs)
  then have "f s x = g s x" "\<And>s. fold_opt f s xs = fold_opt g s xs" by auto
  then show ?case by (cases "g s x") simp_all
qed simp

lemma check_all_cong [fundef_cong]:
  assumes "es = es'" "\<And>e. e \<in> set es' \<Longrightarrow> f e = g e"
  shows "check_all f es = check_all g es'"
  unfolding check_all_def assms(1) by (rule fold_opt_cong) (simp add: assms(2))

lemma check_all_concat:
  "fold_opt (\<lambda>ds e. map_option (\<lambda>d. ds @ d) (rec e)) acc es =
   map_option (\<lambda>ds. acc @ ds) (check_all rec es)"
proof -
  have "fold_opt (\<lambda>ds e. map_option (\<lambda>d. ds @ d) (rec e)) (acc @ acc') es =
      map_option (\<lambda>ds. acc @ ds) (fold_opt (\<lambda>ds e. map_option (\<lambda>d. ds @ d) (rec e)) acc' es)" for acc'
  proof (induction es arbitrary: acc')
    case (Cons e es)
    show ?case
    proof (cases "rec e")
      case (Some d)
      with Cons.IH [of "acc' @ d"] show ?thesis by simp
    qed simp
  qed simp
  from this [of "[]"] show ?thesis by (simp add: check_all_def)
qed

lemma check_all_Cons:
  "check_all rec (e # es) =
   Option.bind (rec e) (\<lambda>d. map_option (\<lambda>ds. d @ ds) (check_all rec es))"
proof (cases "rec e")
  case (Some d)
  then have "check_all rec (e # es) = fold_opt (\<lambda>ds e. map_option (\<lambda>d. ds @ d) (rec e)) d es"
    by (simp add: check_all_def)
  with Some show ?thesis by (simp add: check_all_concat)
qed (simp add: check_all_def)

lemma bind_Some_map: "Option.bind m (\<lambda>x. Some (f x)) = map_option f m"
  by (cases m) simp_all

lemma check_all_Nil: "check_all rec [] = Some []"
  by (simp add: check_all_def)

lemma check_all_single: "check_all rec [e] = rec e"
  by (cases "rec e") (simp_all add: check_all_def)

lemma check_all_total: "(\<And>e. e \<in> set es \<Longrightarrow> \<exists>d. rec e = Some d) \<Longrightarrow> \<exists>ds. check_all rec es = Some ds"
proof (induction es)
  case (Cons e es)
  obtain d where "rec e = Some d" using Cons.prems by auto
  moreover obtain ds where "check_all rec es = Some ds" using Cons by auto
  ultimately show ?case by (simp add: check_all_Cons)
qed (simp add: check_all_Nil)

lemma check_all_empty:
  "check_all rec es = Some [] \<Longrightarrow> e \<in> set es \<Longrightarrow> rec e = Some []"
  by (induction es) (auto simp: check_all_Cons bind_eq_Some_conv)

lemma check_expr_assigned_descends:
  assumes "body_wf b"
  shows "descends (length (b_exprs b)) (check_expr_assigned_step b state)"
proof -
  have "check_expr_assigned_step b state g e = check_expr_assigned_step b state h e"
    if "\<forall>c < e. g c = h c" for g h e
  proof (cases "body_expr b e")
    case None
    then show ?thesis by (simp add: check_expr_assigned_step_def)
  next
    case (Some x)
    have "g c = h c" if "c \<in> set (expr_children (ex_kind x))" for c
      using body_wf_expr(2) [OF assms Some that] \<open>\<forall>c < e. g c = h c\<close> by simp
    with Some show ?thesis
      by (cases "ex_kind x")
        (auto simp: check_expr_assigned_step_def intro!: check_all_cong Option.bind_cong arg_cong [of _ _ "map_option _"]
          split: option.splits)
  qed
  then show ?thesis by (simp add: descends_def)
qed

lemma check_expr_assigned_unfold:
  assumes "body_wf b" "e < length (b_exprs b)"
  shows "check_expr_assigned b state e = check_expr_assigned_step b state (check_expr_assigned b state) e"
  using arena_rec_unfold [OF check_expr_assigned_descends [OF assms(1)] assms(2)]
  by (simp add: check_expr_assigned_def [abs_def])

lemma skips_rhs_total:
  assumes "body_wf b" "lhs < length (b_exprs b)"
  shows "\<exists>r. skips_rhs b op lhs = Some r"
  using eval_const_bool_total [OF assms] by (cases op) (auto simp: skips_rhs_def)

lemma check_expr_assigned_step_total:
  assumes wf: "body_wf b" and x: "body_expr b e = Some x"
    and kids: "\<And>c. c \<in> set (expr_children (ex_kind x)) \<Longrightarrow> \<exists>ds. rec c = Some ds"
  shows "\<exists>ds. check_expr_assigned_step b state rec e = Some ds"
proof -
  have sk: "\<exists>r. skips_rhs b op c = Some r" if "c \<in> set (expr_children (ex_kind x))" for op c
    using skips_rhs_total [OF wf, of c op] body_wf_expr(1,2) [OF wf x] that by (auto intro: less_trans)
  have all: "\<exists>ds. check_all rec es = Some ds" if "set es \<subseteq> set (expr_children (ex_kind x))" for es
    using check_all_total [of es rec] kids that by blast
  show ?thesis
  proof (cases "ex_kind x")
    case (ELocal l)
    then show ?thesis
      using body_wf_expr(3) [OF wf x, of l] by (simp add: check_expr_assigned_step_def x vec_get_def)
  next
    case (EBinary op lhs rhs)
    then obtain d d' r where "rec lhs = Some d" "rec rhs = Some d'" "skips_rhs b op lhs = Some r"
      using kids [of lhs] kids [of rhs] sk [of lhs op] by auto
    with EBinary show ?thesis by (simp add: check_expr_assigned_step_def x)
  next
    case (ECall receiver m args)
    obtain ds where "check_all rec args = Some ds" using all [of args] ECall by (cases receiver) auto
    moreover obtain d where "(case receiver of None \<Rightarrow> Some [] | Some r \<Rightarrow> rec r) = Some d"
      using kids ECall by (cases receiver) auto
    ultimately show ?thesis by (simp add: check_expr_assigned_step_def x ECall)
  next
    case (ENew c args)
    then show ?thesis using all [of args] by (simp add: check_expr_assigned_step_def x)
  next
    case (EInvalid args)
    then show ?thesis using all [of args] by (simp add: check_expr_assigned_step_def x)
  qed (use kids in \<open>auto simp: check_expr_assigned_step_def x\<close>)
qed

lemma check_expr_assigned_total:
  assumes wf: "body_wf b" and "e < length (b_exprs b)"
  shows "\<exists>ds. check_expr_assigned b state e = Some ds"
  using assms(2)
proof (induction e rule: less_induct)
  case (less e)
  from body_expr_Some [OF less.prems] obtain x where x: "body_expr b e = Some x" by blast
  have "\<exists>ds. check_expr_assigned b state c = Some ds" if "c \<in> set (expr_children (ex_kind x))" for c
    using less.IH [of c] body_wf_expr(2) [OF wf x that] less.prems by simp
  then show ?case
    unfolding check_expr_assigned_unfold [OF wf less.prems]
    by (rule check_expr_assigned_step_total [OF wf x])
qed

text \<open>
  The locals that evaluating an expression may read; the right operand of a short-circuit
  operator is evaluated only when the left one can take the value that asks for it.
\<close>

inductive reads :: "body \<Rightarrow> nat \<Rightarrow> nat \<Rightarrow> bool" for b :: body where
  reads_local: "body_expr b e = Some x \<Longrightarrow> ex_kind x = ELocal l \<Longrightarrow> reads b e l"
| reads_child: "body_expr b e = Some x \<Longrightarrow> (\<forall>op p q. ex_kind x \<noteq> EBinary op p q) \<Longrightarrow>
    c \<in> set (expr_children (ex_kind x)) \<Longrightarrow> reads b c l \<Longrightarrow> reads b e l"
| reads_lhs: "body_expr b e = Some x \<Longrightarrow> ex_kind x = EBinary op p q \<Longrightarrow> reads b p l \<Longrightarrow> reads b e l"
| reads_rhs: "body_expr b e = Some x \<Longrightarrow> ex_kind x = EBinary op p q \<Longrightarrow>
    (op = AndAnd \<longrightarrow> may_be b p True) \<Longrightarrow> (op = OrOr \<longrightarrow> may_be b p False) \<Longrightarrow>
    reads b q l \<Longrightarrow> reads b e l"

lemma skips_rhs_sound:
  assumes "body_wf b" "skips_rhs b op p = Some True"
  shows "op = AndAnd \<and> \<not> may_be b p True \<or> op = OrOr \<and> \<not> may_be b p False"
  using assms eval_const_bool_sound [OF assms(1), of p]
  by (cases op) (auto simp: skips_rhs_def)

lemma check_expr_assigned_stepD:
  assumes "body_wf b" "body_expr b e = Some x" "check_expr_assigned b state e = Some ds"
  shows "check_expr_assigned_step b state (check_expr_assigned b state) e = Some ds"
  using check_expr_assigned_unfold [OF assms(1) body_wf_expr(1) [OF assms(1,2)]] assms(3) by simp

lemma check_expr_assigned_sound:
  assumes wf: "body_wf b" and "reads b e l" "check_expr_assigned b state e = Some []" "length state = length (b_locals b)"
  shows "state ! l"
  using assms(2,3)
proof (induction rule: reads.induct)
  case (reads_local e x l)
  then show ?case
    using check_expr_assigned_unfold [OF wf body_wf_expr(1) [OF wf reads_local(1)], of state]
      body_wf_expr(3) [OF wf reads_local(1), of l] assms(4)
    by (auto simp: check_expr_assigned_step_def vec_get_def split: if_splits)
next
  case (reads_child e x c l)
  have "check_expr_assigned b state c = Some []"
    using check_expr_assigned_stepD [OF wf reads_child(1,6)] reads_child(1-3)
      check_all_empty [of "check_expr_assigned b state" _ c]
    by (cases "ex_kind x")
      (auto simp: check_expr_assigned_step_def bind_eq_Some_conv split: option.splits)
  then show ?case by (rule reads_child.IH)
next
  case (reads_lhs e x op p q l)
  have "check_expr_assigned b state p = Some []"
    using check_expr_assigned_stepD [OF wf reads_lhs(1,5)] reads_lhs(1,2)
    by (auto simp: check_expr_assigned_step_def bind_eq_Some_conv split: if_splits)
  then show ?case by (rule reads_lhs.IH)
next
  case (reads_rhs e x op p q l)
  have "\<not> skips_rhs b op p = Some True" using skips_rhs_sound [OF wf] reads_rhs(3,4) by blast
  then have "check_expr_assigned b state q = Some []"
    using check_expr_assigned_stepD [OF wf reads_rhs(1,7)] reads_rhs(1,2)
    by (auto simp: check_expr_assigned_step_def bind_eq_Some_conv split: if_splits)
  then show ?case by (rule reads_rhs.IH)
qed

section \<open>Effect of statements and blocks\<close>

fun assign_effect :: "stmt_kind \<Rightarrow> bool list \<Rightarrow> bool list" where
  "assign_effect (SLet l i) s = s[l := (i \<noteq> None)]"
| "assign_effect (SAssign l _) s = s[l := True]"
| "assign_effect _ s = s"

definition stmt_effect :: "body \<Rightarrow> bool list \<Rightarrow> nat \<Rightarrow> bool list" where
  "stmt_effect b s st = (case body_stmt b st of None \<Rightarrow> s | Some x \<Rightarrow> assign_effect (st_kind x) s)"

lemma length_assign_effect [simp]: "length (assign_effect k s) = length s"
  by (cases "(k, s)" rule: assign_effect.cases) simp_all

lemma length_stmt_effect [simp]: "length (stmt_effect b s st) = length s"
  by (simp add: stmt_effect_def split: option.splits)

lemma length_foldl_effect [simp]: "length (foldl (stmt_effect b) s sts) = length s"
  by (induction sts arbitrary: s) simp_all

text \<open>Per local, a sequence of statements either leaves the slot alone or fixes it.\<close>

fun assign_slot :: "stmt_kind \<Rightarrow> nat \<Rightarrow> bool option" where
  "assign_slot (SLet m i) l = (if m = l then Some (i \<noteq> None) else None)"
| "assign_slot (SAssign m _) l = (if m = l then Some True else None)"
| "assign_slot _ _ = None"

definition slot_after :: "bool option \<Rightarrow> bool \<Rightarrow> bool" where
  "slot_after k v = (case k of None \<Rightarrow> v | Some w \<Rightarrow> w)"

lemma assign_effect_slot: "l < length s \<Longrightarrow> assign_effect k s ! l = slot_after (assign_slot k l) (s ! l)"
  by (cases k) (simp_all add: slot_after_def)

lemma stmt_effect_slot: "\<exists>k. \<forall>s. l < length s \<longrightarrow> stmt_effect b s st ! l = slot_after k (s ! l)"
proof (cases "body_stmt b st")
  case None
  then show ?thesis by (intro exI [of _ None]) (simp add: stmt_effect_def slot_after_def)
next
  case (Some x)
  then show ?thesis
    by (intro exI [of _ "assign_slot (st_kind x) l"]) (simp add: stmt_effect_def assign_effect_slot)
qed

lemma foldl_effect_slot:
  "\<exists>k. \<forall>s. l < length s \<longrightarrow> foldl (stmt_effect b) s sts ! l = slot_after k (s ! l)"
proof (induction sts)
  case Nil
  then show ?case by (intro exI [of _ None]) (simp add: slot_after_def)
next
  case (Cons st sts)
  then obtain k where k: "\<forall>s. l < length s \<longrightarrow> foldl (stmt_effect b) s sts ! l = slot_after k (s ! l)" by blast
  obtain k' where k': "\<forall>s. l < length s \<longrightarrow> stmt_effect b s st ! l = slot_after k' (s ! l)"
    using stmt_effect_slot by blast
  show ?case
    by (intro exI [of _ "case k of None \<Rightarrow> k' | Some w \<Rightarrow> Some w"])
      (use k k' in \<open>simp add: slot_after_def split: option.splits\<close>)
qed

lemma foldl_effect_mono:
  assumes "length s = length t" "l < length s" "s ! l \<longrightarrow> t ! l"
  shows "foldl (stmt_effect b) s sts ! l \<longrightarrow> foldl (stmt_effect b) t sts ! l"
proof -
  obtain k where "\<forall>s. l < length s \<longrightarrow> foldl (stmt_effect b) s sts ! l = slot_after k (s ! l)"
    using foldl_effect_slot by blast
  then show ?thesis using assms by (cases k) (simp_all add: slot_after_def)
qed

lemma simple_stmtE:
  assumes "simple_stmt b st"
  obtains x where "body_stmt b st = Some x" "simple_kind (st_kind x)"
  using assms by (auto simp: simple_stmt_def split: option.splits)

text \<open>
  On the statements a block may hold, the transfer function checks the expressions of the
  statement and applies its effect.
\<close>

lemma transfer_stmt_eq:
  assumes wf: "body_wf b" and x: "body_stmt b st = Some x" "simple_kind (st_kind x)"
    and len: "length s = length (b_locals b)"
  shows "transfer_stmt_definite_assignment b (s, diags) st =
    map_option (\<lambda>ds. (stmt_effect b s st, diags @ ds)) (check_all (check_expr_assigned b s) (stmt_exprs (st_kind x)))"
proof -
  have loc: "l < length s" if "l \<in> set (stmt_locals (st_kind x))" for l
    using body_wf_stmt(4) [OF wf x(1) that] len by simp
  note defs = transfer_stmt_definite_assignment_def x(1) set_slot_def stmt_effect_def check_all_Nil
    check_all_single bind_Some_map
  show ?thesis
  proof (cases "st_kind x")
    case (SLet l i)
    then show ?thesis using loc by (cases i) (simp_all add: defs)
  next
    case (SReturn v)
    then show ?thesis by (cases v) (simp_all add: defs)
  qed (use x(2) loc in \<open>simp_all add: defs simple_kind_def\<close>)
qed

lemma transfer_term_eq:
  "transfer_terminator_definite_assignment b t (s, diags) =
    map_option (\<lambda>ds. (s, diags @ ds)) (check_all (check_expr_assigned b s) (term_exprs t))"
proof (cases t)
  case (TReturn v f)
  then show ?thesis
    by (cases v) (simp_all add: transfer_terminator_definite_assignment_def check_all_Nil check_all_single)
qed (simp_all add: transfer_terminator_definite_assignment_def check_all_Nil check_all_single)

lemma enumerate_nth_mem: "i < length xs \<Longrightarrow> (i, xs ! i) \<in> set (enumerate 0 xs)"
  by (simp add: in_set_enumerate_eq)

lemma fold_opt_emits:
  assumes "\<And>acc x. x \<in> set xs \<Longrightarrow> \<exists>d. f acc x = Some (acc @ d) \<and> (d = [] \<longrightarrow> P x) \<and> (\<forall>y \<in> set d. Q y)"
  shows "\<exists>ds. fold_opt f acc xs = Some (acc @ ds) \<and> (ds = [] \<longrightarrow> (\<forall>x \<in> set xs. P x)) \<and> (\<forall>y \<in> set ds. Q y)"
  using assms
proof (induction xs arbitrary: acc)
  case (Cons x xs)
  obtain d where d: "f acc x = Some (acc @ d)" "d = [] \<longrightarrow> P x" "\<forall>y \<in> set d. Q y" using Cons.prems by force
  obtain ds where ds: "fold_opt f (acc @ d) xs = Some ((acc @ d) @ ds)" "ds = [] \<longrightarrow> (\<forall>x \<in> set xs. P x)"
      "\<forall>y \<in> set ds. Q y"
    using Cons.IH [of "acc @ d"] Cons.prems by auto
  show ?case by (intro exI [of _ "d @ ds"]) (use d ds in auto)
qed simp

lemma check_all_forall:
  "check_all rec es = Some ds \<Longrightarrow> (\<And>e d. e \<in> set es \<Longrightarrow> rec e = Some d \<Longrightarrow> \<forall>y \<in> set d. Q y) \<Longrightarrow> \<forall>y \<in> set ds. Q y"
  by (induction es arbitrary: ds) (force simp: check_all_Nil check_all_Cons bind_eq_Some_conv)+

abbreviation unassigned_diag :: "diagnostic \<Rightarrow> bool" where
  "unassigned_diag d \<equiv> dg_code d = ''FLOW_UNASSIGNED''"

lemma check_expr_assigned_codes:
  assumes wf: "body_wf b" and "e < length (b_exprs b)" "check_expr_assigned b state e = Some ds"
  shows "\<forall>d \<in> set ds. unassigned_diag d"
  using assms(2,3)
proof (induction e arbitrary: ds rule: less_induct)
  case (less e ds)
  from body_expr_Some [OF less.prems(1)] obtain x where x: "body_expr b e = Some x" by blast
  let ?rec = "check_expr_assigned b state"
  have kids: "\<forall>d \<in> set ds. unassigned_diag d" if "c \<in> set (expr_children (ex_kind x))" "?rec c = Some ds" for c ds
    using less.IH [of c ds] body_wf_expr(2) [OF wf x that(1)] less.prems(1) that(2) by simp
  have all: "\<forall>d \<in> set ds. unassigned_diag d"
    if "set es \<subseteq> set (expr_children (ex_kind x))" "check_all ?rec es = Some ds" for es ds
    by (rule check_all_forall [OF that(2)]) (use kids that(1) in blast)
  note st = check_expr_assigned_stepD [OF wf x less.prems(2), unfolded check_expr_assigned_step_def x Option.bind.simps]
  show ?case
  proof (cases "ex_kind x")
    case (EBinary op lhs rhs)
    with st obtain d1 where d1: "?rec lhs = Some d1" "set ds \<subseteq> set d1 \<or> (\<exists>d2. ?rec rhs = Some d2 \<and> ds = d1 @ d2)"
      by (auto simp: bind_eq_Some_conv split: if_splits)
    then show ?thesis using kids [of lhs d1] kids [of rhs] EBinary by auto
  next
    case (ECall receiver m args)
    with st obtain d1 d2 where d: "(case receiver of None \<Rightarrow> Some [] | Some r \<Rightarrow> ?rec r) = Some d1"
        "check_all ?rec args = Some d2" "ds = d1 @ d2"
      by (auto simp: bind_eq_Some_conv)
    have "\<forall>d \<in> set d1. unassigned_diag d" using d(1) kids ECall by (cases receiver) auto
    then show ?thesis using all [OF _ d(2)] d(3) ECall by (cases receiver) auto
  next
    case (ENew c args)
    then show ?thesis using st all [of args ds] by simp
  next
    case (EInvalid args)
    then show ?thesis using st all [of args ds] by simp
  qed (use st kids in \<open>auto simp: bind_eq_Some_conv split: if_splits\<close>)
qed

lemma check_all_assigned_codes:
  assumes "body_wf b" "\<forall>e \<in> set es. e < length (b_exprs b)" "check_all (check_expr_assigned b s) es = Some ds"
  shows "\<forall>d \<in> set ds. unassigned_diag d"
  by (rule check_all_forall [OF assms(3)]) (use check_expr_assigned_codes assms(1,2) in blast)

abbreviation blk_at :: "control_flow_graph \<Rightarrow> nat \<Rightarrow> basic_block" where
  "blk_at g bb \<equiv> cfg_blocks g ! bb"

lemma check_all_assigned_total:
  assumes "body_wf b" "\<forall>e \<in> set es. e < length (b_exprs b)"
  obtains ds where "check_all (check_expr_assigned b s) es = Some ds"
  using check_all_total [of es "check_expr_assigned b s"] check_expr_assigned_total [OF assms(1)] assms(2) by blast

text \<open>Folding the transfer over the statements of a block, with or without collecting diagnostics.\<close>

lemma transfer_stmts_ok:
  assumes wf: "body_wf b" and "\<forall>st \<in> set sts. simple_stmt b st" and "length s = length (b_locals b)"
  shows "\<exists>ds. fold_opt (transfer_stmt_definite_assignment b) (s, diags) sts =
      Some (foldl (stmt_effect b) s sts, diags @ ds) \<and> (\<forall>d \<in> set ds. unassigned_diag d) \<and>
    (ds = [] \<longrightarrow> (\<forall>i < length sts. \<forall>x. body_stmt b (sts ! i) = Some x \<longrightarrow>
       (\<forall>e \<in> set (stmt_exprs (st_kind x)).
          check_expr_assigned b (foldl (stmt_effect b) s (take i sts)) e = Some [])))"
  using assms(2,3)
proof (induction sts arbitrary: s diags)
  case (Cons st sts)
  obtain x where x: "body_stmt b st = Some x" "simple_kind (st_kind x)"
    using Cons.prems(1) by (auto elim: simple_stmtE)
  obtain ds where ds: "check_all (check_expr_assigned b s) (stmt_exprs (st_kind x)) = Some ds"
    using check_all_assigned_total [OF wf] body_wf_stmt(3) [OF wf x(1)] by blast
  note step = transfer_stmt_eq [OF wf x Cons.prems(2), of diags, unfolded ds]
  have codes: "\<forall>d \<in> set ds. unassigned_diag d"
    using check_all_assigned_codes [OF wf _ ds] body_wf_stmt(3) [OF wf x(1)] by blast
  obtain ds' where ds': "fold_opt (transfer_stmt_definite_assignment b) (stmt_effect b s st, diags @ ds) sts =
      Some (foldl (stmt_effect b) (stmt_effect b s st) sts, (diags @ ds) @ ds')"
    "\<forall>d \<in> set ds'. unassigned_diag d"
    "ds' = [] \<longrightarrow> (\<forall>i < length sts. \<forall>x. body_stmt b (sts ! i) = Some x \<longrightarrow>
       (\<forall>e \<in> set (stmt_exprs (st_kind x)).
          check_expr_assigned b (foldl (stmt_effect b) (stmt_effect b s st) (take i sts)) e = Some []))"
    using Cons.IH [of "stmt_effect b s st" "diags @ ds"] Cons.prems by auto
  have "\<forall>i < length (st # sts). \<forall>x. body_stmt b ((st # sts) ! i) = Some x \<longrightarrow>
       (\<forall>e \<in> set (stmt_exprs (st_kind x)).
          check_expr_assigned b (foldl (stmt_effect b) s (take i (st # sts))) e = Some [])"
    if "ds @ ds' = []"
  proof (intro allI impI ballI)
    fix i y e assume i: "i < length (st # sts)" "body_stmt b ((st # sts) ! i) = Some y"
      "e \<in> set (stmt_exprs (st_kind y))"
    show "check_expr_assigned b (foldl (stmt_effect b) s (take i (st # sts))) e = Some []"
    proof (cases i)
      case 0
      then show ?thesis using i x ds that check_all_empty by auto
    next
      case (Suc j)
      then show ?thesis using i ds'(3) that by auto
    qed
  qed
  then show ?case using step ds'(1,2) codes by (intro exI [of _ "ds @ ds'"]) auto
qed simp

lemma transfer_definite_assignment_eq:
  assumes ok: "flow_ok b g r" and bb: "bb < length (cfg_blocks g)" and len: "length s = length (b_locals b)"
  shows "transfer_definite_assignment b g bb s = Some (foldl (stmt_effect b) s (blk_stmts (blk_at g bb)))"
proof -
  have wf: "body_wf b" and blk: "block_ok b (length (cfg_blocks g)) (blk_at g bb)"
    using flow_okD(1,8) [OF ok] bb by auto
  have "fold_opt (\<lambda>s st. map_option fst (transfer_stmt_definite_assignment b (s, []) st)) s sts =
      Some (foldl (stmt_effect b) s sts)"
    if "\<forall>st \<in> set sts. simple_stmt b st" "length s = length (b_locals b)" for s sts
    using that
  proof (induction sts arbitrary: s)
    case (Cons st sts)
    then show ?case
      using transfer_stmts_ok [OF wf, of "[st]" s "[]"] by (auto simp: bind_eq_Some_conv)
  qed simp
  then have "fold_opt (\<lambda>s st. map_option fst (transfer_stmt_definite_assignment b (s, []) st)) s
      (blk_stmts (blk_at g bb)) = Some (foldl (stmt_effect b) s (blk_stmts (blk_at g bb)))"
    using blk len by (simp add: block_ok_def)
  moreover obtain ds where "check_all (check_expr_assigned b (foldl (stmt_effect b) s (blk_stmts (blk_at g bb))))
      (term_exprs (blk_term (blk_at g bb))) = Some ds"
    using check_all_assigned_total [OF wf] blk by (auto simp: block_ok_def term_ok_def)
  ultimately show ?thesis
    using bb by (simp add: transfer_definite_assignment_def vec_get_def transfer_term_eq)
qed

lemma foldl_conj: "foldl (\<and>) x ys \<longleftrightarrow> x \<and> (\<forall>y \<in> set ys. y)"
  by (induction ys arbitrary: x) auto

lemma meet_assigned_nth:
  assumes "inputs \<noteq> []" "\<forall>s \<in> set inputs. length s = n" "l < n"
  shows "meet_assigned n inputs ! l \<longleftrightarrow> (\<forall>s \<in> set inputs. s ! l)"
proof -
  obtain s ss where "inputs = s # ss" using assms(1) by (cases inputs) auto
  then show ?thesis
    using assms by (simp add: meet_assigned_def foldl_zip_slots_nth foldl_conj)
qed

lemma meet_assigned_length:
  assumes "\<forall>s \<in> set inputs. length s = n"
  shows "length (meet_assigned n inputs) = n"
  using assms by (cases inputs) (simp_all add: meet_assigned_def)

definition reachable_preds :: "control_flow_graph \<Rightarrow> bool list \<Rightarrow> nat \<Rightarrow> nat list" where
  "reachable_preds g r bb = filter (\<lambda>p. r ! p) (cfg_preds g ! bb)"

lemma set_reachable_preds:
  "flow_ok b g r \<Longrightarrow> bb < length (cfg_blocks g) \<Longrightarrow> p \<in> set (reachable_preds g r bb) \<longleftrightarrow> cfg_edge g p bb \<and> r ! p"
  using flow_ok_preds by (auto simp: reachable_preds_def)

lemma assigned_new_in_eq:
  assumes ok: "flow_ok b g r" and bb: "bb < length (cfg_blocks g)"
    and len: "length outs = length (cfg_blocks g)" and ne: "bb \<noteq> cfg_entry g"
  shows "assigned_new_in b g r bb outs =
    Some (meet_assigned (length (b_locals b)) (map (\<lambda>p. outs ! p) (reachable_preds g r bb)))"
proof -
  have p: "p < length r" "vec_get outs p = Some (outs ! p)" if "p \<in> set (cfg_preds g ! bb)" for p
    using that flow_ok_preds [OF ok bb] flow_ok_edge(1) [OF ok] flow_okD(5) [OF ok] len
    by (auto simp: vec_get_def)
  then have "collect_inputs (vec_get outs) r (cfg_preds g ! bb) = Some (map (\<lambda>p. outs ! p) (reachable_preds g r bb))"
    unfolding reachable_preds_def by (intro collect_inputs_eq) auto
  then show ?thesis
    using ne bb flow_okD(6) [OF ok] by (simp add: assigned_new_in_def cfg_predecessors_def vec_get_def)
qed

section \<open>The loop on assignment states\<close>

abbreviation assigned_le :: "bool list \<Rightarrow> bool list \<Rightarrow> bool" where
  "assigned_le \<equiv> list_all2 (\<lambda>x y. x \<longrightarrow> y)"

abbreviation assigned_ok :: "body \<Rightarrow> bool list \<Rightarrow> bool" where
  "assigned_ok b s \<equiv> length s = length (b_locals b)"

lemma assigned_new_in_ok:
  assumes ok: "flow_ok b g r" and bb: "bb < length (cfg_blocks g)"
    and outs: "length outs = length (cfg_blocks g)" "\<forall>s \<in> set outs. assigned_ok b s"
  shows "\<exists>s. assigned_new_in b g r bb outs = Some s \<and> assigned_ok b s"
proof (cases "bb = cfg_entry g")
  case True
  then show ?thesis by (simp add: assigned_new_in_def initial_assigned_def)
next
  case False
  have "\<forall>s \<in> set (map (\<lambda>p. outs ! p) (reachable_preds g r bb)). assigned_ok b s"
    using outs set_reachable_preds [OF ok bb] flow_ok_edge(1) [OF ok] by auto
  then show ?thesis
    using assigned_new_in_eq [OF ok bb outs(1) False] meet_assigned_length by simp
qed

lemma assigned_new_in_nth:
  assumes ok: "flow_ok b g r" and bb: "bb < length (cfg_blocks g)" "r ! bb" "bb \<noteq> cfg_entry g"
    and outs: "length outs = length (cfg_blocks g)" "\<forall>s \<in> set outs. assigned_ok b s"
    and s: "assigned_new_in b g r bb outs = Some s" and l: "l < length (b_locals b)"
  shows "s ! l \<longleftrightarrow> (\<forall>p. cfg_edge g p bb \<and> r ! p \<longrightarrow> outs ! p ! l)"
proof -
  let ?ps = "reachable_preds g r bb"
  have len: "\<forall>s \<in> set (map (\<lambda>p. outs ! p) ?ps). length s = length (b_locals b)"
    using outs set_reachable_preds [OF ok bb(1)] flow_ok_edge(1) [OF ok] by auto
  obtain p where "cfg_edge g p bb" "r ! p" by (rule flow_ok_pred_ex [OF ok bb])
  then have "?ps \<noteq> []" using set_reachable_preds [OF ok bb(1), of p] by (metis empty_iff list.set(1))
  then have "s ! l \<longleftrightarrow> (\<forall>p \<in> set ?ps. outs ! p ! l)"
    using meet_assigned_nth [OF _ len l] s assigned_new_in_eq [OF ok bb(1) outs(1) bb(3)] by simp
  then show ?thesis using set_reachable_preds [OF ok bb(1)] by auto
qed

interpretation da: dataflow assigned_ok assigned_le "\<lambda>s. sum_list (map of_bool s)"
  "\<lambda>b. replicate (length (b_locals b)) True" assigned_new_in transfer_definite_assignment
proof unfold_locales
  fix s t u :: "bool list"
  show "assigned_le s s" by (simp add: list_all2_same)
  show "assigned_le s t \<Longrightarrow> assigned_le t u \<Longrightarrow> assigned_le s u"
    by (auto simp: list_all2_conv_all_nth)
  show "assigned_le s t \<Longrightarrow> assigned_le t s \<Longrightarrow> s = t"
    by (auto simp: list_all2_conv_all_nth intro: nth_equalityI)
  show "assigned_le s t \<Longrightarrow> s \<noteq> t \<Longrightarrow> sum_list (map of_bool s) < (sum_list (map of_bool t) :: nat)"
    by (rule list_all2_height(2) [where R = "\<lambda>x y. x \<longrightarrow> y"]) auto
next
  fix b and s :: "bool list"
  show "assigned_ok b (replicate (length (b_locals b)) True)" by simp
  show "assigned_ok b s \<Longrightarrow> assigned_le s (replicate (length (b_locals b)) True)"
    by (simp add: list_all2_conv_all_nth)
next
  fix b g r bb outs
  assume "flow_ok b g r" "bb < length (cfg_blocks g)" "length outs = length (cfg_blocks g)"
    "\<forall>s \<in> set outs. assigned_ok b s"
  then show "\<exists>s. assigned_new_in b g r bb outs = Some s \<and> assigned_ok b s" by (rule assigned_new_in_ok)
next
  fix b g r bb outs outs' s s'
  assume ok: "flow_ok b g r" and bb: "bb < length (cfg_blocks g)"
    and o: "length outs = length (cfg_blocks g)" "length outs' = length (cfg_blocks g)"
      "\<forall>s \<in> set outs. assigned_ok b s" "\<forall>s \<in> set outs'. assigned_ok b s"
    and le: "\<And>p. cfg_edge g p bb \<Longrightarrow> r ! p \<Longrightarrow> assigned_le (outs ! p) (outs' ! p)"
    and s: "assigned_new_in b g r bb outs = Some s" "assigned_new_in b g r bb outs' = Some s'"
  show "assigned_le s s'"
  proof (cases "bb = cfg_entry g")
    case True
    then show ?thesis using s by (simp add: assigned_new_in_def list_all2_same)
  next
    case False
    let ?ps = "reachable_preds g r bb"
    have len: "length s = length (b_locals b)" "length s' = length (b_locals b)"
      using assigned_new_in_ok [OF ok bb o(1,3)] assigned_new_in_ok [OF ok bb o(2,4)] s by auto
    have in_len: "\<forall>s \<in> set (map (\<lambda>p. outs ! p) ?ps). length s = length (b_locals b)"
      "\<forall>s \<in> set (map (\<lambda>p. outs' ! p) ?ps). length s = length (b_locals b)"
      using o set_reachable_preds [OF ok bb] flow_ok_edge(1) [OF ok] by auto
    have eqs: "s = meet_assigned (length (b_locals b)) (map (\<lambda>p. outs ! p) ?ps)"
      "s' = meet_assigned (length (b_locals b)) (map (\<lambda>p. outs' ! p) ?ps)"
      using s assigned_new_in_eq [OF ok bb o(1) False] assigned_new_in_eq [OF ok bb o(2) False] by auto
    have "s ! l \<longrightarrow> s' ! l" if l: "l < length (b_locals b)" for l
    proof (cases "?ps = []")
      case True
      then show ?thesis using eqs by simp
    next
      case False
      have "outs ! p ! l \<longrightarrow> outs' ! p ! l" if "p \<in> set ?ps" for p
        using le [of p] set_reachable_preds [OF ok bb, of p] that in_len l by (auto simp: list_all2_conv_all_nth)
      then show ?thesis
        using meet_assigned_nth [OF _ in_len(1) l] meet_assigned_nth [OF _ in_len(2) l] False
        by (simp add: eqs)
    qed
    then show ?thesis using len by (simp add: list_all2_conv_all_nth)
  qed
next
  fix b g r bb s
  assume "flow_ok b g r" "bb < length (cfg_blocks g)" "assigned_ok b s"
  then show "\<exists>s'. transfer_definite_assignment b g bb s = Some s' \<and> assigned_ok b s'"
    using transfer_definite_assignment_eq by simp
next
  fix b g r bb s t s' t'
  assume "flow_ok b g r" "bb < length (cfg_blocks g)" "assigned_ok b s" "assigned_ok b t"
    "assigned_le s t" "transfer_definite_assignment b g bb s = Some s'"
    "transfer_definite_assignment b g bb t = Some t'"
  then show "assigned_le s' t'"
    using transfer_definite_assignment_eq foldl_effect_mono
    by (simp add: list_all2_conv_all_nth) (metis length_foldl_effect option.inject)
qed

section \<open>Runs of the graph\<close>

text \<open>
  \<open>assigned_run b g bb i s\<close>: control can be in block \<open>bb\<close> before its \<open>i\<close>-th statement (or
  at the terminator) with exactly the locals in \<open>s\<close> assigned.
\<close>

inductive assigned_run :: "body \<Rightarrow> control_flow_graph \<Rightarrow> nat \<Rightarrow> nat \<Rightarrow> bool list \<Rightarrow> bool"
  for b :: body and g :: control_flow_graph where
  run_start: "assigned_run b g (cfg_entry g) 0 (initial_assigned b)"
| run_stmt: "assigned_run b g bb i s \<Longrightarrow> i < length (blk_stmts (blk_at g bb)) \<Longrightarrow>
    assigned_run b g bb (Suc i) (stmt_effect b s (blk_stmts (blk_at g bb) ! i))"
| run_jump: "assigned_run b g bb (length (blk_stmts (blk_at g bb))) s \<Longrightarrow> cfg_edge g bb q \<Longrightarrow>
    assigned_run b g q 0 s"

text \<open>No declaration without initialiser redeclares a parameter.\<close>

definition params_stay :: "body \<Rightarrow> bool" where
  "params_stay b \<longleftrightarrow> (\<forall>x \<in> set (b_stmts b). case st_kind x of
     SLet l None \<Rightarrow> (case vec_get (b_locals b) l of Some lv \<Rightarrow> lv_kind lv \<noteq> LParam | None \<Rightarrow> True)
   | _ \<Rightarrow> True)"

lemma params_stay_effect:
  assumes "params_stay b" "length s = length (b_locals b)" "l < length s"
    "initial_assigned b ! l \<longrightarrow> s ! l"
  shows "initial_assigned b ! l \<longrightarrow> stmt_effect b s st ! l"
proof (cases "body_stmt b st")
  case None
  then show ?thesis using assms by (simp add: stmt_effect_def)
next
  case (Some x)
  then have "x \<in> set (b_stmts b)" by (auto simp: body_stmt_def vec_get_def split: if_splits)
  then have keep: "lv_kind (b_locals b ! l) \<noteq> LParam" if "st_kind x = SLet l None"
    using assms(1-3) that by (force simp: params_stay_def vec_get_def)
  show ?thesis
  proof (cases "st_kind x")
    case (SLet m i)
    then show ?thesis
      using assms(2-4) Some keep by (cases "m = l"; cases i) (simp_all add: stmt_effect_def initial_assigned_def)
  next
    case (SAssign m e)
    then show ?thesis using assms(2-4) Some by (cases "m = l") (simp_all add: stmt_effect_def)
  qed (use assms(2-4) Some in \<open>simp_all add: stmt_effect_def\<close>)
qed

lemma assigned_run_shape:
  assumes ok: "flow_ok b g r" and "assigned_run b g bb i s"
  shows "bb < length (cfg_blocks g) \<and> r ! bb \<and> i \<le> length (blk_stmts (blk_at g bb)) \<and>
    length s = length (b_locals b)"
  using assms(2)
proof (induction rule: assigned_run.induct)
  case run_start
  then show ?case using flow_okD(4) [OF ok] flow_ok_entry [OF ok] by (simp add: initial_assigned_def)
next
  case (run_jump bb s q)
  then show ?case using flow_ok_edge(2,3) [OF ok] by auto
qed auto

lemma assigned_run_params:
  assumes ok: "flow_ok b g r" and "params_stay b" "assigned_run b g bb i s" "l < length (b_locals b)"
  shows "initial_assigned b ! l \<longrightarrow> s ! l"
  using assms(3)
proof (induction rule: assigned_run.induct)
  case (run_stmt bb i s)
  then show ?case
    using params_stay_effect [OF assms(2)] assigned_run_shape [OF ok run_stmt(1)] assms(4) by auto
qed auto

lemma assigned_run_block:
  assumes "assigned_run b g bb 0 s" "i \<le> length (blk_stmts (blk_at g bb))"
  shows "assigned_run b g bb i (foldl (stmt_effect b) s (take i (blk_stmts (blk_at g bb))))"
  using assms(2)
proof (induction i)
  case 0
  then show ?case using assms(1) by simp
next
  case (Suc i)
  then have "assigned_run b g bb (Suc i) (stmt_effect b (foldl (stmt_effect b) s
      (take i (blk_stmts (blk_at g bb)))) (blk_stmts (blk_at g bb) ! i))"
    by (intro run_stmt) simp_all
  then show ?case using Suc.prems by (simp add: take_Suc_conv_app_nth)
qed

lemma assigned_run_exists:
  assumes ok: "flow_ok b g r" and bb: "bb < length (cfg_blocks g)" "r ! bb"
  shows "\<exists>s. assigned_run b g bb 0 s"
proof -
  have "(cfg_edge g)\<^sup>*\<^sup>* (cfg_entry g) bb" using flow_okD(7) [OF ok bb(1)] bb(2) by simp
  then show ?thesis
  proof (induction rule: rtranclp_induct)
    case (step p q)
    then obtain s where "assigned_run b g p 0 s" by blast
    from assigned_run_block [OF this order_refl] step(2) show ?case using run_jump by blast
  qed (use run_start in blast)
qed

lemma assigned_states_solution:
  assumes ok: "flow_ok b g r"
  obtains ins outs where "definite_assignment_states b g r = Some (ins, outs)"
    "da.solution b g r ins outs"
    "\<forall>G bb. da.supported b g r G \<longrightarrow> bb < length (cfg_blocks g) \<longrightarrow> r ! bb \<longrightarrow> assigned_le (G ! bb) (outs ! bb)"
proof -
  let ?n = "length (cfg_blocks g)" and ?t = "replicate (length (b_locals b)) True"
  have "da.states_ok b g ((replicate ?n ?t)[cfg_entry g := initial_assigned b])"
    by (intro da.states_ok_update) (auto simp: da.states_ok_def initial_assigned_def)
  from da.dataflow_solution [OF ok this] show thesis
    using that flow_okD(4) [OF ok] by (auto simp: definite_assignment_states_def set_slot_def)
qed

lemma assigned_solutionD:
  assumes ok: "flow_ok b g r" and sol: "da.solution b g r ins outs" and bb: "bb < length (cfg_blocks g)" "r ! bb"
  shows "assigned_new_in b g r bb outs = Some (ins ! bb)" "length (ins ! bb) = length (b_locals b)"
    "outs ! bb = foldl (stmt_effect b) (ins ! bb) (blk_stmts (blk_at g bb))"
    "length outs = length (cfg_blocks g)" "\<forall>s \<in> set outs. assigned_ok b s"
proof -
  show "assigned_new_in b g r bb outs = Some (ins ! bb)" "length outs = length (cfg_blocks g)"
    "\<forall>s \<in> set outs. assigned_ok b s" and l: "length (ins ! bb) = length (b_locals b)"
    using sol bb by (auto simp: da.solution_def da.states_ok_def)
  show "outs ! bb = foldl (stmt_effect b) (ins ! bb) (blk_stmts (blk_at g bb))"
    using sol bb transfer_definite_assignment_eq [OF ok bb(1) l] by (simp add: da.solution_def)
qed

text \<open>Soundness: what the states call assigned is assigned on every run.\<close>

lemma assigned_run_sound:
  assumes ok: "flow_ok b g r" and ps: "params_stay b" and sol: "da.solution b g r ins outs"
    and "assigned_run b g bb i s" and l: "l < length (b_locals b)"
  shows "foldl (stmt_effect b) (ins ! bb) (take i (blk_stmts (blk_at g bb))) ! l \<longrightarrow> s ! l"
  using assms(4)
proof (induction rule: assigned_run.induct)
  case run_start
  have "ins ! cfg_entry g = initial_assigned b"
    using assigned_solutionD(1) [OF ok sol flow_okD(4) [OF ok] flow_ok_entry [OF ok]]
    by (simp add: assigned_new_in_def)
  then show ?case by simp
next
  case (run_stmt bb i s)
  note sh = assigned_run_shape [OF ok run_stmt(1)]
  have len: "length (ins ! bb) = length s" using assigned_solutionD(2) [OF ok sol] sh by simp
  from foldl_effect_mono [OF _ _ run_stmt.IH, of b "[blk_stmts (blk_at g bb) ! i]"] show ?case
    using run_stmt(2) sh l len by (simp add: take_Suc_conv_app_nth)
next
  case (run_jump bb s q)
  note sh = assigned_run_shape [OF ok run_jump(1)]
  note q = flow_ok_edge(2,3) [OF ok run_jump(2)]
  have out: "outs ! bb ! l \<longrightarrow> s ! l" using run_jump.IH assigned_solutionD(3) [OF ok sol, of bb] sh by simp
  show ?case
  proof (cases "q = cfg_entry g")
    case True
    then have "ins ! q = initial_assigned b"
      using assigned_solutionD(1) [OF ok sol flow_okD(4) [OF ok] flow_ok_entry [OF ok]]
      by (simp add: assigned_new_in_def)
    then show ?thesis using assigned_run_params [OF ok ps run_jump(1) l] by simp
  next
    case False
    have q': "q < length (cfg_blocks g)" "r ! q" using q sh by auto
    have "ins ! q ! l \<longrightarrow> outs ! bb ! l"
      using assigned_new_in_nth [OF ok q' False assigned_solutionD(4,5,1) [OF ok sol q'] l] run_jump(2) sh by auto
    then show ?thesis using out by simp
  qed
qed

text \<open>Completeness: the exit states that all runs justify are supported, hence below the solution.\<close>

definition run_meet :: "body \<Rightarrow> control_flow_graph \<Rightarrow> nat \<Rightarrow> bool list" where
  "run_meet b g bb =
     map (\<lambda>l. \<forall>s. assigned_run b g bb (length (blk_stmts (blk_at g bb))) s \<longrightarrow> s ! l) [0..<length (b_locals b)]"

lemma run_meet_supported:
  assumes ok: "flow_ok b g r"
  shows "da.supported b g r (map (run_meet b g) [0..<length (cfg_blocks g)])"
proof -
  let ?G = "map (run_meet b g) [0..<length (cfg_blocks g)]"
  have G: "length ?G = length (cfg_blocks g)" "\<forall>s \<in> set ?G. assigned_ok b s" by (auto simp: run_meet_def)
  have "\<exists>s. da.flow_at b g r bb ?G = Some s \<and> assigned_le (?G ! bb) s"
    if bb: "bb < length (cfg_blocks g)" "r ! bb" for bb
  proof -
    let ?sts = "blk_stmts (blk_at g bb)"
    obtain ni where ni: "assigned_new_in b g r bb ?G = Some ni" "length ni = length (b_locals b)"
      using assigned_new_in_ok [OF ok bb(1) G] by blast
    let ?o = "foldl (stmt_effect b) ni ?sts"
    have fl: "da.flow_at b g r bb ?G = Some ?o"
      using ni transfer_definite_assignment_eq [OF ok bb(1) ni(2)] by (simp add: da.flow_at_def)
    have "?o ! l" if l: "l < length (b_locals b)" and all: "run_meet b g bb ! l" for l
    proof (rule ccontr)
      assume neg: "\<not> ?o ! l"
      have ends: "s ! l" if "assigned_run b g bb (length ?sts) s" for s
        using all l that by (simp add: run_meet_def)
      have through: "foldl (stmt_effect b) s ?sts ! l" if "assigned_run b g bb 0 s" for s
        using ends assigned_run_block [OF that order_refl] by simp
      show False
      proof (cases "bb = cfg_entry g")
        case True
        then show False using through [of ni] ni(1) neg run_start [of b g] by (simp add: assigned_new_in_def)
      next
        case False
        obtain k where k: "\<forall>s. l < length s \<longrightarrow> foldl (stmt_effect b) s ?sts ! l = slot_after k (s ! l)"
          using foldl_effect_slot by blast
        have "\<exists>s. assigned_run b g bb 0 s \<and> (k = None \<longrightarrow> \<not> s ! l)"
        proof (cases "k = None")
          case True
          then have "\<not> ni ! l" using neg k ni(2) l by (simp add: slot_after_def)
          then obtain p where p: "cfg_edge g p bb" "r ! p" "\<not> ?G ! p ! l"
            using assigned_new_in_nth [OF ok bb False G ni(1) l] by auto
          then obtain s where "assigned_run b g p (length (blk_stmts (blk_at g p))) s" "\<not> s ! l"
            using flow_ok_edge(1) [OF ok p(1)] l by (auto simp: run_meet_def)
          then show ?thesis using run_jump p(1) by blast
        next
          case False
          then show ?thesis using assigned_run_exists [OF ok bb] by blast
        qed
        then obtain s where s: "assigned_run b g bb 0 s" "k = None \<longrightarrow> \<not> s ! l" by blast
        have "length s = length (b_locals b)" using assigned_run_shape [OF ok s(1)] by simp
        then show False
          using through [OF s(1)] s(2) neg k ni(2) l by (cases k) (auto simp: slot_after_def)
      qed
    qed
    then have "assigned_le (run_meet b g bb) ?o"
      using ni(2) by (simp add: list_all2_conv_all_nth run_meet_def)
    then show ?thesis using fl bb(1) by simp
  qed
  then show ?thesis using G by (simp add: da.supported_def da.states_ok_def)
qed

lemma assigned_run_complete:
  assumes ok: "flow_ok b g r" and sol: "da.solution b g r ins outs"
    and great: "\<And>G bb. da.supported b g r G \<Longrightarrow> bb < length (cfg_blocks g) \<Longrightarrow> r ! bb \<Longrightarrow> assigned_le (G ! bb) (outs ! bb)"
    and bb: "bb < length (cfg_blocks g)" "r ! bb" and l: "l < length (b_locals b)" and neg: "\<not> ins ! bb ! l"
  shows "\<exists>s. assigned_run b g bb 0 s \<and> \<not> s ! l"
proof (cases "bb = cfg_entry g")
  case True
  then show ?thesis
    using neg assigned_solutionD(1) [OF ok sol bb] run_start [of b g] by (auto simp: assigned_new_in_def)
next
  case False
  obtain p where p: "cfg_edge g p bb" "r ! p" "\<not> outs ! p ! l"
    using assigned_new_in_nth [OF ok bb False assigned_solutionD(4,5,1) [OF ok sol bb] l] neg by auto
  note pn = flow_ok_edge(1) [OF ok p(1)]
  have "\<not> run_meet b g p ! l"
    using great [OF run_meet_supported [OF ok] pn p(2)] p(3) pn l by (auto simp: list_all2_conv_all_nth run_meet_def)
  then obtain s where "assigned_run b g p (length (blk_stmts (blk_at g p))) s" "\<not> s ! l"
    using l by (auto simp: run_meet_def)
  then show ?thesis using run_jump p(1) by blast
qed

section \<open>Soundness of the diagnostics\<close>

text \<open>The expressions evaluated at a position of a block.\<close>

definition evaluated_at :: "body \<Rightarrow> control_flow_graph \<Rightarrow> nat \<Rightarrow> nat \<Rightarrow> nat list" where
  "evaluated_at b g bb i =
     (if i < length (blk_stmts (blk_at g bb)) then
        (case body_stmt b (blk_stmts (blk_at g bb) ! i) of None \<Rightarrow> [] | Some x \<Rightarrow> stmt_exprs (st_kind x))
      else term_exprs (blk_term (blk_at g bb)))"

definition block_clean :: "body \<Rightarrow> control_flow_graph \<Rightarrow> bool list list \<Rightarrow> nat \<Rightarrow> bool" where
  "block_clean b g ins bb \<longleftrightarrow>
     (\<forall>i \<le> length (blk_stmts (blk_at g bb)). \<forall>e \<in> set (evaluated_at b g bb i).
        check_expr_assigned b (foldl (stmt_effect b) (ins ! bb) (take i (blk_stmts (blk_at g bb)))) e = Some [])"

lemma definite_assignment_block_ok:
  assumes ok: "flow_ok b g r" and sol: "da.solution b g r ins outs" and bb: "bb < length (cfg_blocks g)"
  shows "\<exists>d. definite_assignment_block b r ins diags (bb, blk_at g bb) = Some (diags @ d) \<and>
    (d = [] \<longrightarrow> (r ! bb \<longrightarrow> block_clean b g ins bb)) \<and> (\<forall>y \<in> set d. unassigned_diag y)"
proof (cases "r ! bb")
  case False
  then show ?thesis
    using bb flow_okD(5) [OF ok] by (simp add: definite_assignment_block_def vec_get_def)
next
  case True
  let ?sts = "blk_stmts (blk_at g bb)" and ?t = "blk_term (blk_at g bb)"
  have wf: "body_wf b" using flow_okD(1) [OF ok] .
  have blk: "\<forall>st \<in> set ?sts. simple_stmt b st" "\<forall>e \<in> set (term_exprs ?t). e < length (b_exprs b)"
    using flow_okD(8) [OF ok bb] by (auto simp: block_ok_def term_ok_def)
  have len: "length (ins ! bb) = length (b_locals b)" "bb < length ins" "bb < length r"
    using sol bb flow_okD(5) [OF ok] by (auto simp: da.solution_def da.states_ok_def)
  obtain ds where ds: "fold_opt (transfer_stmt_definite_assignment b) (ins ! bb, diags) ?sts =
      Some (foldl (stmt_effect b) (ins ! bb) ?sts, diags @ ds)" "\<forall>d \<in> set ds. unassigned_diag d"
    "ds = [] \<longrightarrow> (\<forall>i < length ?sts. \<forall>x. body_stmt b (?sts ! i) = Some x \<longrightarrow>
       (\<forall>e \<in> set (stmt_exprs (st_kind x)).
          check_expr_assigned b (foldl (stmt_effect b) (ins ! bb) (take i ?sts)) e = Some []))"
    using transfer_stmts_ok [OF wf blk(1) len(1)] by blast
  obtain ds' where ds': "check_all (check_expr_assigned b (foldl (stmt_effect b) (ins ! bb) ?sts)) (term_exprs ?t) = Some ds'"
    by (rule check_all_assigned_total [OF wf blk(2)])
  have "definite_assignment_block b r ins diags (bb, blk_at g bb) = Some (diags @ ds @ ds')"
    using True len ds(1) ds' by (simp add: definite_assignment_block_def vec_get_def transfer_term_eq)
  moreover have "block_clean b g ins bb" if "ds @ ds' = []"
    unfolding block_clean_def
  proof (intro allI impI ballI)
    fix i e assume i: "i \<le> length ?sts" and e: "e \<in> set (evaluated_at b g bb i)"
    show "check_expr_assigned b (foldl (stmt_effect b) (ins ! bb) (take i ?sts)) e = Some []"
    proof (cases "i < length ?sts")
      case True
      then obtain x where "body_stmt b (?sts ! i) = Some x" "e \<in> set (stmt_exprs (st_kind x))"
        using e by (cases "body_stmt b (?sts ! i)") (simp_all add: evaluated_at_def)
      then show ?thesis using that ds(3) True by simp
    next
      case False
      then have "i = length ?sts" "e \<in> set (term_exprs ?t)" using i e by (simp_all add: evaluated_at_def)
      with ds' that show ?thesis
        using check_all_empty [of "check_expr_assigned b (foldl (stmt_effect b) (ins ! bb) ?sts)" "term_exprs ?t" e]
        by simp
    qed
  qed
  moreover have "\<forall>d \<in> set (ds @ ds'). unassigned_diag d"
    using ds(2) check_all_assigned_codes [OF wf blk(2) ds'] by auto
  ultimately show ?thesis by blast
qed

lemma definite_assignment_diagnostics_ok:
  assumes ok: "flow_ok b g r"
  obtains ins outs ds where "definite_assignment_states b g r = Some (ins, outs)" "da.solution b g r ins outs"
    "definite_assignment_diagnostics b g r = Some ds" "\<forall>d \<in> set ds. unassigned_diag d"
    "ds = [] \<longrightarrow> (\<forall>bb < length (cfg_blocks g). r ! bb \<longrightarrow> block_clean b g ins bb)"
proof -
  obtain ins outs where st: "definite_assignment_states b g r = Some (ins, outs)" "da.solution b g r ins outs"
    by (rule assigned_states_solution [OF ok])
  have "\<exists>d. definite_assignment_block b r ins acc x = Some (acc @ d) \<and>
      (d = [] \<longrightarrow> (r ! fst x \<longrightarrow> block_clean b g ins (fst x))) \<and> (\<forall>y \<in> set d. unassigned_diag y)"
    if "x \<in> set (enumerate 0 (cfg_blocks g))" for acc x
    using definite_assignment_block_ok [OF ok st(2), of "fst x" acc] that
    by (auto simp: in_set_enumerate_eq)
  then have "\<exists>ds. fold_opt (definite_assignment_block b r ins) [] (enumerate 0 (cfg_blocks g)) = Some ([] @ ds) \<and>
      (ds = [] \<longrightarrow> (\<forall>x \<in> set (enumerate 0 (cfg_blocks g)). r ! fst x \<longrightarrow> block_clean b g ins (fst x))) \<and>
      (\<forall>y \<in> set ds. unassigned_diag y)"
    by (rule fold_opt_emits)
  then obtain ds where
    ds: "fold_opt (definite_assignment_block b r ins) [] (enumerate 0 (cfg_blocks g)) = Some ds"
      "ds = [] \<longrightarrow> (\<forall>x \<in> set (enumerate 0 (cfg_blocks g)). r ! fst x \<longrightarrow> block_clean b g ins (fst x))"
      "\<forall>y \<in> set ds. unassigned_diag y" by auto
  have "definite_assignment_diagnostics b g r = Some ds" using st(1) ds(1) by (simp add: definite_assignment_diagnostics_def)
  moreover have "\<forall>bb < length (cfg_blocks g). r ! bb \<longrightarrow> block_clean b g ins bb" if "ds = []"
  proof (intro allI impI)
    fix bb assume "bb < length (cfg_blocks g)" "r ! bb"
    then show "block_clean b g ins bb"
      using ds(2) that enumerate_nth_mem [of bb "cfg_blocks g"] by fastforce
  qed
  ultimately show thesis using that [OF st _ ds(3)] by blast
qed

text \<open>A clean result means that no run reads an unassigned local.\<close>

definition reads_assigned :: "body \<Rightarrow> control_flow_graph \<Rightarrow> bool" where
  "reads_assigned b g \<longleftrightarrow> (\<forall>bb i s. assigned_run b g bb i s \<longrightarrow>
     (\<forall>e \<in> set (evaluated_at b g bb i). \<forall>l. reads b e l \<longrightarrow> s ! l))"

lemma reads_local_less: "body_wf b \<Longrightarrow> reads b e l \<Longrightarrow> l < length (b_locals b)"
  by (rotate_tac 1, induction rule: reads.induct) (auto dest: body_wf_expr(3))

lemma clean_reads_assigned:
  assumes ok: "flow_ok b g r" and ps: "params_stay b" and sol: "da.solution b g r ins outs"
    and clean: "\<forall>bb < length (cfg_blocks g). r ! bb \<longrightarrow> block_clean b g ins bb"
  shows "reads_assigned b g"
  unfolding reads_assigned_def
proof (intro allI impI ballI)
  fix bb i s e l
  assume run: "assigned_run b g bb i s" and e: "e \<in> set (evaluated_at b g bb i)" and rd: "reads b e l"
  note sh = assigned_run_shape [OF ok run]
  let ?st = "foldl (stmt_effect b) (ins ! bb) (take i (blk_stmts (blk_at g bb)))"
  have "check_expr_assigned b ?st e = Some []" using clean sh e by (auto simp: block_clean_def)
  moreover have "length ?st = length (b_locals b)" using assigned_solutionD(2) [OF ok sol] sh by simp
  ultimately have "?st ! l" using check_expr_assigned_sound [OF flow_okD(1) [OF ok] rd] by blast
  then show "s ! l"
    using assigned_run_sound [OF ok ps sol run reads_local_less [OF flow_okD(1) [OF ok] rd]] by blast
qed

text \<open>
  Property C25. For every well-formed body the assignment analysis returns, and the state it
  computes on entry to a reachable block is exact: a local is marked assigned if and only
  if it is assigned at the end of every path of the control-flow graph that leads there.
\<close>

theorem definite_assignment_exact:
  assumes "body_wf b" "params_stay b"
  shows "\<exists>g r ins outs. build_cfg b = Some g \<and> reachable_blocks g = Some r \<and>
    definite_assignment_states b g r = Some (ins, outs) \<and>
    (\<forall>bb < length (cfg_blocks g). r ! bb \<longrightarrow> (\<forall>l < length (b_locals b).
       ins ! bb ! l \<longleftrightarrow> (\<forall>s. assigned_run b g bb 0 s \<longrightarrow> s ! l)))"
proof -
  obtain g r where g: "build_cfg b = Some g" and ok: "flow_ok b g r" by (rule build_cfg_flow_ok [OF assms(1)])
  obtain ins outs where st: "definite_assignment_states b g r = Some (ins, outs)"
    and sol: "da.solution b g r ins outs"
    and gr: "\<forall>G bb. da.supported b g r G \<longrightarrow> bb < length (cfg_blocks g) \<longrightarrow> r ! bb \<longrightarrow> assigned_le (G ! bb) (outs ! bb)"
    by (rule assigned_states_solution [OF ok])
  have "ins ! bb ! l \<longleftrightarrow> (\<forall>s. assigned_run b g bb 0 s \<longrightarrow> s ! l)"
    if "bb < length (cfg_blocks g)" "r ! bb" "l < length (b_locals b)" for bb l
    using assigned_run_sound [OF ok assms(2) sol _ that(3), of bb 0] assigned_run_complete [OF ok sol gr [rule_format] that] by auto
  then show ?thesis using g ok st by (auto simp: flow_ok_def)
qed

text \<open>
  The assignment check of a well-formed body returns its diagnostics; if it
  returns none, then on every path of the control-flow graph every local that a statement
  or terminator may read, short-circuit evaluation taken into account, has been assigned.
\<close>

lemma no_unassigned_reads:
  assumes "body_wf b" "params_stay b"
  shows "\<exists>g r ds. build_cfg b = Some g \<and> reachable_blocks g = Some r \<and>
    definite_assignment_diagnostics b g r = Some ds \<and> (ds = [] \<longrightarrow> reads_assigned b g)"
proof -
  obtain g r where g: "build_cfg b = Some g" and ok: "flow_ok b g r" by (rule build_cfg_flow_ok [OF assms(1)])
  obtain ins outs ds where "definite_assignment_states b g r = Some (ins, outs)" "da.solution b g r ins outs"
      "definite_assignment_diagnostics b g r = Some ds" "\<forall>d \<in> set ds. unassigned_diag d"
      "ds = [] \<longrightarrow> (\<forall>bb < length (cfg_blocks g). r ! bb \<longrightarrow> block_clean b g ins bb)"
    by (rule definite_assignment_diagnostics_ok [OF ok])
  then show ?thesis using g ok clean_reads_assigned [OF ok assms(2)] by (auto simp: flow_ok_def)
qed

lemma sample_params_stay: "params_stay sample_body"
  by (simp add: params_stay_def sample_body_def vec_get_def)

theorem definite_assignment_exact_witness:
  "body_wf sample_body \<and> params_stay sample_body \<and>
   (\<exists>g r ins outs. build_cfg sample_body = Some g \<and> reachable_blocks g = Some r \<and>
      definite_assignment_states sample_body g r = Some (ins, outs))"
  using definite_assignment_exact [OF sample_body_wf sample_params_stay] sample_body_wf sample_params_stay by blast

end
