(* ===== verification/Flow_Null.thy ===== *)
theory Flow_Null
  imports Flow_Assign
begin

text \<open>
  The null-dereference analysis of \<^verbatim>\<open>crates/nova-flow/src/flow.rs\<close>: null states of
  locals, narrowing along the branches of conditions, and the diagnostics. Against a
  semantics in which locals hold null or a reference, the states are sound, and a body
  without diagnostics never dereferences null.
\<close>

section \<open>Null states\<close>

datatype null_state = NsNull | NsNonNull | NsUnknown

definition ns_join :: "null_state \<Rightarrow> null_state \<Rightarrow> null_state" where
  "ns_join s t = (if s = t then s else NsUnknown)"

type_synonym null_constraints = "(nat \<times> null_state) list"

section \<open>Constraints of conditions\<close>

fun update_first :: "null_constraints \<Rightarrow> nat \<Rightarrow> null_state \<Rightarrow> null_constraints option" where
  "update_first [] l v = None"
| "update_first ((m, w) # cs) l v =
     (if m = l then Some ((m, ns_join w v) # cs)
      else map_option (\<lambda>cs'. (m, w) # cs') (update_first cs l v))"

definition merge_one :: "null_constraints \<Rightarrow> nat \<times> null_state \<Rightarrow> null_constraints" where
  "merge_one lhs lv =
     (case lv of (local, value) \<Rightarrow>
        (case update_first lhs local value of Some lhs' \<Rightarrow> lhs' | None \<Rightarrow> lhs @ [(local, value)]))"

definition merge_null_constraints :: "null_constraints \<Rightarrow> null_constraints \<Rightarrow> null_constraints" where
  "merge_null_constraints lhs rhs = foldl merge_one lhs rhs"

text \<open>The local that a comparison with the null literal tests.\<close>

definition null_compared :: "expr_kind \<Rightarrow> expr_kind \<Rightarrow> nat option" where
  "null_compared l r =
     (case (l, r) of (ELocal x, ENull) \<Rightarrow> Some x | (ENull, ELocal x) \<Rightarrow> Some x | _ \<Rightarrow> None)"

definition null_constraints_step ::
  "body \<Rightarrow> (nat \<Rightarrow> (null_constraints \<times> null_constraints) option) \<Rightarrow> nat \<Rightarrow>
     (null_constraints \<times> null_constraints) option" where
  "null_constraints_step b rec e =
     do {
       x \<leftarrow> body_expr b e;
       (case ex_kind x of
          EUnary NotOp e' \<Rightarrow> map_option (\<lambda>(on_true, on_false). (on_false, on_true)) (rec e')
        | EBinary op lhs rhs \<Rightarrow>
            (case op of
               EqEq \<Rightarrow>
                 do {
                   l \<leftarrow> body_expr b lhs;
                   r \<leftarrow> body_expr b rhs;
                   Some (case null_compared (ex_kind l) (ex_kind r) of
                     Some local \<Rightarrow> ([(local, NsNull)], [(local, NsNonNull)])
                   | None \<Rightarrow> ([], []))
                 }
             | NotEq \<Rightarrow>
                 do {
                   l \<leftarrow> body_expr b lhs;
                   r \<leftarrow> body_expr b rhs;
                   Some (case null_compared (ex_kind l) (ex_kind r) of
                     Some local \<Rightarrow> ([(local, NsNonNull)], [(local, NsNull)])
                   | None \<Rightarrow> ([], []))
                 }
             | AndAnd \<Rightarrow>
                 do {
                   (lhs_true, _) \<leftarrow> rec lhs;
                   (rhs_true, _) \<leftarrow> rec rhs;
                   Some (merge_null_constraints lhs_true rhs_true, [])
                 }
             | OrOr \<Rightarrow>
                 do {
                   (_, lhs_false) \<leftarrow> rec lhs;
                   (_, rhs_false) \<leftarrow> rec rhs;
                   Some ([], merge_null_constraints lhs_false rhs_false)
                 })
        | _ \<Rightarrow> Some ([], []))
     }"

definition null_constraints_of :: "body \<Rightarrow> nat \<Rightarrow> (null_constraints \<times> null_constraints) option" where
  "null_constraints_of b e = arena_rec (\<lambda>_. None) (null_constraints_step b) (length (b_exprs b)) e"

text \<open>Overwriting the slots that the constraints determine.\<close>

definition narrow_slot :: "null_state list \<Rightarrow> nat \<times> null_state \<Rightarrow> null_state list" where
  "narrow_slot state lv =
     (case lv of (local, value) \<Rightarrow>
        if value \<noteq> NsUnknown \<and> local < length state then state[local := value] else state)"

definition narrow :: "null_state list \<Rightarrow> null_constraints \<Rightarrow> null_state list" where
  "narrow state cs = foldl narrow_slot state cs"

definition edge_narrow_null ::
  "body \<Rightarrow> control_flow_graph \<Rightarrow> nat \<Rightarrow> nat \<Rightarrow> null_state list \<Rightarrow> null_state list option" where
  "edge_narrow_null b g pred succ out_state =
     do {
       blk \<leftarrow> vec_get (cfg_blocks g) pred;
       (case blk_term blk of
          TIf condition then_target else_target _ \<Rightarrow>
            if succ = then_target then
              map_option (\<lambda>(on_true, on_false). narrow out_state on_true) (null_constraints_of b condition)
            else if succ = else_target then
              map_option (\<lambda>(on_true, on_false). narrow out_state on_false) (null_constraints_of b condition)
            else Some out_state
        | _ \<Rightarrow> Some out_state)
     }"

section \<open>Transfer\<close>

definition state_get :: "null_state list \<Rightarrow> nat \<Rightarrow> null_state" where
  "state_get state l = (case vec_get state l of Some s \<Rightarrow> s | None \<Rightarrow> NsUnknown)"

definition expr_null_state_step ::
  "body \<Rightarrow> null_state list \<Rightarrow> (nat \<Rightarrow> null_state option) \<Rightarrow> nat \<Rightarrow> null_state option" where
  "expr_null_state_step b state rec e =
     do {
       x \<leftarrow> body_expr b e;
       (case ex_kind x of
          ENull \<Rightarrow> Some NsNull
        | ENew _ _ \<Rightarrow> Some NsNonNull
        | EBool _ \<Rightarrow> Some NsNonNull
        | EInt _ \<Rightarrow> Some NsNonNull
        | EString _ \<Rightarrow> Some NsNonNull
        | ELocal l \<Rightarrow> Some (state_get state l)
        | EUnary _ e' \<Rightarrow> rec e'
        | EBinary _ _ _ \<Rightarrow> Some NsNonNull
        | EFieldAccess _ _ \<Rightarrow> Some NsUnknown
        | ECall _ _ _ \<Rightarrow> Some NsUnknown
        | EInvalid _ \<Rightarrow> Some NsUnknown)
     }"

definition expr_null_state :: "body \<Rightarrow> null_state list \<Rightarrow> nat \<Rightarrow> null_state option" where
  "expr_null_state b state e =
     arena_rec (\<lambda>_. None) (expr_null_state_step b state) (length (b_exprs b)) e"

definition transfer_stmt_nullability :: "body \<Rightarrow> null_state list \<Rightarrow> nat \<Rightarrow> null_state list option" where
  "transfer_stmt_nullability b state st =
     do {
       x \<leftarrow> body_stmt b st;
       (case st_kind x of
          SLet local initializer \<Rightarrow>
            do {
              value \<leftarrow> (case initializer of Some e \<Rightarrow> expr_null_state b state e | None \<Rightarrow> Some NsUnknown);
              set_slot state local value
            }
        | SAssign target e \<Rightarrow> do { value \<leftarrow> expr_null_state b state e; set_slot state target value }
        | SBlock _ \<Rightarrow> None
        | _ \<Rightarrow> Some state)
     }"

definition transfer_nullability ::
  "body \<Rightarrow> control_flow_graph \<Rightarrow> nat \<Rightarrow> null_state list \<Rightarrow> null_state list option" where
  "transfer_nullability b g bb in_state =
     do {
       blk \<leftarrow> vec_get (cfg_blocks g) bb;
       fold_opt (transfer_stmt_nullability b) in_state (blk_stmts blk)
     }"

definition join_nullability :: "nat \<Rightarrow> null_state list list \<Rightarrow> null_state list" where
  "join_nullability n_locals inputs =
     (case inputs of
        [] \<Rightarrow> replicate n_locals NsUnknown
      | first # rest \<Rightarrow> foldl (zip_slots ns_join) first rest)"

definition null_new_in ::
  "body \<Rightarrow> control_flow_graph \<Rightarrow> bool list \<Rightarrow> nat \<Rightarrow> null_state list list \<Rightarrow> null_state list option" where
  "null_new_in b g reachable bb out_states =
     (if bb = cfg_entry g then Some (replicate (length (b_locals b)) NsUnknown)
      else
        do {
          preds \<leftarrow> cfg_predecessors g bb;
          inputs \<leftarrow> collect_inputs
              (\<lambda>pred. do { out \<leftarrow> vec_get out_states pred; edge_narrow_null b g pred bb out }) reachable preds;
          Some (join_nullability (length (b_locals b)) inputs)
        })"

definition null_states ::
  "body \<Rightarrow> control_flow_graph \<Rightarrow> bool list \<Rightarrow> (null_state list list \<times> null_state list list) option" where
  "null_states b g reachable =
     (let n_blocks = length (cfg_blocks g); n_locals = length (b_locals b) in
      dataflow_loop (null_new_in b g reachable) (transfer_nullability b g) g reachable
        (replicate n_blocks (replicate n_locals NsUnknown))
        (replicate n_blocks (replicate n_locals NsUnknown)) (initial_worklist reachable))"

section \<open>Diagnostics\<close>

text \<open>Whether the current state rules out the constraints of a condition.\<close>

definition contradicts :: "null_state list \<Rightarrow> null_constraints \<Rightarrow> bool" where
  "contradicts state cs \<longleftrightarrow> list_ex (\<lambda>(local, required).
     required \<noteq> NsUnknown \<and> state_get state local \<noteq> NsUnknown \<and> state_get state local \<noteq> required) cs"

type_synonym null_check = "nat \<Rightarrow> null_state list \<Rightarrow> (null_state \<times> diagnostic list) option"

definition null_deref_diag :: "span \<Rightarrow> diagnostic" where
  "null_deref_diag sp = flow_diagnostic PossibleNullDereference (Some sp) ''possible null dereference''"

definition check_all_null :: "null_check \<Rightarrow> nat list \<Rightarrow> null_state list \<Rightarrow> diagnostic list option" where
  "check_all_null rec es state = check_all (\<lambda>e. map_option snd (rec e state)) es"

text \<open>The right operand of a short-circuit operator, evaluated when the left one is \<open>needed\<close>.\<close>

definition check_short_circuit ::
  "body \<Rightarrow> null_check \<Rightarrow> bool \<Rightarrow> nat \<Rightarrow> nat \<Rightarrow> null_state list \<Rightarrow> (null_state \<times> diagnostic list) option" where
  "check_short_circuit b rec needed lhs rhs state =
     do {
       (_, ds) \<leftarrow> rec lhs state;
       const \<leftarrow> eval_const_bool b lhs;
       if const = Some (\<not> needed) then Some (NsNonNull, ds)
       else do {
         (on_true, on_false) \<leftarrow> null_constraints_of b lhs;
         let cs = (if needed then on_true else on_false);
         if contradicts state cs then Some (NsNonNull, ds)
         else do {
           (_, ds') \<leftarrow> rec rhs (narrow state cs);
           Some (NsNonNull, ds @ ds')
         }
       }
     }"

definition check_expr_null_deref_step :: "body \<Rightarrow> null_check \<Rightarrow> null_check" where
  "check_expr_null_deref_step b rec e state =
     do {
       x \<leftarrow> body_expr b e;
       (case ex_kind x of
          ELocal l \<Rightarrow> Some (state_get state l, [])
        | ENull \<Rightarrow> Some (NsNull, [])
        | ENew _ args \<Rightarrow> do { ds \<leftarrow> check_all_null rec args state; Some (NsNonNull, ds) }
        | EBool _ \<Rightarrow> Some (NsNonNull, [])
        | EInt _ \<Rightarrow> Some (NsNonNull, [])
        | EString _ \<Rightarrow> Some (NsNonNull, [])
        | EInvalid children \<Rightarrow> do { ds \<leftarrow> check_all_null rec children state; Some (NsUnknown, ds) }
        | EUnary _ e' \<Rightarrow> rec e' state
        | EBinary op lhs rhs \<Rightarrow>
            (case op of
               AndAnd \<Rightarrow> check_short_circuit b rec True lhs rhs state
             | OrOr \<Rightarrow> check_short_circuit b rec False lhs rhs state
             | _ \<Rightarrow>
                 do {
                   (_, ds) \<leftarrow> rec lhs state;
                   (_, ds') \<leftarrow> rec rhs state;
                   Some (NsNonNull, ds @ ds')
                 })
        | EFieldAccess receiver _ \<Rightarrow>
            do {
              (recv_state, ds) \<leftarrow> rec receiver state;
              Some (NsUnknown, ds @ (if recv_state \<noteq> NsNonNull then [null_deref_diag (ex_span x)] else []))
            }
        | ECall receiver _ args \<Rightarrow>
            do {
              (recv_state, ds) \<leftarrow> (case receiver of Some r \<Rightarrow> rec r state | None \<Rightarrow> Some (NsNonNull, []));
              ds' \<leftarrow> check_all_null rec args state;
              Some (NsUnknown, ds @ ds' @
                (if receiver \<noteq> None \<and> recv_state \<noteq> NsNonNull then [null_deref_diag (ex_span x)] else []))
            })
     }"

definition check_expr_null_deref :: "body \<Rightarrow> null_check" where
  "check_expr_null_deref b =
     arena_rec (\<lambda>_ _. None) (check_expr_null_deref_step b) (length (b_exprs b))"

definition transfer_stmt_null_deref ::
  "body \<Rightarrow> null_state list \<times> diagnostic list \<Rightarrow> nat \<Rightarrow> (null_state list \<times> diagnostic list) option" where
  "transfer_stmt_null_deref b sd st =
     (case sd of (state, diags) \<Rightarrow>
      do {
        x \<leftarrow> body_stmt b st;
        (case st_kind x of
           SLet local initializer \<Rightarrow>
             (case initializer of
                Some e \<Rightarrow>
                  do {
                    (value, ds) \<leftarrow> check_expr_null_deref b e state;
                    state' \<leftarrow> set_slot state local value;
                    Some (state', diags @ ds)
                  }
              | None \<Rightarrow> do { state' \<leftarrow> set_slot state local NsUnknown; Some (state', diags) })
         | SAssign target e \<Rightarrow>
             do {
               (value, ds) \<leftarrow> check_expr_null_deref b e state;
               state' \<leftarrow> set_slot state target value;
               Some (state', diags @ ds)
             }
         | SExpr e \<Rightarrow> do { (_, ds) \<leftarrow> check_expr_null_deref b e state; Some (state, diags @ ds) }
         | SReturn value \<Rightarrow>
             (case value of
                None \<Rightarrow> Some (state, diags)
              | Some e \<Rightarrow> do { (_, ds) \<leftarrow> check_expr_null_deref b e state; Some (state, diags @ ds) })
         | SThrow e \<Rightarrow> do { (_, ds) \<leftarrow> check_expr_null_deref b e state; Some (state, diags @ ds) }
         | SBlock _ \<Rightarrow> None
         | _ \<Rightarrow> Some (state, diags))
      })"

definition transfer_terminator_null_deref ::
  "body \<Rightarrow> terminator \<Rightarrow> null_state list \<times> diagnostic list \<Rightarrow> (null_state list \<times> diagnostic list) option" where
  "transfer_terminator_null_deref b term sd =
     (case sd of (state, diags) \<Rightarrow>
      let check = (\<lambda>e. map_option (\<lambda>(_, ds). (state, diags @ ds)) (check_expr_null_deref b e state)) in
        (case term of
           TIf condition _ _ _ \<Rightarrow> check condition
         | TSwitch expression _ _ \<Rightarrow> check expression
         | TReturn value _ \<Rightarrow> (case value of None \<Rightarrow> Some (state, diags) | Some e \<Rightarrow> check e)
         | TThrow exception _ \<Rightarrow> check exception
         | _ \<Rightarrow> Some (state, diags)))"

definition null_deref_block ::
  "body \<Rightarrow> bool list \<Rightarrow> null_state list list \<Rightarrow> diagnostic list \<Rightarrow> nat \<times> basic_block \<Rightarrow> diagnostic list option" where
  "null_deref_block b reachable in_states diags ib =
     (case ib of (idx, blk) \<Rightarrow>
      do {
        is_reachable \<leftarrow> vec_get reachable idx;
        if \<not> is_reachable then Some diags
        else do {
          state \<leftarrow> vec_get in_states idx;
          sd \<leftarrow> fold_opt (transfer_stmt_null_deref b) (state, diags) (blk_stmts blk);
          map_option snd (transfer_terminator_null_deref b (blk_term blk) sd)
        }
      })"

definition null_deref_diagnostics ::
  "body \<Rightarrow> control_flow_graph \<Rightarrow> bool list \<Rightarrow> diagnostic list option" where
  "null_deref_diagnostics b g reachable =
     do {
       (in_states, _) \<leftarrow> null_states b g reachable;
       fold_opt (null_deref_block b reachable in_states) [] (enumerate 0 (cfg_blocks g))
     }"

lemmas flow_null_eval [nova_eval] =
  ns_join_def update_first.simps merge_one_def merge_null_constraints_def null_compared_def
  null_constraints_step_def null_constraints_of_def narrow_slot_def narrow_def edge_narrow_null_def
  state_get_def expr_null_state_step_def expr_null_state_def transfer_stmt_nullability_def
  transfer_nullability_def join_nullability_def null_new_in_def null_states_def contradicts_def
  null_deref_diag_def check_all_null_def check_short_circuit_def check_expr_null_deref_step_def
  check_expr_null_deref_def transfer_stmt_null_deref_def transfer_terminator_null_deref_def
  null_deref_block_def null_deref_diagnostics_def

section \<open>Values\<close>

text \<open>
  A local holds null or not. \<open>agrees s n\<close>: a value that is null iff \<open>n\<close> is covered by the
  state \<open>s\<close>.
\<close>

fun agrees :: "null_state \<Rightarrow> bool \<Rightarrow> bool" where
  "agrees NsNull n = n"
| "agrees NsNonNull n = (\<not> n)"
| "agrees NsUnknown n = True"

abbreviation describes :: "null_state list \<Rightarrow> bool list \<Rightarrow> bool" where
  "describes \<equiv> list_all2 agrees"

definition ns_le :: "null_state \<Rightarrow> null_state \<Rightarrow> bool" where
  "ns_le s t \<longleftrightarrow> s = t \<or> t = NsUnknown"

lemma agrees_le: "ns_le s t \<Longrightarrow> agrees s n \<Longrightarrow> agrees t n"
  by (auto simp: ns_le_def)

lemma ns_join_upper: "ns_le s (ns_join s t)" "ns_le t (ns_join s t)"
  by (simp_all add: ns_le_def ns_join_def)

lemma ns_join_mono: "ns_le s s' \<Longrightarrow> ns_le t t' \<Longrightarrow> ns_le (ns_join s t) (ns_join s' t')"
  by (auto simp: ns_le_def ns_join_def)

lemma state_get_agrees: "describes state v \<Longrightarrow> l < length v \<Longrightarrow> agrees (state_get state l) (v ! l)"
  by (auto simp: state_get_def vec_get_def list_all2_conv_all_nth)

lemma narrow_slot_length [simp]: "length (narrow_slot state lv) = length state"
  by (cases lv) (simp add: narrow_slot_def)

lemma narrow_length [simp]: "length (narrow state cs) = length state"
  unfolding narrow_def by (induction cs arbitrary: state) simp_all

abbreviation satisfied :: "bool list \<Rightarrow> null_constraints \<Rightarrow> bool" where
  "satisfied v cs \<equiv> \<forall>(l, s) \<in> set cs. l < length v \<longrightarrow> agrees s (v ! l)"

lemma narrow_describes: "describes state v \<Longrightarrow> satisfied v cs \<Longrightarrow> describes (narrow state cs) v"
  unfolding narrow_def
proof (induction cs arbitrary: state)
  case (Cons c cs)
  obtain l s where c: "c = (l, s)" by (cases c)
  have "describes (narrow_slot state c) v"
    using Cons.prems by (auto simp: c narrow_slot_def list_all2_conv_all_nth nth_list_update)
  with Cons show ?case by simp
qed simp

lemma narrow_mono:
  assumes "list_all2 ns_le s t"
  shows "list_all2 ns_le (narrow s cs) (narrow t cs)"
  using assms unfolding narrow_def
proof (induction cs arbitrary: s t)
  case (Cons c cs)
  have "list_all2 ns_le (narrow_slot s c) (narrow_slot t c)"
    using Cons.prems
    by (cases c) (auto simp: narrow_slot_def list_all2_conv_all_nth nth_list_update ns_le_def)
  with Cons.IH show ?case by simp
qed simp

lemma contradicts_unsatisfied:
  assumes "describes state v" "contradicts state cs" "\<forall>(l, s) \<in> set cs. l < length v"
  shows "\<not> satisfied v cs"
proof
  assume sat: "satisfied v cs"
  from assms(2) obtain l s where ls: "(l, s) \<in> set cs" "s \<noteq> NsUnknown" "state_get state l \<noteq> NsUnknown"
      "state_get state l \<noteq> s"
    by (auto simp: contradicts_def list_ex_iff)
  then have "agrees s (v ! l)" "agrees (state_get state l) (v ! l)"
    using sat assms state_get_agrees by fastforce+
  with ls(2-4) show False by (cases s; cases "state_get state l") auto
qed

section \<open>Soundness of the constraints\<close>

lemma update_first_in:
  "update_first cs l v = Some cs' \<Longrightarrow> (m, s) \<in> set cs' \<Longrightarrow>
   (m, s) \<in> set cs \<or> m = l \<and> (\<exists>w. (l, w) \<in> set cs \<and> s = ns_join w v)"
proof (induction cs arbitrary: cs')
  case (Cons c cs)
  then show ?case by (cases c) (fastforce split: if_splits)
qed simp

lemma merge_satisfied:
  assumes "satisfied v lhs" "satisfied v rhs"
  shows "satisfied v (merge_null_constraints lhs rhs)"
  using assms unfolding merge_null_constraints_def
proof (induction rhs arbitrary: lhs)
  case (Cons c rhs)
  obtain l w where c: "c = (l, w)" by (cases c)
  have "satisfied v (merge_one lhs c)"
  proof (cases "update_first lhs l w")
    case None
    then show ?thesis using Cons.prems by (auto simp: merge_one_def c)
  next
    case (Some lhs')
    have "agrees s (v ! m)" if "(m, s) \<in> set lhs'" "m < length v" for m s
      using update_first_in [OF Some that(1)] Cons.prems that(2) agrees_le [OF ns_join_upper(1)]
      by (auto simp: c)
    then show ?thesis using Some by (auto simp: merge_one_def c)
  qed
  with Cons show ?case by simp
qed simp

lemma merge_fst:
  "fst ` set (merge_null_constraints lhs rhs) \<subseteq> fst ` set lhs \<union> fst ` set rhs"
  unfolding merge_null_constraints_def
proof (induction rhs arbitrary: lhs)
  case (Cons c rhs)
  have "fst ` set (merge_one lhs c) \<subseteq> insert (fst c) (fst ` set lhs)"
    using update_first_in by (cases c) (force simp: merge_one_def split: option.splits)
  with Cons [of "merge_one lhs c"] show ?case by auto
qed simp

definition null_test :: "body \<Rightarrow> expr_kind \<Rightarrow> nat option" where
  "null_test b k =
     (case k of
        EBinary op l r \<Rightarrow>
          (case (body_expr b l, body_expr b r) of
             (Some lx, Some rx) \<Rightarrow>
               if op = EqEq \<or> op = NotEq then null_compared (ex_kind lx) (ex_kind rx) else None
           | _ \<Rightarrow> None)
      | _ \<Rightarrow> None)"

text \<open>The truth values a condition can take when the locals are null as \<open>v\<close> says.\<close>

inductive may_eval :: "body \<Rightarrow> bool list \<Rightarrow> nat \<Rightarrow> bool \<Rightarrow> bool" for b :: body and v :: "bool list" where
  ev_const: "body_expr b e = Some x \<Longrightarrow> ex_kind x = EBool t \<Longrightarrow> may_eval b v e t"
| ev_not: "body_expr b e = Some x \<Longrightarrow> ex_kind x = EUnary NotOp e' \<Longrightarrow> may_eval b v e' t \<Longrightarrow>
    may_eval b v e (\<not> t)"
| ev_and_false: "body_expr b e = Some x \<Longrightarrow> ex_kind x = EBinary AndAnd l r \<Longrightarrow>
    may_eval b v l False \<Longrightarrow> may_eval b v e False"
| ev_and: "body_expr b e = Some x \<Longrightarrow> ex_kind x = EBinary AndAnd l r \<Longrightarrow>
    may_eval b v l True \<Longrightarrow> may_eval b v r t \<Longrightarrow> may_eval b v e t"
| ev_or_true: "body_expr b e = Some x \<Longrightarrow> ex_kind x = EBinary OrOr l r \<Longrightarrow>
    may_eval b v l True \<Longrightarrow> may_eval b v e True"
| ev_or: "body_expr b e = Some x \<Longrightarrow> ex_kind x = EBinary OrOr l r \<Longrightarrow>
    may_eval b v l False \<Longrightarrow> may_eval b v r t \<Longrightarrow> may_eval b v e t"
| ev_eq: "body_expr b e = Some x \<Longrightarrow> ex_kind x = EBinary EqEq l r \<Longrightarrow>
    null_test b (ex_kind x) = Some y \<Longrightarrow> may_eval b v e (v ! y)"
| ev_neq: "body_expr b e = Some x \<Longrightarrow> ex_kind x = EBinary NotEq l r \<Longrightarrow>
    null_test b (ex_kind x) = Some y \<Longrightarrow> may_eval b v e (\<not> v ! y)"
| ev_other: "body_expr b e = Some x \<Longrightarrow>
    (\<forall>t. ex_kind x \<noteq> EBool t) \<Longrightarrow> (\<forall>e'. ex_kind x \<noteq> EUnary NotOp e') \<Longrightarrow>
    (\<forall>l r. ex_kind x \<noteq> EBinary AndAnd l r \<and> ex_kind x \<noteq> EBinary OrOr l r) \<Longrightarrow>
    null_test b (ex_kind x) = None \<Longrightarrow> may_eval b v e t"

lemma may_eval_may_be: "may_eval b v e t \<Longrightarrow> may_be b e t"
proof (induction rule: may_eval.induct)
  case (ev_eq e x l r y)
  then show ?case by (intro may_other) auto
next
  case (ev_neq e x l r y)
  then show ?case by (intro may_other) auto
qed (blast intro: may_be.intros)+

lemma null_constraints_descends:
  assumes "body_wf b"
  shows "descends (length (b_exprs b)) (null_constraints_step b)"
proof -
  have "null_constraints_step b g e = null_constraints_step b h e" if "\<forall>c < e. g c = h c" for g h e
  proof (cases "body_expr b e")
    case None
    then show ?thesis by (simp add: null_constraints_step_def)
  next
    case (Some x)
    have "g c = h c" if "c \<in> set (expr_children (ex_kind x))" for c
      using body_wf_expr(2) [OF assms Some that] \<open>\<forall>c < e. g c = h c\<close> by simp
    with Some show ?thesis
      by (cases "ex_kind x")
        (auto simp: null_constraints_step_def split: unary_op.splits binary_op.splits)
  qed
  then show ?thesis by (simp add: descends_def)
qed

lemma null_constraints_unfold:
  assumes "body_wf b" "e < length (b_exprs b)"
  shows "null_constraints_of b e = null_constraints_step b (null_constraints_of b) e"
  using arena_rec_unfold [OF null_constraints_descends [OF assms(1)] assms(2)]
  by (simp add: null_constraints_of_def [abs_def])

lemma null_compared_range:
  assumes wf: "body_wf b" and l: "body_expr b lhs = Some lx" and r: "body_expr b rhs = Some rx"
    and y: "null_compared (ex_kind lx) (ex_kind rx) = Some y"
  shows "y < length (b_locals b)"
  using y body_wf_expr(3) [OF wf l, of y] body_wf_expr(3) [OF wf r, of y]
  by (auto simp: null_compared_def split: expr_kind.splits)

lemma null_constraints_total:
  assumes wf: "body_wf b" and "e < length (b_exprs b)"
  shows "\<exists>t f. null_constraints_of b e = Some (t, f) \<and> fst ` set t \<subseteq> {..<length (b_locals b)} \<and>
    fst ` set f \<subseteq> {..<length (b_locals b)}"
  using assms(2)
proof (induction e rule: less_induct)
  case (less e)
  from body_expr_Some [OF less.prems] obtain x where x: "body_expr b e = Some x" by blast
  let ?n = "{..<length (b_locals b)}"
  have kid: "\<exists>t f. null_constraints_of b c = Some (t, f) \<and> fst ` set t \<subseteq> ?n \<and> fst ` set f \<subseteq> ?n"
    "\<exists>y. body_expr b c = Some y"
    if "c \<in> set (expr_children (ex_kind x))" for c
    using less.IH [of c] body_wf_expr(2) [OF wf x that] less.prems body_expr_Some [of c b] by auto
  note un = null_constraints_unfold [OF wf less.prems] null_constraints_step_def x
  show ?case
  proof (cases "ex_kind x")
    case (EUnary op e')
    then show ?thesis using kid(1) [of e'] by (cases op) (auto simp: un)
  next
    case (EBinary op lhs rhs)
    obtain lx rx where lr: "body_expr b lhs = Some lx" "body_expr b rhs = Some rx"
      using kid(2) [of lhs] kid(2) [of rhs] EBinary by auto
    obtain t f t' f' where c: "null_constraints_of b lhs = Some (t, f)" "fst ` set t \<subseteq> ?n" "fst ` set f \<subseteq> ?n"
        "null_constraints_of b rhs = Some (t', f')" "fst ` set t' \<subseteq> ?n" "fst ` set f' \<subseteq> ?n"
      using kid(1) [of lhs] kid(1) [of rhs] EBinary by auto
    note m = subset_trans [OF merge_fst Un_least [OF c(2,5)]] subset_trans [OF merge_fst Un_least [OF c(3,6)]]
    show ?thesis
    proof (cases op)
      case EqEq
      then show ?thesis
        using EBinary lr null_compared_range [OF wf lr]
        by (cases "null_compared (ex_kind lx) (ex_kind rx)") (simp_all add: un)
    next
      case NotEq
      then show ?thesis
        using EBinary lr null_compared_range [OF wf lr]
        by (cases "null_compared (ex_kind lx) (ex_kind rx)") (simp_all add: un)
    next
      case AndAnd
      then show ?thesis using EBinary c(1,4) m(1) by (simp add: un)
    next
      case OrOr
      then show ?thesis using EBinary c(1,4) m(2) by (simp add: un)
    qed
  qed (simp_all add: un)
qed

lemma null_constraints_stepD:
  assumes "body_wf b" "body_expr b e = Some x" "null_constraints_of b e = Some r"
  shows "null_constraints_step b (null_constraints_of b) e = Some r"
  using null_constraints_unfold [OF assms(1) body_wf_expr(1) [OF assms(1,2)]] assms(3) by simp

lemma null_constraints_sound:
  assumes wf: "body_wf b" and "may_eval b v e t" "null_constraints_of b e = Some (on_true, on_false)"
  shows "satisfied v (if t then on_true else on_false)"
  using assms(2,3)
proof (induction arbitrary: on_true on_false rule: may_eval.induct)
  case (ev_const e x t)
  show ?case
    using null_constraints_stepD [OF wf ev_const(1) ev_const.prems] ev_const.hyps
    by (auto simp: null_constraints_step_def)
next
  case (ev_not e x e' t)
  obtain on_t on_f where "null_constraints_of b e' = Some (on_t, on_f)" "on_true = on_f" "on_false = on_t"
    using null_constraints_stepD [OF wf ev_not(1) ev_not.prems] ev_not.hyps
    by (auto simp: null_constraints_step_def)
  then show ?case using ev_not.IH by (cases t) auto
next
  case (ev_and_false e x l r)
  show ?case
    using null_constraints_stepD [OF wf ev_and_false(1) ev_and_false.prems] ev_and_false.hyps
    by (auto simp: null_constraints_step_def bind_eq_Some_conv)
next
  case (ev_and e x l r t)
  obtain lt lf rt rf where c: "null_constraints_of b l = Some (lt, lf)" "null_constraints_of b r = Some (rt, rf)"
      "on_true = merge_null_constraints lt rt" "on_false = []"
    using null_constraints_stepD [OF wf ev_and(1) ev_and.prems] ev_and.hyps
    by (auto simp: null_constraints_step_def bind_eq_Some_conv)
  have "satisfied v on_true" if "t"
    using merge_satisfied [of lt v rt] ev_and.IH(1) [OF c(1)] ev_and.IH(2) [OF c(2)] that c(3) by simp
  then show ?case using c(4) by auto
next
  case (ev_or_true e x l r)
  show ?case
    using null_constraints_stepD [OF wf ev_or_true(1) ev_or_true.prems] ev_or_true.hyps
    by (auto simp: null_constraints_step_def bind_eq_Some_conv)
next
  case (ev_or e x l r t)
  obtain lt lf rt rf where c: "null_constraints_of b l = Some (lt, lf)" "null_constraints_of b r = Some (rt, rf)"
      "on_false = merge_null_constraints lf rf" "on_true = []"
    using null_constraints_stepD [OF wf ev_or(1) ev_or.prems] ev_or.hyps
    by (auto simp: null_constraints_step_def bind_eq_Some_conv)
  have "satisfied v on_false" if "\<not> t"
    using merge_satisfied [of lf v rf] ev_or.IH(1) [OF c(1)] ev_or.IH(2) [OF c(2)] that c(3) by simp
  then show ?case using c(4) by auto
next
  case (ev_eq e x l r y)
  show ?case
    using null_constraints_stepD [OF wf ev_eq(1) ev_eq.prems] ev_eq.hyps
    by (auto simp: null_constraints_step_def null_test_def bind_eq_Some_conv split: option.splits)
next
  case (ev_neq e x l r y)
  show ?case
    using null_constraints_stepD [OF wf ev_neq(1) ev_neq.prems] ev_neq.hyps
    by (auto simp: null_constraints_step_def null_test_def bind_eq_Some_conv split: option.splits)
next
  case (ev_other e x t)
  show ?case
    using null_constraints_stepD [OF wf ev_other(1) ev_other.prems] ev_other.hyps
    by (auto simp: null_constraints_step_def null_test_def bind_eq_Some_conv
        split: expr_kind.splits unary_op.splits binary_op.splits option.splits)
qed

section \<open>Null states of expressions\<close>

text \<open>
  \<open>null_val b v e n\<close>: evaluating \<open>e\<close> can complete with a value that is null iff \<open>n\<close>.
  A unary operator unboxes its operand, so it completes only when that is not null.
\<close>

inductive null_val :: "body \<Rightarrow> bool list \<Rightarrow> nat \<Rightarrow> bool \<Rightarrow> bool" for b :: body and v :: "bool list" where
  nv_null: "body_expr b e = Some x \<Longrightarrow> ex_kind x = ENull \<Longrightarrow> null_val b v e True"
| nv_local: "body_expr b e = Some x \<Longrightarrow> ex_kind x = ELocal l \<Longrightarrow> null_val b v e (v ! l)"
| nv_unary: "body_expr b e = Some x \<Longrightarrow> ex_kind x = EUnary op e' \<Longrightarrow> null_val b v e' False \<Longrightarrow> null_val b v e False"
| nv_plain: "body_expr b e = Some x \<Longrightarrow>
    (case ex_kind x of EBool _ \<Rightarrow> True | EInt _ \<Rightarrow> True | EString _ \<Rightarrow> True | ENew _ _ \<Rightarrow> True
       | EBinary _ _ _ \<Rightarrow> True | _ \<Rightarrow> False) \<Longrightarrow> null_val b v e False"
| nv_any: "body_expr b e = Some x \<Longrightarrow>
    (case ex_kind x of EFieldAccess _ _ \<Rightarrow> True | ECall _ _ _ \<Rightarrow> True | EInvalid _ \<Rightarrow> True | _ \<Rightarrow> False) \<Longrightarrow>
    null_val b v e n"

lemma expr_null_state_descends:
  assumes "body_wf b"
  shows "descends (length (b_exprs b)) (expr_null_state_step b state)"
proof -
  have "expr_null_state_step b state g e = expr_null_state_step b state h e" if "\<forall>c < e. g c = h c" for g h e
  proof (cases "body_expr b e")
    case None
    then show ?thesis by (simp add: expr_null_state_step_def)
  next
    case (Some x)
    have "g c = h c" if "c \<in> set (expr_children (ex_kind x))" for c
      using body_wf_expr(2) [OF assms Some that] \<open>\<forall>c < e. g c = h c\<close> by simp
    with Some show ?thesis by (cases "ex_kind x") (simp_all add: expr_null_state_step_def)
  qed
  then show ?thesis by (simp add: descends_def)
qed

lemma expr_null_state_unfold:
  assumes "body_wf b" "body_expr b e = Some x"
  shows "expr_null_state b state e = expr_null_state_step b state (expr_null_state b state) e"
  using arena_rec_unfold [OF expr_null_state_descends [OF assms(1)] body_wf_expr(1) [OF assms]]
  by (simp add: expr_null_state_def [abs_def])

lemma expr_null_state_total:
  assumes wf: "body_wf b" and "e < length (b_exprs b)"
  shows "\<exists>s. expr_null_state b state e = Some s"
  using assms(2)
proof (induction e rule: less_induct)
  case (less e)
  from body_expr_Some [OF less.prems] obtain x where x: "body_expr b e = Some x" by blast
  have "\<exists>s. expr_null_state b state c = Some s" if "c \<in> set (expr_children (ex_kind x))" for c
    using less.IH [of c] body_wf_expr(2) [OF wf x that] less.prems by simp
  then show ?case
    by (cases "ex_kind x") (simp_all add: expr_null_state_unfold [OF wf x] expr_null_state_step_def x)
qed

lemma expr_null_state_sound:
  assumes wf: "body_wf b" and "null_val b v e n" "expr_null_state b state e = Some s" "describes state v"
    "length v = length (b_locals b)"
  shows "agrees s n"
  using assms(2,3)
proof (induction arbitrary: s rule: null_val.induct)
  case (nv_local e x l)
  then show ?case
    using state_get_agrees [OF assms(4), of l] body_wf_expr(3) [OF wf nv_local(1), of l] assms(5)
    by (simp add: expr_null_state_unfold [OF wf nv_local(1)] expr_null_state_step_def)
next
  case (nv_plain e x)
  then show ?case
    by (cases "ex_kind x") (auto simp: expr_null_state_unfold [OF wf nv_plain(1)] expr_null_state_step_def)
next
  case (nv_any e x n)
  then show ?case
    by (cases "ex_kind x") (auto simp: expr_null_state_unfold [OF wf nv_any(1)] expr_null_state_step_def)
qed (simp_all add: expr_null_state_unfold [OF wf] expr_null_state_step_def)

lemma state_get_mono: "list_all2 ns_le s t \<Longrightarrow> ns_le (state_get s l) (state_get t l)"
  by (auto simp: state_get_def vec_get_def list_all2_conv_all_nth ns_le_def)

lemma expr_null_state_mono:
  assumes wf: "body_wf b" and "e < length (b_exprs b)" "list_all2 ns_le s t"
    "expr_null_state b s e = Some x" "expr_null_state b t e = Some y"
  shows "ns_le x y"
  using assms(2,4,5)
proof (induction e arbitrary: x y rule: less_induct)
  case (less e)
  from body_expr_Some [OF less.prems(1)] obtain z where z: "body_expr b e = Some z" by blast
  show ?case
  proof (cases "ex_kind z")
    case (EUnary op e')
    have "e' < e" using body_wf_expr(2) [OF wf z, of e'] EUnary by simp
    then show ?thesis
      using less.IH [of e' x y] less.prems EUnary z
      by (simp add: expr_null_state_unfold [OF wf z] expr_null_state_step_def)
  qed (use less.prems state_get_mono [OF assms(3)] z in
        \<open>auto simp: expr_null_state_unfold [OF wf z] expr_null_state_step_def ns_le_def\<close>)
qed

section \<open>Checking an expression\<close>

text \<open>\<open>derefs b v e\<close>: evaluating \<open>e\<close> may dereference null.\<close>

inductive derefs :: "body \<Rightarrow> bool list \<Rightarrow> nat \<Rightarrow> bool" for b :: body and v :: "bool list" where
  dr_field: "body_expr b e = Some x \<Longrightarrow> ex_kind x = EFieldAccess r f \<Longrightarrow> null_val b v r True \<Longrightarrow> derefs b v e"
| dr_call: "body_expr b e = Some x \<Longrightarrow> ex_kind x = ECall (Some r) m args \<Longrightarrow> null_val b v r True \<Longrightarrow> derefs b v e"
| dr_child: "body_expr b e = Some x \<Longrightarrow> (\<forall>op p q. ex_kind x \<noteq> EBinary op p q) \<Longrightarrow>
    c \<in> set (expr_children (ex_kind x)) \<Longrightarrow> derefs b v c \<Longrightarrow> derefs b v e"
| dr_lhs: "body_expr b e = Some x \<Longrightarrow> ex_kind x = EBinary op p q \<Longrightarrow> derefs b v p \<Longrightarrow> derefs b v e"
| dr_rhs: "body_expr b e = Some x \<Longrightarrow> ex_kind x = EBinary op p q \<Longrightarrow>
    (op = AndAnd \<longrightarrow> may_eval b v p True) \<Longrightarrow> (op = OrOr \<longrightarrow> may_eval b v p False) \<Longrightarrow>
    derefs b v q \<Longrightarrow> derefs b v e"

lemma check_all_null_cong:
  assumes "\<And>c. c \<in> set es \<Longrightarrow> f c = g c"
  shows "check_all_null f es = check_all_null g es"
  unfolding check_all_null_def by (intro ext check_all_cong refl) (simp add: assms)

lemma check_short_circuit_cong:
  assumes "g lhs = h lhs" "g rhs = h rhs"
  shows "check_short_circuit b g needed lhs rhs state = check_short_circuit b h needed lhs rhs state"
  unfolding check_short_circuit_def assms ..

lemma check_expr_null_deref_descends:
  assumes "body_wf b"
  shows "descends (length (b_exprs b)) (check_expr_null_deref_step b)"
proof -
  have "check_expr_null_deref_step b g e = check_expr_null_deref_step b h e" if gh: "\<forall>c < e. g c = h c" for g h e
  proof (cases "body_expr b e")
    case None
    then show ?thesis by (auto simp: check_expr_null_deref_step_def)
  next
    case (Some x)
    have kid: "g c = h c" if "c \<in> set (expr_children (ex_kind x))" for c
      using body_wf_expr(2) [OF assms Some that] gh by simp
    have all: "check_all_null g es = check_all_null h es" if "set es \<subseteq> set (expr_children (ex_kind x))" for es
      using check_all_null_cong [of es g h] kid that by blast
    show ?thesis
    proof (cases "ex_kind x")
      case (EBinary op lhs rhs)
      then have "g lhs = h lhs" "g rhs = h rhs" using kid by simp_all
      then show ?thesis using EBinary Some
        by (intro ext; cases op) (simp_all add: check_expr_null_deref_step_def check_short_circuit_cong [of g lhs h rhs])
    next
      case (ECall receiver m args)
      then have "check_all_null g args = check_all_null h args" "\<And>r. receiver = Some r \<Longrightarrow> g r = h r"
        using all [of args] kid by (cases receiver; force)+
      then show ?thesis using ECall Some
        by (intro ext; cases receiver) (simp_all add: check_expr_null_deref_step_def)
    next
      case (ENew c args)
      then show ?thesis using all [of args] Some by (intro ext) (simp add: check_expr_null_deref_step_def)
    next
      case (EInvalid args)
      then show ?thesis using all [of args] Some by (intro ext) (simp add: check_expr_null_deref_step_def)
    qed (use kid Some in \<open>intro ext, simp add: check_expr_null_deref_step_def\<close>)+
  qed
  then show ?thesis by (simp add: descends_def)
qed

lemma check_expr_null_deref_unfold:
  assumes "body_wf b" "body_expr b e = Some x"
  shows "check_expr_null_deref b e state = check_expr_null_deref_step b (check_expr_null_deref b) e state"
  using arena_rec_unfold [OF check_expr_null_deref_descends [OF assms(1)] body_wf_expr(1) [OF assms]]
  by (simp add: check_expr_null_deref_def [abs_def])

abbreviation null_diag :: "diagnostic \<Rightarrow> bool" where
  "null_diag d \<equiv> dg_code d = ''FLOW_NULL_DEREF''"

text \<open>What a check of an expression establishes.\<close>

definition null_checked :: "body \<Rightarrow> null_check \<Rightarrow> nat \<Rightarrow> null_state list \<Rightarrow> bool" where
  "null_checked b rec e state \<longleftrightarrow> (\<exists>s ds. rec e state = Some (s, ds) \<and> expr_null_state b state e = Some s \<and>
     (\<forall>d \<in> set ds. null_diag d) \<and>
     (ds = [] \<longrightarrow> (\<forall>v. describes state v \<longrightarrow> length v = length (b_locals b) \<longrightarrow> \<not> derefs b v e)))"

lemma check_all_null_ok:
  assumes "\<And>c. c \<in> set es \<Longrightarrow> null_checked b rec c state"
  shows "\<exists>ds. check_all_null rec es state = Some ds \<and> (\<forall>d \<in> set ds. null_diag d) \<and>
    (ds = [] \<longrightarrow> (\<forall>v. describes state v \<longrightarrow> length v = length (b_locals b) \<longrightarrow> (\<forall>c \<in> set es. \<not> derefs b v c)))"
  using assms
proof (induction es)
  case (Cons c es)
  obtain s d where d: "rec c state = Some (s, d)" "\<forall>d \<in> set d. null_diag d"
    "d = [] \<longrightarrow> (\<forall>v. describes state v \<longrightarrow> length v = length (b_locals b) \<longrightarrow> \<not> derefs b v c)"
    using Cons.prems [of c] unfolding null_checked_def by auto
  obtain ds where ds: "check_all_null rec es state = Some ds" "\<forall>d \<in> set ds. null_diag d"
    "ds = [] \<longrightarrow> (\<forall>v. describes state v \<longrightarrow> length v = length (b_locals b) \<longrightarrow> (\<forall>c \<in> set es. \<not> derefs b v c))"
    using Cons by auto
  have "check_all_null rec (c # es) state = Some (d @ ds)"
    using d(1) ds(1) by (simp add: check_all_null_def check_all_Cons)
  then show ?case using d(2,3) ds(2,3) by auto
qed (simp add: check_all_null_def check_all_Nil)

lemma derefs_cases:
  assumes "derefs b v e" "body_expr b e = Some x"
  obtains r f where "ex_kind x = EFieldAccess r f" "null_val b v r True"
  | r m args where "ex_kind x = ECall (Some r) m args" "null_val b v r True"
  | c where "\<forall>op p q. ex_kind x \<noteq> EBinary op p q" "c \<in> set (expr_children (ex_kind x))" "derefs b v c"
  | op p q where "ex_kind x = EBinary op p q" "derefs b v p"
  | op p q where "ex_kind x = EBinary op p q" "op = AndAnd \<longrightarrow> may_eval b v p True"
      "op = OrOr \<longrightarrow> may_eval b v p False" "derefs b v q"
  using assms by (cases rule: derefs.cases) auto

lemma check_short_circuit_ok:
  assumes wf: "body_wf b" and x: "body_expr b e = Some x" "ex_kind x = EBinary op p q"
    and op: "op = (if needed then AndAnd else OrOr)"
    and kids: "\<And>st. null_checked b rec p st" "\<And>st. null_checked b rec q st"
  shows "\<exists>ds. check_short_circuit b rec needed p q state = Some (NsNonNull, ds) \<and> (\<forall>d \<in> set ds. null_diag d) \<and>
    (ds = [] \<longrightarrow> (\<forall>v. describes state v \<longrightarrow> length v = length (b_locals b) \<longrightarrow> \<not> derefs b v e))"
proof -
  have pe: "p < length (b_exprs b)" using body_wf_expr(1) [OF wf x(1)] body_wf_expr(2) [OF wf x(1), of p] x(2) by simp
  obtain s ds where ds: "rec p state = Some (s, ds)" "\<forall>d \<in> set ds. null_diag d"
    "ds = [] \<longrightarrow> (\<forall>v. describes state v \<longrightarrow> length v = length (b_locals b) \<longrightarrow> \<not> derefs b v p)"
    using kids(1) [of state] unfolding null_checked_def by auto
  obtain c where c: "eval_const_bool b p = Some c" using eval_const_bool_total [OF wf pe] by blast
  obtain t f where tf: "null_constraints_of b p = Some (t, f)" "fst ` set t \<subseteq> {..<length (b_locals b)}"
      "fst ` set f \<subseteq> {..<length (b_locals b)}"
    using null_constraints_total [OF wf pe] by blast
  let ?cs = "if needed then t else f"
  obtain s' ds' where ds': "rec q (narrow state ?cs) = Some (s', ds')" "\<forall>d \<in> set ds'. null_diag d"
    "ds' = [] \<longrightarrow> (\<forall>v. describes (narrow state ?cs) v \<longrightarrow> length v = length (b_locals b) \<longrightarrow> \<not> derefs b v q)"
    using kids(2) [of "narrow state ?cs"] unfolding null_checked_def by auto
  have need: "\<not> derefs b v e"
    if "\<not> derefs b v p" "may_eval b v p needed \<Longrightarrow> \<not> derefs b v q" for v
    using that op x(2) by (auto elim!: derefs_cases [OF _ x(1)] split: if_splits)
  consider (const) "c = Some (\<not> needed)" | (contra) "c \<noteq> Some (\<not> needed)" "contradicts state ?cs"
    | (eval) "c \<noteq> Some (\<not> needed)" "\<not> contradicts state ?cs" by blast
  then show ?thesis
  proof cases
    case const
    then have "\<not> may_eval b v p needed" for v
      using eval_const_bool_sound [OF wf may_eval_may_be, of v p needed "\<not> needed"] c by auto
    then show ?thesis
      using const ds c need by (auto simp: check_short_circuit_def)
  next
    case contra
    have "\<not> may_eval b v p needed" if "describes state v" "length v = length (b_locals b)" for v
    proof
      assume "may_eval b v p needed"
      from null_constraints_sound [OF wf this tf(1)] have "satisfied v ?cs" .
      moreover have "\<forall>(l, s) \<in> set ?cs. l < length v" using tf(2,3) that(2) by auto
      ultimately show False using contradicts_unsatisfied [OF that(1) contra(2)] by blast
    qed
    then show ?thesis
      using contra ds c tf(1) need by (auto simp: check_short_circuit_def Let_def)
  next
    case eval
    have "\<not> derefs b v e" if "ds @ ds' = []" "describes state v" "length v = length (b_locals b)" for v
    proof (rule need)
      show "\<not> derefs b v p" using ds(3) that by simp
      assume "may_eval b v p needed"
      from null_constraints_sound [OF wf this tf(1)] have "satisfied v ?cs" .
      then show "\<not> derefs b v q" using ds'(3) narrow_describes [OF that(2)] that by simp
    qed
    then show ?thesis
      using eval ds(1,2) ds'(1,2) c tf(1) by (auto simp: check_short_circuit_def Let_def)
  qed
qed

lemma null_checkedI:
  assumes "body_wf b" "body_expr b e = Some x"
    "check_expr_null_deref_step b (check_expr_null_deref b) e state = Some (s, ds)"
    "expr_null_state_step b state (expr_null_state b state) e = Some s" "\<forall>d \<in> set ds. null_diag d"
    "\<And>v. ds = [] \<Longrightarrow> describes state v \<Longrightarrow> length v = length (b_locals b) \<Longrightarrow> \<not> derefs b v e"
  shows "null_checked b (check_expr_null_deref b) e state"
  using assms check_expr_null_deref_unfold [OF assms(1,2)] expr_null_state_unfold [OF assms(1,2)]
  by (auto simp: null_checked_def)

lemma null_deref_diag_code [simp]: "null_diag (null_deref_diag sp)"
  by (simp add: null_deref_diag_def)

lemma check_expr_null_deref_ok:
  assumes wf: "body_wf b" and "e < length (b_exprs b)"
  shows "null_checked b (check_expr_null_deref b) e state"
  using assms(2)
proof (induction e arbitrary: state rule: less_induct)
  case (less e state)
  from body_expr_Some [OF less.prems] obtain x where x: "body_expr b e = Some x" by blast
  let ?rec = "check_expr_null_deref b"
  have kid: "null_checked b ?rec c st" if "c \<in> set (expr_children (ex_kind x))" for c st
    using less.IH [of c] body_wf_expr(2) [OF wf x that] less.prems by simp
  note I = null_checkedI [OF wf x] and defs = check_expr_null_deref_step_def expr_null_state_step_def x
  note dc = derefs_cases [OF _ x]
  have all: "\<exists>ds. check_all_null ?rec es state = Some ds \<and> (\<forall>d \<in> set ds. null_diag d) \<and>
      (ds = [] \<longrightarrow> (\<forall>v. describes state v \<longrightarrow> length v = length (b_locals b) \<longrightarrow> (\<forall>c \<in> set es. \<not> derefs b v c)))"
    if "set es \<subseteq> set (expr_children (ex_kind x))" for es
    using check_all_null_ok [of es b ?rec state] kid that by blast
  show ?case
  proof (cases "ex_kind x")
    case (ENew c args)
    obtain ds where "check_all_null ?rec args state = Some ds" "\<forall>d \<in> set ds. null_diag d"
      "ds = [] \<longrightarrow> (\<forall>v. describes state v \<longrightarrow> length v = length (b_locals b) \<longrightarrow> (\<forall>c \<in> set args. \<not> derefs b v c))"
      using all [of args] ENew by auto
    then show ?thesis using ENew by (intro I [of state NsNonNull ds]) (auto simp: defs elim!: dc)
  next
    case (EInvalid args)
    obtain ds where "check_all_null ?rec args state = Some ds" "\<forall>d \<in> set ds. null_diag d"
      "ds = [] \<longrightarrow> (\<forall>v. describes state v \<longrightarrow> length v = length (b_locals b) \<longrightarrow> (\<forall>c \<in> set args. \<not> derefs b v c))"
      using all [of args] EInvalid by auto
    then show ?thesis using EInvalid by (intro I [of state NsUnknown ds]) (auto simp: defs elim!: dc)
  next
    case (EUnary op c)
    obtain s ds where "?rec c state = Some (s, ds)" "expr_null_state b state c = Some s" "\<forall>d \<in> set ds. null_diag d"
      "ds = [] \<longrightarrow> (\<forall>v. describes state v \<longrightarrow> length v = length (b_locals b) \<longrightarrow> \<not> derefs b v c)"
      using kid [of c state] EUnary unfolding null_checked_def by auto
    then show ?thesis using EUnary by (intro I [of state s ds]) (auto simp: defs elim!: dc)
  next
    case (EBinary op p q)
    have kids: "\<And>st. null_checked b ?rec p st" "\<And>st. null_checked b ?rec q st" using kid EBinary by auto
    obtain ds where "check_expr_null_deref_step b ?rec e state = Some (NsNonNull, ds)" "\<forall>d \<in> set ds. null_diag d"
      "ds = [] \<longrightarrow> (\<forall>v. describes state v \<longrightarrow> length v = length (b_locals b) \<longrightarrow> \<not> derefs b v e)"
    proof (cases "op = AndAnd \<or> op = OrOr")
      case True
      then show thesis
        using that check_short_circuit_ok [OF wf x EBinary, of True ?rec state]
          check_short_circuit_ok [OF wf x EBinary, of False ?rec state] kids EBinary
        by (auto simp: check_expr_null_deref_step_def x)
    next
      case False
      obtain s ds where p: "?rec p state = Some (s, ds)" "\<forall>d \<in> set ds. null_diag d"
        "ds = [] \<longrightarrow> (\<forall>v. describes state v \<longrightarrow> length v = length (b_locals b) \<longrightarrow> \<not> derefs b v p)"
        using kids(1) [of state] unfolding null_checked_def by auto
      obtain s' ds' where q: "?rec q state = Some (s', ds')" "\<forall>d \<in> set ds'. null_diag d"
        "ds' = [] \<longrightarrow> (\<forall>v. describes state v \<longrightarrow> length v = length (b_locals b) \<longrightarrow> \<not> derefs b v q)"
        using kids(2) [of state] unfolding null_checked_def by auto
      have "check_expr_null_deref_step b ?rec e state = Some (NsNonNull, ds @ ds')"
        using False p(1) q(1) EBinary by (cases op) (simp_all add: check_expr_null_deref_step_def x)
      moreover have "\<not> derefs b v e" if "ds @ ds' = []" "describes state v" "length v = length (b_locals b)" for v
        using that p(3) q(3) EBinary by (auto elim!: dc)
      moreover have "\<forall>d \<in> set (ds @ ds'). null_diag d" using p(2) q(2) by auto
      ultimately show thesis using that [of "ds @ ds'"] by blast
    qed
    then show ?thesis using EBinary by (intro I [of state NsNonNull ds]) (auto simp: expr_null_state_step_def x)
  next
    case (EFieldAccess c f)
    obtain s ds where c: "?rec c state = Some (s, ds)" "expr_null_state b state c = Some s" "\<forall>d \<in> set ds. null_diag d"
      "ds = [] \<longrightarrow> (\<forall>v. describes state v \<longrightarrow> length v = length (b_locals b) \<longrightarrow> \<not> derefs b v c)"
      using kid [of c state] EFieldAccess unfolding null_checked_def by auto
    have "\<not> null_val b v c True" if "s = NsNonNull" "describes state v" "length v = length (b_locals b)" for v
      using expr_null_state_sound [OF wf _ c(2) that(2,3)] that(1) by fastforce
    then show ?thesis
      using EFieldAccess c
      by (intro I [of state NsUnknown "ds @ (if s \<noteq> NsNonNull then [null_deref_diag (ex_span x)] else [])"])
        (auto simp: defs split: if_splits elim!: dc)
  next
    case (ECall receiver m args)
    obtain ds' where a: "check_all_null ?rec args state = Some ds'" "\<forall>d \<in> set ds'. null_diag d"
      "ds' = [] \<longrightarrow> (\<forall>v. describes state v \<longrightarrow> length v = length (b_locals b) \<longrightarrow> (\<forall>c \<in> set args. \<not> derefs b v c))"
      using all [of args] ECall by (cases receiver) auto
    show ?thesis
    proof (cases receiver)
      case None
      then show ?thesis using ECall a by (intro I [of state NsUnknown ds']) (auto simp: defs elim!: dc)
    next
      case (Some c)
      obtain s ds where c: "?rec c state = Some (s, ds)" "expr_null_state b state c = Some s" "\<forall>d \<in> set ds. null_diag d"
        "ds = [] \<longrightarrow> (\<forall>v. describes state v \<longrightarrow> length v = length (b_locals b) \<longrightarrow> \<not> derefs b v c)"
        using kid [of c state] ECall Some unfolding null_checked_def by auto
      have "\<not> null_val b v c True" if "s = NsNonNull" "describes state v" "length v = length (b_locals b)" for v
        using expr_null_state_sound [OF wf _ c(2) that(2,3)] that(1) by fastforce
      then show ?thesis
        using ECall Some c a
        by (intro I [of state NsUnknown "ds @ ds' @ (if s \<noteq> NsNonNull then [null_deref_diag (ex_span x)] else [])"])
          (auto simp: defs split: if_splits elim!: dc)
    qed
  qed (intro I [of state _ "[]"]; auto simp: defs elim!: dc)+
qed

section \<open>Statements and blocks\<close>

definition null_stmt :: "body \<Rightarrow> bool list \<Rightarrow> nat \<Rightarrow> bool list \<Rightarrow> bool" where
  "null_stmt b v st v' \<longleftrightarrow>
     (case body_stmt b st of
        None \<Rightarrow> v' = v
      | Some x \<Rightarrow>
          (case st_kind x of
             SLet l (Some e) \<Rightarrow> (\<exists>n. null_val b v e n \<and> v' = v[l := n])
           | SLet l None \<Rightarrow> (\<exists>n. v' = v[l := n])
           | SAssign l e \<Rightarrow> (\<exists>n. null_val b v e n \<and> v' = v[l := n])
           | _ \<Rightarrow> v' = v))"

lemma null_stmt_length: "null_stmt b v st v' \<Longrightarrow> length v' = length v"
  by (auto simp: null_stmt_def split: option.splits stmt_kind.splits)

lemma describes_update: "describes state v \<Longrightarrow> agrees s n \<Longrightarrow> describes (state[l := s]) (v[l := n])"
  by (simp add: list_all2_update_cong)

abbreviation never_derefs :: "body \<Rightarrow> null_state list \<Rightarrow> nat \<Rightarrow> bool" where
  "never_derefs b state e \<equiv>
     \<forall>v. describes state v \<longrightarrow> length v = length (b_locals b) \<longrightarrow> \<not> derefs b v e"

definition null_stmt_checked ::
  "body \<Rightarrow> null_state list \<Rightarrow> stmt_kind \<Rightarrow> nat \<Rightarrow> diagnostic list \<Rightarrow> null_state list \<Rightarrow> diagnostic list \<Rightarrow> bool" where
  "null_stmt_checked b state k st diags state' ds \<longleftrightarrow>
     transfer_stmt_nullability b state st = Some state' \<and>
     transfer_stmt_null_deref b (state, diags) st = Some (state', diags @ ds) \<and>
     length state' = length state \<and> (\<forall>d \<in> set ds. null_diag d) \<and>
     (ds = [] \<longrightarrow> (\<forall>e \<in> set (stmt_exprs k). never_derefs b state e)) \<and>
     (\<forall>v v'. describes state v \<longrightarrow> length v = length (b_locals b) \<longrightarrow> null_stmt b v st v' \<longrightarrow> describes state' v')"

lemma transfer_stmt_null_ok:
  assumes wf: "body_wf b" and x: "body_stmt b st = Some x" "simple_kind (st_kind x)"
    and len: "length state = length (b_locals b)"
  shows "\<exists>state' ds. null_stmt_checked b state (st_kind x) st diags state' ds"
proof -
  have tot: "\<exists>s ds. check_expr_null_deref b e state = Some (s, ds) \<and> expr_null_state b state e = Some s \<and>
      (\<forall>d \<in> set ds. null_diag d) \<and> (ds = [] \<longrightarrow> never_derefs b state e)"
    if "e \<in> set (stmt_exprs (st_kind x))" for e
    using check_expr_null_deref_ok [OF wf body_wf_stmt(3) [OF wf x(1) that], of state] by (simp add: null_checked_def)
  have loc: "l < length state" if "l \<in> set (stmt_locals (st_kind x))" for l
    using body_wf_stmt(4) [OF wf x(1) that] len by simp
  note defs = null_stmt_checked_def transfer_stmt_nullability_def transfer_stmt_null_deref_def set_slot_def
    null_stmt_def x(1)
  have assign: ?thesis if k: "st_kind x = SLet l (Some e) \<or> st_kind x = SAssign l e" for l e
  proof -
    have e: "e \<in> set (stmt_exprs (st_kind x))" "l < length state" using k loc by auto
    obtain s ds where s: "check_expr_null_deref b e state = Some (s, ds)" "expr_null_state b state e = Some s"
        "\<forall>d \<in> set ds. null_diag d" "ds = [] \<longrightarrow> never_derefs b state e"
      using tot [OF e(1)] by blast
    have "describes (state[l := s]) (v[l := n])"
      if "describes state v" "length v = length (b_locals b)" "null_val b v e n" for v n
      using describes_update [OF that(1) expr_null_state_sound [OF wf that(3) s(2) that(1,2)]] .
    then have "null_stmt_checked b state (st_kind x) st diags (state[l := s]) ds"
      using k e(2) s by (auto simp: defs)
    then show ?thesis by blast
  qed
  have eval: ?thesis if k: "st_kind x = SExpr e \<or> st_kind x = SReturn (Some e) \<or> st_kind x = SThrow e" for e
  proof -
    obtain s ds where s: "check_expr_null_deref b e state = Some (s, ds)"
        "\<forall>d \<in> set ds. null_diag d" "ds = [] \<longrightarrow> never_derefs b state e"
      using tot [of e] k by auto
    then have "null_stmt_checked b state (st_kind x) st diags state ds" using k by (auto simp: defs)
    then show ?thesis by blast
  qed
  show ?thesis
  proof (cases "st_kind x")
    case (SLet l i)
    show ?thesis
    proof (cases i)
      case None
      have "null_stmt_checked b state (st_kind x) st diags (state[l := NsUnknown]) []"
        using SLet None loc by (auto simp: defs intro: describes_update)
      then show ?thesis by blast
    qed (use assign SLet in blast)
  next
    case (SReturn e)
    show ?thesis
    proof (cases e)
      case None
      have "null_stmt_checked b state (st_kind x) st diags state []" using SReturn None by (auto simp: defs)
      then show ?thesis by blast
    qed (use eval SReturn in blast)
  next
    case SNop
    have "null_stmt_checked b state (st_kind x) st diags state []" using SNop by (auto simp: defs)
    then show ?thesis by blast
  qed (use assign eval x(2) in \<open>auto simp: simple_kind_def\<close>)
qed

lemma transfer_stmt_nullability_mono:
  assumes wf: "body_wf b" and "simple_stmt b st" and len: "length s = length (b_locals b)"
    and le: "list_all2 ns_le s t"
    and "transfer_stmt_nullability b s st = Some s'" "transfer_stmt_nullability b t st = Some t'"
  shows "list_all2 ns_le s' t'"
proof -
  obtain x where x: "body_stmt b st = Some x" "simple_kind (st_kind x)" by (rule simple_stmtE [OF assms(2)])
  have val: "ns_le v w" if "e \<in> set (stmt_exprs (st_kind x))" "expr_null_state b s e = Some v" "expr_null_state b t e = Some w" for e v w
    using expr_null_state_mono [OF wf body_wf_stmt(3) [OF wf x(1) that(1)] le that(2,3)] .
  have upd: "list_all2 ns_le (s[l := v]) (t[l := w])" if "ns_le v w" for l v w
    using le that by (simp add: list_all2_update_cong)
  have un: "ns_le NsUnknown NsUnknown" by (simp add: ns_le_def)
  show ?thesis
  proof (cases "st_kind x")
    case (SLet l i)
    show ?thesis
    proof (cases i)
      case None
      then show ?thesis
        using SLet assms(5,6) x upd [OF un] by (auto simp: transfer_stmt_nullability_def set_slot_def split: if_splits)
    next
      case (Some e)
      then show ?thesis
        using SLet assms(5,6) x upd val [of e]
        by (auto simp: transfer_stmt_nullability_def set_slot_def bind_eq_Some_conv split: if_splits)
    qed
  next
    case (SAssign l e)
    then show ?thesis
      using assms(5,6) x upd val [of e]
      by (auto simp: transfer_stmt_nullability_def set_slot_def bind_eq_Some_conv split: if_splits)
  qed (use assms(5,6) x le in \<open>auto simp: transfer_stmt_nullability_def simple_kind_def\<close>)
qed

lemma transfer_stmts_null_ok:
  assumes wf: "body_wf b" and "\<forall>st \<in> set sts. simple_stmt b st" and "length s = length (b_locals b)"
  shows "\<exists>s' ds. fold_opt (transfer_stmt_nullability b) s sts = Some s' \<and>
    fold_opt (transfer_stmt_null_deref b) (s, diags) sts = Some (s', diags @ ds) \<and>
    length s' = length (b_locals b) \<and> (\<forall>d \<in> set ds. null_diag d) \<and>
    (ds = [] \<longrightarrow> (\<forall>i < length sts. \<forall>x. body_stmt b (sts ! i) = Some x \<longrightarrow>
       (\<exists>si. fold_opt (transfer_stmt_nullability b) s (take i sts) = Some si \<and>
          (\<forall>e \<in> set (stmt_exprs (st_kind x)). never_derefs b si e))))"
  using assms(2,3)
proof (induction sts arbitrary: s diags)
  case (Cons st sts)
  obtain x where x: "body_stmt b st = Some x" "simple_kind (st_kind x)"
    using Cons.prems(1) by (auto elim: simple_stmtE)
  obtain s1 ds where s1: "null_stmt_checked b s (st_kind x) st diags s1 ds"
    using transfer_stmt_null_ok [OF wf x Cons.prems(2)] by blast
  then have len: "length s1 = length (b_locals b)" using Cons.prems(2) by (simp add: null_stmt_checked_def)
  have sts: "\<forall>st \<in> set sts. simple_stmt b st" using Cons.prems(1) by simp
  obtain s' ds' where IH: "fold_opt (transfer_stmt_nullability b) s1 sts = Some s'"
      "fold_opt (transfer_stmt_null_deref b) (s1, diags @ ds) sts = Some (s', (diags @ ds) @ ds')"
      "length s' = length (b_locals b)" "\<forall>d \<in> set ds'. null_diag d"
      "ds' = [] \<longrightarrow> (\<forall>i < length sts. \<forall>x. body_stmt b (sts ! i) = Some x \<longrightarrow>
         (\<exists>si. fold_opt (transfer_stmt_nullability b) s1 (take i sts) = Some si \<and>
            (\<forall>e \<in> set (stmt_exprs (st_kind x)). never_derefs b si e)))"
    using Cons.IH [OF sts len, of "diags @ ds"] by blast
  have step: "transfer_stmt_nullability b s st = Some s1" "transfer_stmt_null_deref b (s, diags) st = Some (s1, diags @ ds)"
    using s1 by (simp_all add: null_stmt_checked_def)
  have clean: "\<exists>si. fold_opt (transfer_stmt_nullability b) s (take i (st # sts)) = Some si \<and>
      (\<forall>e \<in> set (stmt_exprs (st_kind y)). never_derefs b si e)"
    if "ds @ ds' = []" "i < length (st # sts)" "body_stmt b ((st # sts) ! i) = Some y" for i y
  proof (cases i)
    case 0
    then show ?thesis using that s1 x by (simp add: null_stmt_checked_def)
  next
    case (Suc j)
    then show ?thesis using that IH(5) step by simp
  qed
  have "fold_opt (transfer_stmt_nullability b) s (st # sts) = Some s'"
    "fold_opt (transfer_stmt_null_deref b) (s, diags) (st # sts) = Some (s', diags @ (ds @ ds'))"
    using step IH(1,2) by simp_all
  moreover have "\<forall>d \<in> set (ds @ ds'). null_diag d" using s1 IH(4) by (auto simp: null_stmt_checked_def)
  ultimately show ?case using IH(3) clean by blast
qed simp

lemma transfer_stmts_null_mono:
  assumes wf: "body_wf b" and "\<forall>st \<in> set sts. simple_stmt b st" "length s = length (b_locals b)"
    "list_all2 ns_le s t" "fold_opt (transfer_stmt_nullability b) s sts = Some s'"
    "fold_opt (transfer_stmt_nullability b) t sts = Some t'"
  shows "list_all2 ns_le s' t'"
  using assms(2-)
proof (induction sts arbitrary: s t)
  case (Cons st sts)
  obtain s1 t1 where st: "transfer_stmt_nullability b s st = Some s1" "transfer_stmt_nullability b t st = Some t1"
    "fold_opt (transfer_stmt_nullability b) s1 sts = Some s'" "fold_opt (transfer_stmt_nullability b) t1 sts = Some t'"
    using Cons.prems by (auto simp: bind_eq_Some_conv)
  obtain x where x: "body_stmt b st = Some x" "simple_kind (st_kind x)"
    using Cons.prems(1) by (auto elim: simple_stmtE)
  have "length s1 = length (b_locals b)"
    using transfer_stmt_null_ok [OF wf x Cons.prems(2)] st(1) Cons.prems(2) by (auto simp: null_stmt_checked_def)
  moreover have "list_all2 ns_le s1 t1"
    using transfer_stmt_nullability_mono [OF wf _ Cons.prems(2,3) st(1,2)] Cons.prems(1) by simp
  ultimately show ?case using Cons.IH [OF _ _ _ st(3,4)] Cons.prems(1) by simp
qed simp

section \<open>Edges and joins\<close>

lemma edge_narrow_ok:
  assumes ok: "flow_ok b g r" and p: "p < length (cfg_blocks g)"
  shows "\<exists>s. edge_narrow_null b g p q out = Some s \<and> length s = length out"
proof -
  have wf: "body_wf b" and "block_ok b (length (cfg_blocks g)) (blk_at g p)" using flow_okD(1,8) [OF ok] p by auto
  then have "\<forall>e \<in> set (term_exprs (blk_term (blk_at g p))). \<exists>t f. null_constraints_of b e = Some (t, f)"
    using null_constraints_total [OF wf] by (fastforce simp: block_ok_def term_ok_def)
  then show ?thesis
    using p by (cases "blk_term (blk_at g p)") (auto simp: edge_narrow_null_def vec_get_def)
qed

lemma edge_narrow_mono:
  assumes "list_all2 ns_le s t" "edge_narrow_null b g p q s = Some s'" "edge_narrow_null b g p q t = Some t'"
  shows "list_all2 ns_le s' t'"
proof -
  obtain blk where blk: "vec_get (cfg_blocks g) p = Some blk"
    using assms(2) by (cases "vec_get (cfg_blocks g) p") (auto simp: edge_narrow_null_def)
  show ?thesis
    using assms blk narrow_mono [OF assms(1)]
    by (cases "blk_term blk") (auto simp: edge_narrow_null_def split: if_splits)
qed

lemma zip_join_upper:
  assumes "length s = length t"
  shows "list_all2 ns_le s (zip_slots ns_join s t)" "list_all2 ns_le t (zip_slots ns_join s t)"
  using assms ns_join_upper by (auto simp: list_all2_conv_all_nth nth_zip_slots)

lemma ns_le_refl: "ns_le s s"
  by (simp add: ns_le_def)

lemma ns_le_trans: "ns_le s t \<Longrightarrow> ns_le t u \<Longrightarrow> ns_le s u"
  by (auto simp: ns_le_def)

lemma ns_le_list_trans: "list_all2 ns_le s t \<Longrightarrow> list_all2 ns_le t u \<Longrightarrow> list_all2 ns_le s u"
  using ns_le_trans by (auto simp: list_all2_conv_all_nth)

lemma foldl_join_upper:
  assumes "\<forall>s \<in> set ss. length s = length s0" "s \<in> set (s0 # ss)"
  shows "list_all2 ns_le s (foldl (zip_slots ns_join) s0 ss)"
  using assms
proof (induction ss arbitrary: s0 s)
  case Nil
  then show ?case by (simp add: list_all2_same ns_le_refl)
next
  case (Cons t ss)
  let ?j = "zip_slots ns_join s0 t"
  have "list_all2 ns_le ?j (foldl (zip_slots ns_join) ?j ss)" using Cons.IH [of ?j ?j] Cons.prems by simp
  moreover have "list_all2 ns_le s ?j" if "s = s0 \<or> s = t"
    using that zip_join_upper [of s0 t] Cons.prems by auto
  ultimately have "list_all2 ns_le s (foldl (zip_slots ns_join) ?j ss)" if "s = s0 \<or> s = t"
    using that ns_le_list_trans by blast
  moreover have "list_all2 ns_le s (foldl (zip_slots ns_join) ?j ss)" if "s \<in> set ss"
    using Cons.IH [of ?j s] Cons.prems(1) that by simp
  ultimately show ?case using Cons.prems(2) by auto
qed

lemma join_upper:
  assumes "\<forall>s \<in> set inputs. length s = n" "s \<in> set inputs"
  shows "list_all2 ns_le s (join_nullability n inputs)"
  using assms foldl_join_upper by (cases inputs) (auto simp: join_nullability_def)

lemma join_length: "\<forall>s \<in> set inputs. length s = n \<Longrightarrow> length (join_nullability n inputs) = n"
  by (cases inputs) (simp_all add: join_nullability_def)

lemma zip_join_mono:
  assumes "list_all2 ns_le s s'" "list_all2 ns_le t t'" "length s = length t"
  shows "list_all2 ns_le (zip_slots ns_join s t) (zip_slots ns_join s' t')"
  using assms ns_join_mono by (auto simp: list_all2_conv_all_nth nth_zip_slots)

lemma foldl_join_mono:
  assumes "list_all2 (list_all2 ns_le) ss ts" "list_all2 ns_le s t" "\<forall>x \<in> set ss. length x = length s"
  shows "list_all2 ns_le (foldl (zip_slots ns_join) s ss) (foldl (zip_slots ns_join) t ts)"
  using assms
proof (induction ss ts arbitrary: s t rule: list_all2_induct)
  case (Cons x xs y ys)
  have "list_all2 ns_le (zip_slots ns_join s x) (zip_slots ns_join t y)"
    using zip_join_mono [OF Cons.prems(1) Cons.hyps(1)] Cons.prems(2) by simp
  then show ?case using Cons.IH Cons.prems(2) by simp
qed simp

lemma join_mono:
  assumes "list_all2 (list_all2 ns_le) ss ts" "\<forall>s \<in> set ss. length s = n"
  shows "list_all2 ns_le (join_nullability n ss) (join_nullability n ts)"
  using assms by (cases ss; cases ts) (auto simp: join_nullability_def list_all2_same ns_le_refl intro!: foldl_join_mono)

section \<open>The loop on null states\<close>

abbreviation null_ok :: "body \<Rightarrow> null_state list \<Rightarrow> bool" where
  "null_ok b s \<equiv> length s = length (b_locals b)"

fun ns_height :: "null_state \<Rightarrow> nat" where
  "ns_height NsUnknown = 1"
| "ns_height _ = 0"

abbreviation narrowed :: "body \<Rightarrow> control_flow_graph \<Rightarrow> nat \<Rightarrow> null_state list list \<Rightarrow> nat \<Rightarrow> null_state list" where
  "narrowed b g bb outs p \<equiv> the (edge_narrow_null b g p bb (outs ! p))"

lemma null_new_in_eq:
  assumes ok: "flow_ok b g r" and bb: "bb < length (cfg_blocks g)"
    and outs: "length outs = length (cfg_blocks g)" "\<forall>s \<in> set outs. null_ok b s" and ne: "bb \<noteq> cfg_entry g"
  shows "null_new_in b g r bb outs =
      Some (join_nullability (length (b_locals b)) (map (narrowed b g bb outs) (reachable_preds g r bb)))"
    "\<forall>s \<in> set (map (narrowed b g bb outs) (reachable_preds g r bb)). length s = length (b_locals b)"
proof -
  have p: "p < length r" "p < length outs" "p < length (cfg_blocks g)" if "p \<in> set (cfg_preds g ! bb)" for p
    using that flow_ok_preds [OF ok bb] flow_ok_edge(1) [OF ok] flow_okD(5) [OF ok] outs by auto
  have nar: "edge_narrow_null b g p bb (outs ! p) = Some (narrowed b g bb outs p)"
    "length (narrowed b g bb outs p) = length (b_locals b)" if "p \<in> set (cfg_preds g ! bb)" for p
    using edge_narrow_ok [OF ok p(3) [OF that], of bb "outs ! p"] p(2) [OF that] outs(2) by auto
  have "collect_inputs (\<lambda>pred. Option.bind (vec_get outs pred) (\<lambda>out. edge_narrow_null b g pred bb out)) r
      (cfg_preds g ! bb) = Some (map (narrowed b g bb outs) (reachable_preds g r bb))"
    unfolding reachable_preds_def
    by (rule collect_inputs_eq) (use p nar in \<open>auto simp: vec_get_def\<close>)
  then show "null_new_in b g r bb outs =
      Some (join_nullability (length (b_locals b)) (map (narrowed b g bb outs) (reachable_preds g r bb)))"
    using ne bb flow_okD(6) [OF ok] by (simp add: null_new_in_def cfg_predecessors_def vec_get_def)
  show "\<forall>s \<in> set (map (narrowed b g bb outs) (reachable_preds g r bb)). length s = length (b_locals b)"
    using nar(2) by (auto simp: reachable_preds_def)
qed

lemma null_new_in_ok:
  assumes ok: "flow_ok b g r" and bb: "bb < length (cfg_blocks g)"
    and outs: "length outs = length (cfg_blocks g)" "\<forall>s \<in> set outs. null_ok b s"
  shows "\<exists>s. null_new_in b g r bb outs = Some s \<and> null_ok b s"
proof (cases "bb = cfg_entry g")
  case True
  then show ?thesis by (simp add: null_new_in_def)
next
  case False
  then show ?thesis using null_new_in_eq [OF ok bb outs False] join_length by simp
qed

lemma null_new_in_mono:
  assumes ok: "flow_ok b g r" and bb: "bb < length (cfg_blocks g)"
    and o: "length outs = length (cfg_blocks g)" "\<forall>s \<in> set outs. null_ok b s"
    and o': "length outs' = length (cfg_blocks g)" "\<forall>s \<in> set outs'. null_ok b s"
    and le: "\<And>p. cfg_edge g p bb \<Longrightarrow> r ! p \<Longrightarrow> list_all2 ns_le (outs ! p) (outs' ! p)"
    and s: "null_new_in b g r bb outs = Some s" "null_new_in b g r bb outs' = Some s'"
  shows "list_all2 ns_le s s'"
proof (cases "bb = cfg_entry g")
  case True
  then show ?thesis using s by (simp add: null_new_in_def list_all2_same ns_le_refl)
next
  case False
  have "list_all2 ns_le (narrowed b g bb outs p) (narrowed b g bb outs' p)" if "p \<in> set (reachable_preds g r bb)" for p
  proof -
    have p: "cfg_edge g p bb" "r ! p" using set_reachable_preds [OF ok bb] that by auto
    note pn = flow_ok_edge(1) [OF ok p(1)]
    show ?thesis
      using edge_narrow_mono [OF le [OF p]] edge_narrow_ok [OF ok pn] by (metis option.sel)
  qed
  then have "list_all2 (list_all2 ns_le) (map (narrowed b g bb outs) (reachable_preds g r bb))
      (map (narrowed b g bb outs') (reachable_preds g r bb))"
    by (simp add: list_all2_conv_all_nth)
  from join_mono [OF this null_new_in_eq(2) [OF ok bb o False]] show ?thesis
    using s null_new_in_eq(1) [OF ok bb o False] null_new_in_eq(1) [OF ok bb o' False] by simp
qed

lemma transfer_nullability_ok:
  assumes ok: "flow_ok b g r" and bb: "bb < length (cfg_blocks g)" and "null_ok b s"
  shows "\<exists>s'. transfer_nullability b g bb s = Some s' \<and> null_ok b s'"
  using transfer_stmts_null_ok [OF flow_okD(1) [OF ok] _ assms(3),
      where sts = "blk_stmts (blk_at g bb)" and diags = "[]"]
    flow_okD(8) [OF ok bb] bb by (auto simp: transfer_nullability_def vec_get_def block_ok_def)

interpretation na: dataflow null_ok "list_all2 ns_le" "\<lambda>s. sum_list (map ns_height s)"
  "\<lambda>b. replicate (length (b_locals b)) NsUnknown" null_new_in transfer_nullability
proof unfold_locales
  fix s t u :: "null_state list"
  show "list_all2 ns_le s s" by (simp add: list_all2_same ns_le_refl)
  show "list_all2 ns_le s t \<Longrightarrow> list_all2 ns_le t u \<Longrightarrow> list_all2 ns_le s u" by (rule ns_le_list_trans)
  show "list_all2 ns_le s t \<Longrightarrow> list_all2 ns_le t s \<Longrightarrow> s = t"
    unfolding list_all2_conv_all_nth ns_le_def by (intro nth_equalityI) metis+
  have "ns_height x < ns_height y" if "ns_le x y" "x \<noteq> y" for x y
    using that by (cases x) (auto simp: ns_le_def)
  then show "list_all2 ns_le s t \<Longrightarrow> s \<noteq> t \<Longrightarrow> sum_list (map ns_height s) < sum_list (map ns_height t)"
    using list_all2_height(2) [where R = ns_le] by blast
next
  fix b and s :: "null_state list"
  show "null_ok b (replicate (length (b_locals b)) NsUnknown)" by simp
  show "null_ok b s \<Longrightarrow> list_all2 ns_le s (replicate (length (b_locals b)) NsUnknown)"
    by (simp add: list_all2_conv_all_nth ns_le_def)
next
  fix b g r bb outs
  assume "flow_ok b g r" "bb < length (cfg_blocks g)" "length outs = length (cfg_blocks g)"
    "\<forall>s \<in> set outs. null_ok b s"
  then show "\<exists>s. null_new_in b g r bb outs = Some s \<and> null_ok b s" by (rule null_new_in_ok)
next
  fix b g r bb outs outs' s s'
  assume "flow_ok b g r" "bb < length (cfg_blocks g)"
    "length outs = length (cfg_blocks g)" "length outs' = length (cfg_blocks g)"
    "\<forall>s \<in> set outs. null_ok b s" "\<forall>s \<in> set outs'. null_ok b s"
    "\<And>p. cfg_edge g p bb \<Longrightarrow> r ! p \<Longrightarrow> list_all2 ns_le (outs ! p) (outs' ! p)"
    "null_new_in b g r bb outs = Some s" "null_new_in b g r bb outs' = Some s'"
  then show "list_all2 ns_le s s'" using null_new_in_mono by blast
next
  fix b g r bb s
  assume "flow_ok b g r" "bb < length (cfg_blocks g)" "null_ok b s"
  then show "\<exists>s'. transfer_nullability b g bb s = Some s' \<and> null_ok b s'" by (rule transfer_nullability_ok)
next
  fix b g r bb s t s' t'
  assume a: "flow_ok b g r" "bb < length (cfg_blocks g)" "null_ok b s" "null_ok b t"
    "list_all2 ns_le s t" "transfer_nullability b g bb s = Some s'" "transfer_nullability b g bb t = Some t'"
  have "\<forall>st \<in> set (blk_stmts (blk_at g bb)). simple_stmt b st"
    using flow_okD(8) [OF a(1,2)] by (simp add: block_ok_def)
  from transfer_stmts_null_mono [OF flow_okD(1) [OF a(1)] this a(3,5)] show "list_all2 ns_le s' t'"
    using a(2,6,7) by (simp add: transfer_nullability_def vec_get_def)
qed

section \<open>Runs\<close>

text \<open>
  \<open>null_run b g bb i v\<close>: control can be in block \<open>bb\<close> before its \<open>i\<close>-th statement with the
  locals null as \<open>v\<close> says. Parameters and fresh locals hold anything; a branch is taken
  only when its condition can evaluate that way.
\<close>

definition edge_taken :: "body \<Rightarrow> control_flow_graph \<Rightarrow> nat \<Rightarrow> nat \<Rightarrow> bool list \<Rightarrow> bool" where
  "edge_taken b g bb q v \<longleftrightarrow> cfg_edge g bb q \<and>
     (case blk_term (blk_at g bb) of
        TIf c t e _ \<Rightarrow> q = t \<and> may_eval b v c True \<or> q = e \<and> may_eval b v c False
      | _ \<Rightarrow> True)"

inductive null_run :: "body \<Rightarrow> control_flow_graph \<Rightarrow> nat \<Rightarrow> nat \<Rightarrow> bool list \<Rightarrow> bool"
  for b :: body and g :: control_flow_graph where
  nrun_start: "length v = length (b_locals b) \<Longrightarrow> null_run b g (cfg_entry g) 0 v"
| nrun_stmt: "null_run b g bb i v \<Longrightarrow> i < length (blk_stmts (blk_at g bb)) \<Longrightarrow>
    null_stmt b v (blk_stmts (blk_at g bb) ! i) v' \<Longrightarrow> null_run b g bb (Suc i) v'"
| nrun_jump: "null_run b g bb (length (blk_stmts (blk_at g bb))) v \<Longrightarrow> edge_taken b g bb q v \<Longrightarrow> null_run b g q 0 v"

abbreviation null_after :: "body \<Rightarrow> control_flow_graph \<Rightarrow> null_state list \<Rightarrow> nat \<Rightarrow> nat \<Rightarrow> null_state list option" where
  "null_after b g s bb i \<equiv> fold_opt (transfer_stmt_nullability b) s (take i (blk_stmts (blk_at g bb)))"

lemma edge_narrow_sound:
  assumes ok: "flow_ok b g r" and t: "edge_taken b g p q v" and d: "describes out v"
    and e: "edge_narrow_null b g p q out = Some s"
  shows "describes s v"
proof -
  have p: "p < length (cfg_blocks g)" using t flow_ok_edge(1) [OF ok] by (auto simp: edge_taken_def)
  have wf: "body_wf b" and dif: "branches_differ (blk_term (blk_at g p))"
    using flow_okD(1,8) [OF ok] p by (auto simp: block_ok_def term_ok_def)
  show ?thesis
  proof (cases "blk_term (blk_at g p)")
    case (TIf c th el f)
    show ?thesis
    proof (cases "q = th")
      case True
      then obtain on_t on_f where n: "null_constraints_of b c = Some (on_t, on_f)" "s = narrow out on_t"
        using e p TIf by (auto simp: edge_narrow_null_def vec_get_def)
      have "may_eval b v c True" using t TIf True dif by (auto simp: edge_taken_def)
      then show ?thesis using null_constraints_sound [OF wf _ n(1)] narrow_describes [OF d] n(2) by fastforce
    next
      case False
      then obtain on_t on_f where n: "null_constraints_of b c = Some (on_t, on_f)" "s = narrow out on_f"
        using e p TIf t by (auto simp: edge_narrow_null_def vec_get_def edge_taken_def)
      have "may_eval b v c False" using t TIf False by (auto simp: edge_taken_def)
      then show ?thesis using null_constraints_sound [OF wf _ n(1)] narrow_describes [OF d] n(2) by fastforce
    qed
  qed (use e p d in \<open>auto simp: edge_narrow_null_def vec_get_def\<close>)
qed

lemma describes_mono: "list_all2 ns_le s t \<Longrightarrow> describes s v \<Longrightarrow> describes t v"
  using agrees_le by (auto simp: list_all2_conv_all_nth)

lemma null_solutionD:
  assumes sol: "na.solution b g r ins outs" and bb: "bb < length (cfg_blocks g)" "r ! bb"
  shows "null_new_in b g r bb outs = Some (ins ! bb)" "length (ins ! bb) = length (b_locals b)"
    "transfer_nullability b g bb (ins ! bb) = Some (outs ! bb)"
    "length outs = length (cfg_blocks g)" "\<forall>s \<in> set outs. null_ok b s" "length ins = length (cfg_blocks g)"
  using sol bb by (auto simp: na.solution_def na.states_ok_def)

text \<open>Soundness: every run is described by the states at its position.\<close>

lemma null_run_sound:
  assumes ok: "flow_ok b g r" and sol: "na.solution b g r ins outs" and "null_run b g bb i v"
  shows "bb < length (cfg_blocks g) \<and> r ! bb \<and> i \<le> length (blk_stmts (blk_at g bb)) \<and>
    length v = length (b_locals b) \<and>
    (\<exists>s. null_after b g (ins ! bb) bb i = Some s \<and> length s = length (b_locals b) \<and> describes s v)"
  using assms(3)
proof (induction rule: null_run.induct)
  case (nrun_start v)
  have "ins ! cfg_entry g = replicate (length (b_locals b)) NsUnknown"
    using null_solutionD(1) [OF sol flow_okD(4) [OF ok] flow_ok_entry [OF ok]] by (simp add: null_new_in_def)
  then show ?case
    using nrun_start flow_okD(4) [OF ok] flow_ok_entry [OF ok] by (simp add: list_all2_conv_all_nth)
next
  case (nrun_stmt bb i v v')
  let ?sts = "blk_stmts (blk_at g bb)"
  obtain s where s: "null_after b g (ins ! bb) bb i = Some s" "length s = length (b_locals b)" "describes s v"
    using nrun_stmt.IH by blast
  have "simple_stmt b (?sts ! i)"
    using flow_okD(8) [OF ok, of bb] nrun_stmt.IH nrun_stmt.hyps(2) by (simp add: block_ok_def)
  then obtain x where x: "body_stmt b (?sts ! i) = Some x" "simple_kind (st_kind x)" by (rule simple_stmtE)
  obtain s' ds where s': "null_stmt_checked b s (st_kind x) (?sts ! i) [] s' ds"
    using transfer_stmt_null_ok [OF flow_okD(1) [OF ok] x s(2)] by blast
  have "null_after b g (ins ! bb) bb (Suc i) = Some s'"
    using s(1) s' nrun_stmt.hyps(2) by (simp add: take_Suc_conv_app_nth fold_opt_append null_stmt_checked_def)
  then show ?case
    using s' s(2,3) nrun_stmt null_stmt_length [OF nrun_stmt.hyps(3)] by (auto simp: null_stmt_checked_def)
next
  case (nrun_jump bb v q)
  have bb: "bb < length (cfg_blocks g)" "r ! bb" using nrun_jump.IH by auto
  have e: "cfg_edge g bb q" using nrun_jump.hyps(2) by (simp add: edge_taken_def)
  have q: "q < length (cfg_blocks g)" "r ! q" using flow_ok_edge(2,3) [OF ok e] bb(2) by auto
  have out: "describes (outs ! bb) v"
    using nrun_jump.IH null_solutionD(3) [OF sol bb] bb(1) by (auto simp: transfer_nullability_def vec_get_def)
  have "describes (ins ! q) v"
  proof (cases "q = cfg_entry g")
    case True
    then have "ins ! q = replicate (length (b_locals b)) NsUnknown"
      using null_solutionD(1) [OF sol flow_okD(4) [OF ok] flow_ok_entry [OF ok]] by (simp add: null_new_in_def)
    then show ?thesis using nrun_jump.IH by (simp add: list_all2_conv_all_nth)
  next
    case False
    obtain s where s: "edge_narrow_null b g bb q (outs ! bb) = Some s" using edge_narrow_ok [OF ok bb(1)] by blast
    note eq = null_new_in_eq [OF ok q(1) null_solutionD(4,5) [OF sol q] False]
    have "s \<in> set (map (narrowed b g q outs) (reachable_preds g r q))"
      using s set_reachable_preds [OF ok q(1), of bb] e bb(2) by force
    from join_upper [OF eq(2) this] have "list_all2 ns_le s (ins ! q)"
      using eq(1) null_solutionD(1) [OF sol q] by simp
    then show ?thesis using edge_narrow_sound [OF ok nrun_jump.hyps(2) out s] describes_mono by blast
  qed
  then show ?case using q nrun_jump.IH null_solutionD(2) [OF sol q] by simp
qed

section \<open>Soundness of the diagnostics\<close>

definition null_block_clean :: "body \<Rightarrow> control_flow_graph \<Rightarrow> null_state list list \<Rightarrow> nat \<Rightarrow> bool" where
  "null_block_clean b g ins bb \<longleftrightarrow>
     (\<forall>i \<le> length (blk_stmts (blk_at g bb)). \<forall>e \<in> set (evaluated_at b g bb i).
        \<forall>s. null_after b g (ins ! bb) bb i = Some s \<longrightarrow> never_derefs b s e)"

lemma check_all_null_total:
  assumes "body_wf b" "\<forall>e \<in> set es. e < length (b_exprs b)"
  shows "\<exists>ds. check_all_null (check_expr_null_deref b) es s = Some ds \<and> (\<forall>d \<in> set ds. null_diag d) \<and>
    (ds = [] \<longrightarrow> (\<forall>e \<in> set es. never_derefs b s e))"
  using check_all_null_ok [of es b "check_expr_null_deref b" s] check_expr_null_deref_ok [OF assms(1)] assms(2) by blast

lemma transfer_term_null_eq:
  "transfer_terminator_null_deref b t (s, diags) =
    map_option (\<lambda>ds. (s, diags @ ds)) (check_all_null (check_expr_null_deref b) (term_exprs t) s)"
proof -
  have e: "map_option (\<lambda>(_, ds). (s, diags @ ds)) (check_expr_null_deref b e s) =
      map_option (\<lambda>ds. (s, diags @ ds)) (check_all_null (check_expr_null_deref b) [e] s)" for e
    by (cases "check_expr_null_deref b e s") (auto simp: check_all_null_def check_all_single)
  show ?thesis
  proof (cases t)
    case (TReturn v f)
    then show ?thesis
      by (cases v) (simp_all add: transfer_terminator_null_deref_def e check_all_null_def check_all_Nil)
  qed (simp_all add: transfer_terminator_null_deref_def e check_all_null_def check_all_Nil)
qed

lemma null_deref_block_ok:
  assumes ok: "flow_ok b g r" and sol: "na.solution b g r ins outs" and bb: "bb < length (cfg_blocks g)"
  shows "\<exists>d. null_deref_block b r ins diags (bb, blk_at g bb) = Some (diags @ d) \<and>
    (d = [] \<longrightarrow> (r ! bb \<longrightarrow> null_block_clean b g ins bb)) \<and> (\<forall>y \<in> set d. null_diag y)"
proof (cases "r ! bb")
  case False
  then show ?thesis using bb flow_okD(5) [OF ok] by (simp add: null_deref_block_def vec_get_def)
next
  case True
  let ?sts = "blk_stmts (blk_at g bb)" and ?t = "blk_term (blk_at g bb)"
  have wf: "body_wf b" using flow_okD(1) [OF ok] .
  have blk: "\<forall>st \<in> set ?sts. simple_stmt b st" "\<forall>e \<in> set (term_exprs ?t). e < length (b_exprs b)"
    using flow_okD(8) [OF ok bb] by (auto simp: block_ok_def term_ok_def)
  note len = null_solutionD(2,6) [OF sol bb True]
  obtain s' ds where ds: "fold_opt (transfer_stmt_nullability b) (ins ! bb) ?sts = Some s'"
    "fold_opt (transfer_stmt_null_deref b) (ins ! bb, diags) ?sts = Some (s', diags @ ds)"
    "\<forall>d \<in> set ds. null_diag d"
    "ds = [] \<longrightarrow> (\<forall>i < length ?sts. \<forall>x. body_stmt b (?sts ! i) = Some x \<longrightarrow>
       (\<exists>si. null_after b g (ins ! bb) bb i = Some si \<and> (\<forall>e \<in> set (stmt_exprs (st_kind x)). never_derefs b si e)))"
    using transfer_stmts_null_ok [OF wf blk(1) len(1)] by blast
  obtain ds' where ds': "check_all_null (check_expr_null_deref b) (term_exprs ?t) s' = Some ds'"
    "\<forall>d \<in> set ds'. null_diag d" "ds' = [] \<longrightarrow> (\<forall>e \<in> set (term_exprs ?t). never_derefs b s' e)"
    using check_all_null_total [OF wf blk(2)] by blast
  have "null_deref_block b r ins diags (bb, blk_at g bb) = Some (diags @ ds @ ds')"
    using True len bb flow_okD(5) [OF ok] ds(2) ds'(1)
    by (simp add: null_deref_block_def vec_get_def transfer_term_null_eq)
  moreover have "null_block_clean b g ins bb" if "ds @ ds' = []"
    unfolding null_block_clean_def
  proof (intro allI impI ballI)
    fix i e s v
    assume i: "i \<le> length ?sts" and e: "e \<in> set (evaluated_at b g bb i)"
      and s: "null_after b g (ins ! bb) bb i = Some s" and v: "describes s v" "length v = length (b_locals b)"
    show "\<not> derefs b v e"
    proof (cases "i < length ?sts")
      case True
      then obtain x where "body_stmt b (?sts ! i) = Some x" "e \<in> set (stmt_exprs (st_kind x))"
        using e by (cases "body_stmt b (?sts ! i)") (simp_all add: evaluated_at_def)
      then show ?thesis using that ds(4) True s v by fastforce
    next
      case False
      then have "i = length ?sts" "e \<in> set (term_exprs ?t)" using i e by (simp_all add: evaluated_at_def)
      then show ?thesis using that ds(1) ds'(3) s v by simp
    qed
  qed
  moreover have "\<forall>d \<in> set (ds @ ds'). null_diag d" using ds(3) ds'(2) by auto
  ultimately show ?thesis by blast
qed

lemma null_states_solution:
  assumes ok: "flow_ok b g r"
  obtains ins outs where "null_states b g r = Some (ins, outs)" "na.solution b g r ins outs"
proof -
  have "na.states_ok b g (replicate (length (cfg_blocks g)) (replicate (length (b_locals b)) NsUnknown))"
    by (auto simp: na.states_ok_def)
  from na.dataflow_solution [OF ok this] show thesis using that by (auto simp: null_states_def Let_def)
qed

lemma null_deref_diagnostics_ok:
  assumes ok: "flow_ok b g r"
  obtains ins outs ds where "null_states b g r = Some (ins, outs)" "na.solution b g r ins outs"
    "null_deref_diagnostics b g r = Some ds" "\<forall>d \<in> set ds. null_diag d"
    "ds = [] \<longrightarrow> (\<forall>bb < length (cfg_blocks g). r ! bb \<longrightarrow> null_block_clean b g ins bb)"
proof -
  obtain ins outs where st: "null_states b g r = Some (ins, outs)" "na.solution b g r ins outs"
    by (rule null_states_solution [OF ok])
  have "\<exists>d. null_deref_block b r ins acc x = Some (acc @ d) \<and>
      (d = [] \<longrightarrow> (r ! fst x \<longrightarrow> null_block_clean b g ins (fst x))) \<and> (\<forall>y \<in> set d. null_diag y)"
    if "x \<in> set (enumerate 0 (cfg_blocks g))" for acc x
    using null_deref_block_ok [OF ok st(2), of "fst x" acc] that by (auto simp: in_set_enumerate_eq)
  then have "\<exists>ds. fold_opt (null_deref_block b r ins) [] (enumerate 0 (cfg_blocks g)) = Some ([] @ ds) \<and>
      (ds = [] \<longrightarrow> (\<forall>x \<in> set (enumerate 0 (cfg_blocks g)). r ! fst x \<longrightarrow> null_block_clean b g ins (fst x))) \<and>
      (\<forall>y \<in> set ds. null_diag y)"
    by (rule fold_opt_emits)
  then obtain ds where
    ds: "fold_opt (null_deref_block b r ins) [] (enumerate 0 (cfg_blocks g)) = Some ds"
      "ds = [] \<longrightarrow> (\<forall>x \<in> set (enumerate 0 (cfg_blocks g)). r ! fst x \<longrightarrow> null_block_clean b g ins (fst x))"
      "\<forall>y \<in> set ds. null_diag y" by auto
  have "null_deref_diagnostics b g r = Some ds" using st(1) ds(1) by (simp add: null_deref_diagnostics_def)
  moreover have "\<forall>bb < length (cfg_blocks g). r ! bb \<longrightarrow> null_block_clean b g ins bb" if "ds = []"
  proof (intro allI impI)
    fix bb assume "bb < length (cfg_blocks g)" "r ! bb"
    then show "null_block_clean b g ins bb"
      using ds(2) that enumerate_nth_mem [of bb "cfg_blocks g"] by fastforce
  qed
  ultimately show thesis using that [OF st _ ds(3)] by blast
qed

definition never_null_deref :: "body \<Rightarrow> control_flow_graph \<Rightarrow> bool" where
  "never_null_deref b g \<longleftrightarrow> (\<forall>bb i v. null_run b g bb i v \<longrightarrow> (\<forall>e \<in> set (evaluated_at b g bb i). \<not> derefs b v e))"

lemma clean_never_null_deref:
  assumes ok: "flow_ok b g r" and sol: "na.solution b g r ins outs"
    and clean: "\<forall>bb < length (cfg_blocks g). r ! bb \<longrightarrow> null_block_clean b g ins bb"
  shows "never_null_deref b g"
  unfolding never_null_deref_def
proof (intro allI impI ballI)
  fix bb i v e
  assume run: "null_run b g bb i v" and e: "e \<in> set (evaluated_at b g bb i)"
  from null_run_sound [OF ok sol run] clean e show "\<not> derefs b v e"
    unfolding null_block_clean_def by blast
qed

text \<open>
  Property C27. The null check of a well-formed body returns its diagnostics; if it returns
  none, no execution of the control-flow graph, with parameters and fresh locals null or
  not as they please and branches taken as their conditions allow, dereferences null.
\<close>

theorem no_null_dereference:
  assumes "body_wf b"
  shows "\<exists>g r ds. build_cfg b = Some g \<and> reachable_blocks g = Some r \<and>
    null_deref_diagnostics b g r = Some ds \<and> (ds = [] \<longrightarrow> never_null_deref b g)"
proof -
  obtain g r where g: "build_cfg b = Some g" and ok: "flow_ok b g r" by (rule build_cfg_flow_ok [OF assms])
  obtain ins outs ds where "null_states b g r = Some (ins, outs)" "na.solution b g r ins outs"
      "null_deref_diagnostics b g r = Some ds" "\<forall>d \<in> set ds. null_diag d"
      "ds = [] \<longrightarrow> (\<forall>bb < length (cfg_blocks g). r ! bb \<longrightarrow> null_block_clean b g ins bb)"
    by (rule null_deref_diagnostics_ok [OF ok])
  then show ?thesis using g ok clean_never_null_deref [OF ok] by (auto simp: flow_ok_def)
qed

text \<open>\<^verbatim>\<open>while (p) x = 1; return x\<close> of the sample body has no dereference at all.\<close>

theorem no_null_dereference_witness:
  "body_wf sample_body \<and> (\<exists>g r ds. build_cfg sample_body = Some g \<and> reachable_blocks g = Some r \<and>
     null_deref_diagnostics sample_body g r = Some ds)"
  using no_null_dereference [OF sample_body_wf] sample_body_wf by blast

end
