(* ===== verification/Flow_Analyze.thy ===== *)
theory Flow_Analyze
  imports Flow_Null
begin

text \<open>
  The entry point of the flow crate, \<^verbatim>\<open>analyze_with\<close> of
  \<^verbatim>\<open>crates/nova-flow/src/flow.rs\<close>: graph construction, reachability, the report of
  unreachable code and the two data-flow checks, followed by removal of duplicates and the
  final ordering. The cancellation callback, which only may abort the computation, is left
  out.
\<close>

section \<open>Unreachable code\<close>

definition reachable_stmts_of :: "control_flow_graph \<Rightarrow> bool list \<Rightarrow> nat list option" where
  "reachable_stmts_of g reachable =
     fold_opt (\<lambda>acc (idx, bb).
         do {
           is_reachable \<leftarrow> vec_get reachable idx;
           Some (if is_reachable then acc @ blk_stmts bb @ opt_list (from_stmt (blk_term bb)) else acc)
         }) [] (enumerate 0 (cfg_blocks g))"

definition unreachable_block ::
  "body \<Rightarrow> bool list \<Rightarrow> nat list \<Rightarrow> diagnostic list \<Rightarrow> nat \<times> basic_block \<Rightarrow> diagnostic list option" where
  "unreachable_block b reachable reachable_stmts diags ib =
     (case ib of (idx, bb) \<Rightarrow>
      do {
        is_reachable \<leftarrow> vec_get reachable idx;
        if is_reachable then Some diags
        else
          (case (case blk_stmts bb of st # _ \<Rightarrow> Some st | [] \<Rightarrow> from_stmt (blk_term bb)) of
             None \<Rightarrow> Some diags
           | Some st \<Rightarrow>
               if st \<in> set reachable_stmts then Some diags
               else do {
                 x \<leftarrow> body_stmt b st;
                 Some (diags @ [flow_diagnostic UnreachableCode (Some (st_span x)) ''unreachable code''])
               })
      })"

definition unreachable_diagnostics ::
  "body \<Rightarrow> control_flow_graph \<Rightarrow> bool list \<Rightarrow> diagnostic list option" where
  "unreachable_diagnostics b g reachable =
     do {
       reachable_stmts \<leftarrow> reachable_stmts_of g reachable;
       fold_opt (unreachable_block b reachable reachable_stmts) [] (enumerate 0 (cfg_blocks g))
     }"

section \<open>The whole analysis\<close>

record flow_analysis_result =
  fa_cfg :: control_flow_graph
  fa_reachable :: "bool list"
  fa_diagnostics :: "diagnostic list"

definition max_dataflow_state_cells :: nat where
  "max_dataflow_state_cells = 5000000"

text \<open>\<^verbatim>\<open>retain\<close> with a set of the codes and spans seen so far.\<close>

fun retain_unseen :: "(string \<times> span option) list \<Rightarrow> diagnostic list \<Rightarrow> diagnostic list" where
  "retain_unseen seen [] = []"
| "retain_unseen seen (d # ds) =
     (if (dg_code d, dg_span d) \<in> set seen then retain_unseen seen ds
      else d # retain_unseen ((dg_code d, dg_span d) # seen) ds)"

definition diag_key :: "diagnostic \<Rightarrow> nat \<times> nat \<times> string \<times> string" where
  "diag_key d =
     (let sp = (case dg_span d of Some s \<Rightarrow> s | None \<Rightarrow> \<lparr>sp_start = u64_max, sp_end = u64_max\<rparr>)
      in (sp_start sp, sp_end sp, dg_code d, dg_message d))"

definition dataflow_diagnostics ::
  "body \<Rightarrow> flow_config \<Rightarrow> control_flow_graph \<Rightarrow> bool list \<Rightarrow> diagnostic list option" where
  "dataflow_diagnostics b config g reachable =
     (if sat_mul_u64 (length (cfg_blocks g)) (length (b_locals b)) \<le> max_dataflow_state_cells then
        do {
          ds \<leftarrow> definite_assignment_diagnostics b g reachable;
          ds' \<leftarrow> (if report_possible_null_deref config then null_deref_diagnostics b g reachable else Some []);
          Some (ds @ ds')
        }
      else Some [])"

definition analyze_with :: "body \<Rightarrow> flow_config \<Rightarrow> flow_analysis_result option" where
  "analyze_with b config =
     do {
       g \<leftarrow> build_cfg b;
       reachable \<leftarrow> reachable_blocks g;
       unreach \<leftarrow> (if report_unreachable config then unreachable_diagnostics b g reachable else Some []);
       flow \<leftarrow> dataflow_diagnostics b config g reachable;
       Some \<lparr>fa_cfg = g, fa_reachable = reachable,
             fa_diagnostics = sort_key diag_key (retain_unseen [] (unreach @ flow))\<rparr>
     }"

lemmas flow_analyze_eval [nova_eval] =
  reachable_stmts_of_def unreachable_block_def unreachable_diagnostics_def max_dataflow_state_cells_def
  retain_unseen.simps diag_key_def dataflow_diagnostics_def analyze_with_def

section \<open>Duplicates\<close>

abbreviation code_span :: "diagnostic \<Rightarrow> string \<times> span option" where
  "code_span d \<equiv> (dg_code d, dg_span d)"

lemma retain_unseen_subset: "set (retain_unseen seen ds) \<subseteq> set ds"
  by (induction seen ds rule: retain_unseen.induct) auto

lemma retain_unseen_keys: "code_span ` set (retain_unseen seen ds) = code_span ` set ds - set seen"
  by (induction seen ds rule: retain_unseen.induct) auto

lemma retain_unseen_distinct: "distinct (map code_span (retain_unseen seen ds))"
proof (induction seen ds rule: retain_unseen.induct)
  case (2 seen d ds)
  have "code_span d \<notin> code_span ` set (retain_unseen (code_span d # seen) ds)"
    by (subst retain_unseen_keys) simp
  with 2 show ?case by auto
qed simp

text \<open>Duplicate removal and sorting lose no kind of report.\<close>

lemma result_codes:
  "(\<exists>d \<in> set (sort_key diag_key (retain_unseen [] ds)). dg_code d = c) \<longleftrightarrow> (\<exists>d \<in> set ds. dg_code d = c)"
proof -
  have "dg_code ` set (retain_unseen [] ds) = fst ` code_span ` set (retain_unseen [] ds)"
    by (simp only: image_image fst_conv)
  also have "\<dots> = fst ` code_span ` set ds" by (simp only: retain_unseen_keys) simp
  also have "\<dots> = dg_code ` set ds" by (simp only: image_image fst_conv)
  finally show ?thesis by (metis (no_types, lifting) image_iff set_sort)
qed

section \<open>Totality of the reports\<close>

lemma reachable_stmts_ok:
  assumes ok: "flow_ok b g r"
  shows "\<exists>sts. reachable_stmts_of g r = Some sts \<and>
    (\<forall>bb < length (cfg_blocks g). r ! bb \<longrightarrow> set (blk_stmts (blk_at g bb)) \<subseteq> set sts \<and>
       set (opt_list (from_stmt (blk_term (blk_at g bb)))) \<subseteq> set sts)"
proof -
  let ?f = "\<lambda>acc (idx, bb). Option.bind (vec_get r idx)
      (\<lambda>ok. Some (if ok then acc @ blk_stmts bb @ opt_list (from_stmt (blk_term bb)) else acc))"
  have "\<exists>sts. fold_opt ?f acc xs = Some (acc @ sts) \<and>
      (\<forall>(idx, bb) \<in> set xs. r ! idx \<longrightarrow> set (blk_stmts bb) \<subseteq> set sts \<and>
        set (opt_list (from_stmt (blk_term bb))) \<subseteq> set sts)"
    if "\<forall>(idx, bb) \<in> set xs. idx < length r" for acc and xs :: "(nat \<times> basic_block) list"
    using that
  proof (induction xs arbitrary: acc)
    case (Cons x xs)
    obtain idx bb where x: "x = (idx, bb)" by (cases x)
    let ?d = "if r ! idx then blk_stmts bb @ opt_list (from_stmt (blk_term bb)) else []"
    obtain sts where sts: "fold_opt ?f (acc @ ?d) xs = Some ((acc @ ?d) @ sts)"
      "\<forall>(idx, bb) \<in> set xs. r ! idx \<longrightarrow> set (blk_stmts bb) \<subseteq> set sts \<and>
        set (opt_list (from_stmt (blk_term bb))) \<subseteq> set sts"
      using Cons.IH [of "acc @ ?d"] Cons.prems by auto
    have "?f acc x = Some (acc @ ?d)" using Cons.prems x by (simp add: vec_get_def)
    then have "fold_opt ?f acc (x # xs) = Some (acc @ (?d @ sts))" using sts(1) by simp
    moreover have "\<forall>(i, c) \<in> set (x # xs). r ! i \<longrightarrow> set (blk_stmts c) \<subseteq> set (?d @ sts) \<and>
        set (opt_list (from_stmt (blk_term c))) \<subseteq> set (?d @ sts)"
      using sts(2) x by auto
    ultimately show ?case by blast
  qed simp
  moreover have "\<forall>(idx, bb) \<in> set (enumerate 0 (cfg_blocks g)). idx < length r"
    using flow_okD(5) [OF ok] by (auto simp: in_set_enumerate_eq)
  ultimately obtain sts where
    sts: "fold_opt ?f [] (enumerate 0 (cfg_blocks g)) = Some ([] @ sts)"
      "\<forall>(idx, bb) \<in> set (enumerate 0 (cfg_blocks g)). r ! idx \<longrightarrow> set (blk_stmts bb) \<subseteq> set sts \<and>
        set (opt_list (from_stmt (blk_term bb))) \<subseteq> set sts"
    by blast
  have "reachable_stmts_of g r = Some sts" using sts(1) by (simp add: reachable_stmts_of_def)
  then show ?thesis using sts(2) enumerate_nth_mem [of _ "cfg_blocks g"] by fastforce
qed

text \<open>A statement that no reachable block executes.\<close>

definition stmt_unreachable :: "control_flow_graph \<Rightarrow> nat \<Rightarrow> bool" where
  "stmt_unreachable g st \<longleftrightarrow> (\<forall>bb. (cfg_edge g)\<^sup>*\<^sup>* (cfg_entry g) bb \<longrightarrow>
     st \<notin> set (blk_stmts (blk_at g bb)) \<and> from_stmt (blk_term (blk_at g bb)) \<noteq> Some st)"

definition unreachable_report :: "body \<Rightarrow> control_flow_graph \<Rightarrow> diagnostic \<Rightarrow> bool" where
  "unreachable_report b g d \<longleftrightarrow> dg_code d = ''FLOW_UNREACHABLE'' \<and>
     (\<exists>st x. body_stmt b st = Some x \<and> dg_span d = Some (st_span x) \<and> stmt_unreachable g st)"

lemma unreachable_diagnostics_ok:
  assumes ok: "flow_ok b g r"
  shows "\<exists>ds. unreachable_diagnostics b g r = Some ds \<and> (\<forall>d \<in> set ds. unreachable_report b g d)"
proof -
  obtain sts where sts: "reachable_stmts_of g r = Some sts"
    "\<forall>bb < length (cfg_blocks g). r ! bb \<longrightarrow> set (blk_stmts (blk_at g bb)) \<subseteq> set sts \<and>
       set (opt_list (from_stmt (blk_term (blk_at g bb)))) \<subseteq> set sts"
    using reachable_stmts_ok [OF ok] by blast
  have reach_less: "bb < length (cfg_blocks g)" if "(cfg_edge g)\<^sup>*\<^sup>* (cfg_entry g) bb" for bb
    using that by (cases rule: rtranclp.cases) (auto simp: flow_okD(4) [OF ok] flow_ok_edge(2) [OF ok])
  have un: "stmt_unreachable g st" if "st \<notin> set sts" for st
    unfolding stmt_unreachable_def
  proof (intro allI impI)
    fix bb assume "(cfg_edge g)\<^sup>*\<^sup>* (cfg_entry g) bb"
    then have "set (blk_stmts (blk_at g bb)) \<subseteq> set sts \<and> set (opt_list (from_stmt (blk_term (blk_at g bb)))) \<subseteq> set sts"
      using sts(2) reach_less flow_okD(7) [OF ok] by blast
    then show "st \<notin> set (blk_stmts (blk_at g bb)) \<and> from_stmt (blk_term (blk_at g bb)) \<noteq> Some st"
      using that by auto
  qed
  have known: "\<exists>x. body_stmt b st = Some x"
    if "bb < length (cfg_blocks g)" "st \<in> set (blk_stmts (blk_at g bb)) \<or> from_stmt (blk_term (blk_at g bb)) = Some st" for bb st
  proof -
    have "simple_stmt b st \<or> st < length (b_stmts b)"
      using that flow_okD(8) [OF ok that(1)] by (auto simp: block_ok_def term_ok_def)
    then show ?thesis using body_stmt_Some by (auto elim: simple_stmtE)
  qed
  have "\<exists>d. unreachable_block b r sts acc x = Some (acc @ d) \<and> (d = [] \<longrightarrow> True) \<and> (\<forall>y \<in> set d. unreachable_report b g y)"
    if mem: "x \<in> set (enumerate 0 (cfg_blocks g))" for acc x
  proof -
    obtain bb where x: "x = (bb, blk_at g bb)" "bb < length (cfg_blocks g)"
      using mem that [of "fst x"] by (auto simp: in_set_enumerate_eq prod_eq_iff)
    let ?first = "case blk_stmts (blk_at g bb) of st # _ \<Rightarrow> Some st | [] \<Rightarrow> from_stmt (blk_term (blk_at g bb))"
    show ?thesis
    proof (cases "r ! bb \<or> ?first = None \<or> (\<exists>st \<in> set sts. ?first = Some st)")
      case True
      then have "unreachable_block b r sts acc x = Some acc"
        using x flow_okD(5) [OF ok] by (auto simp: unreachable_block_def vec_get_def)
      then show ?thesis by simp
    next
      case False
      then obtain st where st: "?first = Some st" "st \<notin> set sts" "\<not> r ! bb" by auto
      have "st \<in> set (blk_stmts (blk_at g bb)) \<or> from_stmt (blk_term (blk_at g bb)) = Some st"
        using st(1) by (cases "blk_stmts (blk_at g bb)") auto
      then obtain y where y: "body_stmt b st = Some y" using known [OF x(2)] by blast
      let ?d = "flow_diagnostic UnreachableCode (Some (st_span y)) ''unreachable code''"
      have "unreachable_block b r sts acc x = Some (acc @ [?d])"
        using x st y flow_okD(5) [OF ok] by (simp add: unreachable_block_def vec_get_def)
      moreover have "unreachable_report b g ?d"
        using y un [OF st(2)] by (auto simp: unreachable_report_def)
      ultimately show ?thesis by auto
    qed
  qed
  then have "\<exists>ds. fold_opt (unreachable_block b r sts) [] (enumerate 0 (cfg_blocks g)) = Some ([] @ ds) \<and>
      (ds = [] \<longrightarrow> (\<forall>x \<in> set (enumerate 0 (cfg_blocks g)). True)) \<and> (\<forall>y \<in> set ds. unreachable_report b g y)"
    by (rule fold_opt_emits)
  then show ?thesis using sts(1) by (auto simp: unreachable_diagnostics_def)
qed

text \<open>What the analysis returns, before duplicates are removed.\<close>

lemma analyze_with_ok:
  assumes wf: "body_wf b"
  obtains g r un da ds where "build_cfg b = Some g" "flow_ok b g r"
    "(if report_unreachable config then unreachable_diagnostics b g r else Some []) = Some un"
    "\<forall>d \<in> set un. unreachable_report b g d"
    "definite_assignment_diagnostics b g r = Some da" "\<forall>d \<in> set da. unassigned_diag d"
    "null_deref_diagnostics b g r = Some ds" "\<forall>d \<in> set ds. null_diag d"
    "analyze_with b config = Some \<lparr>fa_cfg = g, fa_reachable = r,
       fa_diagnostics = sort_key diag_key (retain_unseen [] (un @
         (if sat_mul_u64 (length (cfg_blocks g)) (length (b_locals b)) \<le> max_dataflow_state_cells
          then da @ (if report_possible_null_deref config then ds else []) else [])))\<rparr>"
proof -
  obtain g r where g: "build_cfg b = Some g" and ok: "flow_ok b g r" by (rule build_cfg_flow_ok [OF wf])
  obtain un where un: "(if report_unreachable config then unreachable_diagnostics b g r else Some []) = Some un"
    "\<forall>d \<in> set un. unreachable_report b g d"
    using unreachable_diagnostics_ok [OF ok] by (cases "report_unreachable config") auto
  obtain i o' da where da: "definite_assignment_states b g r = Some (i, o')" "da.solution b g r i o'"
      "definite_assignment_diagnostics b g r = Some da" "\<forall>d \<in> set da. unassigned_diag d"
      "da = [] \<longrightarrow> (\<forall>bb < length (cfg_blocks g). r ! bb \<longrightarrow> block_clean b g i bb)"
    by (rule definite_assignment_diagnostics_ok [OF ok])
  obtain i' o'' ds where ds: "null_states b g r = Some (i', o'')" "na.solution b g r i' o''"
      "null_deref_diagnostics b g r = Some ds" "\<forall>d \<in> set ds. null_diag d"
      "ds = [] \<longrightarrow> (\<forall>bb < length (cfg_blocks g). r ! bb \<longrightarrow> null_block_clean b g i' bb)"
    by (rule null_deref_diagnostics_ok [OF ok])
  have r: "reachable_blocks g = Some r" using ok by (simp add: flow_ok_def)
  show thesis
    by (rule that [OF g ok un da(3,4) ds(3,4)])
      (use g r un(1) da(3) ds(3) in \<open>simp add: analyze_with_def dataflow_diagnostics_def\<close>)
qed

section \<open>Properties of the analysis\<close>

text \<open>
  Property C26. The flow analysis of a well-formed body returns for every configuration: no
  index is out of range and every loop and recursion ends. Its diagnostics come sorted by
  span, code and message, and no two of them have the same code and span.
\<close>

theorem analyze_returns:
  assumes "body_wf b"
  shows "\<exists>res. analyze_with b config = Some res \<and> sorted (map diag_key (fa_diagnostics res)) \<and>
    distinct (map (\<lambda>d. (dg_code d, dg_span d)) (fa_diagnostics res)) \<and>
    length (fa_reachable res) = length (cfg_blocks (fa_cfg res))"
proof -
  have dist: "distinct (map code_span (sort_key diag_key (retain_unseen [] ds)))" for ds
    using retain_unseen_distinct [of "[]" ds] by (simp add: distinct_map)
  show ?thesis
    by (rule analyze_with_ok [OF assms, of config]) (use dist flow_okD(5) in auto)
qed


text \<open>
  Property C28. A report of unreachable code is right: its span is the span of a statement of
  the body that no block connected to the entry contains or ends with.
\<close>

theorem unreachable_reports_right:
  assumes "body_wf b" "analyze_with b config = Some res" "d \<in> set (fa_diagnostics res)"
    "dg_code d = ''FLOW_UNREACHABLE''"
  shows "\<exists>st x. body_stmt b st = Some x \<and> dg_span d = Some (st_span x) \<and> stmt_unreachable (fa_cfg res) st"
proof -
  obtain g r un da ds where "build_cfg b = Some g" "flow_ok b g r"
    and "(if report_unreachable config then unreachable_diagnostics b g r else Some []) = Some un"
    and un: "\<forall>d \<in> set un. unreachable_report b g d"
    and "definite_assignment_diagnostics b g r = Some da" and da: "\<forall>d \<in> set da. unassigned_diag d"
    and "null_deref_diagnostics b g r = Some ds" and ds: "\<forall>d \<in> set ds. null_diag d"
    and res: "analyze_with b config = Some \<lparr>fa_cfg = g, fa_reachable = r,
       fa_diagnostics = sort_key diag_key (retain_unseen [] (un @
         (if sat_mul_u64 (length (cfg_blocks g)) (length (b_locals b)) \<le> max_dataflow_state_cells
          then da @ (if report_possible_null_deref config then ds else []) else [])))\<rparr>"
    by (rule analyze_with_ok [OF assms(1), of config])
  have g: "fa_cfg res = g" using assms(2) res by auto
  let ?all = "un @ (if sat_mul_u64 (length (cfg_blocks g)) (length (b_locals b)) \<le> max_dataflow_state_cells
      then da @ (if report_possible_null_deref config then ds else []) else [])"
  have "fa_diagnostics res = sort_key diag_key (retain_unseen [] ?all)" using assms(2) res by auto
  then have "d \<in> set ?all" using assms(3) retain_unseen_subset [of "[]" ?all] by auto
  then have "d \<in> set un \<or> d \<in> set da \<or> d \<in> set ds" by (auto split: if_splits)
  then have "unreachable_report b g d" using un da ds assms(4) by auto
  then show ?thesis using g by (auto simp: unreachable_report_def)
qed

section \<open>Witnesses\<close>

text \<open>\<^verbatim>\<open>{ return p; p; }\<close>: the second statement is reported as unreachable.\<close>

definition dead_body :: body where
  "dead_body =
     \<lparr>b_locals = [\<lparr>lv_name = ''p'', lv_kind = LParam, lv_span = \<lparr>sp_start = 0, sp_end = 1\<rparr>\<rparr>],
      b_exprs = [\<lparr>ex_kind = ELocal 0, ex_span = \<lparr>sp_start = 4, sp_end = 5\<rparr>\<rparr>],
      b_stmts = [\<lparr>st_kind = SReturn (Some 0), st_span = \<lparr>sp_start = 2, sp_end = 6\<rparr>\<rparr>,
                 \<lparr>st_kind = SExpr 0, st_span = \<lparr>sp_start = 7, sp_end = 9\<rparr>\<rparr>,
                 \<lparr>st_kind = SBlock [0, 1], st_span = \<lparr>sp_start = 1, sp_end = 10\<rparr>\<rparr>],
      b_root = 2\<rparr>"

lemma dead_body_wf: "body_wf dead_body"
  by (auto simp: body_wf_def dead_body_def expr_wf_at_def stmt_wf_at_def less_Suc_eq numeral_eq_Suc)

lemma dead_body_params: "params_stay dead_body"
  by (simp add: params_stay_def dead_body_def)

abbreviation dead_cfg :: control_flow_graph where
  "dead_cfg \<equiv> \<lparr>cfg_entry = 1,
   cfg_blocks = [\<lparr>blk_stmts = [], blk_term = TExit\<rparr>, \<lparr>blk_stmts = [], blk_term = TReturn (Some 0) 0\<rparr>,
     \<lparr>blk_stmts = [1], blk_term = TExit\<rparr>],
   cfg_preds = [[], [], []]\<rparr>"

lemma dead_body_cfg: "build_cfg dead_body = Some dead_cfg"
  by (simp add: dead_body_def nova_eval numeral_eq_Suc)

lemma dead_body_reachable: "reachable_blocks dead_cfg = Some [False, True, False]"
  by (simp add: nova_eval numeral_eq_Suc)

lemma dead_body_unreachable: "unreachable_diagnostics dead_body dead_cfg [False, True, False] =
  Some [flow_diagnostic UnreachableCode (Some \<lparr>sp_start = 7, sp_end = 9\<rparr>) ''unreachable code'']"
  by (simp add: unreachable_diagnostics_def reachable_stmts_of_def unreachable_block_def vec_get_def
      dead_body_def body_stmt_def)

lemma dead_body_result:
  obtains res where "analyze_with dead_body flow_config_default = Some res"
    "length (cfg_blocks (fa_cfg res)) * length (b_locals dead_body) \<le> 5000000"
    "\<exists>d \<in> set (fa_diagnostics res). dg_code d = ''FLOW_UNREACHABLE''"
proof -
  have "\<exists>res. analyze_with dead_body flow_config_default = Some res \<and>
    length (cfg_blocks (fa_cfg res)) * length (b_locals dead_body) \<le> 5000000 \<and>
    (\<exists>d \<in> set (fa_diagnostics res). dg_code d = ''FLOW_UNREACHABLE'')"
  proof (rule analyze_with_ok [OF dead_body_wf, of flow_config_default], goal_cases)
    case (1 g r un da ds)
    have g: "g = dead_cfg" using 1(1) dead_body_cfg by simp
    have r: "r = [False, True, False]" using 1(2) dead_body_reachable g by (simp add: flow_ok_def)
    have "un = [flow_diagnostic UnreachableCode (Some \<lparr>sp_start = 7, sp_end = 9\<rparr>) ''unreachable code'']"
      using 1(3) dead_body_unreachable g r by (simp add: flow_config_default_def)
    then have "\<exists>d \<in> set (un @ xs). dg_code d = ''FLOW_UNREACHABLE''" for xs by simp
    then have "\<exists>d \<in> set (sort_key diag_key (retain_unseen [] (un @ xs))). dg_code d = ''FLOW_UNREACHABLE''" for xs
      by (subst result_codes)
    then show ?case using 1(9) by (simp add: g dead_body_def)
  qed
  then show thesis using that by blast
qed

theorem analyze_returns_witness: "\<exists>res. analyze_with dead_body flow_config_default = Some res"
  using analyze_returns [OF dead_body_wf] by blast


theorem unreachable_reports_right_witness:
  "\<exists>res st. analyze_with dead_body flow_config_default = Some res \<and> stmt_unreachable (fa_cfg res) st"
proof -
  obtain res where res: "analyze_with dead_body flow_config_default = Some res"
    "length (cfg_blocks (fa_cfg res)) * length (b_locals dead_body) \<le> 5000000"
    "\<exists>d \<in> set (fa_diagnostics res). dg_code d = ''FLOW_UNREACHABLE''"
    by (rule dead_body_result)
  then show ?thesis using unreachable_reports_right [OF dead_body_wf res(1)] by blast
qed

end
