(* ===== verification/Parse_Monad.thy ===== *)
theory Parse_Monad
  imports Nova_Prelude
begin

text \<open>
  Recursive-descent parsers over a cursor, as the class-file reader, the signature parser
  and the wire decoders of the sources are written. A parser takes the cursor and returns
  \<open>None\<close> when the code panics or does not return, an error, or a value with the advanced
  cursor. \<open>pbind\<close> is the \<^verbatim>\<open>?\<close> operator, \<open>prepeat\<close> a counted
  \<^verbatim>\<open>for\<close> loop that pushes one item per round, \<open>pwhile\<close> a
  \<^verbatim>\<open>while\<close> loop.

  The second half holds the two judgements the parser proofs use: \<open>run_at\<close> (the parser
  returns at this cursor, and whatever it accepts has the stated form) and \<open>decodes\<close> (the
  parser accepts these bytes, whatever stands before and after them).
\<close>

section \<open>Parsers\<close>

type_synonym ('s, 'e, 'a) parser = "'s \<Rightarrow> ('e, 'a \<times> 's) result option"

definition preturn :: "'a \<Rightarrow> ('s, 'e, 'a) parser" where
  "preturn x = (\<lambda>s. Some (Ok (x, s)))"

definition pfail :: "'e \<Rightarrow> ('s, 'e, 'a) parser" where
  "pfail e = (\<lambda>s. Some (Err e))"

definition plift :: "('e, 'a) result \<Rightarrow> ('s, 'e, 'a) parser" where
  "plift r = (\<lambda>s. case r of Inl e \<Rightarrow> Some (Err e) | Inr x \<Rightarrow> Some (Ok (x, s)))"

definition pbind :: "('s, 'e, 'a) parser \<Rightarrow> ('a \<Rightarrow> ('s, 'e, 'b) parser) \<Rightarrow> ('s, 'e, 'b) parser" where
  "pbind m f = (\<lambda>s. Option.bind (m s)
     (\<lambda>r. case r of Inl e \<Rightarrow> Some (Err e) | Inr (x, s') \<Rightarrow> f x s'))"

primrec prepeat :: "nat \<Rightarrow> ('s, 'e, 'a) parser \<Rightarrow> ('s, 'e, 'a list) parser" where
  "prepeat 0 p = preturn []"
| "prepeat (Suc n) p = pbind p (\<lambda>x. pbind (prepeat n p) (\<lambda>xs. preturn (x # xs)))"

partial_function (option) pwhile ::
  "('s \<Rightarrow> bool) \<Rightarrow> ('a \<Rightarrow> ('s, 'e, 'a) parser) \<Rightarrow> 'a \<Rightarrow> ('s, 'e, 'a) parser" where
  "pwhile c b acc s =
     (if c s then
        Option.bind (b acc s)
          (\<lambda>r. case r of Inl e \<Rightarrow> Some (Err e) | Inr (acc', s') \<Rightarrow> pwhile c b acc' s')
      else Some (Ok (acc, s)))"

text \<open>The loop \<^verbatim>\<open>while c { out.push(p()?) }\<close> from an empty vector.\<close>

definition pmany :: "('s \<Rightarrow> bool) \<Rightarrow> ('s, 'e, 'a) parser \<Rightarrow> ('s, 'e, 'a list) parser" where
  "pmany c p = pwhile c (\<lambda>acc. pbind p (\<lambda>x. preturn (acc @ [x]))) []"

lemma pwhile_unfold:
  "pwhile c b acc s = (if c s then pbind (b acc) (pwhile c b) s else preturn acc s)"
  by (subst pwhile.simps) (simp add: pbind_def preturn_def)

lemma parser_simps [simp]:
  "preturn x s = Some (Ok (x, s))"
  "pfail e s = Some (Err e)"
  "plift (Inl e) s = Some (Err e)"
  "plift (Inr x) s = Some (Ok (x, s))"
  by (simp_all add: preturn_def pfail_def plift_def)

lemma pbind_step [simp]:
  "m s = None \<Longrightarrow> pbind m f s = None"
  "m s = Some (Inl e) \<Longrightarrow> pbind m f s = Some (Inl e)"
  "m s = Some (Inr (x, s')) \<Longrightarrow> pbind m f s = f x s'"
  by (simp_all add: pbind_def)

lemma pbind_simps:
  "pbind (preturn x) f = f x"
  "pbind (plift (Inr x)) f = f x"
  "pbind (plift (Inl e)) f = pfail e"
  by (rule ext, simp)+

lemma pbind_assoc: "pbind (pbind m f) g = pbind m (\<lambda>x. pbind (f x) g)"
proof
  fix s
  consider "m s = None" | e where "m s = Some (Inl e)" | x s' where "m s = Some (Inr (x, s'))"
    by (metis not_None_eq old.sum.exhaust surj_pair)
  then show "pbind (pbind m f) g s = pbind m (\<lambda>x. pbind (f x) g) s"
    by cases (simp_all add: pbind_def)
qed

declare pbind_def [nova_eval] prepeat.simps [nova_eval]

section \<open>Recursion through the loops\<close>

text \<open>
  A parser that calls itself inside these combinators is a
  \<open>partial_function\<close>; the rules below let the package see that its body is monotone.
\<close>

lemma mono_optionI:
  assumes "\<And>f g y. (\<And>x z. f x = Some z \<Longrightarrow> g x = Some z) \<Longrightarrow> B f = Some y \<Longrightarrow> B g = Some y"
  shows "mono_option B"
proof (rule monotoneI)
  fix f g :: "'a \<Rightarrow> 'b option"
  assume "fun_ord option_ord f g"
  then have le: "g x = Some z" if "f x = Some z" for x z
    using that by (auto simp: fun_ord_def flat_ord_def) (metis option.distinct(1))
  show "option_ord (B f) (B g)"
    using assms [OF le] by (cases "B f") (auto simp: flat_ord_def)
qed

lemma mono_optionD:
  assumes "mono_option B" "\<And>x z. f x = Some z \<Longrightarrow> g x = Some z" "B f = Some y"
  shows "B g = Some y"
proof -
  have "fun_ord option_ord f g"
    unfolding fun_ord_def flat_ord_def
  proof
    fix x show "f x = None \<or> f x = g x" using assms(2) [of x] by (cases "f x") auto
  qed
  with assms(1) have "option_ord (B f) (B g)" by (auto dest: monotoneD)
  with assms(3) show ?thesis by (auto simp: flat_ord_def)
qed

lemma pbind_mono [partial_function_mono]:
  assumes "\<And>s. mono_option (\<lambda>f. m f s)" "\<And>x s. mono_option (\<lambda>f. k f x s)"
  shows "mono_option (\<lambda>f. pbind (m f) (k f) s)"
proof (rule mono_optionI)
  fix f g y
  assume le: "\<And>x z. f x = Some z \<Longrightarrow> g x = Some z" and r: "pbind (m f) (k f) s = Some y"
  from r obtain v where v: "m f s = Some v" by (cases "m f s") auto
  have "m g s = Some v" by (rule mono_optionD [OF assms(1) le v])
  moreover have "k g x s' = Some y" if "v = Inr (x, s')" for x s'
    using that v r by (intro mono_optionD [OF assms(2) le]) auto
  ultimately show "pbind (m g) (k g) s = Some y"
    using v r by (cases v) auto
qed

lemma prepeat_mono [partial_function_mono]:
  assumes "\<And>s. mono_option (\<lambda>f. p f s)"
  shows "mono_option (\<lambda>f. prepeat n (p f) s)"
proof (induction n arbitrary: s)
  case 0
  show ?case by (auto intro: mono_optionI)
next
  case (Suc n)
  show ?case by simp (intro pbind_mono assms Suc option.const_mono)
qed

lemma pwhile_le:
  assumes "pwhile c b acc s = Some y" "\<And>acc s z. b acc s = Some z \<Longrightarrow> b' acc s = Some z"
  shows "pwhile c b' acc s = Some y"
proof -
  have "(\<forall>acc s z. b acc s = Some z \<longrightarrow> b' acc s = Some z) \<longrightarrow> pwhile c b' acc s = Some y"
  proof (rule pwhile.raw_induct
      [where P = "\<lambda>c b acc s y. (\<forall>acc s z. b acc s = Some z \<longrightarrow> b' acc s = Some z) \<longrightarrow>
         pwhile c b' acc s = Some y", OF _ assms(1)], rule impI)
    fix loop c b acc s y
    assume IH: "\<And>c b acc s y. loop c b acc s = Some y \<Longrightarrow>
        (\<forall>acc s z. b acc s = Some z \<longrightarrow> b' acc s = Some z) \<longrightarrow> pwhile c b' acc s = Some y"
      and body: "(if c s then Option.bind (b acc s) (\<lambda>r. case r of Inl e \<Rightarrow> Some (Err e)
           | Inr (acc', s') \<Rightarrow> loop c b acc' s') else Some (Ok (acc, s))) = Some y"
      and le: "\<forall>acc s z. b acc s = Some z \<longrightarrow> b' acc s = Some z"
    show "pwhile c b' acc s = Some y"
    proof (cases "c s")
      case True
      with body obtain v where v: "b acc s = Some v" by (cases "b acc s") auto
      with le have v': "b' acc s = Some v" by blast
      show ?thesis
        using True body v v' IH [OF _, rule_format, OF _ le [rule_format]]
        by (subst pwhile.simps) (auto split: sum.splits prod.splits)
    next
      case False
      with body show ?thesis by (subst pwhile.simps) simp
    qed
  qed
  with assms(2) show ?thesis by blast
qed

lemma pwhile_mono [partial_function_mono]:
  assumes "\<And>acc s. mono_option (\<lambda>f. b f acc s)"
  shows "mono_option (\<lambda>f. pwhile c (b f) acc s)"
proof (rule mono_optionI)
  fix f g y
  assume "\<And>x z. f x = Some z \<Longrightarrow> g x = Some z" "pwhile c (b f) acc s = Some y"
  then show "pwhile c (b g) acc s = Some y"
    by (blast intro: pwhile_le mono_optionD [OF assms])
qed

lemma pmany_mono [partial_function_mono]:
  assumes "\<And>s. mono_option (\<lambda>f. p f s)"
  shows "mono_option (\<lambda>f. pmany c (p f) s)"
  unfolding pmany_def by (intro pwhile_mono pbind_mono assms option.const_mono)

section \<open>What a parser accepts\<close>

text \<open>
  \<open>mk pre rest\<close> is the cursor that has consumed \<open>pre\<close> and has \<open>rest\<close> ahead of it.
  \<open>run_at mk p pre rest Q\<close>: run there, the parser returns, and when it accepts it has
  consumed some \<open>w\<close>, leaving \<open>rest'\<close>, with \<open>Q x w rest'\<close>.
\<close>

definition run_at ::
  "('c list \<Rightarrow> 'c list \<Rightarrow> 's) \<Rightarrow> ('s, 'e, 'a) parser \<Rightarrow> 'c list \<Rightarrow> 'c list \<Rightarrow>
   ('a \<Rightarrow> 'c list \<Rightarrow> 'c list \<Rightarrow> bool) \<Rightarrow> bool" where
  "run_at mk p pre rest Q \<longleftrightarrow>
     (\<exists>r. p (mk pre rest) = Some r \<and>
       (\<forall>x s'. r = Inr (x, s') \<longrightarrow>
         (\<exists>w rest'. rest = w @ rest' \<and> s' = mk (pre @ w) rest' \<and> Q x w rest')))"

lemma run_atE:
  assumes "run_at mk p pre rest Q"
  obtains e where "p (mk pre rest) = Some (Inl e)"
  | x w rest' where "p (mk pre rest) = Some (Inr (x, mk (pre @ w) rest'))" "rest = w @ rest'" "Q x w rest'"
  using assms unfolding run_at_def by (metis old.sum.exhaust surj_pair)

lemma run_at_Ok:
  assumes "rest = w @ rest'" "p (mk pre rest) = Some (Inr (x, mk (pre @ w) rest'))" "Q x w rest'"
  shows "run_at mk p pre rest Q"
  using assms unfolding run_at_def by blast

lemma run_at_Err: "p (mk pre rest) = Some (Inl e) \<Longrightarrow> run_at mk p pre rest Q"
  by (simp add: run_at_def)

lemma run_at_return: "Q x [] rest \<Longrightarrow> run_at mk (preturn x) pre rest Q"
  by (rule run_at_Ok [where w = "[]"]) simp_all

lemma run_at_fail: "run_at mk (pfail e) pre rest Q"
  by (simp add: run_at_def)

lemma run_at_lift: "(\<And>x. r = Inr x \<Longrightarrow> Q x [] rest) \<Longrightarrow> run_at mk (plift r) pre rest Q"
  by (cases r) (simp_all add: run_at_Err run_at_Ok [where w = "[]"])

lemma run_at_conseq:
  assumes "run_at mk p pre rest Q" "\<And>x w rest'. rest = w @ rest' \<Longrightarrow> Q x w rest' \<Longrightarrow> R x w rest'"
  shows "run_at mk p pre rest R"
  using assms(1)
proof (cases rule: run_atE)
  case (1 e)
  then show ?thesis by (rule run_at_Err)
next
  case (2 x w rest')
  then show ?thesis using assms(2) by (intro run_at_Ok [where w = w]) auto
qed

lemma run_at_bind:
  assumes "run_at mk m pre rest Q"
    and "\<And>x w rest'. rest = w @ rest' \<Longrightarrow> Q x w rest' \<Longrightarrow>
           run_at mk (f x) (pre @ w) rest' (\<lambda>y w' r'. R y (w @ w') r')"
  shows "run_at mk (pbind m f) pre rest R"
  using assms(1)
proof (cases rule: run_atE)
  case (1 e)
  then show ?thesis by (intro run_at_Err) simp
next
  case (2 x w rest')
  from assms(2) [OF 2(2,3)] show ?thesis
  proof (cases rule: run_atE)
    case (1 e)
    with 2 show ?thesis by (intro run_at_Err) simp
  next
    case (2 y w' r')
    show ?thesis
      by (rule run_at_Ok [where w = "w @ w'" and rest' = r' and x = y])
        (use \<open>rest = w @ rest'\<close> 2 \<open>m (mk pre rest) = _\<close> in simp_all)
  qed
qed

lemma run_at_repeat:
  assumes "\<And>pre' rest'. length rest' \<le> length rest \<Longrightarrow> run_at mk p pre' rest' (\<lambda>x w _. G x w)"
  shows "run_at mk (prepeat n p) pre rest
           (\<lambda>xs w _. \<exists>ws. w = concat ws \<and> length xs = n \<and> list_all2 G xs ws)"
  using assms
proof (induction n arbitrary: pre rest)
  case 0
  show ?case unfolding prepeat.simps by (rule run_at_return) (simp add: exI [of _ "[]"])
next
  case (Suc n)
  show ?case unfolding prepeat.simps
  proof (rule run_at_bind [OF Suc.prems])
    fix x w rest' assume w: "rest = w @ rest'" "G x w"
    show "run_at mk (pbind (prepeat n p) (\<lambda>xs. preturn (x # xs))) (pre @ w) rest'
        (\<lambda>y w' r'. \<exists>ws. w @ w' = concat ws \<and> length y = Suc n \<and> list_all2 G y ws)"
    proof (rule run_at_bind [OF Suc.IH])
      show "\<And>pre' rest''. length rest'' \<le> length rest' \<Longrightarrow> run_at mk p pre' rest'' (\<lambda>x w _. G x w)"
        using Suc.prems w by simp
      fix xs w' r'
      assume "\<exists>ws. w' = concat ws \<and> length xs = n \<and> list_all2 G xs ws"
      then obtain ws where "w' = concat ws" "length xs = n" "list_all2 G xs ws" by blast
      with w show "run_at mk (preturn (x # xs)) ((pre @ w) @ w') r'
          (\<lambda>y w'' r'. \<exists>ws. w @ w' @ w'' = concat ws \<and> length y = Suc n \<and> list_all2 G y ws)"
        by (intro run_at_return exI [of _ "w # ws"]) simp
    qed
  qed simp
qed

text \<open>A loop returns when every round consumes something; \<open>J\<close> is its invariant.\<close>

lemma run_at_while:
  assumes "\<And>acc w rest'. rest = w @ rest' \<Longrightarrow> J acc w rest' \<Longrightarrow> c (mk (pre @ w) rest') \<Longrightarrow>
      run_at mk (b acc) (pre @ w) rest' (\<lambda>acc' w' r'. w' \<noteq> [] \<and> J acc' (w @ w') r')"
    and "J acc [] rest"
  shows "run_at mk (pwhile c b acc) pre rest (\<lambda>acc' w r'. J acc' w r' \<and> \<not> c (mk (pre @ w) r'))"
proof -
  have "run_at mk (pwhile c b acc) (pre @ w) rest'
      (\<lambda>acc' w' r'. J acc' (w @ w') r' \<and> \<not> c (mk (pre @ w @ w') r'))"
    if "rest = w @ rest'" "J acc w rest'" for acc w rest'
    using that
  proof (induction "length rest'" arbitrary: acc w rest' rule: less_induct)
    case less
    let ?Q = "\<lambda>acc' w' r'. J acc' (w @ w') r' \<and> \<not> c (mk (pre @ w @ w') r')"
    show ?case
    proof (cases "c (mk (pre @ w) rest')")
      case True
      have "run_at mk (pbind (b acc) (pwhile c b)) (pre @ w) rest' ?Q"
      proof (rule run_at_bind [OF assms(1) [OF less.prems True]])
        fix acc' w' r'
        assume *: "rest' = w' @ r'" "w' \<noteq> [] \<and> J acc' (w @ w') r'"
        then have "length r' < length rest'" by simp
        from less.hyps [OF this, of "w @ w'" acc'] * less.prems
        show "run_at mk (pwhile c b acc') ((pre @ w) @ w') r'
            (\<lambda>y w'' r'. J y (w @ w' @ w'') r' \<and> \<not> c (mk (pre @ w @ w' @ w'') r'))"
          by simp
      qed
      with True show ?thesis by (simp add: run_at_def pwhile_unfold)
    next
      case False
      then have "run_at mk (preturn acc) (pre @ w) rest' ?Q"
        using less.prems by (intro run_at_return) simp
      with False show ?thesis by (simp add: run_at_def pwhile_unfold)
    qed
  qed
  from this [of "[]" rest acc] assms(2) show ?thesis by simp
qed

lemma run_at_many:
  assumes "\<And>pre' rest'. length rest' \<le> length rest \<Longrightarrow> c (mk pre' rest') \<Longrightarrow>
      run_at mk p pre' rest' (\<lambda>x w _. G x w \<and> w \<noteq> [])"
  shows "run_at mk (pmany c p) pre rest
    (\<lambda>xs w r'. (\<exists>ws. list_all2 G xs ws \<and> w = concat ws) \<and> \<not> c (mk (pre @ w) r'))"
  unfolding pmany_def
proof (rule run_at_while)
  fix acc w rest'
  assume rest: "rest = w @ rest'" and "\<exists>ws. list_all2 G acc ws \<and> w = concat ws"
    and c: "c (mk (pre @ w) rest')"
  then obtain ws where ws: "list_all2 G acc ws" "w = concat ws" by blast
  show "run_at mk (pbind p (\<lambda>x. preturn (acc @ [x]))) (pre @ w) rest'
      (\<lambda>acc' w' r'. w' \<noteq> [] \<and> (\<exists>ws. list_all2 G acc' ws \<and> w @ w' = concat ws))"
  proof (rule run_at_bind [OF assms [OF _ c]])
    fix x v r' assume "G x v \<and> v \<noteq> []"
    then show "run_at mk (preturn (acc @ [x])) ((pre @ w) @ v) r'
        (\<lambda>acc' w' r'. v @ w' \<noteq> [] \<and> (\<exists>ws. list_all2 G acc' ws \<and> w @ v @ w' = concat ws))"
      using ws by (intro run_at_return conjI exI [of _ "ws @ [v]"]) (simp_all add: list_all2_appendI)
  qed (simp add: rest)
qed (simp add: exI [of _ "[]"])

text \<open>\<open>decodes mk p w x rest\<close>: with \<open>w\<close> ahead of \<open>rest\<close> the parser accepts \<open>x\<close>, just past \<open>w\<close>.\<close>

definition decodes ::
  "('c list \<Rightarrow> 'c list \<Rightarrow> 's) \<Rightarrow> ('s, 'e, 'a) parser \<Rightarrow> 'c list \<Rightarrow> 'a \<Rightarrow> 'c list \<Rightarrow> bool" where
  "decodes mk p w x rest \<longleftrightarrow> (\<forall>pre. p (mk pre (w @ rest)) = Some (Ok (x, mk (pre @ w) rest)))"

lemma decodes_return: "decodes mk (preturn x) [] x rest"
  by (simp add: decodes_def)

lemma decodes_lift: "r = Inr x \<Longrightarrow> decodes mk (plift r) [] x rest"
  by (simp add: decodes_def)

lemma decodes_bind:
  assumes "decodes mk m w x (w' @ rest)" "decodes mk (f x) w' y rest"
  shows "decodes mk (pbind m f) (w @ w') y rest"
  using assms by (simp add: decodes_def)

lemma decodes_repeat:
  assumes "list_all2 (\<lambda>x w. \<forall>rest. decodes mk p w x rest) xs ws"
  shows "decodes mk (prepeat (length xs) p) (concat ws) xs rest"
  using assms
proof (induction rule: list_all2_induct)
  case Nil
  show ?case by (simp only: prepeat.simps list.size concat.simps decodes_return)
next
  case (Cons x xs w ws)
  have "decodes mk (pbind (prepeat (length xs) p) (\<lambda>xs. preturn (x # xs))) (concat ws @ []) (x # xs) rest"
    by (rule decodes_bind [OF _ decodes_return]) (use Cons in simp)
  then have "decodes mk (pbind p (\<lambda>x. pbind (prepeat (length xs) p) (\<lambda>xs. preturn (x # xs))))
      (w @ concat ws) (x # xs) rest"
    using Cons by (intro decodes_bind [where x = x]) auto
  then show ?case by simp
qed

lemma decodes_many_from:
  assumes "list_all2 (\<lambda>x w. (\<forall>pre rest. c (mk pre (w @ rest))) \<and> (\<forall>rest. F (w @ rest)) \<and>
      (\<forall>rest. F rest \<longrightarrow> decodes mk p w x rest)) xs ws"
    and "F rest" "\<And>pre. \<not> c (mk pre rest)"
  shows "decodes mk (pwhile c (\<lambda>acc. pbind p (\<lambda>x. preturn (acc @ [x]))) acc) (concat ws) (acc @ xs) rest"
  using assms(1)
proof (induction arbitrary: acc rule: list_all2_induct)
  case Nil
  show ?case using assms(3) by (simp add: decodes_def pwhile_unfold)
next
  case (Cons x xs w ws)
  have F: "F (concat ws @ rest)"
    using Cons(2) assms(2) by (cases ws) (auto simp: list_all2_Cons2)
  show ?case unfolding decodes_def
  proof
    fix pre
    have "p (mk pre (w @ concat ws @ rest)) = Some (Ok (x, mk (pre @ w) (concat ws @ rest)))"
      using Cons(1) F by (auto simp: decodes_def)
    then have "pbind p (\<lambda>x. preturn (acc @ [x])) (mk pre (w @ concat ws @ rest)) =
        Some (Ok (acc @ [x], mk (pre @ w) (concat ws @ rest)))"
      by simp
    moreover have "c (mk pre (w @ concat ws @ rest))" using Cons(1) by blast
    moreover have "pwhile c (\<lambda>acc. pbind p (\<lambda>x. preturn (acc @ [x]))) (acc @ [x])
        (mk (pre @ w) (concat ws @ rest)) =
        Some (Ok ((acc @ [x]) @ xs, mk ((pre @ w) @ concat ws) rest))"
      using Cons.IH [of "acc @ [x]"] unfolding decodes_def by blast
    ultimately show "pwhile c (\<lambda>acc. pbind p (\<lambda>x. preturn (acc @ [x]))) acc
        (mk pre (concat (w # ws) @ rest)) =
        Some (Ok (acc @ x # xs, mk (pre @ concat (w # ws)) rest))"
      by (subst pwhile_unfold) simp
  qed
qed

lemma decodes_many:
  assumes "list_all2 (\<lambda>x w. (\<forall>pre rest. c (mk pre (w @ rest))) \<and> (\<forall>rest. F (w @ rest)) \<and>
      (\<forall>rest. F rest \<longrightarrow> decodes mk p w x rest)) xs ws"
    and "F rest" "\<And>pre. \<not> c (mk pre rest)"
  shows "decodes mk (pmany c p) (concat ws) xs rest"
  using decodes_many_from [OF assms, of "[]"] by (simp add: pmany_def)

text \<open>A parser whose language is \<open>G\<close>, a relation between the value and its bytes.\<close>

definition exact ::
  "('c list \<Rightarrow> 'c list \<Rightarrow> 's) \<Rightarrow> ('s, 'e, 'a) parser \<Rightarrow> ('a \<Rightarrow> 'c list \<Rightarrow> bool) \<Rightarrow> bool" where
  "exact mk p G \<longleftrightarrow>
     (\<forall>pre rest. run_at mk p pre rest (\<lambda>x w _. G x w)) \<and>
     (\<forall>x w rest. G x w \<longrightarrow> decodes mk p w x rest)"

lemma exactI:
  assumes "\<And>pre rest. run_at mk p pre rest (\<lambda>x w _. G x w)"
    and "\<And>x w rest. G x w \<Longrightarrow> decodes mk p w x rest"
  shows "exact mk p G"
  using assms by (simp add: exact_def)

lemma exact_run: "exact mk p G \<Longrightarrow> run_at mk p pre rest (\<lambda>x w _. G x w)"
  by (simp add: exact_def)

lemma exact_decodes: "exact mk p G \<Longrightarrow> G x w \<Longrightarrow> decodes mk p w x rest"
  by (simp add: exact_def)

lemma exact_cong: "exact mk p G \<Longrightarrow> (\<And>x w. G x w \<longleftrightarrow> H x w) \<Longrightarrow> exact mk p H"
  by (simp add: exact_def)

lemma exact_return: "exact mk (preturn x) (\<lambda>y w. y = x \<and> w = [])"
  by (auto intro!: exactI run_at_return simp: decodes_return)

lemma exact_fail: "exact mk (pfail e) (\<lambda>_ _. False)"
  by (auto intro!: exactI run_at_fail)

lemma exact_lift: "exact mk (plift r) (\<lambda>x w. r = Inr x \<and> w = [])"
  by (auto intro!: exactI run_at_lift simp: decodes_lift)

lemma exact_bind:
  assumes "exact mk m G" "\<And>x w. G x w \<Longrightarrow> exact mk (f x) (H x)"
  shows "exact mk (pbind m f) (\<lambda>y w. \<exists>x u v. w = u @ v \<and> G x u \<and> H x y v)"
proof (rule exactI)
  fix pre rest
  show "run_at mk (pbind m f) pre rest (\<lambda>y w _. \<exists>x u v. w = u @ v \<and> G x u \<and> H x y v)"
    by (rule run_at_bind [OF exact_run [OF assms(1)]], rule run_at_conseq [OF exact_run], rule assms(2))
      auto
next
  fix y w rest
  assume "\<exists>x u v. w = u @ v \<and> G x u \<and> H x y v"
  then show "decodes mk (pbind m f) w y rest"
    using assms by (auto intro!: decodes_bind intro: exact_decodes)
qed

lemma exact_repeat:
  assumes "exact mk p G"
  shows "exact mk (prepeat n p) (\<lambda>xs w. \<exists>ws. w = concat ws \<and> length xs = n \<and> list_all2 G xs ws)"
proof (rule exactI)
  show "run_at mk (prepeat n p) pre rest
      (\<lambda>xs w _. \<exists>ws. w = concat ws \<and> length xs = n \<and> list_all2 G xs ws)" for pre rest
    by (rule run_at_repeat) (rule exact_run [OF assms])
  show "decodes mk (prepeat n p) w xs rest"
    if "\<exists>ws. w = concat ws \<and> length xs = n \<and> list_all2 G xs ws" for xs w rest
    using that by (auto intro!: decodes_repeat elim!: list_all2_mono intro: exact_decodes [OF assms])
qed

lemma exact_total: "exact mk p G \<Longrightarrow> \<exists>r. p (mk pre rest) = Some r"
  using exact_run [of mk p G pre rest] unfolding run_at_def by blast

lemma exact_iff:
  assumes "exact mk p G"
  shows "p (mk pre rest) = Some (Inr (x, s')) \<longleftrightarrow>
    (\<exists>w rest'. rest = w @ rest' \<and> s' = mk (pre @ w) rest' \<and> G x w)"
  using exact_run [OF assms, of pre rest] exact_decodes [OF assms]
  unfolding run_at_def decodes_def by fastforce

end
