(* ===== verification/Class_Reader.thy ===== *)
theory Class_Reader
  imports Parse_Monad Rust_Str
begin

text \<open>
  The byte reader and the error type of the class-file parser
  (\<^verbatim>\<open>nova-classfile/src/reader.rs\<close>, \<^verbatim>\<open>error.rs\<close>). Bytes
  are 8-bit words; unsigned values are natural numbers, signed ones integers in two's
  complement. Slicing out of range, where Rust panics, is the outer \<open>None\<close>.
\<close>

unbundle bit_operations_syntax

section \<open>Errors\<close>

datatype cf_error =
    UnexpectedEof
  | InvalidMagic nat
  | InvalidConstantPoolIndex nat
  | InvalidConstantPoolTag nat
  | ConstantPoolTypeMismatch nat string string
  | InvalidModifiedUtf8
  | InvalidDescriptor rstr
  | InvalidSignature rstr
  | MalformedAttribute string
  | OtherError string

section \<open>The reader\<close>

type_synonym byte = "8 word"

record reader =
  rd_bytes :: "byte list"
  rd_pos :: nat

type_synonym 'a rd = "(reader, cf_error, 'a) parser"

definition reader_new :: "byte list \<Rightarrow> reader" where
  "reader_new bs = \<lparr>rd_bytes = bs, rd_pos = 0\<rparr>"

definition remaining :: "reader \<Rightarrow> nat" where
  "remaining r = sat_sub (length (rd_bytes r)) (rd_pos r)"

text \<open>\<^verbatim>\<open>&bytes[i..j]\<close>, with the panic of a range that is reversed or out of bounds.\<close>

definition byte_slice :: "'a list \<Rightarrow> nat \<Rightarrow> nat \<Rightarrow> 'a list option" where
  "byte_slice bs i j = (if i \<le> j \<and> j \<le> length bs then Some (take (j - i) (drop i bs)) else None)"

text \<open>
  \<^verbatim>\<open>checked_add\<close> fails only for an end beyond the address space, which is past the
  end of every slice; both tests give \<^verbatim>\<open>UnexpectedEof\<close>, so one comparison on
  unbounded positions stands for the two.
\<close>

definition read_n :: "nat \<Rightarrow> byte list rd" where
  "read_n n r =
     (let e = rd_pos r + n
      in if length (rd_bytes r) < e then Some (Err UnexpectedEof)
         else map_option (\<lambda>out. Ok (out, r\<lparr>rd_pos := e\<rparr>)) (byte_slice (rd_bytes r) (rd_pos r) e))"

text \<open>\<^verbatim>\<open>from_be_bytes\<close> and the two's complement reading of an unsigned value.\<close>

definition from_be_bytes :: "byte list \<Rightarrow> nat" where
  "from_be_bytes bs = foldl (\<lambda>acc b. acc * 256 + unat b) 0 bs"

definition as_signed :: "nat \<Rightarrow> nat \<Rightarrow> int" where
  "as_signed w n = (if n < 2 ^ (w - 1) then int n else int n - 2 ^ w)"

definition read_u1 :: "byte rd" where
  "read_u1 r =
     (case vec_get (rd_bytes r) (rd_pos r) of
        None \<Rightarrow> Some (Err UnexpectedEof)
      | Some b \<Rightarrow> Some (Ok (b, r\<lparr>rd_pos := rd_pos r + 1\<rparr>)))"

definition read_u2 :: "nat rd" where
  "read_u2 = pbind (read_n 2) (\<lambda>bs. preturn (from_be_bytes bs))"

definition read_u4 :: "nat rd" where
  "read_u4 = pbind (read_n 4) (\<lambda>bs. preturn (from_be_bytes bs))"

definition read_i4 :: "int rd" where
  "read_i4 = pbind read_u4 (\<lambda>n. preturn (as_signed 32 n))"

definition read_i8 :: "int rd" where
  "read_i8 = pbind (read_n 8) (\<lambda>bs. preturn (as_signed 64 (from_be_bytes bs)))"

definition read_bytes :: "nat \<Rightarrow> byte list rd" where
  "read_bytes n r =
     (let e = rd_pos r + n
      in if length (rd_bytes r) < e then Some (Err UnexpectedEof)
         else map_option (\<lambda>out. Ok (out, r\<lparr>rd_pos := e\<rparr>)) (byte_slice (rd_bytes r) (rd_pos r) e))"

definition ensure_empty :: "unit rd" where
  "ensure_empty r =
     (if remaining r = 0 then Some (Ok ((), r)) else Some (Err (OtherError ''unexpected trailing bytes'')))"

text \<open>
  A parser run on a sub-slice by its own reader, as the attribute parsers do; the outer
  reader stays where it is.
\<close>

definition sub_reader :: "byte list \<Rightarrow> 'a rd \<Rightarrow> 'a rd" where
  "sub_reader bs p r = map_option (map_sum id (\<lambda>(x, _). (x, r))) (p (reader_new bs))"

lemmas reader_defs = reader_new_def remaining_def byte_slice_def read_n_def
  from_be_bytes_def as_signed_def read_u1_def read_u2_def read_u4_def read_i4_def read_i8_def
  read_bytes_def ensure_empty_def sub_reader_def

declare reader_defs [nova_eval]

section \<open>What the reader reads\<close>

text \<open>The cursor after \<open>pre\<close> with \<open>rest\<close> ahead.\<close>

definition rd_at :: "byte list \<Rightarrow> byte list \<Rightarrow> reader" where
  "rd_at pre rest = \<lparr>rd_bytes = pre @ rest, rd_pos = length pre\<rparr>"

lemma rd_at_simps [simp]:
  "rd_bytes (rd_at pre rest) = pre @ rest"
  "rd_pos (rd_at pre rest) = length pre"
  "rd_at pre rest\<lparr>rd_pos := n\<rparr> = \<lparr>rd_bytes = pre @ rest, rd_pos = n\<rparr>"
  by (simp_all add: rd_at_def)

lemma reader_new_at: "reader_new bs = rd_at [] bs"
  by (simp add: reader_new_def rd_at_def)

lemma rd_at_inj: "rd_at pre rest = rd_at pre' rest' \<longleftrightarrow> pre = pre' \<and> rest = rest'"
  by (auto simp: rd_at_def)

text \<open>The big-endian bytes of a value in \<open>k\<close> bytes.\<close>

primrec be_bytes :: "nat \<Rightarrow> nat \<Rightarrow> byte list" where
  "be_bytes 0 n = []"
| "be_bytes (Suc k) n = be_bytes k (n div 256) @ [word_of_nat (n mod 256)]"

lemma length_be_bytes [simp]: "length (be_bytes k n) = k"
  by (induction k arbitrary: n) auto

lemma from_be_bytes_snoc: "from_be_bytes (bs @ [b]) = from_be_bytes bs * 256 + unat b"
  by (simp add: from_be_bytes_def)

lemma unat_byte_lt [simp]: "unat (b :: byte) < 256"
  using unsigned_less [of b, where ?'a = nat] by simp

lemma word_of_nat_byte [simp]: "word_of_nat (unat b mod 256) = (b :: byte)"
  by simp

lemma from_be_bytes_be: "n < 256 ^ k \<Longrightarrow> from_be_bytes (be_bytes k n) = n"
proof (induction k arbitrary: n)
  case 0
  then show ?case by (simp add: from_be_bytes_def)
next
  case (Suc k)
  then have "n div 256 < 256 ^ k" by (simp add: less_mult_imp_div_less mult.commute)
  with Suc.IH show ?case
    by (simp add: from_be_bytes_snoc unat_of_nat)
qed

lemma be_bytes_from_be: "be_bytes (length bs) (from_be_bytes bs) = bs"
proof (induction bs rule: rev_induct)
  case (snoc b bs)
  have "(from_be_bytes bs * 256 + unat b) div 256 = from_be_bytes bs"
    "(from_be_bytes bs * 256 + unat b) mod 256 = unat b"
    by simp_all
  with snoc show ?case by (simp add: from_be_bytes_snoc)
qed simp

lemma from_be_bytes_lt: "from_be_bytes bs < 256 ^ length bs"
proof (induction bs rule: rev_induct)
  case (snoc b bs)
  have "unat b < 256" by simp
  with snoc have "from_be_bytes bs * 256 + unat b < 256 * 256 ^ length bs" by linarith
  then show ?case by (simp add: from_be_bytes_snoc)
qed (simp add: from_be_bytes_def)

lemma from_be_bytes_iff:
  "length bs = k \<Longrightarrow> n = from_be_bytes bs \<longleftrightarrow> n < 256 ^ k \<and> bs = be_bytes k n"
  using be_bytes_from_be from_be_bytes_be from_be_bytes_lt by metis

section \<open>Every primitive reads exactly its layout\<close>

lemma exact_read_n: "exact rd_at (read_n n) (\<lambda>x w. x = w \<and> length w = n)"
proof (rule exactI)
  show "run_at rd_at (read_n n) pre rest (\<lambda>x w _. x = w \<and> length w = n)" for pre rest
  proof (cases "n \<le> length rest")
    case True
    then show ?thesis
      by (intro run_at_Ok [where w = "take n rest" and rest' = "drop n rest"])
        (simp_all add: read_n_def byte_slice_def rd_at_def)
  next
    case False
    then show ?thesis by (intro run_at_Err) (simp add: read_n_def)
  qed
  show "decodes rd_at (read_n n) w x rest" if "x = w \<and> length w = n" for x w rest
    using that by (simp add: decodes_def read_n_def byte_slice_def rd_at_def)
qed

lemma read_bytes_eq: "read_bytes = read_n"
  by (rule ext, rule ext) (simp add: read_bytes_def read_n_def)

lemma exact_read_bytes: "exact rd_at (read_bytes n) (\<lambda>x w. x = w \<and> length w = n)"
  by (simp add: read_bytes_eq exact_read_n)

lemma exact_read_u1: "exact rd_at read_u1 (\<lambda>x w. w = [x])"
proof (rule exactI)
  show "run_at rd_at read_u1 pre rest (\<lambda>x w _. w = [x])" for pre rest
  proof (cases rest)
    case Nil
    then show ?thesis by (intro run_at_Err) (simp add: read_u1_def vec_get_def)
  next
    case (Cons b rest')
    then show ?thesis
      by (intro run_at_Ok [where w = "[b]"]) (simp_all add: read_u1_def vec_get_def rd_at_def)
  qed
  show "decodes rd_at read_u1 w x rest" if "w = [x]" for x w rest
    using that by (simp add: decodes_def read_u1_def vec_get_def rd_at_def)
qed

lemma exact_map:
  assumes "exact mk m G" "\<And>y w. H y w \<longleftrightarrow> (\<exists>x. G x w \<and> y = f x)"
  shows "exact mk (pbind m (\<lambda>x. preturn (f x))) H"
  by (rule exact_cong [OF exact_bind [OF assms(1) exact_return]]) (auto simp: assms(2))

lemma exact_read_u2: "exact rd_at read_u2 (\<lambda>n w. n < 65536 \<and> w = be_bytes 2 n)"
  unfolding read_u2_def
  by (rule exact_map [OF exact_read_n]) (auto simp: from_be_bytes_iff)

lemma exact_read_u4: "exact rd_at read_u4 (\<lambda>n w. n < 2 ^ 32 \<and> w = be_bytes 4 n)"
  unfolding read_u4_def
  by (rule exact_map [OF exact_read_n]) (auto simp: from_be_bytes_iff)

lemma exact_read_i4:
  "exact rd_at read_i4 (\<lambda>v w. \<exists>n < 2 ^ 32. v = as_signed 32 n \<and> w = be_bytes 4 n)"
  unfolding read_i4_def by (rule exact_map [OF exact_read_u4]) auto

lemma exact_read_i8:
  "exact rd_at read_i8 (\<lambda>v w. \<exists>n < 2 ^ 64. v = as_signed 64 n \<and> w = be_bytes 8 n)"
  unfolding read_i8_def
proof (rule exact_map [OF exact_read_n])
  fix v w
  have "(\<exists>n < 2 ^ 64. v = as_signed 64 n \<and> w = be_bytes 8 n) \<longleftrightarrow>
      length w = 8 \<and> v = as_signed 64 (from_be_bytes w)" (is "?l \<longleftrightarrow> ?r")
  proof
    assume ?l
    then show ?r using from_be_bytes_be [of _ 8] by auto
  next
    assume ?r
    then show ?l using be_bytes_from_be [of w] from_be_bytes_lt [of w]
      by (intro exI [of _ "from_be_bytes w"]) simp
  qed
  then show "?l \<longleftrightarrow> (\<exists>x. (x = w \<and> length w = 8) \<and> v = as_signed 64 (from_be_bytes x))" by blast
qed

lemma ensure_empty_at:
  "ensure_empty (rd_at pre rest) =
     (if rest = [] then Some (Ok ((), rd_at pre rest)) else Some (Err (OtherError ''unexpected trailing bytes'')))"
  by (simp add: ensure_empty_def remaining_def)

text \<open>A parser that must use up its slice: the whole slice is in its language.\<close>

definition whole :: "'a rd \<Rightarrow> 'a rd" where
  "whole p = pbind p (\<lambda>x. pbind ensure_empty (\<lambda>_. preturn x))"

lemma whole_at:
  assumes "exact rd_at p G"
  shows "(\<exists>e. whole p (rd_at [] bs) = Some (Err e) \<and> (\<forall>x. \<not> G x bs)) \<or>
    (\<exists>x. whole p (rd_at [] bs) = Some (Ok (x, rd_at bs [])) \<and> (\<forall>y. G y bs \<longleftrightarrow> y = x))"
proof -
  have none: "\<not> G x bs" if "\<And>s'. p (rd_at [] bs) \<noteq> Some (Ok (x, rd_at bs []))" for x
    using exact_iff [OF assms, of "[]" bs x "rd_at bs []"] that
    by (auto simp: rd_at_inj)
  from exact_run [OF assms, of "[]" bs] show ?thesis
  proof (cases rule: run_atE)
    case (1 e)
    then show ?thesis using none by (simp add: whole_def)
  next
    case (2 x w rest')
    show ?thesis
    proof (cases "rest' = []")
      case True
      with 2 have "whole p (rd_at [] bs) = Some (Ok (x, rd_at bs []))"
        by (simp add: whole_def ensure_empty_at)
      moreover have "G y bs \<longleftrightarrow> y = x" for y
        using none [of y] 2 True by auto
      ultimately show ?thesis by blast
    next
      case False
      with 2 have "\<exists>e. whole p (rd_at [] bs) = Some (Err e)"
        by (simp add: whole_def ensure_empty_at)
      moreover have "\<not> G y bs" for y
        using none [of y] 2 False by (auto simp: rd_at_inj)
      ultimately show ?thesis by blast
    qed
  qed
qed

lemma exact_sub_reader:
  assumes "exact rd_at p G"
  shows "exact rd_at (sub_reader bs (whole p)) (\<lambda>x w. w = [] \<and> G x bs)"
proof (rule exactI)
  show "run_at rd_at (sub_reader bs (whole p)) pre rest (\<lambda>x w _. w = [] \<and> G x bs)" for pre rest
    using whole_at [OF assms, of bs]
  proof
    assume "\<exists>e. whole p (rd_at [] bs) = Some (Err e) \<and> (\<forall>x. \<not> G x bs)"
    then show ?thesis by (auto simp: sub_reader_def reader_new_at intro: run_at_Err)
  next
    assume "\<exists>x. whole p (rd_at [] bs) = Some (Ok (x, rd_at bs [])) \<and> (\<forall>y. G y bs \<longleftrightarrow> y = x)"
    then show ?thesis
      by (auto simp: sub_reader_def reader_new_at intro!: run_at_Ok [where w = "[]"])
  qed
  show "decodes rd_at (sub_reader bs (whole p)) w x rest" if "w = [] \<and> G x bs" for x w rest
    using whole_at [OF assms, of bs] that
    by (auto simp: decodes_def sub_reader_def reader_new_at)
qed

end
