(* ===== verification/Rust_Str_Ops.thy ===== *)
theory Rust_Str_Ops
  imports Rust_Str
begin

text \<open>
  Further operations of Rust's \<^verbatim>\<open>str\<close> that the text formats use: character
  and string literals, the slice from an offset on, \<^verbatim>\<open>find\<close>,
  \<^verbatim>\<open>strip_prefix\<close>, \<^verbatim>\<open>strip_suffix\<close>,
  \<^verbatim>\<open>replace\<close> of a character and \<^verbatim>\<open>join\<close>.
\<close>

section \<open>Literals\<close>

abbreviation rc :: "char \<Rightarrow> rchar" where "rc \<equiv> of_char"

definition rs :: "string \<Rightarrow> rstr" where "rs s = map of_char s"

declare rs_def [nova_eval]

text \<open>Comparing the first byte with an ASCII literal compares the first character with it.\<close>

lemma first_byte: "b \<in> set (take 1 (utf8_encode c)) \<Longrightarrow> k < 0x80 \<Longrightarrow> b = k \<longleftrightarrow> c = k"
  by (auto simp: utf8_encode_def split: if_splits)

lemma as_bytes_cases:
  obtains "s = []" "as_bytes s = []"
  | c s' b bs where "s = c # s'" "as_bytes s = b # bs" "\<And>k. k < 0x80 \<Longrightarrow> b = k \<longleftrightarrow> c = k"
proof (cases s)
  case Nil
  then show thesis using that(1) by simp
next
  case (Cons c s')
  obtain b bs where b: "utf8_encode c = b # bs"
    by (cases "utf8_encode c") (auto simp: utf8_encode_def split: if_splits)
  show thesis
    by (rule that(2) [of c s' b "bs @ as_bytes s'"]) (use b first_byte [of b c] Cons in auto)
qed

section \<open>Slices and searches\<close>

definition str_from :: "rstr \<Rightarrow> nat \<Rightarrow> rstr option" where
  "str_from s i = map_option snd (split_at_byte s i)"

lemma str_from_append [simp]: "str_from (a @ b) (str_len a) = Some b"
  by (simp add: str_from_def)

lemma str_from_all [simp]: "str_from s (str_len s) = Some []"
  using str_from_append [of s "[]"] by (simp del: str_from_append)

lemma str_from_0 [simp]: "str_from s 0 = Some s"
  using str_from_append [of "[]" s] by (simp del: str_from_append)

lemma str_from_Some_iff: "str_from s i = Some b \<longleftrightarrow> (\<exists>a. s = a @ b \<and> str_len a = i)"
  by (auto simp: str_from_def split_at_byte_Some_iff)

lemma str_from_ascii: "c < 0x80 \<Longrightarrow> str_from (c # s) (Suc 0) = Some s"
  using str_from_append [of "[c]" s] by (simp add: len_utf8_def del: str_from_append)

fun str_find :: "rchar \<Rightarrow> rstr \<Rightarrow> nat option" where
  "str_find d [] = None"
| "str_find d (c # s) = (if c = d then Some 0 else map_option ((+) (len_utf8 c)) (str_find d s))"

lemma str_find_None_iff: "str_find d s = None \<longleftrightarrow> d \<notin> set s"
  by (induction s) auto

lemma str_find_Some_iff:
  "str_find d s = Some i \<longleftrightarrow> (\<exists>a b. s = a @ d # b \<and> d \<notin> set a \<and> i = str_len a)"
proof (induction s arbitrary: i)
  case (Cons c s)
  show ?case
  proof (cases "c = d")
    case True
    have "(\<exists>a b. c # s = a @ d # b \<and> d \<notin> set a \<and> i = str_len a) \<longleftrightarrow> i = 0"
      using True by (auto simp: Cons_eq_append_conv)
    with True show ?thesis by auto
  next
    case False
    have "(\<exists>a b. c # s = a @ d # b \<and> d \<notin> set a \<and> i = str_len a) \<longleftrightarrow>
        (\<exists>a b. s = a @ d # b \<and> d \<notin> set a \<and> i = len_utf8 c + str_len a)" (is "?l \<longleftrightarrow> ?r")
    proof
      assume ?l
      with False show ?r by (auto simp: Cons_eq_append_conv)
    next
      assume ?r
      then obtain a b where "s = a @ d # b" "d \<notin> set a" "i = len_utf8 c + str_len a" by blast
      with False show ?l by (intro exI [of _ "c # a"] exI [of _ b]) simp
    qed
    moreover have "str_find d (c # s) = Some i \<longleftrightarrow> (\<exists>j. str_find d s = Some j \<and> i = len_utf8 c + j)"
      using False by auto
    ultimately show ?thesis by (simp only: Cons.IH) blast
  qed
qed simp

lemma split_char: "d \<in> set s \<Longrightarrow> s = takeWhile (\<lambda>x. x \<noteq> d) s @ d # tl (dropWhile (\<lambda>x. x \<noteq> d) s)"
  by (induction s) auto

definition strip_prefix_char :: "rchar \<Rightarrow> rstr \<Rightarrow> rstr option" where
  "strip_prefix_char c s = (case s of d # s' \<Rightarrow> if d = c then Some s' else None | [] \<Rightarrow> None)"

definition strip_suffix_char :: "rchar \<Rightarrow> rstr \<Rightarrow> rstr option" where
  "strip_suffix_char c s = (if s \<noteq> [] \<and> last s = c then Some (butlast s) else None)"

definition replace_char :: "rchar \<Rightarrow> rchar \<Rightarrow> rstr \<Rightarrow> rstr" where
  "replace_char a b s = map (\<lambda>c. if c = a then b else c) s"

fun str_join :: "rstr \<Rightarrow> rstr list \<Rightarrow> rstr" where
  "str_join sep [] = []"
| "str_join sep [x] = x"
| "str_join sep (x # y # xs) = x @ sep @ str_join sep (y # xs)"

declare str_from_def [nova_eval] strip_prefix_char_def [nova_eval] strip_suffix_char_def [nova_eval]
  replace_char_def [nova_eval]

end
