(* ===== verification/Class_Descriptor.thy ===== *)
theory Class_Descriptor
  imports Class_Reader Rust_Str_Ops
begin

text \<open>
  Field and method descriptors (\<^verbatim>\<open>nova-classfile/src/descriptor.rs\<close>), their
  parsers, and the proof that a descriptor is accepted exactly when it is the printed form of
  the type that is returned.
\<close>

section \<open>Types\<close>

datatype base_type = BtByte | BtChar | BtDouble | BtFloat | BtInt | BtLong | BtShort | BtBoolean

datatype field_type = FtBase base_type | FtObject rstr | FtArray field_type

datatype return_type = RtVoid | RtType field_type

record method_descriptor =
  md_params :: "field_type list"
  md_return_type :: return_type

section \<open>Parsers\<close>

text \<open>The eight arms that match one letter.\<close>

definition base_type_of :: "nat \<Rightarrow> base_type option" where
  "base_type_of b =
     (if b = rc CHR ''B'' then Some BtByte
      else if b = rc CHR ''C'' then Some BtChar
      else if b = rc CHR ''D'' then Some BtDouble
      else if b = rc CHR ''F'' then Some BtFloat
      else if b = rc CHR ''I'' then Some BtInt
      else if b = rc CHR ''J'' then Some BtLong
      else if b = rc CHR ''S'' then Some BtShort
      else if b = rc CHR ''Z'' then Some BtBoolean
      else None)"

function parse_field_type :: "rstr \<Rightarrow> (cf_error, field_type \<times> rstr) result option" where
  "parse_field_type input =
     (case as_bytes input of
        [] \<Rightarrow> Some (Err (InvalidDescriptor input))
      | b # _ \<Rightarrow>
          (case base_type_of b of
             Some t \<Rightarrow> map_option (\<lambda>rest. Ok (FtBase t, rest)) (str_from input 1)
           | None \<Rightarrow>
               if b = rc CHR ''L'' then
                 (case str_find (rc CHR '';'') input of
                    Some e \<Rightarrow>
                      Option.bind (str_slice input 1 e) (\<lambda>name.
                        map_option (\<lambda>rest. Ok (FtObject name, rest)) (str_from input (e + 1)))
                  | None \<Rightarrow> Some (Err (InvalidDescriptor input)))
               else if b = rc CHR ''['' then
                 (case str_from input 1 of
                    None \<Rightarrow> None
                  | Some input' \<Rightarrow>
                      map_option (\<lambda>r. res_bind r (\<lambda>(component, rest). Ok (FtArray component, rest)))
                        (parse_field_type input'))
               else Some (Err (InvalidDescriptor input))))"
  by pat_completeness auto
termination
proof (relation "measure length")
  fix input b bs input'
  assume "as_bytes input = b # bs" "str_from input 1 = Some input'"
  then obtain a where "input = a @ input'" "str_len a = 1" by (auto simp: str_from_Some_iff)
  then show "(input', input) \<in> measure length" by (cases a) auto
qed simp

declare parse_field_type.simps [simp del]

definition parse_field_descriptor :: "rstr \<Rightarrow> (cf_error, field_type) result option" where
  "parse_field_descriptor desc =
     map_option (\<lambda>r. res_bind r (\<lambda>(ty, rest).
         if rest \<noteq> [] then Err (InvalidDescriptor desc) else Ok ty))
       (parse_field_type desc)"

text \<open>
  The parameter loop of \<^verbatim>\<open>parse_method_descriptor\<close>: the byte index and the
  parameters so far; it ends at the closing parenthesis or at the end of the string.
\<close>

partial_function (option) params_loop ::
  "rstr \<Rightarrow> nat \<Rightarrow> field_type list \<Rightarrow> (cf_error, nat \<times> field_type list) result option" where
  "params_loop desc idx params =
     (if idx < str_len desc then
        if as_bytes desc ! idx = rc CHR '')'' then Some (Ok (idx + 1, params))
        else
          Option.bind (str_from desc idx) (\<lambda>input.
          Option.bind (parse_field_type input) (\<lambda>r.
            case r of
              Inl e \<Rightarrow> Some (Err e)
            | Inr (param, rest) \<Rightarrow> params_loop desc (str_len desc - str_len rest) (params @ [param])))
      else Some (Ok (idx, params)))"

definition parse_return :: "rstr \<Rightarrow> (cf_error, return_type \<times> rstr) result option" where
  "parse_return return_part =
     (case strip_prefix_char (rc CHR ''V'') return_part of
        Some rest \<Rightarrow> Some (Ok (RtVoid, rest))
      | None \<Rightarrow>
          map_option (\<lambda>r. res_bind r (\<lambda>(ty, rest). Ok (RtType ty, rest))) (parse_field_type return_part))"

definition parse_method_descriptor :: "rstr \<Rightarrow> (cf_error, method_descriptor) result option" where
  "parse_method_descriptor desc =
     (if desc = [] \<or> hd desc \<noteq> rc CHR ''('' then Some (Err (InvalidDescriptor desc))
      else
        Option.bind (params_loop desc 1 []) (\<lambda>r. case r of
            Inl e \<Rightarrow> Some (Err e)
          | Inr (idx, params) \<Rightarrow>
              if idx > str_len desc then Some (Err (InvalidDescriptor desc))
              else
                Option.bind (str_from desc idx) (\<lambda>return_part.
                  if return_part = [] then Some (Err (InvalidDescriptor desc))
                  else
                    map_option (\<lambda>r. res_bind r (\<lambda>(return_type, rest).
                        if rest \<noteq> [] then Err (InvalidDescriptor desc)
                        else Ok \<lparr>md_params = params, md_return_type = return_type\<rparr>))
                      (parse_return return_part))))"

declare base_type_of_def [nova_eval] parse_field_type.simps [nova_eval] parse_field_descriptor_def [nova_eval]
  params_loop.simps [nova_eval] parse_return_def [nova_eval] parse_method_descriptor_def [nova_eval]

section \<open>The grammar\<close>

fun print_base :: "base_type \<Rightarrow> rchar" where
  "print_base BtByte = rc CHR ''B''"
| "print_base BtChar = rc CHR ''C''"
| "print_base BtDouble = rc CHR ''D''"
| "print_base BtFloat = rc CHR ''F''"
| "print_base BtInt = rc CHR ''I''"
| "print_base BtLong = rc CHR ''J''"
| "print_base BtShort = rc CHR ''S''"
| "print_base BtBoolean = rc CHR ''Z''"

fun print_field :: "field_type \<Rightarrow> rstr" where
  "print_field (FtBase t) = [print_base t]"
| "print_field (FtObject name) = rc CHR ''L'' # name @ [rc CHR '';'']"
| "print_field (FtArray t) = rc CHR ''['' # print_field t"

fun field_ok :: "field_type \<Rightarrow> bool" where
  "field_ok (FtBase _) = True"
| "field_ok (FtObject name) = (rc CHR '';'' \<notin> set name)"
| "field_ok (FtArray t) = field_ok t"

fun print_return :: "return_type \<Rightarrow> rstr" where
  "print_return RtVoid = [rc CHR ''V'']"
| "print_return (RtType t) = print_field t"

fun return_ok :: "return_type \<Rightarrow> bool" where
  "return_ok RtVoid = True"
| "return_ok (RtType t) = field_ok t"

definition print_method :: "method_descriptor \<Rightarrow> rstr" where
  "print_method md =
     rc CHR ''('' # concat (map print_field (md_params md)) @ rc CHR '')'' # print_return (md_return_type md)"

definition method_ok :: "method_descriptor \<Rightarrow> bool" where
  "method_ok md \<longleftrightarrow> list_all field_ok (md_params md) \<and> return_ok (md_return_type md)"

declare print_method_def [nova_eval] method_ok_def [nova_eval]

section \<open>Accepted exactly when printed\<close>

lemma base_type_of_Some_iff: "base_type_of b = Some t \<longleftrightarrow> b = print_base t"
  by (cases t) (auto simp: base_type_of_def)

lemma print_base_ascii [simp]: "print_base t < 0x80"
  by (cases t) auto

lemma print_base_neq: "print_base t \<noteq> rc CHR '')''" "print_base t \<noteq> rc CHR ''V''"
  by (cases t; simp)+

lemma print_field_neq_Nil [simp]: "print_field t \<noteq> []"
  by (cases t) auto

text \<open>One character of lookahead decides the arm; no slice leaves the string or splits a character.\<close>

lemma parse_field_type_Cons:
  "parse_field_type (c # s) =
     (case base_type_of c of
        Some t \<Rightarrow> Some (Ok (FtBase t, s))
      | None \<Rightarrow>
          if c = rc CHR ''L'' then
            (if rc CHR '';'' \<in> set s then
               Some (Ok (FtObject (takeWhile (\<lambda>x. x \<noteq> rc CHR '';'') s), tl (dropWhile (\<lambda>x. x \<noteq> rc CHR '';'') s)))
             else Some (Err (InvalidDescriptor (c # s))))
          else if c = rc CHR ''['' then
            map_option (\<lambda>r. res_bind r (\<lambda>(component, rest). Ok (FtArray component, rest))) (parse_field_type s)
          else Some (Err (InvalidDescriptor (c # s))))"
proof -
  obtain b bs where b: "as_bytes (c # s) = b # bs" "\<And>k. k < 0x80 \<Longrightarrow> b = k \<longleftrightarrow> c = k"
    by (rule as_bytes_cases [of "c # s"]) auto
  have base: "base_type_of b = base_type_of c"
    using b(2) by (simp add: base_type_of_def)
  note unfold = parse_field_type.simps [of "c # s", unfolded b(1) list.case base]
  show ?thesis
  proof (cases "base_type_of c")
    case (Some t)
    then have "c < 0x80" by (simp add: base_type_of_Some_iff)
    with Some show ?thesis unfolding unfold by (simp add: str_from_ascii)
  next
    case none: None
    show ?thesis
    proof (cases "c = rc CHR ''L''")
      case True
      show ?thesis
      proof (cases "rc CHR '';'' \<in> set s")
        case False
        then have "str_find (rc CHR '';'') (c # s) = None" using True by (simp add: str_find_None_iff)
        with False True none b(2) show ?thesis unfolding unfold by simp
      next
        case semi: True
        then obtain n r where n: "s = n @ rc CHR '';'' # r" "rc CHR '';'' \<notin> set n"
          by (meson split_list_first)
        have len: "str_len [c] = 1" "str_len (c # n @ [rc CHR '';'']) = str_len (c # n) + 1"
          using True by (simp_all add: len_utf8_def)
        have "str_find (rc CHR '';'') (c # s) = Some (str_len (c # n))"
          using n True unfolding str_find_Some_iff by (intro exI [of _ "c # n"] exI [of _ r]) simp
        moreover have "str_slice (c # s) 1 (str_len (c # n)) = Some n"
          using n len unfolding str_slice_Some_iff
          by (intro exI [of _ "[c]"] exI [of _ "rc CHR '';'' # r"]) simp
        moreover have "str_from (c # s) (str_len (c # n) + 1) = Some r"
          using n len unfolding str_from_Some_iff by (intro exI [of _ "c # n @ [rc CHR '';'']"]) simp
        moreover have "takeWhile (\<lambda>x. x \<noteq> rc CHR '';'') s = n"
            "dropWhile (\<lambda>x. x \<noteq> rc CHR '';'') s = rc CHR '';'' # r"
          using n by (auto simp: takeWhile_append dropWhile_append)
        ultimately show ?thesis unfolding unfold using True none b(2) semi by simp
      qed
    next
      case False
      with none b(2) show ?thesis unfolding unfold by (simp add: str_from_ascii)
    qed
  qed
qed

lemma parse_field_type_Nil: "parse_field_type [] = Some (Err (InvalidDescriptor []))"
  by (simp add: parse_field_type.simps)

text \<open>The type parser returns, and consumes exactly the printed form of what it returns.\<close>

lemma parse_field_type_total: "\<exists>r. parse_field_type s = Some r"
proof (induction s rule: length_induct)
  case (1 s)
  show ?case
  proof (cases s)
    case (Cons c s')
    with 1 have "\<exists>r. parse_field_type s' = Some r" by simp
    with Cons show ?thesis by (auto simp: parse_field_type_Cons split: option.splits)
  qed (simp add: parse_field_type_Nil)
qed

lemma parse_field_type_sound:
  "parse_field_type s = Some (Ok (t, rest)) \<Longrightarrow> s = print_field t @ rest \<and> field_ok t"
proof (induction t arbitrary: s)
  case (FtBase b)
  then show ?case
    by (cases s) (auto simp: parse_field_type_Nil parse_field_type_Cons base_type_of_Some_iff res_bind_Ok_iff
        split: option.splits if_splits)
next
  case (FtObject n)
  then obtain s' where s: "s = rc CHR ''L'' # s'" "rc CHR '';'' \<in> set s'"
      "n = takeWhile (\<lambda>x. x \<noteq> rc CHR '';'') s'" "rest = tl (dropWhile (\<lambda>x. x \<noteq> rc CHR '';'') s')"
    by (cases s) (auto simp: parse_field_type_Nil parse_field_type_Cons res_bind_Ok_iff
        split: option.splits if_splits)
  then have eq: "s' = n @ rc CHR '';'' # rest"
    using split_char [of "rc CHR '';''" s'] by simp
  have "rc CHR '';'' \<notin> set n" unfolding s(3) by (auto dest: set_takeWhileD)
  with s(1) eq show ?case by simp
next
  case (FtArray t)
  then obtain s' where s: "s = rc CHR ''['' # s'" "parse_field_type s' = Some (Ok (t, rest))"
    by (cases s) (auto simp: parse_field_type_Nil parse_field_type_Cons res_bind_Ok_iff
        split: option.splits if_splits)
  with FtArray.IH [OF s(2)] show ?case by simp
qed

lemma parse_field_type_complete: "field_ok t \<Longrightarrow> parse_field_type (print_field t @ rest) = Some (Ok (t, rest))"
proof (induction t)
  case (FtBase b)
  have "base_type_of (print_base b) = Some b" by (simp add: base_type_of_Some_iff)
  then show ?case by (simp add: parse_field_type_Cons)
next
  case (FtObject n)
  then show ?case
    by (auto simp: parse_field_type_Cons base_type_of_def takeWhile_append dropWhile_append)
next
  case (FtArray t)
  then show ?case by (simp add: parse_field_type_Cons base_type_of_def)
qed

lemma params_loop_unfold:
  "params_loop (pre @ rest) (str_len pre) params =
     (case rest of
        [] \<Rightarrow> Some (Ok (str_len pre, params))
      | c # rest' \<Rightarrow>
          if c = rc CHR '')'' then Some (Ok (str_len (pre @ [c]), params))
          else
            (case parse_field_type rest of
               Some (Inr (param, r)) \<Rightarrow>
                 params_loop (pre @ rest) (str_len (pre @ rest) - str_len r) (params @ [param])
             | Some (Inl e) \<Rightarrow> Some (Err e)
             | None \<Rightarrow> None))"
proof (cases rest)
  case Nil
  then show ?thesis by (subst params_loop.simps) simp
next
  case (Cons c rest')
  obtain b bs where b: "as_bytes rest = b # bs" "\<And>k. k < 0x80 \<Longrightarrow> b = k \<longleftrightarrow> c = k"
    by (rule as_bytes_cases [of rest]) (use Cons in auto)
  have nth: "as_bytes (pre @ rest) ! str_len pre = b"
    using b(1) by (simp add: nth_append)
  have lt: "str_len pre < str_len (pre @ rest)" by (simp add: Cons)
  have "params_loop (pre @ rest) (str_len pre) params =
      (if b = rc CHR '')'' then Some (Ok (str_len pre + 1, params))
       else Option.bind (parse_field_type rest) (\<lambda>r. case r of
           Inl e \<Rightarrow> Some (Err e)
         | Inr (param, r) \<Rightarrow>
             params_loop (pre @ rest) (str_len (pre @ rest) - str_len r) (params @ [param])))"
    by (subst params_loop.simps, subst nth) (simp only: lt if_True str_from_append Option.bind.simps)
  moreover have "b = rc CHR '')'' \<longleftrightarrow> c = rc CHR '')''" by (rule b(2)) simp
  ultimately show ?thesis using Cons
    by (auto simp: len_utf8_def split: option.splits sum.splits)
qed

lemma params_loop_step:
  assumes "parse_field_type rest = Some (Ok (t, q))" "hd rest \<noteq> rc CHR '')''"
  shows "params_loop (pre @ rest) (str_len pre) params =
    params_loop (pre @ rest) (str_len (pre @ print_field t)) (params @ [t])"
proof -
  have eq: "rest = print_field t @ q" using parse_field_type_sound [OF assms(1)] by simp
  from eq have "rest \<noteq> []" by simp
  then obtain c rest' where c: "rest = c # rest'" by (cases rest) auto
  have len: "str_len (pre @ rest) - str_len q = str_len (pre @ print_field t)" by (simp add: eq)
  show ?thesis
    by (subst params_loop_unfold) (use assms c len in \<open>simp del: str_len_simps\<close>)
qed

lemma params_loop_run:
  "\<exists>r. params_loop (pre @ rest) (str_len pre) params = Some r \<and>
     (\<forall>idx ps. r = Ok (idx, ps) \<longrightarrow>
       (\<exists>ts tail. ps = params @ ts \<and> list_all field_ok ts \<and> rest = concat (map print_field ts) @ tail \<and>
          (tail = [] \<and> idx = str_len (pre @ rest) \<or>
           (\<exists>tail'. tail = rc CHR '')'' # tail' \<and>
              pre @ rest = (pre @ concat (map print_field ts) @ [rc CHR '')'']) @ tail' \<and>
              idx = str_len (pre @ concat (map print_field ts) @ [rc CHR '')''])))))"
proof (induction "length rest" arbitrary: pre rest params rule: less_induct)
  case less
  show ?case
  proof (cases rest)
    case Nil
    then show ?thesis by (subst params_loop_unfold) (auto intro!: exI [of _ "[]"])
  next
    case (Cons c rest')
    show ?thesis
    proof (cases "c = rc CHR '')''")
      case True
      with Cons show ?thesis by (subst params_loop_unfold) (auto intro!: exI [of _ "[]"])
    next
      case False
      from parse_field_type_total obtain r where r: "parse_field_type rest = Some r" by blast
      show ?thesis
      proof (cases r)
        case (Inl e)
        with r Cons False show ?thesis by (subst params_loop_unfold) simp
      next
        case (Inr tr)
        obtain t q where tr: "tr = (t, q)" by (cases tr)
        from r Inr tr have t: "rest = print_field t @ q" "field_ok t"
          by (auto dest: parse_field_type_sound)
        have "length q < length rest" using t(1) by simp
        from less.hyps [OF this, of "pre @ print_field t" "params @ [t]"] obtain r' where
          r': "params_loop (pre @ rest) (str_len (pre @ print_field t)) (params @ [t]) = Some r'"
          and ok: "\<And>idx ps. r' = Ok (idx, ps) \<Longrightarrow>
            \<exists>ts tail. ps = (params @ [t]) @ ts \<and> list_all field_ok ts \<and>
              q = concat (map print_field ts) @ tail \<and>
              (tail = [] \<and> idx = str_len ((pre @ print_field t) @ q) \<or>
               (\<exists>tail'. tail = rc CHR '')'' # tail' \<and>
                 (pre @ print_field t) @ q =
                   ((pre @ print_field t) @ concat (map print_field ts) @ [rc CHR '')'']) @ tail' \<and>
                 idx = str_len ((pre @ print_field t) @ concat (map print_field ts) @ [rc CHR '')''])))"
          using t(1) by (auto simp only: append_assoc)
        have "params_loop (pre @ rest) (str_len pre) params = Some r'"
          using r Inr tr Cons False r' params_loop_step [of rest t q pre params] by simp
        moreover have "\<exists>ts tail. ps = params @ ts \<and> list_all field_ok ts \<and>
            rest = concat (map print_field ts) @ tail \<and>
            (tail = [] \<and> idx = str_len (pre @ rest) \<or>
             (\<exists>tail'. tail = rc CHR '')'' # tail' \<and>
                pre @ rest = (pre @ concat (map print_field ts) @ [rc CHR '')'']) @ tail' \<and>
                idx = str_len (pre @ concat (map print_field ts) @ [rc CHR '')''])))"
          if res: "r' = Ok (idx, ps)" for idx ps
        proof -
          from ok [OF res] obtain ts tail where "ps = (params @ [t]) @ ts" "list_all field_ok ts"
              "q = concat (map print_field ts) @ tail"
              "tail = [] \<and> idx = str_len ((pre @ print_field t) @ q) \<or>
               (\<exists>tail'. tail = rc CHR '')'' # tail' \<and>
                 (pre @ print_field t) @ q =
                   ((pre @ print_field t) @ concat (map print_field ts) @ [rc CHR '')'']) @ tail' \<and>
                 idx = str_len ((pre @ print_field t) @ concat (map print_field ts) @ [rc CHR '')'']))"
            by blast
          with t show ?thesis by (intro exI [of _ "t # ts"] exI [of _ tail]) auto
        qed
        ultimately show ?thesis by blast
      qed
    qed
  qed
qed

lemma params_loop_complete:
  assumes "list_all field_ok ts"
  shows "params_loop (pre @ concat (map print_field ts) @ rc CHR '')'' # tail) (str_len pre) params =
    Some (Ok (str_len (pre @ concat (map print_field ts) @ [rc CHR '')'']), params @ ts))"
  using assms
proof (induction ts arbitrary: pre params)
  case Nil
  show ?case by (subst params_loop_unfold) simp
next
  case (Cons t ts)
  let ?q = "concat (map print_field ts) @ rc CHR '')'' # tail"
  have "parse_field_type (print_field t @ ?q) = Some (Ok (t, ?q))"
    using Cons.prems by (intro parse_field_type_complete) simp
  then have "params_loop (pre @ print_field t @ ?q) (str_len pre) params =
      params_loop (pre @ print_field t @ ?q) (str_len (pre @ print_field t)) (params @ [t])"
    by (rule params_loop_step) (cases t; simp add: print_base_neq [simplified])
  with Cons.IH [of "pre @ print_field t" "params @ [t]"] Cons.prems show ?case by simp
qed

lemma parse_return_total: "\<exists>r. parse_return s = Some r"
  using parse_field_type_total [of s] by (auto simp: parse_return_def split: option.splits)

lemma parse_return_iff:
  "parse_return s = Some (Ok (t, rest)) \<longleftrightarrow> return_ok t \<and> s = print_return t @ rest"
proof (cases "\<exists>s'. s = rc CHR ''V'' # s'")
  case True
  then obtain s' where s: "s = rc CHR ''V'' # s'" by blast
  have "rc CHR ''V'' # s' \<noteq> print_field u @ rest" for u
    by (cases u) (auto simp: print_base_neq [simplified])
  moreover have "parse_return s = Some (Ok (RtVoid, s'))"
    by (simp add: s parse_return_def strip_prefix_char_def)
  ultimately show ?thesis unfolding s by (cases t) auto
next
  case False
  then have "parse_return s =
      map_option (\<lambda>r. res_bind r (\<lambda>(ty, rest). Ok (RtType ty, rest))) (parse_field_type s)"
    by (auto simp: parse_return_def strip_prefix_char_def split: list.splits)
  then have "parse_return s = Some (Ok (t, rest)) \<longleftrightarrow>
      (\<exists>u. t = RtType u \<and> parse_field_type s = Some (Ok (u, rest)))"
    by (auto simp: res_bind_Ok_iff)
  also have "\<dots> \<longleftrightarrow> (\<exists>u. t = RtType u \<and> s = print_field u @ rest \<and> field_ok u)"
    using parse_field_type_sound parse_field_type_complete by blast
  also have "\<dots> \<longleftrightarrow> return_ok t \<and> s = print_return t @ rest"
    using False by (cases t) auto
  finally show ?thesis .
qed

lemma field_descriptor_parses:
  "(\<exists>r. parse_field_descriptor desc = Some r) \<and>
   (parse_field_descriptor desc = Some (Ok t) \<longleftrightarrow> field_ok t \<and> desc = print_field t)"
proof -
  from parse_field_type_total obtain r where r: "parse_field_type desc = Some r" by blast
  have "parse_field_descriptor desc = Some (Ok t) \<longleftrightarrow> parse_field_type desc = Some (Ok (t, []))"
    unfolding parse_field_descriptor_def r by (cases r) (auto split: if_splits)
  also have "\<dots> \<longleftrightarrow> field_ok t \<and> desc = print_field t"
    using parse_field_type_sound [of desc t "[]"] parse_field_type_complete [of t "[]"] by auto
  finally show ?thesis by (simp add: parse_field_descriptor_def r)
qed

lemma print_return_neq_Nil [simp]: "print_return t \<noteq> []"
  by (cases t) auto

lemma method_descriptor_complete:
  assumes "method_ok md"
  shows "parse_method_descriptor (print_method md) = Some (Ok md)"
proof -
  let ?pre = "rc CHR ''('' # concat (map print_field (md_params md)) @ [rc CHR '')'']"
  have "params_loop (print_method md) 1 [] = Some (Ok (str_len ?pre, md_params md))"
    using params_loop_complete [of "md_params md" "[rc CHR ''('']" "print_return (md_return_type md)" "[]"] assms
    by (simp add: print_method_def method_ok_def len_utf8_def)
  moreover have "str_from (print_method md) (str_len ?pre) = Some (print_return (md_return_type md))"
    using str_from_append [of ?pre "print_return (md_return_type md)"] by (simp add: print_method_def)
  moreover have "parse_return (print_return (md_return_type md)) = Some (Ok (md_return_type md, []))"
    using assms by (simp add: parse_return_iff method_ok_def)
  moreover have "str_len ?pre \<le> str_len (print_method md)" by (simp add: print_method_def)
  moreover have "print_method md \<noteq> []" "hd (print_method md) = rc CHR ''(''"
    by (simp_all add: print_method_def)
  ultimately show ?thesis unfolding parse_method_descriptor_def by simp
qed

lemma method_descriptor_run:
  "\<exists>r. parse_method_descriptor desc = Some r \<and> (\<forall>md. r = Ok md \<longrightarrow> method_ok md \<and> desc = print_method md)"
proof (cases "\<exists>rest. desc = rc CHR ''('' # rest")
  case False
  then have "parse_method_descriptor desc = Some (Err (InvalidDescriptor desc))"
    by (cases desc) (auto simp: parse_method_descriptor_def)
  then show ?thesis by simp
next
  case True
  then obtain rest where rest: "desc = [rc CHR ''(''] @ rest" by auto
  have one: "str_len [rc CHR ''(''] = 1" by (simp add: len_utf8_def)
  note unfold = parse_method_descriptor_def [of desc]
  have start: "\<not> (desc = [] \<or> hd desc \<noteq> rc CHR ''('')" using rest by simp
  from params_loop_run [of "[rc CHR ''('']" rest "[]"] obtain r where
    r: "params_loop desc 1 [] = Some r" and
    ok: "\<And>idx ps. r = Ok (idx, ps) \<Longrightarrow>
       \<exists>ts tail. ps = [] @ ts \<and> list_all field_ok ts \<and> rest = concat (map print_field ts) @ tail \<and>
          (tail = [] \<and> idx = str_len ([rc CHR ''(''] @ rest) \<or>
           (\<exists>tail'. tail = rc CHR '')'' # tail' \<and>
              [rc CHR ''(''] @ rest =
                ([rc CHR ''(''] @ concat (map print_field ts) @ [rc CHR '')'']) @ tail' \<and>
              idx = str_len ([rc CHR ''(''] @ concat (map print_field ts) @ [rc CHR '')''])))"
    unfolding rest one by blast
  show ?thesis
  proof (cases r)
    case (Inl e)
    with r start show ?thesis by (simp add: unfold)
  next
    case (Inr ip)
    obtain idx ps where ip: "ip = (idx, ps)" by (cases ip)
    with Inr ok obtain ts tail where ts: "ps = ts" "list_all field_ok ts"
        "rest = concat (map print_field ts) @ tail"
        and tail: "tail = [] \<and> idx = str_len desc \<or>
           (\<exists>tail'. tail = rc CHR '')'' # tail' \<and>
              desc = ([rc CHR ''(''] @ concat (map print_field ts) @ [rc CHR '')'']) @ tail' \<and>
              idx = str_len ([rc CHR ''(''] @ concat (map print_field ts) @ [rc CHR '')'']))"
      unfolding rest by fastforce
    from tail show ?thesis
    proof (elim disjE conjE exE)
      assume "idx = str_len desc"
      with r start Inr ip show ?thesis by (simp add: unfold)
    next
      fix tail'
      let ?pre = "[rc CHR ''(''] @ concat (map print_field ts) @ [rc CHR '')'']"
      assume desc: "desc = ?pre @ tail'" and idx: "idx = str_len ?pre"
      have from_: "str_from desc idx = Some tail'" unfolding desc idx by (rule str_from_append)
      have le: "\<not> str_len desc < idx" unfolding desc idx by simp
      from parse_return_total obtain q where q: "parse_return tail' = Some q" by blast
      have "parse_method_descriptor desc =
          (if tail' = [] then Some (Err (InvalidDescriptor desc))
           else Some (res_bind q (\<lambda>(return_type, rest).
               if rest \<noteq> [] then Err (InvalidDescriptor desc)
               else Ok \<lparr>md_params = ps, md_return_type = return_type\<rparr>)))"
        using r start Inr ip le from_ q by (simp add: unfold)
      moreover have "method_ok md \<and> desc = print_method md"
        if "res_bind q (\<lambda>(return_type, rest).
               if rest \<noteq> [] then Err (InvalidDescriptor desc)
               else Ok \<lparr>md_params = ps, md_return_type = return_type\<rparr>) = Ok md" for md
      proof -
        from that obtain rt where rt: "q = Ok (rt, [])" "md = \<lparr>md_params = ps, md_return_type = rt\<rparr>"
          by (auto simp: res_bind_Ok_iff split: if_splits)
        with q have "return_ok rt \<and> tail' = print_return rt" by (simp add: parse_return_iff)
        with rt ts desc show ?thesis by (simp add: method_ok_def print_method_def)
      qed
      ultimately show ?thesis by (auto split: if_splits)
    qed
  qed
qed

lemma method_descriptor_parses:
  "(\<exists>r. parse_method_descriptor desc = Some r) \<and>
   (parse_method_descriptor desc = Some (Ok md) \<longleftrightarrow> method_ok md \<and> desc = print_method md)"
  using method_descriptor_run [of desc] method_descriptor_complete [of md] by auto

text \<open>
  Property C34. A field descriptor is accepted exactly when it is the text of the type that is returned,
  a method descriptor exactly when it is the text of the parameters and the return type; both parsers
  return on every string.
\<close>

theorem descriptors_exact:
  "(\<exists>r. parse_field_descriptor desc = Some r) \<and>
   (parse_field_descriptor desc = Some (Ok t) \<longleftrightarrow> field_ok t \<and> desc = print_field t) \<and>
   (\<exists>r. parse_method_descriptor desc = Some r) \<and>
   (parse_method_descriptor desc = Some (Ok md) \<longleftrightarrow> method_ok md \<and> desc = print_method md)"
  using field_descriptor_parses method_descriptor_parses by simp

end
