(* ===== verification/Class_Signature.thy ===== *)
theory Class_Signature
  imports Class_Descriptor
begin

text \<open>
  Generic signatures (\<^verbatim>\<open>nova-classfile/src/signature.rs\<close>): the recursive-descent
  parser over the bytes of the signature, and the texts it accepts for a class, a method and a
  field signature.
\<close>

section \<open>Signatures\<close>

datatype type_signature =
    TsBase base_type
  | TsArray type_signature
  | TsClass class_type_signature
  | TsTypeVariable rstr
and class_type_signature = ClassType (ct_package: "rstr list") (ct_segments: "class_type_segment list")
and class_type_segment = Segment (seg_name: rstr) (seg_type_arguments: "type_argument list")
and type_argument =
    TaAny
  | TaExact type_signature
  | TaExtends type_signature
  | TaSuper type_signature

record type_parameter =
  tp_name :: rstr
  tp_class_bound :: "type_signature option"
  tp_interface_bounds :: "type_signature list"

record class_signature =
  cs_type_parameters :: "type_parameter list"
  cs_super_class :: class_type_signature
  cs_interfaces :: "class_type_signature list"

record method_signature =
  ms_type_parameters :: "type_parameter list"
  ms_parameters :: "type_signature list"
  ms_return_type :: "type_signature option"
  ms_throws :: "type_signature list"

text \<open>The loop over the segments puts a dollar sign before every segment but the first.\<close>

definition internal_name :: "class_type_signature \<Rightarrow> rstr" where
  "internal_name ct =
     (if ct_package ct = [] then [] else str_join (rs ''/'') (ct_package ct) @ rs ''/'')
     @ concat (map (\<lambda>(idx, seg). (if idx > 0 then rs ''$'' else []) @ seg_name seg)
         (enumerate 0 (ct_segments ct)))"

section \<open>The parser\<close>

record sig_parser =
  sp_sig :: rstr
  sp_bytes :: "nat list"
  sp_pos :: nat

type_synonym 'a sp = "(sig_parser, cf_error, 'a) parser"

definition parser_new :: "rstr \<Rightarrow> sig_parser" where
  "parser_new sig = \<lparr>sp_sig = sig, sp_bytes = as_bytes sig, sp_pos = 0\<rparr>"

definition is_eof :: "sig_parser \<Rightarrow> bool" where
  "is_eof p \<longleftrightarrow> sp_pos p \<ge> length (sp_bytes p)"

definition peek :: "sig_parser \<Rightarrow> rchar option" where
  "peek p = vec_get (sp_bytes p) (sp_pos p)"

definition bump :: "rchar option sp" where
  "bump p =
     (case peek p of
        None \<Rightarrow> Some (Ok (None, p))
      | Some ch \<Rightarrow> Some (Ok (Some ch, p\<lparr>sp_pos := sp_pos p + 1\<rparr>)))"

definition sig_error :: "'a sp" where
  "sig_error p = Some (Err (InvalidSignature (sp_sig p)))"

definition expect :: "rchar \<Rightarrow> unit sp" where
  "expect ch = pbind bump (\<lambda>c. if c = Some ch then preturn () else sig_error)"

definition is_forbidden_in_identifier :: "rchar \<Rightarrow> bool" where
  "is_forbidden_in_identifier ch \<longleftrightarrow> ch \<in> set (rs ''[^()*+-'')"

definition is_signature_delimiter :: "rchar \<Rightarrow> bool" where
  "is_signature_delimiter ch \<longleftrightarrow> ch \<in> set (rs ''/;<>.:'')"

text \<open>One round of the two identifier loops: a bad character ends the parse, any other is passed.\<close>

definition pass_unless :: "(rchar \<Rightarrow> bool) \<Rightarrow> unit \<Rightarrow> unit sp" where
  "pass_unless bad u p =
     (case peek p of
        None \<Rightarrow> None
      | Some ch \<Rightarrow> if bad ch then sig_error p else Some (Ok ((), p\<lparr>sp_pos := sp_pos p + 1\<rparr>)))"

definition parse_identifier_until :: "rchar \<Rightarrow> rstr sp" where
  "parse_identifier_until delim p =
     pbind (pwhile (\<lambda>p. \<not> is_eof p \<and> peek p \<noteq> Some delim)
              (pass_unless (\<lambda>ch. is_forbidden_in_identifier ch \<or> is_signature_delimiter ch)) ())
       (\<lambda>_ p'.
          if is_eof p' then sig_error p'
          else if sp_pos p = sp_pos p' then sig_error p'
          else map_option (\<lambda>s. Ok (s, p')) (str_slice (sp_sig p') (sp_pos p) (sp_pos p'))) p"

definition parse_identifier :: "rstr sp" where
  "parse_identifier p =
     pbind (pwhile (\<lambda>p. \<not> is_eof p \<and> (case peek p of Some ch \<Rightarrow> \<not> is_signature_delimiter ch | None \<Rightarrow> True))
              (pass_unless is_forbidden_in_identifier) ())
       (\<lambda>_ p'.
          if sp_pos p = sp_pos p' then sig_error p'
          else map_option (\<lambda>s. Ok (s, p')) (str_slice (sp_sig p') (sp_pos p) (sp_pos p'))) p"

text \<open>
  The mutually recursive parsers take the parser of a field type signature as an argument; the
  recursion is tied below, at \<open>parse_field_type_signature\<close>.
\<close>

definition at_char :: "char \<Rightarrow> sig_parser \<Rightarrow> bool" where
  "at_char c p \<longleftrightarrow> peek p = Some (rc c)"

definition parse_type_argument :: "type_signature sp \<Rightarrow> type_argument sp" where
  "parse_type_argument field p =
     (if at_char CHR ''*'' p then pbind bump (\<lambda>_. preturn TaAny) p
      else if at_char CHR ''+'' p then pbind bump (\<lambda>_. pbind field (\<lambda>t. preturn (TaExtends t))) p
      else if at_char CHR ''-'' p then pbind bump (\<lambda>_. pbind field (\<lambda>t. preturn (TaSuper t))) p
      else if at_char CHR ''L'' p \<or> at_char CHR ''T'' p \<or> at_char CHR ''['' p
        then pbind field (\<lambda>t. preturn (TaExact t)) p
      else sig_error p)"

text \<open>A list in angle brackets, as type arguments and type parameters have it.\<close>

definition in_angles :: "'a sp \<Rightarrow> 'a list sp" where
  "in_angles item p =
     (if \<not> at_char CHR ''<'' p then preturn [] p
      else
        pbind (expect (rc CHR ''<'')) (\<lambda>_.
        pbind (pmany (\<lambda>p. \<not> at_char CHR ''>'' p) (\<lambda>p. if is_eof p then sig_error p else item p)) (\<lambda>args.
        pbind (expect (rc CHR ''>'')) (\<lambda>_. preturn args))) p)"

definition parse_type_arguments_if_present :: "type_signature sp \<Rightarrow> type_argument list sp" where
  "parse_type_arguments_if_present field = in_angles (parse_type_argument field)"

definition parse_segment :: "type_signature sp \<Rightarrow> rstr \<Rightarrow> class_type_segment sp" where
  "parse_segment field name =
     pbind (parse_type_arguments_if_present field) (\<lambda>args. preturn (Segment name args))"

definition package_step :: "rstr list \<times> rstr \<Rightarrow> (rstr list \<times> rstr) sp" where
  "package_step acc =
     pbind bump (\<lambda>_. pbind parse_identifier (\<lambda>next. preturn (fst acc @ [snd acc], next)))"

definition parse_class_type_signature_with :: "type_signature sp \<Rightarrow> class_type_signature sp" where
  "parse_class_type_signature_with field =
     pbind (expect (rc CHR ''L'')) (\<lambda>_.
     pbind parse_identifier (\<lambda>first.
     pbind (pwhile (at_char CHR ''/'') package_step ([], first)) (\<lambda>pf.
     pbind (parse_segment field (snd pf)) (\<lambda>seg.
     pbind (pmany (at_char CHR ''.'') (pbind bump (\<lambda>_. pbind parse_identifier (parse_segment field)))) (\<lambda>segs.
     pbind (expect (rc CHR '';'')) (\<lambda>_. preturn (ClassType (fst pf) (seg # segs))))))))"

definition parse_type_variable_signature :: "type_signature sp" where
  "parse_type_variable_signature =
     pbind (expect (rc CHR ''T'')) (\<lambda>_.
     pbind (parse_identifier_until (rc CHR '';'')) (\<lambda>name.
     pbind (expect (rc CHR '';'')) (\<lambda>_. preturn (TsTypeVariable name))))"

definition parse_type_signature_with :: "type_signature sp \<Rightarrow> type_signature sp" where
  "parse_type_signature_with field p =
     (case Option.bind (peek p) base_type_of of
        Some t \<Rightarrow> pbind bump (\<lambda>_. preturn (TsBase t)) p
      | None \<Rightarrow>
          if at_char CHR ''L'' p \<or> at_char CHR ''T'' p \<or> at_char CHR ''['' p then field p
          else sig_error p)"

lemma signature_mono [partial_function_mono]:
  assumes "\<And>s. mono_option (\<lambda>f. field f s)"
  shows "mono_option (\<lambda>f. parse_class_type_signature_with (field f) p)"
    and "mono_option (\<lambda>f. parse_type_signature_with (field f) p)"
proof -
  have arg: "mono_option (\<lambda>f. parse_type_argument (field f) p)" for p
    unfolding parse_type_argument_def by (intro partial_function_mono assms)
  have seg: "mono_option (\<lambda>f. parse_segment (field f) name p)" for name p
    unfolding parse_segment_def parse_type_arguments_if_present_def in_angles_def
    by (intro partial_function_mono arg)
  show "mono_option (\<lambda>f. parse_class_type_signature_with (field f) p)"
    unfolding parse_class_type_signature_with_def by (intro partial_function_mono seg)
  show "mono_option (\<lambda>f. parse_type_signature_with (field f) p)"
    unfolding parse_type_signature_with_def
    by (cases "Option.bind (peek p) base_type_of") (simp_all, (intro partial_function_mono assms)+)
qed

partial_function (option) parse_field_type_signature ::
  "sig_parser \<Rightarrow> (cf_error, type_signature \<times> sig_parser) result option" where
  "parse_field_type_signature p =
     (if at_char CHR ''L'' p then
        pbind (parse_class_type_signature_with parse_field_type_signature) (\<lambda>c. preturn (TsClass c)) p
      else if at_char CHR ''T'' p then parse_type_variable_signature p
      else if at_char CHR ''['' p then
        pbind bump (\<lambda>_. pbind (parse_type_signature_with parse_field_type_signature)
          (\<lambda>component. preturn (TsArray component))) p
      else sig_error p)"

definition parse_class_type_signature :: "class_type_signature sp" where
  "parse_class_type_signature = parse_class_type_signature_with parse_field_type_signature"

definition parse_type_signature :: "type_signature sp" where
  "parse_type_signature = parse_type_signature_with parse_field_type_signature"

definition parse_type_parameter :: "type_parameter sp" where
  "parse_type_parameter =
     pbind (parse_identifier_until (rc CHR '':'')) (\<lambda>name.
     pbind (expect (rc CHR '':'')) (\<lambda>_.
     pbind (\<lambda>p. if at_char CHR '':'' p then preturn None p
                else if at_char CHR ''L'' p \<or> at_char CHR ''T'' p \<or> at_char CHR ''['' p
                  then pbind parse_field_type_signature (\<lambda>t. preturn (Some t)) p
                else sig_error p) (\<lambda>class_bound.
     pbind (pmany (at_char CHR '':'') (pbind bump (\<lambda>_. parse_field_type_signature))) (\<lambda>interface_bounds.
       preturn \<lparr>tp_name = name, tp_class_bound = class_bound, tp_interface_bounds = interface_bounds\<rparr>))))"

definition parse_type_parameters_if_present :: "type_parameter list sp" where
  "parse_type_parameters_if_present = in_angles parse_type_parameter"

section \<open>Entry points\<close>

definition run_parser :: "'a sp \<Rightarrow> rstr \<Rightarrow> (cf_error, 'a) result option" where
  "run_parser p sig = map_option (map_sum id fst) (p (parser_new sig))"

definition at_end :: "'a \<Rightarrow> 'a sp" where
  "at_end x p = (if \<not> is_eof p then sig_error p else Some (Ok (x, p)))"

definition parse_class_signature :: "rstr \<Rightarrow> (cf_error, class_signature) result option" where
  "parse_class_signature = run_parser
     (pbind parse_type_parameters_if_present (\<lambda>type_parameters.
      pbind parse_class_type_signature (\<lambda>super_class.
      pbind (pmany (\<lambda>p. \<not> is_eof p) parse_class_type_signature) (\<lambda>interfaces.
        preturn \<lparr>cs_type_parameters = type_parameters, cs_super_class = super_class,
                 cs_interfaces = interfaces\<rparr>))))"

definition parse_return_type :: "type_signature option sp" where
  "parse_return_type p =
     (if at_char CHR ''V'' p then pbind bump (\<lambda>_. preturn None) p
      else pbind parse_type_signature (\<lambda>t. preturn (Some t)) p)"

definition parse_throws :: "type_signature sp" where
  "parse_throws =
     pbind bump (\<lambda>_ p.
       if at_char CHR ''T'' p then parse_type_variable_signature p
       else if at_char CHR ''L'' p then pbind parse_class_type_signature (\<lambda>c. preturn (TsClass c)) p
       else sig_error p)"

definition parse_method_signature :: "rstr \<Rightarrow> (cf_error, method_signature) result option" where
  "parse_method_signature = run_parser
     (pbind parse_type_parameters_if_present (\<lambda>type_parameters.
      pbind (expect (rc CHR ''('')) (\<lambda>_.
      pbind (pmany (\<lambda>p. \<not> is_eof p \<and> \<not> at_char CHR '')'' p) parse_type_signature) (\<lambda>parameters.
      pbind (expect (rc CHR '')'')) (\<lambda>_.
      pbind parse_return_type (\<lambda>return_type.
      pbind (pmany (at_char CHR ''^'') parse_throws) (\<lambda>throws.
        at_end \<lparr>ms_type_parameters = type_parameters, ms_parameters = parameters,
                ms_return_type = return_type, ms_throws = throws\<rparr>)))))))"

definition parse_field_signature :: "rstr \<Rightarrow> (cf_error, type_signature) result option" where
  "parse_field_signature = run_parser (pbind parse_field_type_signature at_end)"

declare internal_name_def [nova_eval] parser_new_def [nova_eval] is_eof_def [nova_eval] peek_def [nova_eval]
  bump_def [nova_eval] sig_error_def [nova_eval] expect_def [nova_eval]
  is_forbidden_in_identifier_def [nova_eval] is_signature_delimiter_def [nova_eval]
  pass_unless_def [nova_eval] parse_identifier_until_def [nova_eval] parse_identifier_def [nova_eval]
  at_char_def [nova_eval] run_parser_def [nova_eval] at_end_def [nova_eval]

section \<open>The cursor in the signature\<close>

definition sig_at :: "rstr \<Rightarrow> rstr \<Rightarrow> sig_parser" where
  "sig_at pre rest = \<lparr>sp_sig = pre @ rest, sp_bytes = as_bytes (pre @ rest), sp_pos = str_len pre\<rparr>"

lemma sig_at_simps [simp]:
  "sp_sig (sig_at pre rest) = pre @ rest"
  "sp_bytes (sig_at pre rest) = as_bytes pre @ as_bytes rest"
  "sp_pos (sig_at pre rest) = str_len pre"
  by (simp_all add: sig_at_def)

lemma parser_new_at: "parser_new sig = sig_at [] sig"
  by (simp add: parser_new_def sig_at_def)

lemma is_eof_at [simp]: "is_eof (sig_at pre rest) \<longleftrightarrow> rest = []"
  by (cases rest) (auto simp: is_eof_def)

lemma peek_at: "peek (sig_at pre rest) = (case as_bytes rest of [] \<Rightarrow> None | b # _ \<Rightarrow> Some b)"
  by (cases rest rule: as_bytes_cases) (auto simp: peek_def vec_get_def nth_append)

lemma peek_ascii: "k < 0x80 \<Longrightarrow> peek (sig_at pre rest) = Some k \<longleftrightarrow> (\<exists>r. rest = k # r)"
  by (cases rest rule: as_bytes_cases) (auto simp: peek_at)

lemma at_char_at: "rc c < 0x80 \<Longrightarrow> at_char c (sig_at pre rest) \<longleftrightarrow> (\<exists>r. rest = rc c # r)"
  by (simp add: at_char_def peek_ascii)

lemma sig_error_at [simp]: "sig_error (sig_at pre rest) = Some (Err (InvalidSignature (pre @ rest)))"
  by (simp add: sig_error_def)

lemma bump_at: "c < 0x80 \<Longrightarrow> bump (sig_at pre (c # r)) = Some (Ok (Some c, sig_at (pre @ [c]) r))"
  using peek_ascii [of c pre "c # r"] by (simp add: bump_def sig_at_def len_utf8_def)

lemma run_at_error: "run_at sig_at sig_error pre rest Q"
  by (rule run_at_Err) simp

lemma run_at_bump: "c < 0x80 \<Longrightarrow> rest = c # r \<Longrightarrow> run_at sig_at bump pre rest (\<lambda>x w _. x = Some c \<and> w = [c])"
  by (rule run_at_Ok [where w = "[c]"]) (simp_all add: bump_at)

lemma decodes_bump: "c < 0x80 \<Longrightarrow> decodes sig_at bump [c] (Some c) rest"
  by (simp add: decodes_def bump_at)

lemma run_at_expect:
  assumes "c < 0x80"
  shows "run_at sig_at (expect c) pre rest (\<lambda>_ w _. w = [c])"
proof (cases "\<exists>r. rest = c # r")
  case True
  with assms show ?thesis
    by (auto simp: expect_def intro!: run_at_bind [OF run_at_bump] run_at_return)
next
  case False
  then have "peek (sig_at pre rest) \<noteq> Some c" using assms by (simp add: peek_ascii)
  then have "expect c (sig_at pre rest) = Some (Err (InvalidSignature (pre @ rest)))"
    by (auto simp: expect_def pbind_def bump_def sig_error_def split: option.splits)
  then show ?thesis by (rule run_at_Err)
qed

lemma decodes_expect: "c < 0x80 \<Longrightarrow> decodes sig_at (expect c) [c] () rest"
  by (simp add: decodes_def expect_def pbind_def bump_at)

section \<open>Identifiers\<close>

definition id_char :: "rchar \<Rightarrow> bool" where
  "id_char c \<longleftrightarrow> \<not> is_forbidden_in_identifier c \<and> \<not> is_signature_delimiter c"

definition ident :: "rstr \<Rightarrow> bool" where
  "ident n \<longleftrightarrow> n \<noteq> [] \<and> list_all id_char n"

lemma ident_loop_bytes:
  fixes bad :: "rchar \<Rightarrow> bool"
  assumes "\<And>p. c p \<longleftrightarrow> (case peek p of None \<Rightarrow> False | Some ch \<Rightarrow> \<not> stop ch)"
  defines "plain \<equiv> \<lambda>b. \<not> stop b \<and> \<not> bad b"
  shows "pwhile c (pass_unless bad) () \<lparr>sp_sig = sig, sp_bytes = pre @ rest, sp_pos = length pre\<rparr> =
    (if dropWhile plain rest \<noteq> [] \<and> \<not> stop (hd (dropWhile plain rest))
     then Some (Err (InvalidSignature sig))
     else Some (Ok ((), \<lparr>sp_sig = sig, sp_bytes = pre @ rest,
                         sp_pos = length pre + length (takeWhile plain rest)\<rparr>)))"
proof (induction rest arbitrary: pre)
  case Nil
  show ?case by (simp add: pwhile_unfold assms(1) peek_def vec_get_def)
next
  case (Cons b rest)
  let ?p = "\<lparr>sp_sig = sig, sp_bytes = pre @ b # rest, sp_pos = length pre\<rparr>"
  have peek: "peek ?p = Some b" by (simp add: peek_def vec_get_def)
  consider "stop b" | "\<not> stop b" "bad b" | "plain b" by (auto simp: plain_def)
  then show ?case
  proof cases
    case 1
    with peek show ?thesis by (simp add: pwhile_unfold assms(1) plain_def)
  next
    case 2
    with peek show ?thesis
      by (simp add: pwhile_unfold assms(1) plain_def pbind_def pass_unless_def sig_error_def)
  next
    case 3
    then have "pwhile c (pass_unless bad) () ?p =
        pwhile c (pass_unless bad) () \<lparr>sp_sig = sig, sp_bytes = (pre @ [b]) @ rest, sp_pos = length (pre @ [b])\<rparr>"
      using peek
      by (subst pwhile_unfold) (simp add: assms(1) plain_def pbind_def pass_unless_def)
    with Cons.IH [of "pre @ [b]"] 3 show ?thesis by simp
  qed
qed

lemma takeWhile_as_bytes:
  assumes "\<And>b. 0x80 \<le> b \<Longrightarrow> P b"
  shows "takeWhile P (as_bytes s) = as_bytes (takeWhile P s)" "dropWhile P (as_bytes s) = as_bytes (dropWhile P s)"
proof -
  have c: "list_all P (utf8_encode c)" if "P c" for c
    using that assms by (auto simp: utf8_encode_def)
  have n: "utf8_encode c = [c]" if "\<not> P c" for c
    using that assms by (auto simp: utf8_encode_def not_le [symmetric])
  show "takeWhile P (as_bytes s) = as_bytes (takeWhile P s)"
    by (induction s) (auto simp: takeWhile_append list_all_iff n dest: c)
  show "dropWhile P (as_bytes s) = as_bytes (dropWhile P s)"
    by (induction s) (auto simp: dropWhile_append list_all_iff n dest: c)
qed

lemma special_chars_ascii: "is_forbidden_in_identifier c \<or> is_signature_delimiter c \<Longrightarrow> c < 0x80"
  by (auto simp: is_forbidden_in_identifier_def is_signature_delimiter_def rs_def)

lemma forbidden_not_delimiter: "is_forbidden_in_identifier c \<Longrightarrow> \<not> is_signature_delimiter c"
  by (auto simp: is_forbidden_in_identifier_def is_signature_delimiter_def rs_def)

lemma id_char_high: "0x80 \<le> c \<Longrightarrow> id_char c"
  using special_chars_ascii by (fastforce simp: id_char_def)

lemma hd_as_bytes_ascii: "c < 0x80 \<Longrightarrow> hd (as_bytes (c # s)) = c"
  by (simp add: utf8_encode_def)

lemma ident_loop:
  assumes "\<And>p. c p \<longleftrightarrow> (case peek p of None \<Rightarrow> False | Some ch \<Rightarrow> \<not> stop ch)"
    and "\<And>b. (\<not> stop b \<and> \<not> bad b) \<longleftrightarrow> id_char b"
  shows "pwhile c (pass_unless bad) () (sig_at pre rest) =
    (if dropWhile id_char rest \<noteq> [] \<and> \<not> stop (hd (dropWhile id_char rest))
     then Some (Err (InvalidSignature (pre @ rest)))
     else Some (Ok ((), sig_at (pre @ takeWhile id_char rest) (dropWhile id_char rest))))"
proof -
  let ?tl = "dropWhile id_char rest"
  have tl: "hd (as_bytes ?tl) = hd ?tl" if "?tl \<noteq> []"
  proof -
    from that obtain d r where d: "?tl = d # r" by (cases ?tl) auto
    then have "\<not> id_char d" using hd_dropWhile [of id_char rest] by simp
    then have "d < 0x80" using id_char_high [of d] by linarith
    with d show ?thesis by (simp add: hd_as_bytes_ascii del: as_bytes_simps)
  qed
  have empty: "as_bytes ?tl = [] \<longleftrightarrow> ?tl = []"
    by (cases ?tl rule: as_bytes_cases) auto
  have "pwhile c (pass_unless bad) () (sig_at pre rest) =
      (if as_bytes ?tl \<noteq> [] \<and> \<not> stop (hd (as_bytes ?tl))
       then Some (Err (InvalidSignature (pre @ rest)))
       else Some (Ok ((), \<lparr>sp_sig = pre @ rest, sp_bytes = as_bytes pre @ as_bytes rest,
         sp_pos = length (as_bytes pre) + length (as_bytes (takeWhile id_char rest))\<rparr>)))"
    using ident_loop_bytes [of c stop bad "pre @ rest" "as_bytes pre" "as_bytes rest", OF assms(1)]
    by (simp add: assms(2) takeWhile_as_bytes [OF id_char_high] sig_at_def)
  moreover have "sig_at (pre @ takeWhile id_char rest) ?tl =
      \<lparr>sp_sig = pre @ rest, sp_bytes = as_bytes pre @ as_bytes rest,
       sp_pos = length (as_bytes pre) + length (as_bytes (takeWhile id_char rest))\<rparr>"
    using as_bytes_simps(3) [of "takeWhile id_char rest" ?tl] by (simp add: sig_at_def)
  ultimately show ?thesis using empty tl
    by (cases "?tl = []") (simp_all del: dropWhile_eq_Nil_conv)
qed

lemma dropWhile_same: "takeWhile P xs = [] \<Longrightarrow> dropWhile P xs = xs"
  by (cases xs) (auto split: if_splits)

lemma slice_ident: "str_slice (pre @ n @ r) (str_len pre) (str_len (pre @ n)) = Some n"
  by (auto simp: str_slice_Some_iff)

lemma parse_identifier_at:
  "parse_identifier (sig_at pre rest) =
     (let n = takeWhile id_char rest; tl = dropWhile id_char rest
      in if tl \<noteq> [] \<and> \<not> is_signature_delimiter (hd tl) \<or> n = []
         then Some (Err (InvalidSignature (pre @ rest))) else Some (Ok (n, sig_at (pre @ n) tl)))"
proof -
  let ?c = "\<lambda>p. \<not> is_eof p \<and> (case peek p of Some ch \<Rightarrow> \<not> is_signature_delimiter ch | None \<Rightarrow> True)"
  have c: "?c p \<longleftrightarrow> (case peek p of None \<Rightarrow> False | Some ch \<Rightarrow> \<not> is_signature_delimiter ch)" for p
    by (auto simp: peek_def vec_get_def is_eof_def)
  show ?thesis
    unfolding parse_identifier_def pbind_def
    by (subst ident_loop [OF c])
      (auto simp: id_char_def Let_def dropWhile_same
        slice_ident [of pre "takeWhile id_char rest" "dropWhile id_char rest", simplified])
qed

lemma parse_identifier_until_at:
  assumes "is_signature_delimiter delim"
  shows "parse_identifier_until delim (sig_at pre rest) =
     (let n = takeWhile id_char rest; tl = dropWhile id_char rest
      in if tl = [] \<or> hd tl \<noteq> delim \<or> n = []
         then Some (Err (InvalidSignature (pre @ rest))) else Some (Ok (n, sig_at (pre @ n) tl)))"
proof -
  let ?c = "\<lambda>p. \<not> is_eof p \<and> peek p \<noteq> Some delim"
  have c: "?c p \<longleftrightarrow> (case peek p of None \<Rightarrow> False | Some ch \<Rightarrow> ch \<noteq> delim)" for p
    by (auto simp: peek_def vec_get_def is_eof_def)
  show ?thesis
    unfolding parse_identifier_until_def pbind_def
    by (subst ident_loop [where stop = "\<lambda>ch. ch = delim", OF c [simplified not_not]])
      (use assms in \<open>auto simp: id_char_def Let_def dropWhile_same
        slice_ident [of pre "takeWhile id_char rest" "dropWhile id_char rest", simplified]\<close>)
qed

end
