(* ===== verification/Class_Sig_Text.thy ===== *)
theory Class_Sig_Text
  imports Class_Signature
begin

text \<open>
  The texts of generic signatures (JVMS 4.7.9.1, with the empty argument lists the parser also
  takes) as a relation between a signature and its text, and the proof that the parsers of
  \<open>Class_Signature\<close> accept exactly these texts and return on every string.
\<close>

section \<open>Texts\<close>

fun is_field_type :: "type_signature \<Rightarrow> bool" where
  "is_field_type (TsBase _) = False"
| "is_field_type _ = True"

primrec ts_text :: "type_signature \<Rightarrow> rstr \<Rightarrow> bool"
  and ct_text :: "class_type_signature \<Rightarrow> rstr \<Rightarrow> bool"
  and seg_text :: "class_type_segment \<Rightarrow> rstr \<Rightarrow> bool"
  and ta_text :: "type_argument \<Rightarrow> rstr \<Rightarrow> bool" where
  "ts_text (TsBase t) = (\<lambda>w. w = [print_base t])"
| "ts_text (TsArray t) = (\<lambda>w. \<exists>v. w = rc CHR ''['' # v \<and> ts_text t v)"
| "ts_text (TsClass c) = ct_text c"
| "ts_text (TsTypeVariable n) = (\<lambda>w. ident n \<and> w = rc CHR ''T'' # n @ [rc CHR '';''])"
| "ct_text (ClassType pkg segs) = (\<lambda>w. \<exists>v ws.
     list_all ident pkg \<and> segs \<noteq> [] \<and> list_all2 (\<lambda>P. P) (map seg_text segs) (v # ws) \<and>
     w = rc CHR ''L'' # concat (map (\<lambda>p. p @ [rc CHR ''/'']) pkg) @ v @
       concat (map ((#) (rc CHR ''.'')) ws) @ [rc CHR '';''])"
| "seg_text (Segment n args) = (\<lambda>w. ident n \<and>
     (args = [] \<and> w = n \<or>
      (\<exists>ws. list_all2 (\<lambda>P. P) (map ta_text args) ws \<and> w = n @ rc CHR ''<'' # concat ws @ [rc CHR ''>''])))"
| "ta_text TaAny = (\<lambda>w. w = [rc CHR ''*''])"
| "ta_text (TaExact t) = (\<lambda>w. is_field_type t \<and> ts_text t w)"
| "ta_text (TaExtends t) = (\<lambda>w. is_field_type t \<and> (\<exists>v. w = rc CHR ''+'' # v \<and> ts_text t v))"
| "ta_text (TaSuper t) = (\<lambda>w. is_field_type t \<and> (\<exists>v. w = rc CHR ''-'' # v \<and> ts_text t v))"

abbreviation field_text :: "type_signature \<Rightarrow> rstr \<Rightarrow> bool" where
  "field_text t w \<equiv> is_field_type t \<and> ts_text t w"

text \<open>A list in angle brackets; an empty list may also be left out.\<close>

definition angles_text :: "('a \<Rightarrow> rstr \<Rightarrow> bool) \<Rightarrow> 'a list \<Rightarrow> rstr \<Rightarrow> bool" where
  "angles_text G xs w \<longleftrightarrow>
     xs = [] \<and> w = [] \<or>
     (\<exists>ws. list_all2 G xs ws \<and> w = rc CHR ''<'' # concat ws @ [rc CHR ''>''])"

definition tp_text :: "type_parameter \<Rightarrow> rstr \<Rightarrow> bool" where
  "tp_text tp w \<longleftrightarrow> ident (tp_name tp) \<and>
     (\<exists>cb ws. (case tp_class_bound tp of None \<Rightarrow> tp_interface_bounds tp \<noteq> [] \<and> cb = [] | Some t \<Rightarrow> field_text t cb) \<and>
        list_all2 field_text (tp_interface_bounds tp) ws \<and>
        w = tp_name tp @ rc CHR '':'' # cb @ concat (map ((#) (rc CHR '':'')) ws))"

definition class_signature_text :: "class_signature \<Rightarrow> rstr \<Rightarrow> bool" where
  "class_signature_text cs w \<longleftrightarrow>
     (\<exists>u v ws. angles_text tp_text (cs_type_parameters cs) u \<and> ct_text (cs_super_class cs) v \<and>
        list_all2 ct_text (cs_interfaces cs) ws \<and> w = u @ v @ concat ws)"

fun return_text :: "type_signature option \<Rightarrow> rstr \<Rightarrow> bool" where
  "return_text None w \<longleftrightarrow> w = [rc CHR ''V'']"
| "return_text (Some t) w \<longleftrightarrow> ts_text t w"

fun is_throwable :: "type_signature \<Rightarrow> bool" where
  "is_throwable (TsClass _) = True"
| "is_throwable (TsTypeVariable _) = True"
| "is_throwable _ = False"

definition method_signature_text :: "method_signature \<Rightarrow> rstr \<Rightarrow> bool" where
  "method_signature_text ms w \<longleftrightarrow>
     (\<exists>u ps r ts. angles_text tp_text (ms_type_parameters ms) u \<and>
        list_all2 ts_text (ms_parameters ms) ps \<and> return_text (ms_return_type ms) r \<and>
        list_all2 (\<lambda>t v. is_throwable t \<and> ts_text t v) (ms_throws ms) ts \<and>
        w = u @ rc CHR ''('' # concat ps @ rc CHR '')'' # r @ concat (map ((#) (rc CHR ''^'')) ts))"

section \<open>What is accepted has such a text\<close>

definition follows :: "rstr \<Rightarrow> bool" where
  "follows rest \<longleftrightarrow> rest \<noteq> [] \<and> is_signature_delimiter (hd rest)"

lemma takeWhile_ident: "takeWhile id_char rest \<noteq> [] \<Longrightarrow> ident (takeWhile id_char rest)"
  by (auto simp: ident_def list_all_iff dest: set_takeWhileD)

lemma run_at_identifier: "run_at sig_at parse_identifier pre rest (\<lambda>n w _. w = n \<and> ident n)"
proof (cases "parse_identifier (sig_at pre rest) = Some (Err (InvalidSignature (pre @ rest)))")
  case True
  then show ?thesis by (rule run_at_Err)
next
  case False
  then show ?thesis
    by (intro run_at_Ok [where w = "takeWhile id_char rest" and rest' = "dropWhile id_char rest"
          and x = "takeWhile id_char rest"])
      (auto simp: parse_identifier_at Let_def takeWhile_ident split: if_splits)
qed

lemma run_at_identifier_until:
  assumes "is_signature_delimiter delim"
  shows "run_at sig_at (parse_identifier_until delim) pre rest (\<lambda>n w _. w = n \<and> ident n)"
proof (cases "parse_identifier_until delim (sig_at pre rest) = Some (Err (InvalidSignature (pre @ rest)))")
  case True
  then show ?thesis by (rule run_at_Err)
next
  case False
  then show ?thesis
    by (intro run_at_Ok [where w = "takeWhile id_char rest" and rest' = "dropWhile id_char rest"
          and x = "takeWhile id_char rest"])
      (auto simp: parse_identifier_until_at [OF assms] Let_def takeWhile_ident split: if_splits)
qed

lemma ident_split:
  assumes "ident n" "follows rest"
  shows "takeWhile id_char (n @ rest) = n" "dropWhile id_char (n @ rest) = rest"
proof -
  from assms(2) obtain d r where d: "rest = d # r" "\<not> id_char d"
    by (cases rest) (auto simp: follows_def id_char_def)
  with assms(1) show "takeWhile id_char (n @ rest) = n" "dropWhile id_char (n @ rest) = rest"
    by (auto simp: ident_def list_all_iff takeWhile_append dropWhile_append)
qed

lemma decodes_identifier: "ident n \<Longrightarrow> follows rest \<Longrightarrow> decodes sig_at parse_identifier n n rest"
  unfolding decodes_def
  by (simp add: parse_identifier_at ident_split Let_def) (auto simp: follows_def ident_def)

lemma decodes_identifier_until:
  assumes "is_signature_delimiter delim" "ident n"
  shows "decodes sig_at (parse_identifier_until delim) n n (delim # rest)"
proof -
  have "follows (delim # rest)" using assms(1) by (simp add: follows_def)
  with assms show ?thesis unfolding decodes_def
    by (simp add: parse_identifier_until_at ident_split Let_def) (simp add: ident_def)
qed

lemma run_at_if:
  assumes "c (mk pre rest) \<Longrightarrow> run_at mk p pre rest Q" "\<not> c (mk pre rest) \<Longrightarrow> run_at mk q pre rest Q"
  shows "run_at mk (\<lambda>s. if c s then p s else q s) pre rest Q"
  using assms by (cases "c (mk pre rest)") (simp_all add: run_at_def)

lemma run_at_bump_at:
  assumes "at_char c (sig_at pre rest)" "rc c < 0x80"
  shows "run_at sig_at bump pre rest (\<lambda>_ w _. w = [rc c])"
proof -
  from assms obtain r where "rest = rc c # r" by (auto simp: at_char_at)
  from run_at_conseq [OF run_at_bump [OF assms(2) this]] show ?thesis by simp
qed

text \<open>Texts are never empty, and their first character tells their kind.\<close>

lemma ct_text_starts: "ct_text c w \<Longrightarrow> \<exists>v. w = rc CHR ''L'' # v"
  by (cases c) auto

lemma base_type_of_print [simp]: "base_type_of (print_base t) = Some t"
  by (simp add: base_type_of_Some_iff)

lemma ts_text_starts:
  "ts_text t w \<Longrightarrow> w \<noteq> [] \<and>
     (if is_field_type t then hd w = rc CHR ''L'' \<or> hd w = rc CHR ''T'' \<or> hd w = rc CHR ''[''
      else base_type_of (hd w) \<noteq> None)"
  by (cases t) (auto dest!: ct_text_starts)

lemma ts_text_nonempty: "ts_text t w \<Longrightarrow> w \<noteq> []"
  using ts_text_starts by blast

lemma run_at_bump_then:
  assumes "at_char c (sig_at pre rest)" "rc c < 0x80"
    and "\<And>r. rest = rc c # r \<Longrightarrow> run_at sig_at p (pre @ [rc c]) r (\<lambda>x w r'. Q x (rc c # w) r')"
  shows "run_at sig_at (pbind bump (\<lambda>_. p)) pre rest Q"
  by (rule run_at_bind [OF run_at_bump_at [OF assms(1,2)]]) (use assms(3) in auto)

lemma run_at_map:
  assumes "run_at mk p pre rest Q" "\<And>x w r. Q x w r \<Longrightarrow> R (f x) w r"
  shows "run_at mk (pbind p (\<lambda>x. preturn (f x))) pre rest R"
  by (rule run_at_bind [OF assms(1)], rule run_at_return) (simp add: assms(2))

text \<open>\<open>reads_fields field n\<close>: \<open>field\<close> is right on every rest shorter than \<open>n\<close>.\<close>

definition reads_fields :: "type_signature sp \<Rightarrow> nat \<Rightarrow> bool" where
  "reads_fields field n \<longleftrightarrow>
     (\<forall>pre rest. length rest < n \<longrightarrow> run_at sig_at field pre rest (\<lambda>t w _. field_text t w))"

lemma reads_fieldsD:
  "reads_fields field n \<Longrightarrow> length rest < n \<Longrightarrow> run_at sig_at field pre rest (\<lambda>t w _. field_text t w)"
  by (simp add: reads_fields_def)

lemma run_at_type_argument:
  assumes "reads_fields field n" "length rest < n"
  shows "run_at sig_at (parse_type_argument field) pre rest (\<lambda>a w _. ta_text a w \<and> w \<noteq> [])"
  unfolding parse_type_argument_def
proof (intro run_at_if)
  note f = run_at_map [OF reads_fieldsD [OF assms(1)]]
  show "run_at sig_at (pbind bump (\<lambda>_. preturn TaAny)) pre rest (\<lambda>a w _. ta_text a w \<and> w \<noteq> [])"
    if "at_char CHR ''*'' (sig_at pre rest)"
    by (rule run_at_bump_then [OF that]) (auto intro!: run_at_return)
  show "run_at sig_at (pbind bump (\<lambda>_. pbind field (\<lambda>t. preturn (TaExtends t)))) pre rest
      (\<lambda>a w _. ta_text a w \<and> w \<noteq> [])" if "at_char CHR ''+'' (sig_at pre rest)"
    by (rule run_at_bump_then [OF that], simp, rule f) (use assms(2) in auto)
  show "run_at sig_at (pbind bump (\<lambda>_. pbind field (\<lambda>t. preturn (TaSuper t)))) pre rest
      (\<lambda>a w _. ta_text a w \<and> w \<noteq> [])" if "at_char CHR ''-'' (sig_at pre rest)"
    by (rule run_at_bump_then [OF that], simp, rule f) (use assms(2) in auto)
  show "run_at sig_at (pbind field (\<lambda>t. preturn (TaExact t))) pre rest (\<lambda>a w _. ta_text a w \<and> w \<noteq> [])"
    by (rule f) (use assms(2) ts_text_nonempty in auto)
  show "run_at sig_at sig_error pre rest (\<lambda>a w _. ta_text a w \<and> w \<noteq> [])" by (rule run_at_error)
qed

lemma run_at_angles:
  assumes "\<And>pre' rest'. length rest' < length rest \<Longrightarrow> run_at sig_at item pre' rest' (\<lambda>x w _. G x w \<and> w \<noteq> [])"
  shows "run_at sig_at (in_angles item) pre rest (\<lambda>xs w _. angles_text G xs w)"
  unfolding in_angles_def
proof (rule run_at_if)
  show "run_at sig_at (preturn []) pre rest (\<lambda>xs w _. angles_text G xs w)"
    by (rule run_at_return) (simp add: angles_text_def)
  show "run_at sig_at
     (pbind (expect (rc CHR ''<'')) (\<lambda>_.
      pbind (pmany (\<lambda>p. \<not> at_char CHR ''>'' p) (\<lambda>p. if is_eof p then sig_error p else item p)) (\<lambda>args.
      pbind (expect (rc CHR ''>'')) (\<lambda>_. preturn args)))) pre rest (\<lambda>xs w _. angles_text G xs w)"
  proof (rule run_at_bind [OF run_at_expect], simp)
    fix w r assume r: "rest = w @ r" "w = [rc CHR ''<'']"
    have "run_at sig_at (\<lambda>p. if is_eof p then sig_error p else item p) pre' r' (\<lambda>x w _. G x w \<and> w \<noteq> [])"
      if "length r' \<le> length r" for pre' r'
      by (rule run_at_if) (use that r assms in \<open>auto intro: run_at_error\<close>)
    then show "run_at sig_at
        (pbind (pmany (\<lambda>p. \<not> at_char CHR ''>'' p) (\<lambda>p. if is_eof p then sig_error p else item p)) (\<lambda>args.
         pbind (expect (rc CHR ''>'')) (\<lambda>_. preturn args))) (pre @ w) r (\<lambda>xs w' _. angles_text G xs (w @ w'))"
      by (intro run_at_bind [OF run_at_many])
        (auto intro!: run_at_bind [OF run_at_expect] run_at_return simp: angles_text_def r)
  qed
qed

lemma run_at_segment:
  assumes "reads_fields field n" "length rest < n" "ident name"
  shows "run_at sig_at (parse_segment field name) pre rest (\<lambda>s w _. seg_text s (name @ w))"
  unfolding parse_segment_def parse_type_arguments_if_present_def
proof (rule run_at_map [OF run_at_angles])
  show "run_at sig_at (parse_type_argument field) pre' rest' (\<lambda>x w _. ta_text x w \<and> w \<noteq> [])"
    if "length rest' < length rest" for pre' rest'
    by (rule run_at_type_argument [OF assms(1)]) (use that assms(2) in simp)
  show "seg_text (Segment name args) (name @ w)" if "angles_text ta_text args w" for args w
    using that assms(3) by (auto simp: angles_text_def list_all2_map1)
qed

lemma run_at_package:
  assumes "ident first"
  shows "run_at sig_at (pwhile (at_char CHR ''/'') package_step ([], first)) pre rest
    (\<lambda>pf w _. list_all ident (fst pf) \<and> ident (snd pf) \<and>
       first @ w = concat (map (\<lambda>p. p @ [rc CHR ''/'']) (fst pf)) @ snd pf)"
proof -
  let ?J = "\<lambda>pf w (_ :: rstr). list_all ident (fst pf) \<and> ident (snd pf) \<and>
       first @ w = concat (map (\<lambda>p. p @ [rc CHR ''/'']) (fst pf)) @ snd pf"
  have "run_at sig_at (pwhile (at_char CHR ''/'') package_step ([], first)) pre rest
      (\<lambda>pf w r'. ?J pf w r' \<and> \<not> at_char CHR ''/'' (sig_at (pre @ w) r'))"
  proof (rule run_at_while)
    show "?J ([], first) [] rest" using assms by simp
    fix acc w rest'
    assume J: "?J acc w rest'" and c: "at_char CHR ''/'' (sig_at (pre @ w) rest')"
    show "run_at sig_at (package_step acc) (pre @ w) rest' (\<lambda>acc' w' r'. w' \<noteq> [] \<and> ?J acc' (w @ w') r')"
      unfolding package_step_def
    proof (rule run_at_bump_then [OF c], simp)
      fix r
      show "run_at sig_at (pbind parse_identifier (\<lambda>next. preturn (fst acc @ [snd acc], next)))
          ((pre @ w) @ [rc CHR ''/'']) r
          (\<lambda>acc' w' r'. rc CHR ''/'' # w' \<noteq> [] \<and> ?J acc' (w @ rc CHR ''/'' # w') r')"
      proof (rule run_at_map [OF run_at_identifier])
        fix x v and r'' :: rstr
        assume "v = x \<and> ident x"
        moreover have "first @ w @ rc CHR ''/'' # x =
            concat (map (\<lambda>p. p @ [rc CHR ''/'']) (fst acc)) @ snd acc @ rc CHR ''/'' # x"
          using J by (metis append_assoc)
        ultimately show "rc CHR ''/'' # v \<noteq> [] \<and> ?J (fst acc @ [snd acc], x) (w @ rc CHR ''/'' # v) r''"
          using J by simp
      qed
    qed
  qed
  then show ?thesis by (rule run_at_conseq) blast
qed

lemma list_all2_cons_texts:
  "list_all2 (\<lambda>x w. \<exists>v. w = c # v \<and> G x v) xs ws \<longleftrightarrow> (\<exists>vs. list_all2 G xs vs \<and> ws = map ((#) c) vs)"
proof
  assume "list_all2 (\<lambda>x w. \<exists>v. w = c # v \<and> G x v) xs ws"
  then show "\<exists>vs. list_all2 G xs vs \<and> ws = map ((#) c) vs"
  proof (induction rule: list_all2_induct)
    case (Cons x xs w ws)
    then obtain v vs where "w = c # v" "G x v" "list_all2 G xs vs" "ws = map ((#) c) vs" by blast
    then show ?case by (intro exI [of _ "v # vs"]) simp
  qed simp
next
  assume "\<exists>vs. list_all2 G xs vs \<and> ws = map ((#) c) vs"
  then show "list_all2 (\<lambda>x w. \<exists>v. w = c # v \<and> G x v) xs ws" by (auto simp: list_all2_map2)
qed

lemma run_at_class_type:
  assumes "reads_fields field n" "length rest \<le> n"
  shows "run_at sig_at (parse_class_type_signature_with field) pre rest (\<lambda>c w _. ct_text c w)"
  unfolding parse_class_type_signature_with_def
proof (rule run_at_bind [OF run_at_expect], simp, rule run_at_bind [OF run_at_identifier],
    rule run_at_bind [OF run_at_package], simp)
  fix w0 r0 :: rstr and first w1 r1 and pf :: "rstr list \<times> rstr" and w2 r2
  assume rest: "rest = w0 @ r0" "w0 = [rc CHR ''L'']" "r0 = w1 @ r1" "r1 = w2 @ r2"
    and id: "w1 = first \<and> ident first"
    and pf: "list_all ident (fst pf) \<and> ident (snd pf) \<and>
       first @ w2 = concat (map (\<lambda>p. p @ [rc CHR ''/'']) (fst pf)) @ snd pf"
  have r2: "length r2 < n" using rest assms(2) by simp
  let ?inner = "pbind bump (\<lambda>_. pbind parse_identifier (parse_segment field))"
  have inner: "run_at sig_at ?inner pre' r' (\<lambda>s w _. (\<exists>v. w = rc CHR ''.'' # v \<and> seg_text s v) \<and> w \<noteq> [])"
    if "length r' < n" "at_char CHR ''.'' (sig_at pre' r')" for pre' r'
  proof (rule run_at_bump_then [OF that(2)], simp, rule run_at_bind [OF run_at_identifier])
    fix r3 name w3 r4
    assume "r' = rc CHR ''.'' # r3" "r3 = w3 @ r4" "w3 = name \<and> ident name"
    with that(1) show "run_at sig_at (parse_segment field name) ((pre' @ [rc CHR ''.'']) @ w3) r4
        (\<lambda>s w _. (\<exists>v. rc CHR ''.'' # w3 @ w = rc CHR ''.'' # v \<and> seg_text s v) \<and> rc CHR ''.'' # w3 @ w \<noteq> [])"
      by (intro run_at_conseq [OF run_at_segment [OF assms(1)]]) auto
  qed
  show "run_at sig_at
     (pbind (parse_segment field (snd pf)) (\<lambda>seg.
      pbind (pmany (at_char CHR ''.'') ?inner) (\<lambda>segs.
      pbind (expect (rc CHR '';'')) (\<lambda>_. preturn (ClassType (fst pf) (seg # segs))))))
     (((pre @ w0) @ w1) @ w2) r2 (\<lambda>c w _. ct_text c (w0 @ w1 @ w2 @ w))"
  proof (rule run_at_bind [OF run_at_segment [OF assms(1) r2]], simp add: pf)
    fix seg w3 r3
    assume seg: "r2 = w3 @ r3" "seg_text seg (snd pf @ w3)"
    have r3: "length r' < n" if "length r' \<le> length r3" for r' :: rstr
      using that r2 seg(1) by simp
    show "run_at sig_at
       (pbind (pmany (at_char CHR ''.'') ?inner) (\<lambda>segs.
        pbind (expect (rc CHR '';'')) (\<lambda>_. preturn (ClassType (fst pf) (seg # segs)))))
       ((((pre @ w0) @ w1) @ w2) @ w3) r3 (\<lambda>c w _. ct_text c (w0 @ w1 @ w2 @ w3 @ w))"
    proof (rule run_at_bind [OF run_at_many [OF inner [OF r3]]])
      fix segs w4 r4
      assume "(\<exists>ws. list_all2 (\<lambda>s w. \<exists>v. w = rc CHR ''.'' # v \<and> seg_text s v) segs ws \<and> w4 = concat ws) \<and>
        \<not> at_char CHR ''.'' (sig_at (((((pre @ w0) @ w1) @ w2) @ w3) @ w4) r4)"
      then obtain ws where "list_all2 (\<lambda>s w. \<exists>v. w = rc CHR ''.'' # v \<and> seg_text s v) segs ws" "w4 = concat ws"
        by blast
      then obtain vs where vs: "list_all2 seg_text segs vs" "w4 = concat (map ((#) (rc CHR ''.'')) vs)"
        using list_all2_cons_texts [of "rc CHR ''.''" seg_text segs ws] by blast
      have "ct_text (ClassType (fst pf) (seg # segs)) (w0 @ w1 @ w2 @ w3 @ w4 @ [rc CHR '';''])"
        using pf rest(2) id seg(2) vs
        by (auto simp: list_all2_map1 intro!: exI [of _ "snd pf @ w3"] exI [of _ vs])
      then show "run_at sig_at (pbind (expect (rc CHR '';'')) (\<lambda>_. preturn (ClassType (fst pf) (seg # segs))))
          (((((pre @ w0) @ w1) @ w2) @ w3) @ w4) r4 (\<lambda>c w _. ct_text c (w0 @ w1 @ w2 @ w3 @ w4 @ w))"
        by (intro run_at_bind [OF run_at_expect] run_at_return) (simp_all del: ct_text.simps)
    qed auto
  qed
qed

lemma run_at_type_variable:
  "run_at sig_at parse_type_variable_signature pre rest (\<lambda>t w _. is_throwable t \<and> field_text t w)"
  unfolding parse_type_variable_signature_def
  by (intro run_at_bind [OF run_at_expect] run_at_bind [OF run_at_identifier_until] run_at_return)
    (auto simp: is_signature_delimiter_def rs_def)

lemma run_at_base:
  assumes "Option.bind (peek (sig_at pre rest)) base_type_of = Some t"
  shows "run_at sig_at (pbind bump (\<lambda>_. preturn (TsBase t))) pre rest (\<lambda>t w _. ts_text t w)"
proof -
  from assms have "peek (sig_at pre rest) = Some (print_base t)"
    by (cases "peek (sig_at pre rest)") (auto simp: base_type_of_Some_iff)
  then obtain r where r: "rest = print_base t # r" by (auto simp: peek_ascii)
  show ?thesis by (rule run_at_map [OF run_at_bump [OF _ r]]) simp_all
qed

lemma run_at_type:
  assumes "reads_fields field n" "length rest < n"
  shows "run_at sig_at (parse_type_signature_with field) pre rest (\<lambda>t w _. ts_text t w)"
proof (cases "Option.bind (peek (sig_at pre rest)) base_type_of")
  case (Some t)
  from run_at_base [OF this] Some show ?thesis
    by (simp add: run_at_def parse_type_signature_with_def)
next
  case None
  have "run_at sig_at (\<lambda>p. if at_char CHR ''L'' p \<or> at_char CHR ''T'' p \<or> at_char CHR ''['' p then field p
      else sig_error p) pre rest (\<lambda>t w _. ts_text t w)"
    by (intro run_at_if run_at_error run_at_conseq [OF reads_fieldsD [OF assms]]) auto
  with None show ?thesis by (simp add: run_at_def parse_type_signature_with_def)
qed

lemma run_at_field_type: "run_at sig_at parse_field_type_signature pre rest (\<lambda>t w _. field_text t w)"
proof (induction "length rest" arbitrary: pre rest rule: less_induct)
  case less
  have fields: "reads_fields parse_field_type_signature (length rest)"
    using less.hyps by (simp add: reads_fields_def)
  have "run_at sig_at
     (\<lambda>p. if at_char CHR ''L'' p then
        pbind (parse_class_type_signature_with parse_field_type_signature) (\<lambda>c. preturn (TsClass c)) p
      else if at_char CHR ''T'' p then parse_type_variable_signature p
      else if at_char CHR ''['' p then
        pbind bump (\<lambda>_. pbind (parse_type_signature_with parse_field_type_signature)
          (\<lambda>component. preturn (TsArray component))) p
      else sig_error p) pre rest (\<lambda>t w _. field_text t w)"
  proof (intro run_at_if run_at_error)
    show "run_at sig_at (pbind (parse_class_type_signature_with parse_field_type_signature)
        (\<lambda>c. preturn (TsClass c))) pre rest (\<lambda>t w _. field_text t w)"
      by (rule run_at_map [OF run_at_class_type [OF fields]]) auto
    show "run_at sig_at parse_type_variable_signature pre rest (\<lambda>t w _. field_text t w)"
      by (rule run_at_conseq [OF run_at_type_variable]) simp
    show "run_at sig_at (pbind bump (\<lambda>_. pbind (parse_type_signature_with parse_field_type_signature)
        (\<lambda>component. preturn (TsArray component)))) pre rest (\<lambda>t w _. field_text t w)"
      if c: "at_char CHR ''['' (sig_at pre rest)"
      by (rule run_at_bump_then [OF c], simp, rule run_at_map [OF run_at_type [OF fields]]) auto
  qed
  then show ?case by (simp add: run_at_def parse_field_type_signature.simps [of "sig_at pre rest"])
qed

lemma reads_all_fields: "reads_fields parse_field_type_signature n"
  by (simp add: reads_fields_def run_at_field_type)

lemmas run_at_class = run_at_class_type [OF reads_all_fields order.refl, folded parse_class_type_signature_def]
lemmas run_at_ts = run_at_type [OF reads_all_fields lessI, folded parse_type_signature_def]

section \<open>Every such text is accepted\<close>

lemma decodes_cong:
  assumes "\<And>pre. p (mk pre (w @ rest)) = q (mk pre (w @ rest))"
  shows "decodes mk p w x rest \<longleftrightarrow> decodes mk q w x rest"
  using assms by (simp add: decodes_def)

lemma decodes_map: "decodes mk p w x rest \<Longrightarrow> decodes mk (pbind p (\<lambda>x. preturn (f x))) w (f x) rest"
  by (simp add: decodes_def)

lemma decodes_bump_then:
  assumes "c < 0x80" "decodes sig_at p w x rest"
  shows "decodes sig_at (pbind bump (\<lambda>_. p)) (c # w) x rest"
  using decodes_bind [OF decodes_bump [OF assms(1)] assms(2)] by simp

lemma decodes_expect_then:
  assumes "c < 0x80" "decodes sig_at p w x rest"
  shows "decodes sig_at (pbind (expect c) (\<lambda>_. p)) (c # w) x rest"
  using decodes_bind [OF decodes_expect [OF assms(1)] assms(2)] by simp

lemma follows_cons [simp]: "follows (c # r) \<longleftrightarrow> is_signature_delimiter c"
  by (simp add: follows_def)

lemma decodes_angles:
  assumes "angles_text G xs w" "\<And>r. w = [] \<Longrightarrow> rest \<noteq> rc CHR ''<'' # r" "F (rc CHR ''>'' # rest)"
    and "\<And>x v rest. x \<in> set xs \<Longrightarrow> G x v \<Longrightarrow>
      (F rest \<longrightarrow> decodes sig_at item v x rest) \<and> v \<noteq> [] \<and> hd v \<noteq> rc CHR ''>'' \<and> F (v @ rest)"
  shows "decodes sig_at (in_angles item) w xs rest"
  using assms(1) unfolding angles_text_def
proof (elim disjE conjE exE)
  assume "xs = []" "w = []"
  with assms(2) show ?thesis by (auto simp: decodes_def in_angles_def at_char_at)
next
  fix ws assume G: "list_all2 G xs ws" and w: "w = rc CHR ''<'' # concat ws @ [rc CHR ''>'']"
  let ?c = "\<lambda>p. \<not> at_char CHR ''>'' p" and ?item = "\<lambda>p. if is_eof p then sig_error p else item p"
  have items: "list_all2 (\<lambda>x v. (\<forall>pre rest. ?c (sig_at pre (v @ rest))) \<and> (\<forall>rest. F (v @ rest)) \<and>
      (\<forall>rest. F rest \<longrightarrow> decodes sig_at ?item v x rest)) xs ws"
    using G
  proof (rule list.rel_mono_strong)
    fix x v assume "x \<in> set xs" "G x v"
    with assms(4) have "v \<noteq> []" "hd v \<noteq> rc CHR ''>''" "\<And>rest. F rest \<Longrightarrow> decodes sig_at item v x rest"
        "\<And>rest. F (v @ rest)"
      by blast+
    then show "(\<forall>pre rest. ?c (sig_at pre (v @ rest))) \<and> (\<forall>rest. F (v @ rest)) \<and>
        (\<forall>rest. F rest \<longrightarrow> decodes sig_at ?item v x rest)"
      by (cases v) (auto simp: at_char_at decodes_def)
  qed
  have "decodes sig_at (pbind (expect (rc CHR ''<'')) (\<lambda>_. pbind (pmany ?c ?item) (\<lambda>args.
      pbind (expect (rc CHR ''>'')) (\<lambda>_. preturn args)))) w xs rest"
    unfolding w
  proof (rule decodes_expect_then, simp, rule decodes_bind [OF decodes_many [OF items]])
    show "F ([rc CHR ''>''] @ rest)" using assms(3) by simp
    show "decodes sig_at (pbind (expect (rc CHR ''>'')) (\<lambda>_. preturn xs)) [rc CHR ''>''] xs rest"
      using decodes_expect_then [OF _ decodes_return, of "rc CHR ''>''"] by simp
  qed (auto simp: at_char_at)
  then show ?thesis by (simp add: w decodes_def in_angles_def at_char_at)
qed

definition seg_follows :: "rstr \<Rightarrow> bool" where
  "seg_follows rest \<longleftrightarrow> rest \<noteq> [] \<and> (hd rest = rc CHR ''.'' \<or> hd rest = rc CHR '';'')"

definition reads_segment :: "class_type_segment \<Rightarrow> rstr \<Rightarrow> bool" where
  "reads_segment s w \<longleftrightarrow> (\<exists>n v. w = n @ v \<and> ident n \<and>
     (\<forall>rest. seg_follows rest \<longrightarrow> follows (v @ rest) \<and> hd (v @ rest) \<noteq> rc CHR ''/'' \<and>
        decodes sig_at (parse_segment parse_field_type_signature n) v s rest))"

lemma delimiters [simp]:
  "is_signature_delimiter 47" "is_signature_delimiter 59" "is_signature_delimiter 60"
  "is_signature_delimiter 62" "is_signature_delimiter 46" "is_signature_delimiter 58"
  by (simp_all add: is_signature_delimiter_def rs_def)

lemma reads_segmentI:
  assumes "seg_text (Segment n args) w"
    and "\<And>a v rest. a \<in> set args \<Longrightarrow> ta_text a v \<Longrightarrow>
      decodes sig_at (parse_type_argument parse_field_type_signature) v a rest \<and> v \<noteq> [] \<and> hd v \<noteq> rc CHR ''>''"
  shows "reads_segment (Segment n args) w"
proof -
  from assms(1) obtain v where v: "w = n @ v" "ident n" "angles_text ta_text args v"
    by (auto simp: angles_text_def list_all2_map1)
  have "follows (v @ rest) \<and> hd (v @ rest) \<noteq> rc CHR ''/'' \<and>
      decodes sig_at (parse_segment parse_field_type_signature n) v (Segment n args) rest"
    if "seg_follows rest" for rest
  proof (intro conjI)
    show "follows (v @ rest)" "hd (v @ rest) \<noteq> rc CHR ''/''"
      using v(3) that by (auto simp: angles_text_def follows_def seg_follows_def)
    have "decodes sig_at (in_angles (parse_type_argument parse_field_type_signature)) v args rest"
      by (rule decodes_angles [OF v(3), where F = "\<lambda>_. True"])
        (use that assms(2) in \<open>auto simp: seg_follows_def\<close>)
    then show "decodes sig_at (parse_segment parse_field_type_signature n) v (Segment n args) rest"
      unfolding parse_segment_def parse_type_arguments_if_present_def by (rule decodes_map)
  qed
  with v show ?thesis by (auto simp: reads_segment_def)
qed

lemma decodes_package:
  assumes "list_all ident names" "ident nm" "follows rest" "\<And>r. rest \<noteq> rc CHR ''/'' # r"
  shows "decodes sig_at (pbind parse_identifier (\<lambda>first. pwhile (at_char CHR ''/'') package_step (pkg, first)))
    (concat (map (\<lambda>p. p @ [rc CHR ''/'']) names) @ nm) (pkg @ names, nm) rest"
  using assms
proof (induction names arbitrary: pkg)
  case Nil
  have "decodes sig_at (pwhile (at_char CHR ''/'') package_step (pkg, nm)) [] (pkg, nm) rest"
    using Nil.prems by (simp add: decodes_def pwhile_unfold at_char_at)
  with Nil.prems decodes_bind [OF decodes_identifier, of nm "[]" rest] show ?case by simp
next
  case (Cons n names)
  let ?w = "concat (map (\<lambda>p. p @ [rc CHR ''/'']) names) @ nm"
  have IH: "decodes sig_at (pbind parse_identifier (\<lambda>first. pwhile (at_char CHR ''/'') package_step (pkg @ [n], first)))
      ?w ((pkg @ [n]) @ names, nm) rest"
    by (rule Cons.IH) (use Cons.prems in simp_all)
  have "decodes sig_at (pbind (package_step (pkg, n)) (pwhile (at_char CHR ''/'') package_step))
      (rc CHR ''/'' # ?w) ((pkg @ [n]) @ names, nm) rest"
    using decodes_bump_then [OF _ IH, of "rc CHR ''/''"]
    by (simp add: package_step_def pbind_assoc pbind_simps)
  then have "decodes sig_at (pwhile (at_char CHR ''/'') package_step (pkg, n)) (rc CHR ''/'' # ?w)
      ((pkg @ [n]) @ names, nm) rest"
    by (simp add: decodes_def pwhile_unfold at_char_at)
  moreover have "decodes sig_at parse_identifier n n ((rc CHR ''/'' # ?w) @ rest)"
    using Cons.prems by (intro decodes_identifier) simp_all
  ultimately show ?case using decodes_bind by fastforce
qed

lemma decodes_segments:
  assumes "list_all2 reads_segment segs ws" "rest = rc CHR '';'' # r"
  shows "decodes sig_at
    (pmany (at_char CHR ''.'') (pbind bump (\<lambda>_. pbind parse_identifier (parse_segment parse_field_type_signature))))
    (concat (map ((#) (rc CHR ''.'')) ws)) segs rest"
proof (rule decodes_many [where F = seg_follows])
  let ?p = "pbind bump (\<lambda>_. pbind parse_identifier (parse_segment parse_field_type_signature))"
  show "list_all2 (\<lambda>x w. (\<forall>pre rest. at_char CHR ''.'' (sig_at pre (w @ rest))) \<and>
      (\<forall>rest. seg_follows (w @ rest)) \<and> (\<forall>rest. seg_follows rest \<longrightarrow> decodes sig_at ?p w x rest))
      segs (map ((#) (rc CHR ''.'')) ws)"
    unfolding list_all2_map2
  proof (rule list_all2_mono [OF assms(1)], intro conjI allI impI)
    fix s w rest assume "reads_segment s w" "seg_follows rest"
    then obtain n v where "w = n @ v" "ident n" "follows (v @ rest)"
        "decodes sig_at (parse_segment parse_field_type_signature n) v s rest"
      by (auto simp: reads_segment_def)
    then show "decodes sig_at ?p (rc CHR ''.'' # w) s rest"
      by (auto intro!: decodes_bump_then decodes_bind decodes_identifier)
  qed (auto simp: at_char_at seg_follows_def)
qed (auto simp: assms(2) at_char_at seg_follows_def)

lemma decodes_class_type:
  assumes "ct_text (ClassType pkg segs) w"
    and "\<And>s v. s \<in> set segs \<Longrightarrow> seg_text s v \<Longrightarrow> reads_segment s v"
  shows "decodes sig_at parse_class_type_signature w (ClassType pkg segs) rest"
proof -
  from assms(1) obtain seg segs' v ws where segs: "segs = seg # segs'" and pkg: "list_all ident pkg"
      and texts: "seg_text seg v" "list_all2 seg_text segs' ws"
      and w: "w = rc CHR ''L'' # concat (map (\<lambda>p. p @ [rc CHR ''/'']) pkg) @ v @
       concat (map ((#) (rc CHR ''.'')) ws) @ [rc CHR '';'']"
    by (auto simp: list_all2_map1 list_all2_Cons2)
  let ?dots = "concat (map ((#) (rc CHR ''.'')) ws)"
  have seg: "reads_segment seg v" using assms(2) texts(1) segs by simp
  have rest: "list_all2 reads_segment segs' ws"
    using texts(2) by (rule list.rel_mono_strong) (use assms(2) segs in auto)
  have sf: "seg_follows (?dots @ rc CHR '';'' # rest)"
    by (cases ws) (auto simp: seg_follows_def)
  from seg obtain n u where u: "v = n @ u" "ident n" "follows (u @ ?dots @ rc CHR '';'' # rest)"
      "hd (u @ ?dots @ rc CHR '';'' # rest) \<noteq> rc CHR ''/''"
      "decodes sig_at (parse_segment parse_field_type_signature n) u seg (?dots @ rc CHR '';'' # rest)"
    using sf by (auto simp: reads_segment_def)
  have noslash: "u @ ?dots @ rc CHR '';'' # rest \<noteq> rc CHR ''/'' # r" for r
    using u(4) by (metis list.sel(1))
  let ?names = "concat (map (\<lambda>p. p @ [rc CHR ''/'']) pkg)"
  let ?stop = "\<lambda>segs. pbind (expect (rc CHR '';'')) (\<lambda>_. preturn (ClassType pkg (seg # segs)))"
  let ?segs = "pmany (at_char CHR ''.'') (pbind bump (\<lambda>_. pbind parse_identifier (parse_segment parse_field_type_signature)))"
  let ?rest = "\<lambda>pf. pbind (parse_segment parse_field_type_signature (snd pf)) (\<lambda>seg. pbind ?segs (\<lambda>segs.
       pbind (expect (rc CHR '';'')) (\<lambda>_. preturn (ClassType (fst pf) (seg # segs)))))"
  have "decodes sig_at (?stop segs') [rc CHR '';''] (ClassType pkg (seg # segs')) rest"
    using decodes_expect_then [OF _ decodes_return, of "rc CHR '';''"] by simp
  then have "decodes sig_at (pbind ?segs ?stop) (?dots @ [rc CHR '';'']) (ClassType pkg (seg # segs')) rest"
    by (rule decodes_bind [rotated]) (rule decodes_segments [OF rest], simp)
  then have "decodes sig_at (?rest (pkg, n)) (u @ ?dots @ [rc CHR '';'']) (ClassType pkg (seg # segs')) rest"
    unfolding fst_conv snd_conv by (rule decodes_bind [rotated]) (use u(5) in simp)
  then have "decodes sig_at (pbind (pbind parse_identifier (\<lambda>first. pwhile (at_char CHR ''/'') package_step ([], first))) ?rest)
      ((?names @ n) @ u @ ?dots @ [rc CHR '';'']) (ClassType pkg (seg # segs')) rest"
    by (rule decodes_bind [rotated]) (use decodes_package [OF pkg u(2,3) noslash, of "[]"] in simp)
  from decodes_expect_then [OF _ this, of "rc CHR ''L''"] show ?thesis
    by (simp add: parse_class_type_signature_def parse_class_type_signature_with_def pbind_assoc w u(1) segs)
qed

lemma at_char_cons [simp]: "rc c < 0x80 \<Longrightarrow> at_char c (sig_at pre (d # r)) \<longleftrightarrow> d = rc c"
  by (simp add: at_char_at)

lemma decodes_type_argument:
  assumes "ta_text a w"
    and "\<And>t v rest. a = TaExact t \<or> a = TaExtends t \<or> a = TaSuper t \<Longrightarrow> field_text t v \<Longrightarrow>
      decodes sig_at parse_field_type_signature v t rest"
  shows "decodes sig_at (parse_type_argument parse_field_type_signature) w a rest \<and> w \<noteq> [] \<and> hd w \<noteq> rc CHR ''>''"
proof (cases a)
  case TaAny
  have "decodes sig_at (pbind bump (\<lambda>_. preturn TaAny)) [rc CHR ''*''] TaAny rest"
    by (rule decodes_bump_then [OF _ decodes_return]) simp
  with TaAny assms(1) show ?thesis by (simp add: decodes_def parse_type_argument_def)
next
  case (TaExact t)
  with assms(1) have w: "field_text t w" by simp
  from decodes_map [OF assms(2) [OF _ w], of TaExact rest] TaExact
  have "decodes sig_at (pbind parse_field_type_signature (\<lambda>t. preturn (TaExact t))) w a rest" by simp
  moreover from w ts_text_starts [of t w] obtain c v where "w = c # v"
      "c = rc CHR ''L'' \<or> c = rc CHR ''T'' \<or> c = rc CHR ''[''"
    by (cases w) auto
  ultimately show ?thesis by (auto simp: decodes_def parse_type_argument_def)
next
  case (TaExtends t)
  with assms(1) obtain v where v: "w = rc CHR ''+'' # v" "field_text t v" by auto
  from decodes_bump_then [OF _ decodes_map [OF assms(2) [OF _ v(2)]], of "rc CHR ''+''" TaExtends rest] TaExtends v(1)
  have "decodes sig_at (pbind bump (\<lambda>_. pbind parse_field_type_signature (\<lambda>t. preturn (TaExtends t)))) w a rest"
    by simp
  with v(1) show ?thesis by (simp add: decodes_def parse_type_argument_def)
next
  case (TaSuper t)
  with assms(1) obtain v where v: "w = rc CHR ''-'' # v" "field_text t v" by auto
  from decodes_bump_then [OF _ decodes_map [OF assms(2) [OF _ v(2)]], of "rc CHR ''-''" TaSuper rest] TaSuper v(1)
  have "decodes sig_at (pbind bump (\<lambda>_. pbind parse_field_type_signature (\<lambda>t. preturn (TaSuper t)))) w a rest"
    by simp
  with v(1) show ?thesis by (simp add: decodes_def parse_type_argument_def)
qed

lemma decodes_type_variable:
  assumes "ts_text (TsTypeVariable n) w"
  shows "decodes sig_at parse_type_variable_signature w (TsTypeVariable n) rest"
proof -
  from assms have n: "ident n" and w: "w = rc CHR ''T'' # n @ [rc CHR '';'']" by simp_all
  have "decodes sig_at (pbind (expect (rc CHR '';'')) (\<lambda>_. preturn (TsTypeVariable n))) [rc CHR '';''] (TsTypeVariable n) rest"
    using decodes_expect_then [OF _ decodes_return, of "rc CHR '';''"] by simp
  then have "decodes sig_at (pbind (parse_identifier_until (rc CHR '';'')) (\<lambda>name.
      pbind (expect (rc CHR '';'')) (\<lambda>_. preturn (TsTypeVariable name)))) (n @ [rc CHR '';'']) (TsTypeVariable n) rest"
    by (rule decodes_bind [rotated]) (use decodes_identifier_until [OF _ n] in simp)
  from decodes_expect_then [OF _ this, of "rc CHR ''T''"] show ?thesis
    by (simp add: parse_type_variable_signature_def w)
qed

text \<open>A type is read by the wider of the two parsers, and by the narrower one when it may start there.\<close>

lemma decodes_type_of_field:
  assumes "is_field_type t" "ts_text t w" "decodes sig_at parse_field_type_signature w t rest"
  shows "decodes sig_at parse_type_signature w t rest"
proof -
  from assms ts_text_starts [of t w] obtain c v where w: "w = c # v"
      "c = rc CHR ''L'' \<or> c = rc CHR ''T'' \<or> c = rc CHR ''[''"
    by (cases w) auto
  then have "c < 0x80" "base_type_of c = None" by (auto simp: base_type_of_def)
  with w have "Option.bind (peek (sig_at pre (w @ rest))) base_type_of = None" for pre
    using peek_ascii [of c pre "w @ rest"] by simp
  with w assms(3) show ?thesis
    by (auto simp: decodes_def parse_type_signature_def parse_type_signature_with_def)
qed

lemma decodes_base: "decodes sig_at parse_type_signature [print_base t] (TsBase t) rest"
proof -
  have "Option.bind (peek (sig_at pre (print_base t # rest))) base_type_of = Some t" for pre
    using peek_ascii [of "print_base t" pre "print_base t # rest"] by simp
  then show ?thesis
    by (simp add: decodes_def parse_type_signature_def parse_type_signature_with_def bump_at)
qed

lemma decodes_field_class:
  assumes "ct_text c w" "decodes sig_at parse_class_type_signature w c rest"
  shows "decodes sig_at parse_field_type_signature w (TsClass c) rest"
proof -
  from assms(1) obtain v where "w = rc CHR ''L'' # v" by (auto dest: ct_text_starts)
  with decodes_map [OF assms(2), of TsClass] show ?thesis
    by (simp add: decodes_def parse_field_type_signature.simps [of "sig_at _ _"] parse_class_type_signature_def)
qed

lemma decodes_field_variable:
  assumes "ts_text (TsTypeVariable n) w"
  shows "decodes sig_at parse_field_type_signature w (TsTypeVariable n) rest"
  using decodes_type_variable [OF assms, of rest] assms
  by (simp add: decodes_def parse_field_type_signature.simps [of "sig_at _ _"])

lemma decodes_field_array:
  assumes "decodes sig_at parse_type_signature v t rest"
  shows "decodes sig_at parse_field_type_signature (rc CHR ''['' # v) (TsArray t) rest"
  using decodes_bump_then [OF _ decodes_map [OF assms, of TsArray], of "rc CHR ''[''"]
  by (simp add: decodes_def parse_field_type_signature.simps [of "sig_at _ _"] parse_type_signature_def)

lemma decodes_texts:
  "\<forall>w rest. ts_text t w \<longrightarrow> decodes sig_at parse_type_signature w t rest \<and>
     (is_field_type t \<longrightarrow> decodes sig_at parse_field_type_signature w t rest)"
  "\<forall>w rest. ct_text c w \<longrightarrow> decodes sig_at parse_class_type_signature w c rest"
  "\<forall>w. seg_text s w \<longrightarrow> reads_segment s w"
  "\<forall>w rest. ta_text a w \<longrightarrow> decodes sig_at (parse_type_argument parse_field_type_signature) w a rest \<and>
     w \<noteq> [] \<and> hd w \<noteq> rc CHR ''>''"
proof (induction t and c and s and a)
  case (TsBase t)
  show ?case by (simp add: decodes_base)
next
  case (TsArray t)
  show ?case
  proof (intro allI impI)
    fix w rest assume w: "ts_text (TsArray t) w"
    then have "decodes sig_at parse_field_type_signature w (TsArray t) rest"
      using TsArray decodes_field_array by auto
    with w show "decodes sig_at parse_type_signature w (TsArray t) rest \<and>
        (is_field_type (TsArray t) \<longrightarrow> decodes sig_at parse_field_type_signature w (TsArray t) rest)"
      using decodes_type_of_field [of "TsArray t"] by simp
  qed
next
  case (TsClass c)
  show ?case
  proof (intro allI impI)
    fix w rest assume w: "ts_text (TsClass c) w"
    then have "decodes sig_at parse_field_type_signature w (TsClass c) rest"
      using TsClass decodes_field_class by auto
    with w show "decodes sig_at parse_type_signature w (TsClass c) rest \<and>
        (is_field_type (TsClass c) \<longrightarrow> decodes sig_at parse_field_type_signature w (TsClass c) rest)"
      using decodes_type_of_field [of "TsClass c"] by simp
  qed
next
  case (TsTypeVariable n)
  show ?case
    using decodes_field_variable decodes_type_of_field [of "TsTypeVariable n"]
    by (metis is_field_type.simps(4))
next
  case (ClassType pkg segs)
  then show ?case by (auto simp del: ct_text.simps intro!: decodes_class_type)
next
  case (Segment n args)
  show ?case
  proof (intro allI impI)
    fix w assume "seg_text (Segment n args) w"
    then show "reads_segment (Segment n args) w" by (rule reads_segmentI) (use Segment in blast)
  qed
next
  case TaAny
  show ?case by (intro allI impI decodes_type_argument) auto
next
  case (TaExact t)
  then show ?case by (intro allI impI decodes_type_argument) auto
next
  case (TaExtends t)
  then show ?case by (intro allI impI decodes_type_argument) auto
next
  case (TaSuper t)
  then show ?case by (intro allI impI decodes_type_argument) auto
qed

lemma exact_type: "exact sig_at parse_type_signature ts_text"
  using run_at_ts decodes_texts(1) by (auto intro!: exactI)

lemma exact_field_type: "exact sig_at parse_field_type_signature field_text"
  using run_at_field_type decodes_texts(1) by (auto intro!: exactI)

lemma exact_class_type: "exact sig_at parse_class_type_signature ct_text"
  using run_at_class decodes_texts(2) by (auto intro!: exactI)

end
