(* ===== verification/Class_Sig_Exact.thy ===== *)
theory Class_Sig_Exact
  imports Class_Sig_Text
begin

text \<open>
  The three entry points of the signature parser, against the texts of \<open>Class_Sig_Text\<close>: type
  parameters, class, method and field signatures.
\<close>

section \<open>Type parameters\<close>

lemma run_at_type_parameter: "run_at sig_at parse_type_parameter pre rest (\<lambda>tp w _. tp_text tp w \<and> w \<noteq> [])"
  unfolding parse_type_parameter_def
proof (rule run_at_bind [OF run_at_identifier_until], simp, rule run_at_bind [OF run_at_expect], simp)
  fix name w0 r0 and w1 r1 :: rstr
  assume name: "w0 = name \<and> ident name" and w1: "w1 = [rc CHR '':'']"
  let ?bound = "\<lambda>p. if at_char CHR '':'' p then preturn None p
                else if at_char CHR ''L'' p \<or> at_char CHR ''T'' p \<or> at_char CHR ''['' p
                  then pbind parse_field_type_signature (\<lambda>t. preturn (Some t)) p
                else sig_error p"
  let ?bounds = "pmany (at_char CHR '':'') (pbind bump (\<lambda>_. parse_field_type_signature))"
  have bound: "run_at sig_at ?bound pre' r (\<lambda>b w r'.
      case b of None \<Rightarrow> w = [] \<and> at_char CHR '':'' (sig_at pre' r') | Some t \<Rightarrow> field_text t w)" for pre' r
    by (intro run_at_if run_at_error run_at_return run_at_map [OF run_at_field_type]) simp_all
  have iface: "run_at sig_at (pbind bump (\<lambda>_. parse_field_type_signature)) pre' r
      (\<lambda>t w _. (\<exists>v. w = rc CHR '':'' # v \<and> field_text t v) \<and> w \<noteq> [])"
    if "at_char CHR '':'' (sig_at pre' r)" for pre' r
    by (rule run_at_bump_then [OF that], simp, rule run_at_conseq [OF run_at_field_type]) auto
  show "run_at sig_at (pbind ?bound (\<lambda>class_bound. pbind ?bounds (\<lambda>interface_bounds.
       preturn \<lparr>tp_name = name, tp_class_bound = class_bound, tp_interface_bounds = interface_bounds\<rparr>)))
     ((pre @ w0) @ w1) r1 (\<lambda>tp w _. tp_text tp (w0 @ w1 @ w) \<and> w0 @ w1 @ w \<noteq> [])"
  proof (rule run_at_bind [OF bound], rule run_at_bind [OF run_at_many [OF iface]], assumption, rule run_at_return)
    fix b w2 r2 bs w3 r3
    assume b: "case b of None \<Rightarrow> w2 = [] \<and> at_char CHR '':'' (sig_at ((pre @ w0) @ w1) r2) | Some t \<Rightarrow> field_text t w2"
      and r: "r1 = w2 @ r2" "r2 = w3 @ r3"
      and bs: "(\<exists>ws. list_all2 (\<lambda>t w. \<exists>v. w = rc CHR '':'' # v \<and> field_text t v) bs ws \<and> w3 = concat ws) \<and>
        \<not> at_char CHR '':'' (sig_at ((((pre @ w0) @ w1) @ w2) @ w3) r3)"
    from bs obtain vs where vs: "list_all2 field_text bs vs" "w3 = concat (map ((#) (rc CHR '':'')) vs)"
      unfolding list_all2_cons_texts by blast
    have "bs \<noteq> []" if "b = None"
    proof
      assume "bs = []"
      with vs have "w3 = []" by simp
      with b r bs that show False by (simp add: at_char_at)
    qed
    with b vs name w1
    show "tp_text \<lparr>tp_name = name, tp_class_bound = b, tp_interface_bounds = bs\<rparr> (w0 @ w1 @ w2 @ w3 @ []) \<and>
        w0 @ w1 @ w2 @ w3 @ [] \<noteq> []"
      by (auto simp: tp_text_def split: option.splits)
  qed
qed

lemma decodes_type_parameter:
  assumes "tp_text tp w" "\<And>r. rest \<noteq> rc CHR '':'' # r"
  shows "decodes sig_at parse_type_parameter w tp rest"
proof -
  from assms(1) obtain cb ws where n: "ident (tp_name tp)"
    and cb: "case tp_class_bound tp of None \<Rightarrow> tp_interface_bounds tp \<noteq> [] \<and> cb = [] | Some t \<Rightarrow> field_text t cb"
    and ws: "list_all2 field_text (tp_interface_bounds tp) ws"
    and w: "w = tp_name tp @ rc CHR '':'' # cb @ concat (map ((#) (rc CHR '':'')) ws)"
    by (auto simp: tp_text_def)
  let ?bound = "\<lambda>p. if at_char CHR '':'' p then preturn None p
                else if at_char CHR ''L'' p \<or> at_char CHR ''T'' p \<or> at_char CHR ''['' p
                  then pbind parse_field_type_signature (\<lambda>t. preturn (Some t)) p
                else sig_error p"
  let ?iface = "pbind bump (\<lambda>_. parse_field_type_signature)"
  let ?texts = "map ((#) (rc CHR '':'')) ws"
  have "list_all2 (\<lambda>x w. (\<forall>pre rest. at_char CHR '':'' (sig_at pre (w @ rest))) \<and> (\<forall>rest :: rstr. True) \<and>
      (\<forall>rest. True \<longrightarrow> decodes sig_at ?iface w x rest)) (tp_interface_bounds tp) ?texts"
    unfolding list_all2_map2
    by (rule list_all2_mono [OF ws]) (auto intro!: decodes_bump_then exact_decodes [OF exact_field_type])
  then have ifaces: "decodes sig_at (pmany (at_char CHR '':'') ?iface) (concat ?texts) (tp_interface_bounds tp) rest"
    by (rule decodes_many) (use assms(2) in \<open>auto simp: at_char_at\<close>)
  have bound: "decodes sig_at ?bound cb (tp_class_bound tp) (concat ?texts @ rest)"
  proof (cases "tp_class_bound tp")
    case None
    with cb ws obtain v vs where "ws = v # vs" "cb = []" by (cases ws) auto
    with None show ?thesis by (simp add: decodes_def)
  next
    case (Some t)
    with cb have t: "field_text t cb" by simp
    with ts_text_starts [of t cb] obtain c v where c: "cb = c # v"
        "c = rc CHR ''L'' \<or> c = rc CHR ''T'' \<or> c = rc CHR ''[''"
      by (cases cb) auto
    from decodes_map [OF exact_decodes [OF exact_field_type t], of Some "concat ?texts @ rest"] c Some show ?thesis
      by (auto simp: decodes_def)
  qed
  have eta: "\<lparr>tp_name = tp_name tp, tp_class_bound = tp_class_bound tp,
      tp_interface_bounds = tp_interface_bounds tp\<rparr> = tp" by simp
  have "decodes sig_at (pbind ?bound (\<lambda>class_bound. pbind (pmany (at_char CHR '':'') ?iface) (\<lambda>interface_bounds.
       preturn \<lparr>tp_name = tp_name tp, tp_class_bound = class_bound, tp_interface_bounds = interface_bounds\<rparr>)))
     (cb @ concat ?texts) tp rest"
    by (rule decodes_bind [OF bound])
      (use decodes_map [OF ifaces, of "\<lambda>bs. \<lparr>tp_name = tp_name tp,
          tp_class_bound = tp_class_bound tp, tp_interface_bounds = bs\<rparr>"] in \<open>simp add: eta\<close>)
  from decodes_expect_then [OF _ this, of "rc CHR '':''"] show ?thesis
    unfolding parse_type_parameter_def w
    by (intro decodes_bind [where x = "tp_name tp"])
      (use decodes_identifier_until [OF _ n] in \<open>simp_all add: is_signature_delimiter_def rs_def\<close>)
qed

lemma run_at_type_parameters:
  "run_at sig_at parse_type_parameters_if_present pre rest (\<lambda>tps w _. angles_text tp_text tps w)"
  unfolding parse_type_parameters_if_present_def by (rule run_at_angles) (rule run_at_type_parameter)

lemma tp_text_starts: "tp_text tp w \<Longrightarrow> \<exists>c v. w = c # v \<and> id_char c"
  by (cases "tp_name tp") (auto simp: tp_text_def ident_def)

lemma decodes_type_parameters:
  assumes "angles_text tp_text tps w" "\<And>r. w = [] \<Longrightarrow> rest \<noteq> rc CHR ''<'' # r"
  shows "decodes sig_at parse_type_parameters_if_present w tps rest"
  unfolding parse_type_parameters_if_present_def
proof (rule decodes_angles [where F = "\<lambda>rest. \<forall>r. rest \<noteq> rc CHR '':'' # r", OF assms])
  fix tp v and rest :: rstr assume tp: "tp_text tp v"
  from tp_text_starts [OF tp] obtain c u where "v = c # u" "id_char c" by blast
  then have "v \<noteq> []" "hd v \<noteq> rc CHR ''>''" "\<forall>r. v @ rest \<noteq> rc CHR '':'' # r"
    by (auto simp: id_char_def is_signature_delimiter_def rs_def)
  with decodes_type_parameter [OF tp]
  show "((\<forall>r. rest \<noteq> rc CHR '':'' # r) \<longrightarrow> decodes sig_at parse_type_parameter v tp rest) \<and>
      v \<noteq> [] \<and> hd v \<noteq> rc CHR ''>'' \<and> (\<forall>r. v @ rest \<noteq> rc CHR '':'' # r)"
    by blast
qed auto

section \<open>Entry points\<close>

text \<open>An entry point runs its parser from the start; the parsers below end at the end of the text.\<close>

lemma run_parser_exact:
  assumes "run_at sig_at p [] sig (\<lambda>x w rest'. rest' = [] \<and> G x w)"
    and "\<And>x. G x sig \<Longrightarrow> decodes sig_at p sig x []"
  shows "(\<exists>r. run_parser p sig = Some r) \<and> (run_parser p sig = Some (Ok x) \<longleftrightarrow> G x sig)"
  using assms(1)
proof (cases rule: run_atE)
  case (1 e)
  have "\<not> G y sig" for y using assms(2) [of y] 1 by (auto simp: decodes_def)
  with 1 show ?thesis by (simp add: run_parser_def parser_new_at)
next
  case (2 y w rest')
  then have y: "G y sig" "run_parser p sig = Some (Ok y)" by (auto simp: run_parser_def parser_new_at)
  have "y = z" if "G z sig" for z
    using assms(2) [OF that] 2 by (auto simp: decodes_def)
  with y(1) have "G x sig \<longleftrightarrow> x = y" by blast
  with y(2) show ?thesis by auto
qed

lemma run_at_end: "Q x [] rest \<Longrightarrow> run_at sig_at (at_end x) pre rest (\<lambda>y w r. r = [] \<and> Q y w r)"
  by (cases rest) (auto simp: at_end_def run_at_Err intro: run_at_Ok [where w = "[]"])

lemma decodes_end: "decodes sig_at (at_end x) [] x []"
  by (simp add: decodes_def at_end_def)

lemma field_signature_parses:
  "(\<exists>r. parse_field_signature sig = Some r) \<and>
   (parse_field_signature sig = Some (Ok t) \<longleftrightarrow> is_field_type t \<and> ts_text t sig)"
  unfolding parse_field_signature_def
proof (rule run_parser_exact)
  show "run_at sig_at (pbind parse_field_type_signature at_end) [] sig (\<lambda>t w rest'. rest' = [] \<and> field_text t w)"
    by (rule run_at_bind [OF run_at_field_type], rule run_at_conseq [OF run_at_end]) auto
  show "decodes sig_at (pbind parse_field_type_signature at_end) sig t []" if "field_text t sig" for t
    using decodes_bind [OF exact_decodes [OF exact_field_type that] decodes_end] by simp
qed

lemma run_at_interfaces:
  "run_at sig_at (pmany (\<lambda>p. \<not> is_eof p) parse_class_type_signature) pre rest
     (\<lambda>cs w r. (\<exists>ws. list_all2 ct_text cs ws \<and> w = concat ws) \<and> r = [])"
proof (rule run_at_conseq [OF run_at_many])
  show "run_at sig_at parse_class_type_signature pre' rest' (\<lambda>c w _. ct_text c w \<and> w \<noteq> [])" for pre' rest'
    by (rule run_at_conseq [OF run_at_class]) (auto dest: ct_text_starts)
qed auto

lemma decodes_interfaces:
  assumes "list_all2 ct_text cs ws"
  shows "decodes sig_at (pmany (\<lambda>p. \<not> is_eof p) parse_class_type_signature) (concat ws) cs []"
proof (rule decodes_many [where F = "\<lambda>_. True"])
  show "list_all2 (\<lambda>c w. (\<forall>pre rest. \<not> is_eof (sig_at pre (w @ rest))) \<and> (\<forall>rest :: rstr. True) \<and>
      (\<forall>rest. True \<longrightarrow> decodes sig_at parse_class_type_signature w c rest)) cs ws"
    by (rule list_all2_mono [OF assms]) (auto dest: ct_text_starts intro: exact_decodes [OF exact_class_type])
qed simp_all

lemma class_signature_parses:
  "(\<exists>r. parse_class_signature sig = Some r) \<and>
   (parse_class_signature sig = Some (Ok cs) \<longleftrightarrow> class_signature_text cs sig)"
  unfolding parse_class_signature_def
proof (rule run_parser_exact)
  let ?result = "\<lambda>tps c is. \<lparr>cs_type_parameters = tps, cs_super_class = c, cs_interfaces = is\<rparr>"
  show "run_at sig_at (pbind parse_type_parameters_if_present (\<lambda>tps. pbind parse_class_type_signature (\<lambda>c.
      pbind (pmany (\<lambda>p. \<not> is_eof p) parse_class_type_signature) (\<lambda>is. preturn (?result tps c is))))) [] sig
      (\<lambda>cs w rest'. rest' = [] \<and> class_signature_text cs w)"
    by (rule run_at_bind [OF run_at_type_parameters], rule run_at_bind [OF run_at_class],
        rule run_at_map [OF run_at_interfaces]) (auto simp: class_signature_text_def)
  fix cs assume "class_signature_text cs sig"
  then obtain u v ws where t: "angles_text tp_text (cs_type_parameters cs) u" "ct_text (cs_super_class cs) v"
      "list_all2 ct_text (cs_interfaces cs) ws" and sig: "sig = u @ v @ concat ws"
    by (auto simp: class_signature_text_def)
  have eta: "?result (cs_type_parameters cs) (cs_super_class cs) (cs_interfaces cs) = cs" by simp
  show "decodes sig_at (pbind parse_type_parameters_if_present (\<lambda>tps. pbind parse_class_type_signature (\<lambda>c.
      pbind (pmany (\<lambda>p. \<not> is_eof p) parse_class_type_signature) (\<lambda>is. preturn (?result tps c is))))) sig cs []"
    unfolding sig
  proof (rule decodes_bind [OF decodes_type_parameters [OF t(1)]],
      use ct_text_starts [OF t(2)] in force, rule decodes_bind [OF exact_decodes [OF exact_class_type t(2)]])
    show "decodes sig_at (pbind (pmany (\<lambda>p. \<not> is_eof p) parse_class_type_signature)
        (\<lambda>is. preturn (?result (cs_type_parameters cs) (cs_super_class cs) is))) (concat ws) cs []"
      using decodes_map [OF decodes_interfaces [OF t(3)]] eta by metis
  qed
qed

lemma run_at_parameters:
  "run_at sig_at (pmany (\<lambda>p. \<not> is_eof p \<and> \<not> at_char CHR '')'' p) parse_type_signature) pre rest
     (\<lambda>ts w _. \<exists>ws. list_all2 ts_text ts ws \<and> w = concat ws)"
proof (rule run_at_conseq [OF run_at_many])
  show "run_at sig_at parse_type_signature pre' rest' (\<lambda>t w _. ts_text t w \<and> w \<noteq> [])" for pre' rest'
    by (rule run_at_conseq [OF exact_run [OF exact_type]]) (auto dest: ts_text_nonempty)
qed auto

lemma ts_text_not_paren: "ts_text t w \<Longrightarrow> \<exists>c v. w = c # v \<and> c \<noteq> rc CHR '')'' \<and> c \<noteq> rc CHR ''V'' \<and> c \<noteq> rc CHR ''^''"
  using ts_text_starts [of t w] by (cases w) (auto simp: base_type_of_def split: if_splits)

lemma decodes_parameters:
  assumes "list_all2 ts_text ts ws"
  shows "decodes sig_at (pmany (\<lambda>p. \<not> is_eof p \<and> \<not> at_char CHR '')'' p) parse_type_signature)
    (concat ws) ts (rc CHR '')'' # rest)"
proof (rule decodes_many [where F = "\<lambda>_. True"])
  show "list_all2 (\<lambda>t w. (\<forall>pre rest. \<not> is_eof (sig_at pre (w @ rest)) \<and> \<not> at_char CHR '')'' (sig_at pre (w @ rest))) \<and>
      (\<forall>rest :: rstr. True) \<and> (\<forall>rest. True \<longrightarrow> decodes sig_at parse_type_signature w t rest)) ts ws"
  proof (rule list_all2_mono [OF assms])
    fix t w assume t: "ts_text t w"
    with ts_text_not_paren [OF t] show "(\<forall>pre rest. \<not> is_eof (sig_at pre (w @ rest)) \<and>
        \<not> at_char CHR '')'' (sig_at pre (w @ rest))) \<and> (\<forall>rest :: rstr. True) \<and>
        (\<forall>rest. True \<longrightarrow> decodes sig_at parse_type_signature w t rest)"
      using exact_decodes [OF exact_type t] by auto
  qed
qed simp_all

lemma run_at_return_type: "run_at sig_at parse_return_type pre rest (\<lambda>t w _. return_text t w)"
  unfolding parse_return_type_def
proof (rule run_at_if)
  assume "at_char CHR ''V'' (sig_at pre rest)"
  then show "run_at sig_at (pbind bump (\<lambda>_. preturn None)) pre rest (\<lambda>t w _. return_text t w)"
    by (rule run_at_bump_then) (auto intro!: run_at_return)
next
  show "run_at sig_at (pbind parse_type_signature (\<lambda>t. preturn (Some t))) pre rest (\<lambda>t w _. return_text t w)"
    by (rule run_at_map [OF exact_run [OF exact_type]]) simp
qed

lemma decodes_return_type: "return_text t w \<Longrightarrow> decodes sig_at parse_return_type w t rest"
proof (cases t)
  case None
  assume "return_text t w"
  with None decodes_bump_then [OF _ decodes_return, of "rc CHR ''V''"] show ?thesis
    by (simp add: decodes_def parse_return_type_def)
next
  case (Some u)
  assume "return_text t w"
  with Some have u: "ts_text u w" by simp
  with decodes_map [OF exact_decodes [OF exact_type u], of Some rest] ts_text_not_paren [OF u] Some show ?thesis
    by (auto simp: decodes_def parse_return_type_def)
qed

lemma run_at_throws:
  assumes "at_char CHR ''^'' (sig_at pre rest)"
  shows "run_at sig_at parse_throws pre rest
    (\<lambda>t w _. (\<exists>v. w = rc CHR ''^'' # v \<and> is_throwable t \<and> ts_text t v) \<and> w \<noteq> [])"
  unfolding parse_throws_def
proof (rule run_at_bump_then [OF assms], simp, intro run_at_if run_at_error)
  fix r
  show "run_at sig_at parse_type_variable_signature (pre @ [rc CHR ''^'']) r (\<lambda>t w _.
      (\<exists>v. rc CHR ''^'' # w = rc CHR ''^'' # v \<and> is_throwable t \<and> ts_text t v) \<and> rc CHR ''^'' # w \<noteq> [])"
    by (rule run_at_conseq [OF run_at_type_variable]) auto
  show "run_at sig_at (pbind parse_class_type_signature (\<lambda>c. preturn (TsClass c))) (pre @ [rc CHR ''^'']) r (\<lambda>t w _.
      (\<exists>v. rc CHR ''^'' # w = rc CHR ''^'' # v \<and> is_throwable t \<and> ts_text t v) \<and> rc CHR ''^'' # w \<noteq> [])"
    by (rule run_at_map [OF run_at_class]) auto
qed

lemma decodes_throws:
  assumes "is_throwable t" "ts_text t v"
  shows "decodes sig_at parse_throws (rc CHR ''^'' # v) t rest"
  unfolding parse_throws_def
proof (rule decodes_bump_then, simp)
  show "decodes sig_at (\<lambda>p. if at_char CHR ''T'' p then parse_type_variable_signature p
      else if at_char CHR ''L'' p then pbind parse_class_type_signature (\<lambda>c. preturn (TsClass c)) p
      else sig_error p) v t rest"
  proof (cases t)
    case (TsClass c)
    with assms(2) have c: "ct_text c v" by simp
    from ct_text_starts [OF c] decodes_map [OF exact_decodes [OF exact_class_type c], of TsClass rest] TsClass show ?thesis
      by (auto simp: decodes_def)
  next
    case (TsTypeVariable n)
    with assms(2) decodes_type_variable [of n v rest] show ?thesis by (auto simp: decodes_def)
  qed (use assms(1) in simp_all)
qed

lemma decodes_throws_list:
  assumes "list_all2 (\<lambda>t v. is_throwable t \<and> ts_text t v) ts vs"
  shows "decodes sig_at (pmany (at_char CHR ''^'') parse_throws) (concat (map ((#) (rc CHR ''^'')) vs)) ts []"
proof (rule decodes_many [where F = "\<lambda>_. True"])
  show "list_all2 (\<lambda>t w. (\<forall>pre rest. at_char CHR ''^'' (sig_at pre (w @ rest))) \<and> (\<forall>rest :: rstr. True) \<and>
      (\<forall>rest. True \<longrightarrow> decodes sig_at parse_throws w t rest)) ts (map ((#) (rc CHR ''^'')) vs)"
    unfolding list_all2_map2 by (rule list_all2_mono [OF assms]) (use decodes_throws in auto)
qed (simp_all add: at_char_at)

lemma method_signature_parses:
  "(\<exists>r. parse_method_signature sig = Some r) \<and>
   (parse_method_signature sig = Some (Ok ms) \<longleftrightarrow> method_signature_text ms sig)"
  unfolding parse_method_signature_def
proof (rule run_parser_exact)
  let ?result = "\<lambda>tps ps r ts. \<lparr>ms_type_parameters = tps, ms_parameters = ps, ms_return_type = r, ms_throws = ts\<rparr>"
  let ?params = "pmany (\<lambda>p. \<not> is_eof p \<and> \<not> at_char CHR '')'' p) parse_type_signature"
  let ?parser = "pbind parse_type_parameters_if_present (\<lambda>tps.
      pbind (expect (rc CHR ''('')) (\<lambda>_. pbind ?params (\<lambda>ps. pbind (expect (rc CHR '')'')) (\<lambda>_.
      pbind parse_return_type (\<lambda>r. pbind (pmany (at_char CHR ''^'') parse_throws) (\<lambda>ts.
      at_end (?result tps ps r ts)))))))"
  show "run_at sig_at ?parser [] sig (\<lambda>ms w rest'. rest' = [] \<and> method_signature_text ms w)"
  proof (rule run_at_bind [OF run_at_type_parameters], rule run_at_bind [OF run_at_expect], simp,
      rule run_at_bind [OF run_at_parameters], rule run_at_bind [OF run_at_expect], simp,
      rule run_at_bind [OF run_at_return_type], rule run_at_bind [OF run_at_many [OF run_at_throws]], assumption)
    fix tps w0 r0 w1 r1 ps w2 r2 w3 r3 r w4 r4 ts w5 r5
    assume "angles_text tp_text tps w0" "w1 = [rc CHR ''('']" "\<exists>ws. list_all2 ts_text ps ws \<and> w2 = concat ws"
      "w3 = [rc CHR '')'']" "return_text r w4"
      "(\<exists>ws. list_all2 (\<lambda>t w. \<exists>v. w = rc CHR ''^'' # v \<and> is_throwable t \<and> ts_text t v) ts ws \<and> w5 = concat ws) \<and>
       \<not> at_char CHR ''^'' (sig_at (((((([] @ w0) @ w1) @ w2) @ w3) @ w4) @ w5) r5)"
    then have "method_signature_text (?result tps ps r ts) (w0 @ w1 @ w2 @ w3 @ w4 @ w5)"
      unfolding list_all2_cons_texts method_signature_text_def by fastforce
    then show "run_at sig_at (at_end (?result tps ps r ts)) (((((([] @ w0) @ w1) @ w2) @ w3) @ w4) @ w5) r5
        (\<lambda>ms w rest'. rest' = [] \<and> method_signature_text ms (w0 @ w1 @ w2 @ w3 @ w4 @ w5 @ w))"
      by (intro run_at_end) simp
  qed
  fix ms assume "method_signature_text ms sig"
  then obtain u ps r ts where t: "angles_text tp_text (ms_type_parameters ms) u"
      "list_all2 ts_text (ms_parameters ms) ps" "return_text (ms_return_type ms) r"
      "list_all2 (\<lambda>t v. is_throwable t \<and> ts_text t v) (ms_throws ms) ts"
    and sig: "sig = u @ rc CHR ''('' # concat ps @ rc CHR '')'' # r @ concat (map ((#) (rc CHR ''^'')) ts)"
    by (auto simp: method_signature_text_def)
  have eta: "?result (ms_type_parameters ms) (ms_parameters ms) (ms_return_type ms) (ms_throws ms) = ms" by simp
  let ?stop = "\<lambda>ts. at_end (?result (ms_type_parameters ms) (ms_parameters ms) (ms_return_type ms) ts)"
  let ?throws = "concat (map ((#) (rc CHR ''^'')) ts)"
  let ?p1 = "pbind (pmany (at_char CHR ''^'') parse_throws) ?stop"
  let ?p2 = "pbind parse_return_type (\<lambda>r. pbind (pmany (at_char CHR ''^'') parse_throws) (\<lambda>ts.
      at_end (?result (ms_type_parameters ms) (ms_parameters ms) r ts)))"
  let ?p3 = "pbind ?params (\<lambda>ps. pbind (expect (rc CHR '')'')) (\<lambda>_.
      pbind parse_return_type (\<lambda>r. pbind (pmany (at_char CHR ''^'') parse_throws) (\<lambda>ts.
      at_end (?result (ms_type_parameters ms) ps r ts)))))"
  have "decodes sig_at ?p1 (?throws @ []) ms []"
    by (rule decodes_bind [where x = "ms_throws ms"])
      (use decodes_throws_list [OF t(4)] decodes_end [of ms] in \<open>simp_all add: eta\<close>)
  then have "decodes sig_at ?p2 (r @ ?throws) ms []"
    by (intro decodes_bind [OF decodes_return_type [OF t(3)]]) simp
  then have "decodes sig_at (pbind (expect (rc CHR '')'')) (\<lambda>_. ?p2)) (rc CHR '')'' # r @ ?throws) ms []"
    by (intro decodes_expect_then) simp_all
  then have "decodes sig_at ?p3 (concat ps @ rc CHR '')'' # r @ ?throws) ms []"
    by (rule decodes_bind [where x = "ms_parameters ms", rotated])
      (use decodes_parameters [OF t(2)] in simp)
  then have "decodes sig_at (pbind (expect (rc CHR ''('')) (\<lambda>_. ?p3))
      (rc CHR ''('' # concat ps @ rc CHR '')'' # r @ ?throws) ms []"
    by (intro decodes_expect_then) simp_all
  then show "decodes sig_at ?parser sig ms []"
    unfolding sig by (rule decodes_bind [where x = "ms_type_parameters ms", rotated])
      (rule decodes_type_parameters [OF t(1)], simp)
qed

text \<open>
  Property C33. A field, class or method signature is accepted exactly when it is a text of the types,
  type parameters, bounds, wildcards, nested classes and thrown types that are returned, and the three
  parsers return on every string.
\<close>

theorem signatures_exact:
  "(\<exists>r. parse_field_signature sig = Some r) \<and>
   (parse_field_signature sig = Some (Ok t) \<longleftrightarrow> is_field_type t \<and> ts_text t sig) \<and>
   (\<exists>r. parse_class_signature sig = Some r) \<and>
   (parse_class_signature sig = Some (Ok cs) \<longleftrightarrow> class_signature_text cs sig) \<and>
   (\<exists>r. parse_method_signature sig = Some r) \<and>
   (parse_method_signature sig = Some (Ok ms) \<longleftrightarrow> method_signature_text ms sig)"
  using field_signature_parses class_signature_parses method_signature_parses by simp

end
