(* ===== verification/Class_Pool.thy ===== *)
theory Class_Pool
  imports Class_Reader
begin

text \<open>
  The constant pool of a class file (\<^verbatim>\<open>nova-classfile/src/constant_pool.rs\<close>):
  the decoder of modified UTF-8, the entries, the loop that fills the table, and the lookups.
\<close>

section \<open>Modified UTF-8\<close>

text \<open>
  The loop of \<^verbatim>\<open>decode_modified_utf8\<close>: the index into the bytes is the suffix
  still to be read, the pushed \<^verbatim>\<open>u16\<close> units are the result. The shifted halves
  never meet, so no \<^verbatim>\<open>u16\<close> operation here overflows.
\<close>

fun decode_units :: "byte list \<Rightarrow> (cf_error, nat list) result" where
  "decode_units [] = Ok []"
| "decode_units (b # bs) =
     (if b AND 0x80 = 0 then res_bind (decode_units bs) (\<lambda>us. Ok (unat b # us))
      else if b AND 0xE0 = 0xC0 then
        (case bs of
           [] \<Rightarrow> Err InvalidModifiedUtf8
         | b2 # bs' \<Rightarrow>
             if b = 0xC0 \<and> b2 = 0x80 then res_bind (decode_units bs') (\<lambda>us. Ok (0 # us))
             else if b2 AND 0xC0 \<noteq> 0x80 then Err InvalidModifiedUtf8
             else res_bind (decode_units bs')
                    (\<lambda>us. Ok ((push_bit 6 (unat (b AND 0x1F)) OR unat (b2 AND 0x3F)) # us)))
      else if b AND 0xF0 = 0xE0 then
        (case bs of
           b2 # b3 # bs' \<Rightarrow>
             if b2 AND 0xC0 \<noteq> 0x80 \<or> b3 AND 0xC0 \<noteq> 0x80 then Err InvalidModifiedUtf8
             else res_bind (decode_units bs')
                    (\<lambda>us. Ok ((push_bit 12 (unat (b AND 0x0F)) OR push_bit 6 (unat (b2 AND 0x3F))
                        OR unat (b3 AND 0x3F)) # us))
         | _ \<Rightarrow> Err InvalidModifiedUtf8)
      else Err InvalidModifiedUtf8)"

text \<open>\<^verbatim>\<open>String::from_utf16_lossy\<close>: an unpaired surrogate becomes U+FFFD.\<close>

fun from_utf16_lossy :: "nat list \<Rightarrow> rstr" where
  "from_utf16_lossy [] = []"
| "from_utf16_lossy (u # us) =
     (if u < 0xD800 \<or> 0xDFFF < u then u # from_utf16_lossy us
      else if 0xDC00 \<le> u then 0xFFFD # from_utf16_lossy us
      else (case us of
          [] \<Rightarrow> [0xFFFD]
        | u2 # us' \<Rightarrow>
            if u2 < 0xDC00 \<or> 0xDFFF < u2 then 0xFFFD # from_utf16_lossy us
            else (0x10000 + ((u - 0xD800) * 0x400 + (u2 - 0xDC00))) # from_utf16_lossy us'))"

definition decode_modified_utf8 :: "byte list \<Rightarrow> (cf_error, rstr) result" where
  "decode_modified_utf8 bs = res_bind (decode_units bs) (\<lambda>us. Ok (from_utf16_lossy us))"

declare decode_modified_utf8_def [nova_eval]

text \<open>The encoding of the class-file format (JVMS 4.4.7), as the specification of the decoder.\<close>

definition encode_unit :: "nat \<Rightarrow> byte list" where
  "encode_unit u =
     (if u \<noteq> 0 \<and> u < 0x80 then [word_of_nat u]
      else if u < 0x800 then [word_of_nat (0xC0 + u div 64), word_of_nat (0x80 + u mod 64)]
      else [word_of_nat (0xE0 + u div 4096), word_of_nat (0x80 + u div 64 mod 64), word_of_nat (0x80 + u mod 64)])"

definition utf16_units :: "rchar \<Rightarrow> nat list" where
  "utf16_units c =
     (if c < 0x10000 then [c]
      else [0xD800 + (c - 0x10000) div 0x400, 0xDC00 + (c - 0x10000) mod 0x400])"

definition scalar :: "rchar \<Rightarrow> bool" where
  "scalar c \<longleftrightarrow> c < 0xD800 \<or> (0xDFFF < c \<and> c < 0x110000)"

definition modified_utf8 :: "rstr \<Rightarrow> byte list" where
  "modified_utf8 s = concat (map encode_unit (concat (map utf16_units s)))"

declare encode_unit_def [nova_eval] utf16_units_def [nova_eval] modified_utf8_def [nova_eval]

lemma and_high:
  assumes "n < 2 ^ (k + m)"
  shows "n AND push_bit k (mask m) = n div 2 ^ k * (2 ^ k :: nat)"
proof -
  from assms have n: "take_bit (k + m) n = n" by (simp add: take_bit_nat_eq_self)
  have "n AND push_bit k (mask m) = push_bit k (drop_bit k n)"
  proof (rule bit_eqI)
    fix i
    have "bit n i \<Longrightarrow> i < k + m" by (metis n bit_take_bit_iff)
    then show "bit (n AND push_bit k (mask m)) i = bit (push_bit k (drop_bit k n)) i"
      by (auto simp: bit_simps)
  qed
  then show ?thesis by (simp add: push_bit_eq_mult drop_bit_eq_div)
qed

lemma byte_high:
  fixes b :: byte
  shows "unat (b AND 0x80) = unat b div 128 * 128" "unat (b AND 0xC0) = unat b div 64 * 64"
    "unat (b AND 0xE0) = unat b div 32 * 32" "unat (b AND 0xF0) = unat b div 16 * 16"
  using and_high [of "unat b" 7 1] and_high [of "unat b" 6 2] and_high [of "unat b" 5 3]
    and_high [of "unat b" 4 4] unsigned_less [of b, where ?'a = nat]
  by (simp_all add: unsigned_and_eq push_bit_eq_mult mask_eq_exp_minus_1)

lemma byte_tests:
  "b AND 0x80 = 0 \<longleftrightarrow> unat (b :: byte) < 0x80"
  "b AND 0xE0 = 0xC0 \<longleftrightarrow> 0xC0 \<le> unat b \<and> unat b < 0xE0"
  "b AND 0xF0 = 0xE0 \<longleftrightarrow> 0xE0 \<le> unat b \<and> unat b < 0xF0"
  "b AND 0xC0 = 0x80 \<longleftrightarrow> 0x80 \<le> unat b \<and> unat b < 0xC0"
  unfolding word_unat_eq_iff byte_high
  by (simp_all add: div_eq_0_iff) arith+

lemma byte_masks:
  "unat (b AND 0x1F :: byte) = unat b mod 32"
  "unat (b AND 0x0F :: byte) = unat b mod 16"
  "unat (b AND 0x3F :: byte) = unat b mod 64"
  using take_bit_eq_mask [of 5 "unat b"] take_bit_eq_mask [of 4 "unat b"] take_bit_eq_mask [of 6 "unat b"]
  by (simp_all add: unsigned_and_eq take_bit_eq_mod mask_eq_exp_minus_1)
lemma shift_or:
  assumes "y < 2 ^ k"
  shows "push_bit k x OR y = x * 2 ^ k + (y :: nat)"
proof -
  from assms have "take_bit k y = y" by (simp add: take_bit_nat_eq_self)
  then have "\<not> bit (push_bit k x) n \<or> \<not> bit y n" for n
    by (metis bit_push_bit_iff bit_take_bit_iff leD)
  then show ?thesis by (metis bit_and_iff bit_eq_iff bit_0_eq bot_apply disjunctive_add_eq_or push_bit_eq_mult bot_bool_def)
qed

lemma byte_of_nat: "n < 256 \<Longrightarrow> \<exists>b :: byte. word_of_nat n = b \<and> unat b = n"
  by (simp add: unat_of_nat)

lemma lead_mods:
  "q < 32 \<Longrightarrow> (0xC0 + q) mod 32 = (q :: nat)"
  "q < 16 \<Longrightarrow> (0xE0 + q) mod 16 = (q :: nat)"
  "q < 64 \<Longrightarrow> (0x80 + q) mod 64 = (q :: nat)"
  using mod_mult_self3 [of 6 32 q] mod_mult_self3 [of 14 16 q] mod_mult_self3 [of 2 64 q]
  by simp_all

lemma decode_encode_unit:
  assumes "u < 0x10000"
  shows "decode_units (encode_unit u @ bs) = res_bind (decode_units bs) (\<lambda>us. Ok (u # us))"
proof -
  consider "u \<noteq> 0" "u < 0x80" | "u = 0" | "0x80 \<le> u" "u < 0x800" | "0x800 \<le> u" by linarith
  then show ?thesis
  proof cases
    case 1
    then show ?thesis by (simp add: encode_unit_def byte_tests unat_of_nat)
  next
    case 2
    then show ?thesis by (simp add: encode_unit_def byte_tests)
  next
    case 3
    have q: "u div 64 < 32" using 3 less_mult_imp_div_less [of u 32 64] by simp
    have r: "u mod 64 < 64" by simp
    have "0xC0 + u div 64 < 256" using q r by linarith
    from byte_of_nat [OF this] obtain b :: byte where b: "word_of_nat (0xC0 + u div 64) = b" "unat b = 0xC0 + u div 64"
      by blast
    have "0x80 + u mod 64 < 256" using q r by linarith
    from byte_of_nat [OF this] obtain c :: byte where c: "word_of_nat (0x80 + u mod 64) = c" "unat c = 0x80 + u mod 64"
      by blast
    have "u div 64 \<noteq> 0" using 3 by (simp add: div_eq_0_iff)
    then have "b \<noteq> 0xC0" using b(2) by auto
    then show ?thesis using 3 q r c(2) b(2)
      by (simp add: encode_unit_def b(1) c(1) byte_tests byte_masks shift_or lead_mods del: of_nat_add)
  next
    case 4
    have q: "u div 4096 < 16" using assms less_mult_imp_div_less [of u 16 4096] by simp
    have r: "u mod 64 < 64" "u div 64 mod 64 < 64" by simp_all
    have "u div 64 * 64 + u mod 64 = u" by (rule div_mult_mod_eq)
    moreover have "u div 4096 * 64 + u div 64 mod 64 = u div 64"
      using div_mult_mod_eq [of "u div 64" 64] by (simp add: div_mult2_eq [symmetric])
    ultimately have eq: "u div 4096 * 4096 + (u div 64 mod 64 * 64 + u mod 64) = u"
      by linarith
    have "0xE0 + u div 4096 < 256" using q r by linarith
    from byte_of_nat [OF this] obtain b :: byte where b: "word_of_nat (0xE0 + u div 4096) = b" "unat b = 0xE0 + u div 4096"
      by blast
    have "0x80 + u div 64 mod 64 < 256" using q r by linarith
    from byte_of_nat [OF this] obtain c :: byte where c: "word_of_nat (0x80 + u div 64 mod 64) = c" "unat c = 0x80 + u div 64 mod 64"
      by blast
    have "0x80 + u mod 64 < 256" using q r by linarith
    from byte_of_nat [OF this] obtain d :: byte where d: "word_of_nat (0x80 + u mod 64) = d" "unat d = 0x80 + u mod 64"
      by blast
    have lt: "u div 64 mod 64 * 64 + u mod 64 < 2 ^ 12"
      using r by simp
    show ?thesis using 4 q r b(2) c(2) d(2) lt eq
      by (simp add: encode_unit_def b(1) c(1) d(1) byte_tests byte_masks shift_or lead_mods del: of_nat_add)
  qed
qed

lemma decode_encode_units:
  "\<forall>u \<in> set us. u < 0x10000 \<Longrightarrow> decode_units (concat (map encode_unit us)) = Ok us"
  by (induction us) (simp_all add: decode_encode_unit)

lemma utf16_units_lt: "scalar c \<Longrightarrow> u \<in> set (utf16_units c) \<Longrightarrow> u < 0x10000"
  by (auto simp: utf16_units_def scalar_def split: if_splits)

lemma from_utf16_units: "scalar c \<Longrightarrow> from_utf16_lossy (utf16_units c @ us) = c # from_utf16_lossy us"
  by (cases "c < 0x10000") (auto simp: utf16_units_def scalar_def)

lemma from_utf16_lossy_units:
  "\<forall>c \<in> set s. scalar c \<Longrightarrow> from_utf16_lossy (concat (map utf16_units s)) = s"
  by (induction s) (simp_all add: from_utf16_units)

text \<open>
  Property C35. Decoding the modified UTF-8 form of a string gives the string: the null character in two
  bytes, characters outside the basic plane as two encoded surrogates.
\<close>

theorem decode_modified_utf8_correct:
  assumes "\<forall>c \<in> set s. scalar c"
  shows "decode_modified_utf8 (modified_utf8 s) = Ok s"
proof -
  have "\<forall>u \<in> set (concat (map utf16_units s)). u < 0x10000"
    using assms by (auto dest: utf16_units_lt)
  then show ?thesis
    using assms by (simp add: decode_modified_utf8_def modified_utf8_def decode_encode_units
        from_utf16_lossy_units)
qed

theorem decode_modified_utf8_correct_witness:
  "list_all scalar [0, 65, 0xE9, 0x1F600] \<and>
   modified_utf8 [0, 65, 0xE9, 0x1F600] = [0xC0, 0x80, 0x41, 0xC3, 0xA9, 0xED, 0xA0, 0xBD, 0xED, 0xB8, 0x80] \<and>
   decode_modified_utf8 (modified_utf8 [0, 65, 0xE9, 0x1F600]) = Ok [0, 65, 0xE9, 0x1F600]"
proof -
  have scalars: "\<forall>c \<in> set [0, 65, 0xE9, 0x1F600]. scalar c" by (simp add: scalar_def)
  have "modified_utf8 [0, 65, 0xE9, 0x1F600] = [0xC0, 0x80, 0x41, 0xC3, 0xA9, 0xED, 0xA0, 0xBD, 0xED, 0xB8, 0x80]"
    by (simp add: modified_utf8_def utf16_units_def encode_unit_def)
  with scalars decode_modified_utf8_correct [OF scalars] show ?thesis by (simp add: list_all_iff)
qed

section \<open>Entries\<close>

datatype cp_info =
    CpUtf8 rstr
  | CpInteger int
  | CpFloat nat
  | CpLong int
  | CpDouble nat
  | CpClass nat
  | CpString nat
  | CpFieldref nat nat
  | CpMethodref nat nat
  | CpInterfaceMethodref nat nat
  | CpNameAndType nat nat
  | CpMethodHandle nat nat
  | CpMethodType nat
  | CpDynamic nat nat
  | CpInvokeDynamic nat nat
  | CpModule nat
  | CpPackage nat

fun cp_kind :: "cp_info \<Rightarrow> string" where
  "cp_kind (CpUtf8 _) = ''Utf8''"
| "cp_kind (CpInteger _) = ''Integer''"
| "cp_kind (CpFloat _) = ''Float''"
| "cp_kind (CpLong _) = ''Long''"
| "cp_kind (CpDouble _) = ''Double''"
| "cp_kind (CpClass _) = ''Class''"
| "cp_kind (CpString _) = ''String''"
| "cp_kind (CpFieldref _ _) = ''Fieldref''"
| "cp_kind (CpMethodref _ _) = ''Methodref''"
| "cp_kind (CpInterfaceMethodref _ _) = ''InterfaceMethodref''"
| "cp_kind (CpNameAndType _ _) = ''NameAndType''"
| "cp_kind (CpMethodHandle _ _) = ''MethodHandle''"
| "cp_kind (CpMethodType _) = ''MethodType''"
| "cp_kind (CpDynamic _ _) = ''Dynamic''"
| "cp_kind (CpInvokeDynamic _ _) = ''InvokeDynamic''"
| "cp_kind (CpModule _) = ''Module''"
| "cp_kind (CpPackage _) = ''Package''"

text \<open>A \<^verbatim>\<open>f32\<close> or \<^verbatim>\<open>f64\<close> constant is its bit pattern.\<close>

definition read_two :: "(nat \<Rightarrow> nat \<Rightarrow> cp_info) \<Rightarrow> cp_info rd" where
  "read_two c = pbind read_u2 (\<lambda>a. pbind read_u2 (\<lambda>b. preturn (c a b)))"

definition read_cp_info :: "byte \<Rightarrow> cp_info rd" where
  "read_cp_info tag =
     (if tag = 1 then
        pbind read_u2 (\<lambda>len. pbind (read_bytes len) (\<lambda>bytes.
          pbind (plift (decode_modified_utf8 bytes)) (\<lambda>s. preturn (CpUtf8 s))))
      else if tag = 3 then pbind read_i4 (\<lambda>v. preturn (CpInteger v))
      else if tag = 4 then pbind read_u4 (\<lambda>bits. preturn (CpFloat bits))
      else if tag = 5 then pbind read_i8 (\<lambda>v. preturn (CpLong v))
      else if tag = 6 then pbind read_i8 (\<lambda>v. preturn (CpDouble (nat (v mod 2 ^ 64))))
      else if tag = 7 then pbind read_u2 (\<lambda>i. preturn (CpClass i))
      else if tag = 8 then pbind read_u2 (\<lambda>i. preturn (CpString i))
      else if tag = 9 then read_two CpFieldref
      else if tag = 10 then read_two CpMethodref
      else if tag = 11 then read_two CpInterfaceMethodref
      else if tag = 12 then read_two CpNameAndType
      else if tag = 15 then
        pbind read_u1 (\<lambda>k. pbind read_u2 (\<lambda>i. preturn (CpMethodHandle (unat k) i)))
      else if tag = 16 then pbind read_u2 (\<lambda>i. preturn (CpMethodType i))
      else if tag = 17 then read_two CpDynamic
      else if tag = 18 then read_two CpInvokeDynamic
      else if tag = 19 then pbind read_u2 (\<lambda>i. preturn (CpModule i))
      else if tag = 20 then pbind read_u2 (\<lambda>i. preturn (CpPackage i))
      else pfail (InvalidConstantPoolTag (unat tag)))"

section \<open>The table\<close>

type_synonym constant_pool = "cp_info option list"

fun takes_two_slots :: "cp_info \<Rightarrow> bool" where
  "takes_two_slots (CpLong _) = True"
| "takes_two_slots (CpDouble _) = True"
| "takes_two_slots _ = False"

text \<open>\<^verbatim>\<open>entries[i] = v\<close>, with the panic of an index out of range.\<close>

definition vec_set :: "'a list \<Rightarrow> nat \<Rightarrow> 'a \<Rightarrow> 'a list option" where
  "vec_set xs i v = (if i < length xs then Some (xs[i := v]) else None)"

function pool_loop :: "nat \<Rightarrow> nat \<Rightarrow> constant_pool \<Rightarrow> constant_pool rd" where
  "pool_loop count i entries =
     (if i < count then
        pbind read_u1 (\<lambda>tag. pbind (read_cp_info tag) (\<lambda>entry r.
          case vec_set entries i (Some entry) of
            None \<Rightarrow> None
          | Some entries' \<Rightarrow>
              if takes_two_slots entry then
                if count \<le> i + 1 then pfail (OtherError ''malformed constant pool'') r
                else pool_loop count (i + 2) entries' r
              else pool_loop count (i + 1) entries' r))
      else preturn entries)"
  by pat_completeness auto
termination by (relation "measure (\<lambda>(count, i, _). count - i)") auto

declare pool_loop.simps [simp del]

definition constant_pool_parse :: "constant_pool rd" where
  "constant_pool_parse =
     pbind read_u2 (\<lambda>count.
       if count = 0 then pfail (OtherError ''constant_pool_count must be >= 1'')
       else pool_loop count 1 (replicate count None))"

section \<open>Lookups\<close>

definition cp_get :: "constant_pool \<Rightarrow> nat \<Rightarrow> (cf_error, cp_info) result" where
  "cp_get cp index =
     (if index = 0 \<or> length cp \<le> index then Err (InvalidConstantPoolIndex index)
      else ok_or (cp ! index) (InvalidConstantPoolIndex index))"

definition get_utf8 :: "constant_pool \<Rightarrow> nat \<Rightarrow> (cf_error, rstr) result" where
  "get_utf8 cp index =
     res_bind (cp_get cp index) (\<lambda>e. case e of
         CpUtf8 s \<Rightarrow> Ok s
       | other \<Rightarrow> Err (ConstantPoolTypeMismatch index ''Utf8'' (cp_kind other)))"

definition get_class_name :: "constant_pool \<Rightarrow> nat \<Rightarrow> (cf_error, rstr) result" where
  "get_class_name cp index =
     res_bind (cp_get cp index) (\<lambda>e. case e of
         CpClass name_index \<Rightarrow> get_utf8 cp name_index
       | other \<Rightarrow> Err (ConstantPoolTypeMismatch index ''Class'' (cp_kind other)))"

declare read_two_def [nova_eval] read_cp_info_def [nova_eval] vec_set_def [nova_eval]
  pool_loop.simps [nova_eval] constant_pool_parse_def [nova_eval]
  cp_get_def [nova_eval] get_utf8_def [nova_eval] get_class_name_def [nova_eval]

section \<open>The layout of the table\<close>

text \<open>The bytes of an entry: its tag and its items (JVMS 4.4).\<close>

fun entry_layout :: "cp_info \<Rightarrow> byte list \<Rightarrow> bool" where
  "entry_layout (CpUtf8 s) w \<longleftrightarrow>
     (\<exists>bs. length bs < 65536 \<and> decode_modified_utf8 bs = Ok s \<and> w = 1 # be_bytes 2 (length bs) @ bs)"
| "entry_layout (CpInteger v) w \<longleftrightarrow> (\<exists>n < 2 ^ 32. v = as_signed 32 n \<and> w = 3 # be_bytes 4 n)"
| "entry_layout (CpFloat n) w \<longleftrightarrow> n < 2 ^ 32 \<and> w = 4 # be_bytes 4 n"
| "entry_layout (CpLong v) w \<longleftrightarrow> (\<exists>n < 2 ^ 64. v = as_signed 64 n \<and> w = 5 # be_bytes 8 n)"
| "entry_layout (CpDouble n) w \<longleftrightarrow> n < 2 ^ 64 \<and> w = 6 # be_bytes 8 n"
| "entry_layout (CpClass i) w \<longleftrightarrow> i < 65536 \<and> w = 7 # be_bytes 2 i"
| "entry_layout (CpString i) w \<longleftrightarrow> i < 65536 \<and> w = 8 # be_bytes 2 i"
| "entry_layout (CpFieldref i j) w \<longleftrightarrow> i < 65536 \<and> j < 65536 \<and> w = 9 # be_bytes 2 i @ be_bytes 2 j"
| "entry_layout (CpMethodref i j) w \<longleftrightarrow> i < 65536 \<and> j < 65536 \<and> w = 10 # be_bytes 2 i @ be_bytes 2 j"
| "entry_layout (CpInterfaceMethodref i j) w \<longleftrightarrow>
     i < 65536 \<and> j < 65536 \<and> w = 11 # be_bytes 2 i @ be_bytes 2 j"
| "entry_layout (CpNameAndType i j) w \<longleftrightarrow> i < 65536 \<and> j < 65536 \<and> w = 12 # be_bytes 2 i @ be_bytes 2 j"
| "entry_layout (CpMethodHandle k i) w \<longleftrightarrow>
     (\<exists>b. k = unat b \<and> i < 65536 \<and> w = 15 # b # be_bytes 2 i)"
| "entry_layout (CpMethodType i) w \<longleftrightarrow> i < 65536 \<and> w = 16 # be_bytes 2 i"
| "entry_layout (CpDynamic i j) w \<longleftrightarrow> i < 65536 \<and> j < 65536 \<and> w = 17 # be_bytes 2 i @ be_bytes 2 j"
| "entry_layout (CpInvokeDynamic i j) w \<longleftrightarrow>
     i < 65536 \<and> j < 65536 \<and> w = 18 # be_bytes 2 i @ be_bytes 2 j"
| "entry_layout (CpModule i) w \<longleftrightarrow> i < 65536 \<and> w = 19 # be_bytes 2 i"
| "entry_layout (CpPackage i) w \<longleftrightarrow> i < 65536 \<and> w = 20 # be_bytes 2 i"

definition slots :: "cp_info \<Rightarrow> cp_info option list" where
  "slots e = (if takes_two_slots e then [Some e, None] else [Some e])"

text \<open>
  A pool: index 0 unused, one slot per entry and a second, unusable one after each
  \<^verbatim>\<open>Long\<close> and \<^verbatim>\<open>Double\<close>; the count in front is the size of the table.
\<close>

definition pool_table :: "cp_info list \<Rightarrow> constant_pool" where
  "pool_table items = None # concat (map slots items)"

definition pool_layout :: "constant_pool \<Rightarrow> byte list \<Rightarrow> bool" where
  "pool_layout cp w \<longleftrightarrow>
     (\<exists>items ws. cp = pool_table items \<and> length cp < 65536 \<and>
        list_all2 entry_layout items ws \<and> w = be_bytes 2 (length cp) @ concat ws)"

lemma exact_u2_map:
  assumes "\<And>e w. H e w \<longleftrightarrow> (\<exists>i < 65536. e = c i \<and> w = be_bytes 2 i)"
  shows "exact rd_at (pbind read_u2 (\<lambda>i. preturn (c i))) H"
  by (rule exact_map [OF exact_read_u2]) (auto simp: assms)

lemma exact_read_two:
  assumes "\<And>e w. H e w \<longleftrightarrow>
    (\<exists>i j. i < 65536 \<and> j < 65536 \<and> e = c i j \<and> w = be_bytes 2 i @ be_bytes 2 j)"
  shows "exact rd_at (read_two c) H"
  unfolding read_two_def
  by (rule exact_cong [OF exact_bind [OF exact_read_u2 exact_u2_map]]) (rule refl, auto simp: assms)

lemma as_signed_mod: "n < 2 ^ 64 \<Longrightarrow> nat (as_signed 64 n mod 2 ^ 64) = n"
  by (auto simp: as_signed_def)

lemma exact_utf8:
  "exact rd_at
     (pbind read_u2 (\<lambda>len. pbind (read_bytes len) (\<lambda>bytes.
        pbind (plift (decode_modified_utf8 bytes)) (\<lambda>s. preturn (CpUtf8 s)))))
     (\<lambda>e w. entry_layout e (1 # w))"
proof -
  have "exact rd_at (pbind (plift (decode_modified_utf8 bytes)) (\<lambda>s. preturn (CpUtf8 s)))
      (\<lambda>e w. w = [] \<and> (\<exists>s. decode_modified_utf8 bytes = Ok s \<and> e = CpUtf8 s))" for bytes
    by (rule exact_map [OF exact_lift]) auto
  from exact_bind [OF exact_read_u2 exact_bind [OF exact_read_bytes this]] show ?thesis
  proof (rule exact_cong)
    fix e w
    show "(\<exists>len u v. w = u @ v \<and> (len < 65536 \<and> u = be_bytes 2 len) \<and>
        (\<exists>bs u' v'. v = u' @ v' \<and> (bs = u' \<and> length u' = len) \<and>
          v' = [] \<and> (\<exists>s. decode_modified_utf8 bs = Ok s \<and> e = CpUtf8 s))) \<longleftrightarrow> entry_layout e (1 # w)"
      by (cases e) auto
  qed
qed

text \<open>Read from the tag: which entries have bytes that start with it.\<close>

lemma layout_tag_u2:
  "entry_layout e (7 # w) \<longleftrightarrow> (\<exists>i < 65536. e = CpClass i \<and> w = be_bytes 2 i)"
  "entry_layout e (8 # w) \<longleftrightarrow> (\<exists>i < 65536. e = CpString i \<and> w = be_bytes 2 i)"
  "entry_layout e (16 # w) \<longleftrightarrow> (\<exists>i < 65536. e = CpMethodType i \<and> w = be_bytes 2 i)"
  "entry_layout e (19 # w) \<longleftrightarrow> (\<exists>i < 65536. e = CpModule i \<and> w = be_bytes 2 i)"
  "entry_layout e (20 # w) \<longleftrightarrow> (\<exists>i < 65536. e = CpPackage i \<and> w = be_bytes 2 i)"
  by (cases e; auto)+

lemma layout_tag_two:
  "entry_layout e (9 # w) \<longleftrightarrow>
     (\<exists>i j. i < 65536 \<and> j < 65536 \<and> e = CpFieldref i j \<and> w = be_bytes 2 i @ be_bytes 2 j)"
  "entry_layout e (10 # w) \<longleftrightarrow>
     (\<exists>i j. i < 65536 \<and> j < 65536 \<and> e = CpMethodref i j \<and> w = be_bytes 2 i @ be_bytes 2 j)"
  "entry_layout e (11 # w) \<longleftrightarrow>
     (\<exists>i j. i < 65536 \<and> j < 65536 \<and> e = CpInterfaceMethodref i j \<and> w = be_bytes 2 i @ be_bytes 2 j)"
  "entry_layout e (12 # w) \<longleftrightarrow>
     (\<exists>i j. i < 65536 \<and> j < 65536 \<and> e = CpNameAndType i j \<and> w = be_bytes 2 i @ be_bytes 2 j)"
  "entry_layout e (17 # w) \<longleftrightarrow>
     (\<exists>i j. i < 65536 \<and> j < 65536 \<and> e = CpDynamic i j \<and> w = be_bytes 2 i @ be_bytes 2 j)"
  "entry_layout e (18 # w) \<longleftrightarrow>
     (\<exists>i j. i < 65536 \<and> j < 65536 \<and> e = CpInvokeDynamic i j \<and> w = be_bytes 2 i @ be_bytes 2 j)"
  by (cases e; auto)+

lemma layout_tag_wide:
  "entry_layout e (3 # w) \<longleftrightarrow> (\<exists>v. (\<exists>n < 2 ^ 32. v = as_signed 32 n \<and> w = be_bytes 4 n) \<and> e = CpInteger v)"
  "entry_layout e (4 # w) \<longleftrightarrow> (\<exists>n. (n < 2 ^ 32 \<and> w = be_bytes 4 n) \<and> e = CpFloat n)"
  "entry_layout e (5 # w) \<longleftrightarrow> (\<exists>v. (\<exists>n < 2 ^ 64. v = as_signed 64 n \<and> w = be_bytes 8 n) \<and> e = CpLong v)"
  "entry_layout e (6 # w) \<longleftrightarrow>
     (\<exists>v. (\<exists>n < 2 ^ 64. v = as_signed 64 n \<and> w = be_bytes 8 n) \<and> e = CpDouble (nat (v mod 2 ^ 64)))"
  using as_signed_mod by (cases e; auto)+

lemma exact_method_handle:
  "exact rd_at (pbind read_u1 (\<lambda>k. pbind read_u2 (\<lambda>i. preturn (CpMethodHandle (unat k) i))))
     (\<lambda>e w. entry_layout e (15 # w))"
proof (rule exact_cong [OF exact_bind [OF exact_read_u1 exact_u2_map]])
  show "(\<exists>x u v. w = u @ v \<and> u = [x] \<and> (\<exists>i < 65536. e = CpMethodHandle (unat x) i \<and> v = be_bytes 2 i)) \<longleftrightarrow>
      entry_layout e (15 # w)" for e w
    by (cases e) auto
qed simp

lemma exact_read_cp_info: "exact rd_at (read_cp_info tag) (\<lambda>e w. entry_layout e (tag # w))"
proof (cases "tag \<in> {1, 3, 4, 5, 6, 7, 8, 9, 10, 11, 12, 15, 16, 17, 18, 19, 20}")
  case True
  then show ?thesis
    by (elim insertE emptyE)
      (simp_all add: read_cp_info_def exact_utf8 exact_method_handle,
       (rule exact_u2_map exact_read_two exact_map [OF exact_read_i4] exact_map [OF exact_read_u4]
         exact_map [OF exact_read_i8], simp add: layout_tag_u2 layout_tag_two layout_tag_wide)+)
next
  case False
  have "\<not> entry_layout e (tag # w)" for e w
    using False by (cases e) auto
  with False show ?thesis
    by (simp add: read_cp_info_def exact_fail)
qed

lemma exact_entry:
  "exact rd_at (pbind read_u1 read_cp_info) entry_layout"
proof (rule exact_cong [OF exact_bind [OF exact_read_u1 exact_read_cp_info]])
  show "(\<exists>tag u v. w = u @ v \<and> u = [tag] \<and> entry_layout e (tag # v)) \<longleftrightarrow> entry_layout e w" for e w
    by (cases w) (auto elim: entry_layout.elims)
qed

text \<open>
  The loop at index \<open>i\<close>, with the slots before \<open>i\<close> filled: it fills the rest with the slots of the
  entries it reads.
\<close>

definition rest_layout :: "nat \<Rightarrow> constant_pool \<Rightarrow> constant_pool \<Rightarrow> byte list \<Rightarrow> bool" where
  "rest_layout count tab cp w \<longleftrightarrow>
     (\<exists>items ws. cp = tab @ concat (map slots items) \<and> length cp = count \<and>
        list_all2 entry_layout items ws \<and> w = concat ws)"

lemma slots_nonempty [simp]: "slots e \<noteq> []"
  by (simp add: slots_def)

lemma rest_layout_full: "length tab = count \<Longrightarrow> rest_layout count tab cp w \<longleftrightarrow> cp = tab \<and> w = []"
proof
  assume "length tab = count" "rest_layout count tab cp w"
  then obtain items ws where "cp = tab @ concat (map slots items)" "concat (map slots items) = []"
      "list_all2 entry_layout items ws" "w = concat ws"
    by (auto simp: rest_layout_def)
  moreover from this(2) have "items = []" by (cases items) auto
  ultimately show "cp = tab \<and> w = []" by simp
next
  assume "length tab = count" "cp = tab \<and> w = []"
  then show "rest_layout count tab cp w" by (auto simp: rest_layout_def intro!: exI [of _ "[]"])
qed

lemma rest_layout_step:
  assumes "length tab < count"
  shows "rest_layout count tab cp w \<longleftrightarrow>
    (\<exists>e u v. w = u @ v \<and> entry_layout e u \<and> rest_layout count (tab @ slots e) cp v)" (is "?l \<longleftrightarrow> ?r")
proof
  assume ?l
  then obtain items ws where i: "cp = tab @ concat (map slots items)" "length cp = count"
      "list_all2 entry_layout items ws" "w = concat ws"
    by (auto simp: rest_layout_def)
  with assms obtain e items' where e: "items = e # items'" by (cases items) auto
  with i(3) obtain u ws' where "ws = u # ws'" "entry_layout e u" "list_all2 entry_layout items' ws'"
    by (auto simp: list_all2_Cons1)
  with i e show ?r unfolding rest_layout_def
    by (intro exI [of _ e] exI [of _ u] exI [of _ "concat ws'"]) (auto intro!: exI)
next
  assume ?r
  then obtain e u items ws where "entry_layout e u" "cp = tab @ slots e @ concat (map slots items)"
      "length cp = count" "list_all2 entry_layout items ws" "w = u @ concat ws"
    by (auto simp: rest_layout_def)
  then show ?l unfolding rest_layout_def
    by (intro exI [of _ "e # items"] exI [of _ "u # ws"]) simp
qed

lemma rest_layout_too_long: "count < length tab \<Longrightarrow> \<not> rest_layout count tab cp w"
  by (auto simp: rest_layout_def)

lemma exact_pool_loop:
  assumes "length tab \<le> count"
  shows "exact rd_at (pool_loop count (length tab) (tab @ replicate (count - length tab) None))
    (rest_layout count tab)"
  using assms
proof (induction "count - length tab" arbitrary: tab rule: less_induct)
  case less
  let ?i = "length tab"
  show ?case
  proof (cases "?i < count")
    case False
    with less.prems have "?i = count" by simp
    then show ?thesis
      by (subst pool_loop.simps) (simp add: exact_cong [OF exact_return] rest_layout_full)
  next
    case True
    let ?body = "\<lambda>entry r.
          case vec_set (tab @ replicate (count - ?i) None) ?i (Some entry) of
            None \<Rightarrow> None
          | Some entries' \<Rightarrow>
              if takes_two_slots entry then
                if count \<le> ?i + 1 then pfail (OtherError ''malformed constant pool'') r
                else pool_loop count (?i + 2) entries' r
              else pool_loop count (?i + 1) entries' r"
    have upd: "vec_set (tab @ replicate (count - ?i) None) ?i (Some e) =
        Some (tab @ Some e # replicate (count - ?i - 1) None)" for e
      using True by (cases "count - ?i") (auto simp: vec_set_def list_update_append)
    have body: "exact rd_at (?body e) (rest_layout count (tab @ slots e))" for e
    proof (cases "takes_two_slots e")
      case False
      have len: "length (tab @ slots e) = ?i + 1" by (simp add: slots_def False)
      have "count - length (tab @ slots e) < count - ?i" "length (tab @ slots e) \<le> count"
        using len True by linarith+
      from less.hyps [OF this] False len show ?thesis by (simp add: upd slots_def)
    next
      case two: True
      show ?thesis
      proof (cases "count \<le> ?i + 1")
        case True
        then have "exact rd_at (pfail (OtherError ''malformed constant pool''))
            (rest_layout count (tab @ slots e))"
          by (intro exact_cong [OF exact_fail]) (simp add: rest_layout_too_long slots_def two)
        with two True show ?thesis by (simp add: upd pfail_def)
      next
        case False
        then have "replicate (count - ?i - 1) (None :: cp_info option) = None # replicate (count - (?i + 2)) None"
          by (cases "count - ?i - 1") (auto simp: numeral_2_eq_2)
        moreover have len: "length (tab @ slots e) = ?i + 2" by (simp add: slots_def two)
        have "count - length (tab @ slots e) < count - ?i" "length (tab @ slots e) \<le> count"
          using len False by linarith+
        note less.hyps [OF this]
        ultimately show ?thesis using two False len by (simp add: upd slots_def)
      qed
    qed
    have "pool_loop count ?i (tab @ replicate (count - ?i) None) =
        pbind (pbind read_u1 read_cp_info) ?body"
      using True by (subst pool_loop.simps) (simp add: pbind_assoc)
    moreover have "exact rd_at (pbind (pbind read_u1 read_cp_info) ?body) (rest_layout count tab)"
      by (rule exact_cong [OF exact_bind [OF exact_entry body]]) (simp add: rest_layout_step [OF True])
    ultimately show ?thesis by simp
  qed
qed

text \<open>The pool parser reads exactly the pools of the format, and returns on every input.\<close>

lemma exact_constant_pool: "exact rd_at constant_pool_parse pool_layout"
proof -
  have step: "exact rd_at
      (if count = 0 then pfail (OtherError ''constant_pool_count must be >= 1'')
       else pool_loop count 1 (replicate count None))
      (\<lambda>cp w. count \<noteq> 0 \<and> rest_layout count [None] cp w)" for count
  proof (cases count)
    case (Suc n)
    then show ?thesis using exact_pool_loop [of "[None]" count] by simp
  qed (simp add: exact_fail)
  show ?thesis unfolding constant_pool_parse_def
  proof (rule exact_cong [OF exact_bind [OF exact_read_u2 step]])
    fix cp w
    show "(\<exists>count u v. w = u @ v \<and> (count < 65536 \<and> u = be_bytes 2 count) \<and>
        count \<noteq> 0 \<and> rest_layout count [None] cp v) \<longleftrightarrow> pool_layout cp w"
      by (auto simp: pool_layout_def rest_layout_def pool_table_def)
  qed
qed

end
