(* ===== verification/Class_Annotation.thy ===== *)
theory Class_Annotation
  imports Class_Pool Rust_Str_Ops
begin

text \<open>
  Annotations and their element values (\<^verbatim>\<open>nova-classfile/src/annotation.rs\<close>): the
  mutually recursive parsers, their layouts, and the proof that they read exactly these layouts
  and return on every input.
\<close>

section \<open>Values\<close>

datatype const_value =
    CvByte int
  | CvChar nat
  | CvShort int
  | CvInt int
  | CvLong int
  | CvFloat nat
  | CvDouble nat
  | CvBoolean bool
  | CvString rstr

datatype element_value =
    EvConst const_value
  | EvEnum rstr rstr
  | EvClass rstr
  | EvAnnotation annotation
  | EvArray "element_value list"
and annotation =
    Annotation (an_type_descriptor: rstr) (an_type_internal_name: "rstr option")
      (an_elements: "(rstr \<times> element_value) list")

definition descriptor_to_internal_name :: "rstr \<Rightarrow> rstr option" where
  "descriptor_to_internal_name desc =
     Option.bind (strip_prefix_char (rc CHR ''L'') desc) (strip_suffix_char (rc CHR '';''))"

section \<open>Parsers\<close>

definition mismatch :: "nat \<Rightarrow> string \<Rightarrow> cp_info \<Rightarrow> (cf_error, 'a) result" where
  "mismatch idx expected other = Err (ConstantPoolTypeMismatch idx expected (cp_kind other))"

definition get_integer :: "constant_pool \<Rightarrow> nat \<Rightarrow> (cf_error, int) result" where
  "get_integer cp idx = res_bind (cp_get cp idx) (\<lambda>e. case e of CpInteger v \<Rightarrow> Ok v | other \<Rightarrow> mismatch idx ''Integer'' other)"

definition get_double :: "constant_pool \<Rightarrow> nat \<Rightarrow> (cf_error, nat) result" where
  "get_double cp idx = res_bind (cp_get cp idx) (\<lambda>e. case e of CpDouble v \<Rightarrow> Ok v | other \<Rightarrow> mismatch idx ''Double'' other)"

definition get_float :: "constant_pool \<Rightarrow> nat \<Rightarrow> (cf_error, nat) result" where
  "get_float cp idx = res_bind (cp_get cp idx) (\<lambda>e. case e of CpFloat v \<Rightarrow> Ok v | other \<Rightarrow> mismatch idx ''Float'' other)"

definition get_long :: "constant_pool \<Rightarrow> nat \<Rightarrow> (cf_error, int) result" where
  "get_long cp idx = res_bind (cp_get cp idx) (\<lambda>e. case e of CpLong v \<Rightarrow> Ok v | other \<Rightarrow> mismatch idx ''Long'' other)"

definition get_string :: "constant_pool \<Rightarrow> nat \<Rightarrow> (cf_error, rstr) result" where
  "get_string cp idx = res_bind (cp_get cp idx) (\<lambda>e. case e of
       CpUtf8 s \<Rightarrow> Ok s
     | CpString string_index \<Rightarrow> get_utf8 cp string_index
     | other \<Rightarrow> mismatch idx ''Utf8'' other)"

text \<open>The casts of the integer constants; a \<^verbatim>\<open>char\<close> keeps its low 16 bits.\<close>

definition integer_const :: "byte \<Rightarrow> int \<Rightarrow> const_value" where
  "integer_const tag value =
     (if tag = of_char CHR ''B'' then CvByte (as_signed 8 (nat (value mod 2 ^ 8)))
      else if tag = of_char CHR ''C'' then CvChar (nat (value mod 2 ^ 16))
      else if tag = of_char CHR ''I'' then CvInt value
      else if tag = of_char CHR ''S'' then CvShort (as_signed 16 (nat (value mod 2 ^ 16)))
      else CvBoolean (value \<noteq> 0))"

definition read_const :: "(nat \<Rightarrow> (cf_error, 'a) result) \<Rightarrow> ('a \<Rightarrow> const_value) \<Rightarrow> element_value rd" where
  "read_const get_value c =
     pbind read_u2 (\<lambda>idx. pbind (plift (get_value idx)) (\<lambda>value. preturn (EvConst (c value))))"

definition read_element :: "element_value rd \<Rightarrow> constant_pool \<Rightarrow> (rstr \<times> element_value) rd" where
  "read_element ev cp =
     pbind read_u2 (\<lambda>element_name_index.
     pbind (plift (get_utf8 cp element_name_index)) (\<lambda>name.
     pbind ev (\<lambda>value. preturn (name, value))))"

definition annotation_parse_with :: "element_value rd \<Rightarrow> constant_pool \<Rightarrow> annotation rd" where
  "annotation_parse_with ev cp =
     pbind read_u2 (\<lambda>type_index.
     pbind (plift (get_utf8 cp type_index)) (\<lambda>type_descriptor.
     pbind read_u2 (\<lambda>num_element_value_pairs.
     pbind (prepeat num_element_value_pairs (read_element ev cp)) (\<lambda>elements.
       preturn (Annotation type_descriptor (descriptor_to_internal_name type_descriptor) elements)))))"

definition element_value_body :: "element_value rd \<Rightarrow> constant_pool \<Rightarrow> byte \<Rightarrow> element_value rd" where
  "element_value_body ev cp tag =
     (if tag \<in> {of_char CHR ''B'', of_char CHR ''C'', of_char CHR ''I'', of_char CHR ''S'', of_char CHR ''Z''}
        then read_const (get_integer cp) (integer_const tag)
      else if tag = of_char CHR ''D'' then read_const (get_double cp) CvDouble
      else if tag = of_char CHR ''F'' then read_const (get_float cp) CvFloat
      else if tag = of_char CHR ''J'' then read_const (get_long cp) CvLong
      else if tag = of_char CHR ''s'' then read_const (get_string cp) CvString
      else if tag = of_char CHR ''e'' then
        pbind read_u2 (\<lambda>type_name_index. pbind read_u2 (\<lambda>const_name_index.
          pbind (plift (get_utf8 cp type_name_index)) (\<lambda>type_descriptor.
          pbind (plift (get_utf8 cp const_name_index)) (\<lambda>const_name.
            preturn (EvEnum type_descriptor const_name)))))
      else if tag = of_char CHR ''c'' then
        pbind read_u2 (\<lambda>i. pbind (plift (get_utf8 cp i)) (\<lambda>s. preturn (EvClass s)))
      else if tag = of_char CHR ''@'' then
        pbind (annotation_parse_with ev cp) (\<lambda>a. preturn (EvAnnotation a))
      else if tag = of_char CHR ''['' then
        pbind read_u2 (\<lambda>num_values. pbind (prepeat num_values ev) (\<lambda>values. preturn (EvArray values)))
      else pfail (MalformedAttribute ''RuntimeVisibleAnnotations''))"

lemma annotation_mono [partial_function_mono]:
  assumes "\<And>s. mono_option (\<lambda>f. ev f s)"
  shows "mono_option (\<lambda>f. annotation_parse_with (ev f) cp r)"
  unfolding annotation_parse_with_def read_element_def by (intro partial_function_mono assms)

lemma element_value_mono [partial_function_mono]:
  assumes "\<And>s. mono_option (\<lambda>f. ev f s)"
  shows "mono_option (\<lambda>f. element_value_body (ev f) cp tag r)"
  unfolding element_value_body_def if_distrib [of "\<lambda>p. p r"] by (intro partial_function_mono assms)

partial_function (option) element_value_parse ::
  "constant_pool \<Rightarrow> reader \<Rightarrow> (cf_error, element_value \<times> reader) result option" where
  "element_value_parse cp r = pbind read_u1 (element_value_body (element_value_parse cp) cp) r"

definition annotation_parse :: "constant_pool \<Rightarrow> annotation rd" where
  "annotation_parse cp = annotation_parse_with (element_value_parse cp) cp"

declare descriptor_to_internal_name_def [nova_eval] mismatch_def [nova_eval] get_integer_def [nova_eval]
  get_double_def [nova_eval] get_float_def [nova_eval] get_long_def [nova_eval] get_string_def [nova_eval]
  integer_const_def [nova_eval] read_const_def [nova_eval] read_element_def [nova_eval]
  annotation_parse_with_def [nova_eval] element_value_body_def [nova_eval] annotation_parse_def [nova_eval]

section \<open>Layouts\<close>

text \<open>The constant that a tag and a pool index denote (JVMS 4.7.16.1).\<close>

definition const_denoted :: "constant_pool \<Rightarrow> byte \<Rightarrow> nat \<Rightarrow> const_value \<Rightarrow> bool" where
  "const_denoted cp tag idx cv \<longleftrightarrow>
     (tag \<in> {of_char CHR ''B'', of_char CHR ''C'', of_char CHR ''I'', of_char CHR ''S'', of_char CHR ''Z''} \<and>
        (\<exists>v. cp_get cp idx = Ok (CpInteger v) \<and> cv = integer_const tag v)) \<or>
     (tag = of_char CHR ''D'' \<and> (\<exists>v. cp_get cp idx = Ok (CpDouble v) \<and> cv = CvDouble v)) \<or>
     (tag = of_char CHR ''F'' \<and> (\<exists>v. cp_get cp idx = Ok (CpFloat v) \<and> cv = CvFloat v)) \<or>
     (tag = of_char CHR ''J'' \<and> (\<exists>v. cp_get cp idx = Ok (CpLong v) \<and> cv = CvLong v)) \<or>
     (tag = of_char CHR ''s'' \<and>
        (\<exists>s. cv = CvString s \<and>
          (cp_get cp idx = Ok (CpUtf8 s) \<or> (\<exists>i. cp_get cp idx = Ok (CpString i) \<and> get_utf8 cp i = Ok s))))"

text \<open>An index of two bytes that resolves to \<open>s\<close>.\<close>

definition utf8_ref :: "constant_pool \<Rightarrow> rstr \<Rightarrow> byte list \<Rightarrow> bool" where
  "utf8_ref cp s w \<longleftrightarrow> (\<exists>i < 65536. get_utf8 cp i = Ok s \<and> w = be_bytes 2 i)"

primrec ev_layout :: "constant_pool \<Rightarrow> element_value \<Rightarrow> byte list \<Rightarrow> bool"
  and an_layout :: "constant_pool \<Rightarrow> annotation \<Rightarrow> byte list \<Rightarrow> bool" where
  "ev_layout cp (EvConst cv) = (\<lambda>w. \<exists>tag. \<exists>i < 65536. const_denoted cp tag i cv \<and> w = tag # be_bytes 2 i)"
| "ev_layout cp (EvEnum t n) = (\<lambda>w. \<exists>u v. utf8_ref cp t u \<and> utf8_ref cp n v \<and> w = of_char CHR ''e'' # u @ v)"
| "ev_layout cp (EvClass s) = (\<lambda>w. \<exists>u. utf8_ref cp s u \<and> w = of_char CHR ''c'' # u)"
| "ev_layout cp (EvAnnotation a) = (\<lambda>w. \<exists>u. an_layout cp a u \<and> w = of_char CHR ''@'' # u)"
| "ev_layout cp (EvArray vs) = (\<lambda>w. \<exists>ws. length vs < 65536 \<and>
     list_all2 (\<lambda>P. P) (map (ev_layout cp) vs) ws \<and>
     w = of_char CHR ''['' # be_bytes 2 (length vs) @ concat ws)"
| "an_layout cp (Annotation t n es) = (\<lambda>w. \<exists>u ws. utf8_ref cp t u \<and> n = descriptor_to_internal_name t \<and>
     length es < 65536 \<and>
     list_all2 (\<lambda>(name, P) w. \<exists>u v. utf8_ref cp name u \<and> P v \<and> w = u @ v)
       (map (map_prod id (ev_layout cp)) es) ws \<and>
     w = u @ be_bytes 2 (length es) @ concat ws)"

definition element_layout :: "constant_pool \<Rightarrow> rstr \<times> element_value \<Rightarrow> byte list \<Rightarrow> bool" where
  "element_layout cp e w \<longleftrightarrow> (\<exists>u v. utf8_ref cp (fst e) u \<and> ev_layout cp (snd e) v \<and> w = u @ v)"

lemma an_layout_iff:
  "an_layout cp (Annotation t n es) w \<longleftrightarrow> (\<exists>u ws. utf8_ref cp t u \<and> n = descriptor_to_internal_name t \<and>
     length es < 65536 \<and> list_all2 (element_layout cp) es ws \<and> w = u @ be_bytes 2 (length es) @ concat ws)"
  by (simp add: list_all2_map1 element_layout_def [abs_def] split_def)

section \<open>The parsers read exactly the layouts\<close>

text \<open>An index and the value it resolves to.\<close>

definition read_ref :: "(nat \<Rightarrow> (cf_error, 'a) result) \<Rightarrow> 'a rd" where
  "read_ref g = pbind read_u2 (\<lambda>i. plift (g i))"

lemma fold_read_ref: "pbind read_u2 (\<lambda>i. pbind (plift (g i)) k) = pbind (read_ref g) k"
  by (simp add: read_ref_def pbind_assoc)

lemma exact_read_ref: "exact rd_at (read_ref g) (\<lambda>x w. \<exists>i < 65536. g i = Ok x \<and> w = be_bytes 2 i)"
  unfolding read_ref_def by (rule exact_cong [OF exact_bind [OF exact_read_u2 exact_lift]]) auto

lemma exact_utf8_ref: "exact rd_at (read_ref (get_utf8 cp)) (utf8_ref cp)"
  by (rule exact_cong [OF exact_read_ref]) (simp add: utf8_ref_def)

lemma utf8_ref_length: "utf8_ref cp s w \<Longrightarrow> length w = 2"
  by (auto simp: utf8_ref_def)

lemma get_const_iff:
  "get_integer cp i = Ok v \<longleftrightarrow> cp_get cp i = Ok (CpInteger v)"
  "get_double cp i = Ok d \<longleftrightarrow> cp_get cp i = Ok (CpDouble d)"
  "get_float cp i = Ok d \<longleftrightarrow> cp_get cp i = Ok (CpFloat d)"
  "get_long cp i = Ok v \<longleftrightarrow> cp_get cp i = Ok (CpLong v)"
  "get_string cp i = Ok s \<longleftrightarrow> cp_get cp i = Ok (CpUtf8 s) \<or> (\<exists>j. cp_get cp i = Ok (CpString j) \<and> get_utf8 cp j = Ok s)"
  unfolding get_integer_def get_double_def get_float_def get_long_def get_string_def mismatch_def
  by (cases "cp_get cp i", simp, rename_tac e, case_tac e, auto)+

lemma exact_read_const:
  "exact rd_at (read_const g c) (\<lambda>x w. \<exists>i < 65536. \<exists>v. g i = Ok v \<and> x = EvConst (c v) \<and> w = be_bytes 2 i)"
  unfolding read_const_def fold_read_ref by (rule exact_map [OF exact_read_ref]) auto

definition const_tags :: "byte set" where
  "const_tags = {of_char CHR ''B'', of_char CHR ''C'', of_char CHR ''I'', of_char CHR ''S'', of_char CHR ''Z'',
     of_char CHR ''D'', of_char CHR ''F'', of_char CHR ''J'', of_char CHR ''s''}"

lemma const_denoted_tag: "const_denoted cp tag i cv \<Longrightarrow> tag \<in> const_tags"
  by (auto simp: const_denoted_def const_tags_def)

lemma exact_const_body:
  assumes "tag \<in> const_tags"
  shows "exact rd_at (element_value_body ev cp tag)
    (\<lambda>x w. \<exists>i < 65536. \<exists>cv. const_denoted cp tag i cv \<and> x = EvConst cv \<and> w = be_bytes 2 i)"
  using assms unfolding const_tags_def
  by (elim insertE emptyE)
    (simp_all add: element_value_body_def, (rule exact_cong [OF exact_read_const],
      simp add: const_denoted_def get_const_iff, blast)+)

lemma exact_enum_body:
  "exact rd_at (element_value_body ev cp (of_char CHR ''e''))
     (\<lambda>x w. \<exists>t n u v. utf8_ref cp t u \<and> utf8_ref cp n v \<and> x = EvEnum t n \<and> w = u @ v)"
proof -
  have "exact rd_at (pbind (plift (get_utf8 cp i)) (\<lambda>t. pbind (plift (get_utf8 cp j)) (\<lambda>n. preturn (EvEnum t n))))
      (\<lambda>x w. w = [] \<and> (\<exists>t n. get_utf8 cp i = Ok t \<and> get_utf8 cp j = Ok n \<and> x = EvEnum t n))" for i j
    by (rule exact_cong [OF exact_bind [OF exact_lift exact_map [OF exact_lift]]]) (rule refl, auto)
  from exact_bind [OF exact_read_u2 exact_bind [OF exact_read_u2 this]]
  have "exact rd_at (element_value_body ev cp (of_char CHR ''e'')) (\<lambda>y w. \<exists>i u v. w = u @ v \<and>
      (i < 65536 \<and> u = be_bytes 2 i) \<and> (\<exists>j u' v'. v = u' @ v' \<and> (j < 65536 \<and> u' = be_bytes 2 j) \<and>
        v' = [] \<and> (\<exists>t n. get_utf8 cp i = Ok t \<and> get_utf8 cp j = Ok n \<and> y = EvEnum t n)))"
    by (simp add: element_value_body_def)
  then show ?thesis by (rule exact_cong) (auto simp: utf8_ref_def; blast)
qed

lemma exact_class_body:
  "exact rd_at (element_value_body ev cp (of_char CHR ''c'')) (\<lambda>x w. \<exists>s. utf8_ref cp s w \<and> x = EvClass s)"
  by (simp add: element_value_body_def fold_read_ref) (rule exact_map [OF exact_utf8_ref], auto)

lemma body_rec:
  "element_value_body ev cp (of_char CHR ''@'') = pbind (annotation_parse_with ev cp) (\<lambda>a. preturn (EvAnnotation a))"
  "element_value_body ev cp (of_char CHR ''['') =
     pbind read_u2 (\<lambda>n. pbind (prepeat n ev) (\<lambda>values. preturn (EvArray values)))"
  by (simp_all add: element_value_body_def)

lemma body_other:
  "tag \<notin> const_tags \<Longrightarrow> tag \<notin> {of_char CHR ''e'', of_char CHR ''c'', of_char CHR ''@'', of_char CHR ''[''} \<Longrightarrow>
   element_value_body ev cp tag = pfail (MalformedAttribute ''RuntimeVisibleAnnotations'')"
  by (simp add: element_value_body_def const_tags_def)

lemma run_at_annotation:
  assumes ev: "\<And>pre rest. length rest < n \<Longrightarrow> run_at rd_at ev pre rest (\<lambda>x w _. ev_layout cp x w)"
    and "length rest \<le> n"
  shows "run_at rd_at (annotation_parse_with ev cp) pre rest (\<lambda>a w _. an_layout cp a w)"
proof -
  have element: "run_at rd_at (read_element ev cp) pre' rest' (\<lambda>e w _. element_layout cp e w)"
    if "length rest' < n" for pre' rest'
    unfolding read_element_def fold_read_ref
    by (rule run_at_bind [OF exact_run [OF exact_utf8_ref]], rule run_at_bind [OF ev], use that in simp, rule run_at_return)
      (auto simp: element_layout_def)
  show ?thesis
    unfolding annotation_parse_with_def fold_read_ref
  proof (rule run_at_bind [OF exact_run [OF exact_utf8_ref]], rule run_at_bind [OF exact_run [OF exact_read_u2]],
      rule run_at_bind [OF run_at_repeat], rule element)
    fix t w0 r0 m w1 r1 es w2 and rest' r2 :: "byte list"
    assume t: "rest = w0 @ r0" "utf8_ref cp t w0" "r0 = w1 @ r1" "m < 65536 \<and> w1 = be_bytes 2 m"
    show "length rest' < n" if "length rest' \<le> length r1"
      using that t assms(2) utf8_ref_length [OF t(2)] by simp
    assume "\<exists>ws. w2 = concat ws \<and> length es = m \<and> list_all2 (element_layout cp) es ws"
    with t show "run_at rd_at (preturn (Annotation t (descriptor_to_internal_name t) es)) (((pre @ w0) @ w1) @ w2) r2
        (\<lambda>a w _. an_layout cp a (w0 @ w1 @ w2 @ w))"
      by (intro run_at_return) (auto simp: an_layout_iff simp del: an_layout.simps)
  qed
qed

lemma run_at_element_value_body:
  assumes ev: "\<And>pre rest. length rest < n \<Longrightarrow> run_at rd_at ev pre rest (\<lambda>x w _. ev_layout cp x w)"
    and len: "length rest < n"
  shows "run_at rd_at (element_value_body ev cp tag) pre rest (\<lambda>x w _. ev_layout cp x (tag # w))"
proof -
  consider "tag \<in> const_tags" | "tag = of_char CHR ''e''" | "tag = of_char CHR ''c''"
    | "tag = of_char CHR ''@''" | "tag = of_char CHR ''[''"
    | "tag \<notin> const_tags" "tag \<notin> {of_char CHR ''e'', of_char CHR ''c'', of_char CHR ''@'', of_char CHR ''[''}"
    by blast
  then show ?thesis
  proof cases
    case 1
    show ?thesis by (rule run_at_conseq [OF exact_run [OF exact_const_body [OF 1]]]) auto
  next
    case 2
    show ?thesis unfolding 2 by (rule run_at_conseq [OF exact_run [OF exact_enum_body]]) (auto; blast)
  next
    case 3
    show ?thesis unfolding 3 by (rule run_at_conseq [OF exact_run [OF exact_class_body]]) auto
  next
    case 4
    show ?thesis unfolding 4 body_rec
      by (rule run_at_bind [OF run_at_annotation [OF ev]], assumption, use len in simp, rule run_at_return) auto
  next
    case 5
    show ?thesis unfolding 5 body_rec
    proof (rule run_at_bind [OF exact_run [OF exact_read_u2]], rule run_at_bind [OF run_at_repeat], rule ev)
      fix m w0 r0 vs w1 and rest' r1 :: "byte list"
      assume m: "rest = w0 @ r0" "m < 65536 \<and> w0 = be_bytes 2 m"
      show "length rest' < n" if "length rest' \<le> length r0" using that m len by simp
      assume "\<exists>ws. w1 = concat ws \<and> length vs = m \<and> list_all2 (ev_layout cp) vs ws"
      with m show "run_at rd_at (preturn (EvArray vs)) ((pre @ w0) @ w1) r1
          (\<lambda>x w _. ev_layout cp x (of_char CHR ''['' # w0 @ w1 @ w))"
        by (intro run_at_return) (auto simp: list_all2_map1)
    qed
  next
    case 6
    from body_other [OF this, of ev cp] show ?thesis by (simp add: run_at_fail)
  qed
qed

lemma run_at_element_value: "run_at rd_at (element_value_parse cp) pre rest (\<lambda>x w _. ev_layout cp x w)"
proof (induction "length rest" arbitrary: pre rest rule: less_induct)
  case less
  have "run_at rd_at (pbind read_u1 (element_value_body (element_value_parse cp) cp)) pre rest
      (\<lambda>x w _. ev_layout cp x w)"
  proof (rule run_at_bind [OF exact_run [OF exact_read_u1]])
    fix tag w r assume "rest = w @ r" "w = [tag]"
    then show "run_at rd_at (element_value_body (element_value_parse cp) cp tag) (pre @ w) r
        (\<lambda>x w' _. ev_layout cp x (w @ w'))"
      using run_at_element_value_body [of "length rest" "element_value_parse cp" cp r tag, OF less.hyps] by simp
  qed
  then show ?case by (simp add: run_at_def element_value_parse.simps [of cp "rd_at pre rest"])
qed

lemma decodes_value:
  assumes "decodes rd_at (element_value_body (element_value_parse cp) cp tag) w x rest"
  shows "decodes rd_at (element_value_parse cp) (tag # w) x rest"
proof -
  have "decodes rd_at read_u1 [tag] tag (w @ rest)"
    by (rule exact_decodes [OF exact_read_u1]) simp
  then have "decodes rd_at (pbind read_u1 (element_value_body (element_value_parse cp) cp)) ([tag] @ w) x rest"
    by (rule decodes_bind) (rule assms)
  then show ?thesis by (simp add: decodes_def element_value_parse.simps [of cp "rd_at _ _"])
qed

lemma decodes_element:
  assumes "element_layout cp e w" "\<And>v rest. ev_layout cp (snd e) v \<Longrightarrow> decodes rd_at (element_value_parse cp) v (snd e) rest"
  shows "decodes rd_at (read_element (element_value_parse cp) cp) w e rest"
proof -
  from assms(1) obtain u v where uv: "utf8_ref cp (fst e) u" "ev_layout cp (snd e) v" "w = u @ v"
    by (auto simp: element_layout_def)
  have "decodes rd_at (pbind (element_value_parse cp) (\<lambda>value. preturn (fst e, value))) v (fst e, snd e) rest"
    using assms(2) [OF uv(2)] by (simp add: decodes_def)
  then have "decodes rd_at (pbind (read_ref (get_utf8 cp)) (\<lambda>name. pbind (element_value_parse cp) (\<lambda>value. preturn (name, value))))
      (u @ v) (fst e, snd e) rest"
    by (rule decodes_bind [OF exact_decodes [OF exact_utf8_ref uv(1)]])
  then show ?thesis by (simp add: read_element_def fold_read_ref uv(3))
qed

lemma decodes_annotation:
  assumes "an_layout cp (Annotation t n es) w"
    and "\<And>e v rest. e \<in> set es \<Longrightarrow> ev_layout cp (snd e) v \<Longrightarrow> decodes rd_at (element_value_parse cp) v (snd e) rest"
  shows "decodes rd_at (annotation_parse cp) w (Annotation t n es) rest"
proof -
  from assms(1) obtain u ws where u: "utf8_ref cp t u" "n = descriptor_to_internal_name t" "length es < 65536"
      "list_all2 (element_layout cp) es ws" and w: "w = u @ be_bytes 2 (length es) @ concat ws"
    unfolding an_layout_iff by auto
  have "list_all2 (\<lambda>e w. \<forall>rest. decodes rd_at (read_element (element_value_parse cp) cp) w e rest) es ws"
    using u(4) by (rule list.rel_mono_strong) (auto intro!: decodes_element assms(2))
  then have "decodes rd_at (prepeat (length es) (read_element (element_value_parse cp) cp)) (concat ws) es rest"
    by (rule decodes_repeat)
  then have elements: "decodes rd_at (pbind (prepeat (length es) (read_element (element_value_parse cp) cp))
      (\<lambda>es. preturn (Annotation t (descriptor_to_internal_name t) es))) (concat ws)
      (Annotation t (descriptor_to_internal_name t) es) rest"
    by (simp add: decodes_def)
  have count: "decodes rd_at read_u2 (be_bytes 2 (length es)) (length es) r" for r
    by (rule exact_decodes [OF exact_read_u2]) (use u(3) in simp)
  show ?thesis
    unfolding annotation_parse_def annotation_parse_with_def fold_read_ref w u(2)
    by (rule decodes_bind [OF exact_decodes [OF exact_utf8_ref u(1)]], rule decodes_bind [OF count], rule elements)
qed

lemma decodes_element_value:
  "\<forall>w rest. ev_layout cp x w \<longrightarrow> decodes rd_at (element_value_parse cp) w x rest"
  "\<forall>w rest. an_layout cp a w \<longrightarrow> decodes rd_at (annotation_parse cp) w a rest"
proof (induction x and a)
  case (EvConst cv)
  show ?case
    by (auto intro!: decodes_value exact_decodes [OF exact_const_body] dest: const_denoted_tag)
next
  case (EvEnum t n)
  show ?case
  proof (intro allI impI)
    fix w rest assume "ev_layout cp (EvEnum t n) w"
    then obtain u v where uv: "utf8_ref cp t u" "utf8_ref cp n v" and w: "w = of_char CHR ''e'' # u @ v" by auto
    show "decodes rd_at (element_value_parse cp) w (EvEnum t n) rest"
      unfolding w by (rule decodes_value, rule exact_decodes [OF exact_enum_body]) (use uv in blast)
  qed
next
  case (EvClass s)
  show ?case
  proof (intro allI impI)
    fix w rest assume "ev_layout cp (EvClass s) w"
    then obtain u where u: "utf8_ref cp s u" and w: "w = of_char CHR ''c'' # u" by auto
    show "decodes rd_at (element_value_parse cp) w (EvClass s) rest"
      unfolding w by (rule decodes_value, rule exact_decodes [OF exact_class_body]) (use u in blast)
  qed
next
  case (EvAnnotation a)
  show ?case
  proof (intro allI impI)
    fix w rest assume "ev_layout cp (EvAnnotation a) w"
    then obtain u where u: "an_layout cp a u" "w = of_char CHR ''@'' # u" by auto
    have "decodes rd_at (pbind (annotation_parse cp) (\<lambda>a. preturn (EvAnnotation a))) u (EvAnnotation a) rest"
      using EvAnnotation u(1) by (simp add: decodes_def)
    then show "decodes rd_at (element_value_parse cp) w (EvAnnotation a) rest"
      unfolding u(2) annotation_parse_def by (intro decodes_value) (simp only: body_rec)
  qed
next
  case (EvArray vs)
  show ?case
  proof (intro allI impI)
    fix w rest assume "ev_layout cp (EvArray vs) w"
    then obtain ws where ws: "length vs < 65536" "list_all2 (ev_layout cp) vs ws"
        "w = of_char CHR ''['' # be_bytes 2 (length vs) @ concat ws"
      by (auto simp: list_all2_map1)
    have "list_all2 (\<lambda>x w. \<forall>rest. decodes rd_at (element_value_parse cp) w x rest) vs ws"
      using ws(2) by (rule list.rel_mono_strong) (use EvArray in blast)
    then have "decodes rd_at (prepeat (length vs) (element_value_parse cp)) (concat ws) vs rest"
      by (rule decodes_repeat)
    then have items: "decodes rd_at (pbind (prepeat (length vs) (element_value_parse cp)) (\<lambda>vs. preturn (EvArray vs)))
        (concat ws) (EvArray vs) rest"
      by (simp add: decodes_def)
    have count: "decodes rd_at read_u2 (be_bytes 2 (length vs)) (length vs) r" for r
      by (rule exact_decodes [OF exact_read_u2]) (use ws(1) in simp)
    show "decodes rd_at (element_value_parse cp) w (EvArray vs) rest"
      unfolding ws(3) by (rule decodes_value, unfold body_rec, rule decodes_bind [OF count], rule items)
  qed
next
  case (Annotation t n es)
  then show ?case
    by (auto simp del: an_layout.simps intro!: decodes_annotation)
qed

lemma exact_element_value: "exact rd_at (element_value_parse cp) (ev_layout cp)"
  by (rule exactI) (use run_at_element_value decodes_element_value(1) in blast)+

lemma exact_annotation: "exact rd_at (annotation_parse cp) (an_layout cp)"
proof (rule exactI)
  show "run_at rd_at (annotation_parse cp) pre rest (\<lambda>a w _. an_layout cp a w)" for pre rest
    unfolding annotation_parse_def
    by (rule run_at_annotation [OF run_at_element_value order.refl])
  show "decodes rd_at (annotation_parse cp) w a rest" if "an_layout cp a w" for a w rest
    using decodes_element_value(2) that by blast
qed

end
