(* ===== verification/Class_File.thy ===== *)
theory Class_File
  imports Class_Annotation Class_Sig_Exact
begin

text \<open>
  Class files (\<^verbatim>\<open>nova-classfile/src/classfile.rs\<close>, \<^verbatim>\<open>stub.rs\<close>):
  attributes, members, the whole file, and the stub made from it.
\<close>

section \<open>Data\<close>

record inner_class_info =
  ic_inner_class :: rstr
  ic_outer_class :: "rstr option"
  ic_inner_name :: "rstr option"
  ic_access_flags :: nat

record class_member =
  cm_access_flags :: nat
  cm_name :: rstr
  cm_descriptor :: rstr
  cm_signature :: "rstr option"
  cm_runtime_visible_annotations :: "annotation list"
  cm_runtime_invisible_annotations :: "annotation list"

record class_file =
  cf_minor_version :: nat
  cf_major_version :: nat
  cf_access_flags :: nat
  cf_this_class :: rstr
  cf_super_class :: "rstr option"
  cf_interfaces :: "rstr list"
  cf_fields :: "class_member list"
  cf_methods :: "class_member list"
  cf_signature :: "rstr option"
  cf_runtime_visible_annotations :: "annotation list"
  cf_runtime_invisible_annotations :: "annotation list"
  cf_inner_classes :: "inner_class_info list"

section \<open>Attributes\<close>

record parsed_attributes =
  pa_signature :: "rstr option"
  pa_runtime_visible_annotations :: "annotation list"
  pa_runtime_invisible_annotations :: "annotation list"
  pa_inner_classes :: "inner_class_info list"

definition parsed_attributes_default :: parsed_attributes where
  "parsed_attributes_default =
     \<lparr>pa_signature = None, pa_runtime_visible_annotations = [], pa_runtime_invisible_annotations = [],
      pa_inner_classes = []\<rparr>"

datatype attribute_target = TargetClass | TargetMember

text \<open>An index that may be zero, which stands for an absent value.\<close>

definition optional_ref :: "(nat \<Rightarrow> (cf_error, rstr) result) \<Rightarrow> nat \<Rightarrow> (cf_error, rstr option) result" where
  "optional_ref g idx = (if idx = 0 then Ok None else res_bind (g idx) (\<lambda>s. Ok (Some s)))"

text \<open>A count of two bytes and so many items, as every table of a class file is read.\<close>

definition read_table :: "'a rd \<Rightarrow> 'a list rd" where
  "read_table item = pbind read_u2 (\<lambda>count. prepeat count item)"

definition read_inner_class :: "constant_pool \<Rightarrow> inner_class_info rd" where
  "read_inner_class cp =
     pbind read_u2 (\<lambda>inner_class_info_index.
     pbind read_u2 (\<lambda>outer_class_info_index.
     pbind read_u2 (\<lambda>inner_name_index.
     pbind read_u2 (\<lambda>inner_access_flags.
     pbind (plift (get_class_name cp inner_class_info_index)) (\<lambda>inner_class.
     pbind (plift (optional_ref (get_class_name cp) outer_class_info_index)) (\<lambda>outer_class.
     pbind (plift (optional_ref (get_utf8 cp) inner_name_index)) (\<lambda>inner_name.
       preturn \<lparr>ic_inner_class = inner_class, ic_outer_class = outer_class, ic_inner_name = inner_name,
                ic_access_flags = inner_access_flags\<rparr>)))))))"

text \<open>The arms of the match on the attribute's name; a later attribute of the same name adds to the
  annotations and replaces the signature.\<close>

definition apply_attribute ::
  "constant_pool \<Rightarrow> attribute_target \<Rightarrow> rstr \<Rightarrow> byte list \<Rightarrow> parsed_attributes \<Rightarrow> parsed_attributes rd" where
  "apply_attribute cp target name info parsed =
     (if name = rs ''Signature'' then
        pbind (sub_reader info (whole (pbind read_u2 (\<lambda>sig_index. plift (get_utf8 cp sig_index))))) (\<lambda>s.
          preturn (parsed\<lparr>pa_signature := Some s\<rparr>))
      else if name = rs ''RuntimeVisibleAnnotations'' then
        pbind (sub_reader info (whole (read_table (annotation_parse cp)))) (\<lambda>anns.
          preturn (parsed\<lparr>pa_runtime_visible_annotations := pa_runtime_visible_annotations parsed @ anns\<rparr>))
      else if name = rs ''RuntimeInvisibleAnnotations'' then
        pbind (sub_reader info (whole (read_table (annotation_parse cp)))) (\<lambda>anns.
          preturn (parsed\<lparr>pa_runtime_invisible_annotations := pa_runtime_invisible_annotations parsed @ anns\<rparr>))
      else if name = rs ''InnerClasses'' \<and> target = TargetClass then
        pbind (sub_reader info (whole (read_table (read_inner_class cp)))) (\<lambda>inners.
          preturn (parsed\<lparr>pa_inner_classes := pa_inner_classes parsed @ inners\<rparr>))
      else preturn parsed)"

text \<open>The loop of \<^verbatim>\<open>parse_attributes\<close>, which threads the attributes parsed so far.\<close>

primrec attributes_loop ::
  "constant_pool \<Rightarrow> attribute_target \<Rightarrow> nat \<Rightarrow> parsed_attributes \<Rightarrow> parsed_attributes rd" where
  "attributes_loop cp target 0 parsed = preturn parsed"
| "attributes_loop cp target (Suc n) parsed =
     pbind read_u2 (\<lambda>name_index.
     pbind read_u4 (\<lambda>length.
     pbind (read_bytes length) (\<lambda>info.
     pbind (plift (get_utf8 cp name_index)) (\<lambda>name.
     pbind (apply_attribute cp target name info parsed) (attributes_loop cp target n)))))"

definition parse_attributes :: "constant_pool \<Rightarrow> attribute_target \<Rightarrow> parsed_attributes rd" where
  "parse_attributes cp target =
     pbind read_u2 (\<lambda>attributes_count. attributes_loop cp target attributes_count parsed_attributes_default)"

section \<open>Members and class files\<close>

definition parse_member :: "constant_pool \<Rightarrow> class_member rd" where
  "parse_member cp =
     pbind read_u2 (\<lambda>access_flags.
     pbind read_u2 (\<lambda>name_index.
     pbind (plift (get_utf8 cp name_index)) (\<lambda>name.
     pbind read_u2 (\<lambda>descriptor_index.
     pbind (plift (get_utf8 cp descriptor_index)) (\<lambda>descriptor.
     pbind (parse_attributes cp TargetMember) (\<lambda>attrs.
       preturn \<lparr>cm_access_flags = access_flags, cm_name = name, cm_descriptor = descriptor,
                cm_signature = pa_signature attrs,
                cm_runtime_visible_annotations = pa_runtime_visible_annotations attrs,
                cm_runtime_invisible_annotations = pa_runtime_invisible_annotations attrs\<rparr>))))))"

text \<open>What follows the constant pool.\<close>

definition class_body :: "constant_pool \<Rightarrow> nat \<Rightarrow> nat \<Rightarrow> class_file rd" where
  "class_body cp minor_version major_version =
     pbind read_u2 (\<lambda>access_flags.
     pbind read_u2 (\<lambda>this_class_idx.
     pbind (plift (get_class_name cp this_class_idx)) (\<lambda>this_class.
     pbind read_u2 (\<lambda>super_class_idx.
     pbind (plift (optional_ref (get_class_name cp) super_class_idx)) (\<lambda>super_class.
     pbind (read_table (pbind read_u2 (\<lambda>i. plift (get_class_name cp i)))) (\<lambda>interfaces.
     pbind (read_table (parse_member cp)) (\<lambda>fields.
     pbind (read_table (parse_member cp)) (\<lambda>methods.
     pbind (parse_attributes cp TargetClass) (\<lambda>class_attrs.
     preturn \<lparr>cf_minor_version = minor_version, cf_major_version = major_version,
         cf_access_flags = access_flags, cf_this_class = this_class, cf_super_class = super_class,
         cf_interfaces = interfaces, cf_fields = fields, cf_methods = methods,
         cf_signature = pa_signature class_attrs,
         cf_runtime_visible_annotations = pa_runtime_visible_annotations class_attrs,
         cf_runtime_invisible_annotations = pa_runtime_invisible_annotations class_attrs,
         cf_inner_classes = pa_inner_classes class_attrs\<rparr>)))))))))"

definition check_magic :: "unit rd" where
  "check_magic = pbind read_u4 (\<lambda>magic. if magic \<noteq> 0xCAFEBABE then pfail (InvalidMagic magic) else preturn ())"

definition class_parser :: "class_file rd" where
  "class_parser =
     pbind check_magic (\<lambda>_.
     pbind read_u2 (\<lambda>minor_version.
     pbind read_u2 (\<lambda>major_version.
     pbind constant_pool_parse (\<lambda>cp. class_body cp minor_version major_version))))"

definition run_reader :: "'a rd \<Rightarrow> byte list \<Rightarrow> (cf_error, 'a) result option" where
  "run_reader p bytes = map_option (map_sum id fst) (p (reader_new bytes))"

definition class_file_parse :: "byte list \<Rightarrow> (cf_error, class_file) result option" where
  "class_file_parse = run_reader (whole class_parser)"

section \<open>Stubs\<close>

record field_stub =
  fs_access_flags :: nat
  fs_name :: rstr
  fs_descriptor :: rstr
  fs_parsed_descriptor :: field_type
  fs_raw_signature :: "rstr option"
  fs_signature :: "type_signature option"
  fs_annotations :: "annotation list"

record method_stub =
  mst_access_flags :: nat
  mst_name :: rstr
  mst_descriptor :: rstr
  mst_parsed_descriptor :: method_descriptor
  mst_raw_signature :: "rstr option"
  mst_signature :: "method_signature option"
  mst_annotations :: "annotation list"

record class_stub =
  cst_internal_name :: rstr
  cst_access_flags :: nat
  cst_super_class :: "rstr option"
  cst_interfaces :: "rstr list"
  cst_raw_signature :: "rstr option"
  cst_signature :: "class_signature option"
  cst_annotations :: "annotation list"
  cst_inner_classes :: "inner_class_info list"
  cst_fields :: "field_stub list"
  cst_methods :: "method_stub list"

text \<open>\<^verbatim>\<open>sig.as_deref().and_then(|s| parse(s).ok())\<close>; a signature that does not parse is dropped.\<close>

definition parse_optional ::
  "(rstr \<Rightarrow> (cf_error, 'a) result option) \<Rightarrow> rstr option \<Rightarrow> 'a option option" where
  "parse_optional parse sig =
     (case sig of
        None \<Rightarrow> Some None
      | Some s \<Rightarrow> map_option (\<lambda>r. case r of Inl _ \<Rightarrow> None | Inr x \<Rightarrow> Some x) (parse s))"

definition field_stub_of :: "class_member \<Rightarrow> (cf_error, field_stub) result option" where
  "field_stub_of f =
     Option.bind (parse_field_descriptor (cm_descriptor f)) (\<lambda>r. case r of
         Inl e \<Rightarrow> Some (Err e)
       | Inr parsed_descriptor \<Rightarrow>
           map_option (\<lambda>signature. Ok
             \<lparr>fs_access_flags = cm_access_flags f, fs_name = cm_name f, fs_descriptor = cm_descriptor f,
              fs_parsed_descriptor = parsed_descriptor, fs_raw_signature = cm_signature f,
              fs_signature = signature,
              fs_annotations = cm_runtime_visible_annotations f @ cm_runtime_invisible_annotations f\<rparr>)
             (parse_optional parse_field_signature (cm_signature f)))"

definition method_stub_of :: "class_member \<Rightarrow> (cf_error, method_stub) result option" where
  "method_stub_of m =
     Option.bind (parse_method_descriptor (cm_descriptor m)) (\<lambda>r. case r of
         Inl e \<Rightarrow> Some (Err e)
       | Inr parsed_descriptor \<Rightarrow>
           map_option (\<lambda>signature. Ok
             \<lparr>mst_access_flags = cm_access_flags m, mst_name = cm_name m, mst_descriptor = cm_descriptor m,
              mst_parsed_descriptor = parsed_descriptor, mst_raw_signature = cm_signature m,
              mst_signature = signature,
              mst_annotations = cm_runtime_visible_annotations m @ cm_runtime_invisible_annotations m\<rparr>)
             (parse_optional parse_method_signature (cm_signature m)))"

text \<open>\<^verbatim>\<open>iter().map(..).collect::<Result<Vec<_>>>()\<close>: up to the first error.\<close>

primrec collect_results :: "('a \<Rightarrow> ('e, 'b) result option) \<Rightarrow> 'a list \<Rightarrow> ('e, 'b list) result option" where
  "collect_results f [] = Some (Ok [])"
| "collect_results f (x # xs) =
     Option.bind (f x) (\<lambda>r. case r of
         Inl e \<Rightarrow> Some (Err e)
       | Inr y \<Rightarrow> map_option (\<lambda>rs. res_bind rs (\<lambda>ys. Ok (y # ys))) (collect_results f xs))"

definition from_classfile :: "class_file \<Rightarrow> (cf_error, class_stub) result option" where
  "from_classfile c =
     Option.bind (parse_optional parse_class_signature (cf_signature c)) (\<lambda>signature.
     Option.bind (collect_results field_stub_of (cf_fields c)) (\<lambda>rf. case rf of
         Inl e \<Rightarrow> Some (Err e)
       | Inr flds \<Rightarrow>
     Option.bind (collect_results method_stub_of (cf_methods c)) (\<lambda>rm. case rm of
         Inl e \<Rightarrow> Some (Err e)
       | Inr mthds \<Rightarrow> Some (Ok
           \<lparr>cst_internal_name = cf_this_class c, cst_access_flags = cf_access_flags c,
            cst_super_class = cf_super_class c, cst_interfaces = cf_interfaces c,
            cst_raw_signature = cf_signature c, cst_signature = signature,
            cst_annotations = cf_runtime_visible_annotations c @ cf_runtime_invisible_annotations c,
            cst_inner_classes = cf_inner_classes c, cst_fields = flds, cst_methods = mthds\<rparr>))))"


section \<open>Layouts\<close>

definition table_layout :: "('a \<Rightarrow> byte list \<Rightarrow> bool) \<Rightarrow> 'a list \<Rightarrow> byte list \<Rightarrow> bool" where
  "table_layout G xs w \<longleftrightarrow>
     (\<exists>ws. length xs < 65536 \<and> list_all2 G xs ws \<and> w = be_bytes 2 (length xs) @ concat ws)"

definition u2_layout :: "nat \<Rightarrow> byte list \<Rightarrow> bool" where
  "u2_layout n w \<longleftrightarrow> n < 65536 \<and> w = be_bytes 2 n"

text \<open>An index that resolves to a value, and one that may be zero for no value.\<close>

definition ref_layout :: "(nat \<Rightarrow> (cf_error, 'a) result) \<Rightarrow> 'a \<Rightarrow> byte list \<Rightarrow> bool" where
  "ref_layout g x w \<longleftrightarrow> (\<exists>i < 65536. g i = Ok x \<and> w = be_bytes 2 i)"

definition opt_ref_layout :: "(nat \<Rightarrow> (cf_error, 'a) result) \<Rightarrow> 'a option \<Rightarrow> byte list \<Rightarrow> bool" where
  "opt_ref_layout g x w \<longleftrightarrow>
     (case x of None \<Rightarrow> w = be_bytes 2 0 | Some s \<Rightarrow> \<exists>i < 65536. 0 < i \<and> g i = Ok s \<and> w = be_bytes 2 i)"

definition inner_class_layout :: "constant_pool \<Rightarrow> inner_class_info \<Rightarrow> byte list \<Rightarrow> bool" where
  "inner_class_layout cp ic w \<longleftrightarrow>
     (\<exists>a b c d. ref_layout (get_class_name cp) (ic_inner_class ic) a \<and>
        opt_ref_layout (get_class_name cp) (ic_outer_class ic) b \<and>
        opt_ref_layout (get_utf8 cp) (ic_inner_name ic) c \<and>
        u2_layout (ic_access_flags ic) d \<and> w = a @ b @ c @ d)"

text \<open>What an attribute says (JVMS 4.7.6, 4.7.9, 4.7.16, 4.7.17); the others are skipped.\<close>

datatype attribute =
    ASignature rstr
  | AVisible "annotation list"
  | AInvisible "annotation list"
  | AInnerClasses "inner_class_info list"
  | ASkipped

definition attribute_content ::
  "constant_pool \<Rightarrow> attribute_target \<Rightarrow> rstr \<Rightarrow> attribute \<Rightarrow> byte list \<Rightarrow> bool" where
  "attribute_content cp target name a info \<longleftrightarrow>
     (case a of
        ASignature s \<Rightarrow> name = rs ''Signature'' \<and> ref_layout (get_utf8 cp) s info
      | AVisible anns \<Rightarrow> name = rs ''RuntimeVisibleAnnotations'' \<and> table_layout (an_layout cp) anns info
      | AInvisible anns \<Rightarrow> name = rs ''RuntimeInvisibleAnnotations'' \<and> table_layout (an_layout cp) anns info
      | AInnerClasses ics \<Rightarrow> name = rs ''InnerClasses'' \<and> target = TargetClass \<and>
          table_layout (inner_class_layout cp) ics info
      | ASkipped \<Rightarrow> name \<notin> {rs ''Signature'', rs ''RuntimeVisibleAnnotations'', rs ''RuntimeInvisibleAnnotations''} \<and>
          (name = rs ''InnerClasses'' \<longrightarrow> target = TargetMember))"

definition attribute_layout :: "constant_pool \<Rightarrow> attribute_target \<Rightarrow> attribute \<Rightarrow> byte list \<Rightarrow> bool" where
  "attribute_layout cp target a w \<longleftrightarrow>
     (\<exists>i name info. i < 65536 \<and> get_utf8 cp i = Ok name \<and> length info < 2 ^ 32 \<and>
        attribute_content cp target name a info \<and>
        w = be_bytes 2 i @ be_bytes 4 (length info) @ info)"

text \<open>What a list of attributes says: the last signature and all annotations and inner classes in order.\<close>

definition last_signature :: "attribute list \<Rightarrow> rstr option" where
  "last_signature as =
     (case [s. ASignature s \<leftarrow> rev as] of [] \<Rightarrow> None | s # _ \<Rightarrow> Some s)"

definition attributes_say :: "attribute list \<Rightarrow> parsed_attributes" where
  "attributes_say as =
     \<lparr>pa_signature = last_signature as,
      pa_runtime_visible_annotations = concat [anns. AVisible anns \<leftarrow> as],
      pa_runtime_invisible_annotations = concat [anns. AInvisible anns \<leftarrow> as],
      pa_inner_classes = concat [ics. AInnerClasses ics \<leftarrow> as]\<rparr>"

definition attributes_layout ::
  "constant_pool \<Rightarrow> attribute_target \<Rightarrow> parsed_attributes \<Rightarrow> byte list \<Rightarrow> bool" where
  "attributes_layout cp target parsed w \<longleftrightarrow>
     (\<exists>as. parsed = attributes_say as \<and> table_layout (attribute_layout cp target) as w)"

text \<open>The part of the attributes that a member keeps.\<close>

definition member_layout :: "constant_pool \<Rightarrow> class_member \<Rightarrow> byte list \<Rightarrow> bool" where
  "member_layout cp m w \<longleftrightarrow>
     (\<exists>a b c d attrs. u2_layout (cm_access_flags m) a \<and> utf8_ref cp (cm_name m) b \<and>
        utf8_ref cp (cm_descriptor m) c \<and> attributes_layout cp TargetMember attrs d \<and>
        cm_signature m = pa_signature attrs \<and>
        cm_runtime_visible_annotations m = pa_runtime_visible_annotations attrs \<and>
        cm_runtime_invisible_annotations m = pa_runtime_invisible_annotations attrs \<and>
        w = a @ b @ c @ d)"

definition body_layout :: "constant_pool \<Rightarrow> class_file \<Rightarrow> byte list \<Rightarrow> bool" where
  "body_layout cp c w \<longleftrightarrow>
     (\<exists>flags this super ifs fs ms rest.
        u2_layout (cf_access_flags c) flags \<and>
        ref_layout (get_class_name cp) (cf_this_class c) this \<and>
        opt_ref_layout (get_class_name cp) (cf_super_class c) super \<and>
        table_layout (ref_layout (get_class_name cp)) (cf_interfaces c) ifs \<and>
        table_layout (member_layout cp) (cf_fields c) fs \<and>
        table_layout (member_layout cp) (cf_methods c) ms \<and>
        attributes_layout cp TargetClass
          \<lparr>pa_signature = cf_signature c,
           pa_runtime_visible_annotations = cf_runtime_visible_annotations c,
           pa_runtime_invisible_annotations = cf_runtime_invisible_annotations c,
           pa_inner_classes = cf_inner_classes c\<rparr> rest \<and>
        w = flags @ this @ super @ ifs @ fs @ ms @ rest)"

text \<open>A class file (JVMS 4.1).\<close>

definition class_layout :: "class_file \<Rightarrow> byte list \<Rightarrow> bool" where
  "class_layout c w \<longleftrightarrow>
     (\<exists>minor major cp pool body.
        u2_layout (cf_minor_version c) minor \<and> u2_layout (cf_major_version c) major \<and>
        pool_layout cp pool \<and> body_layout cp c body \<and>
        w = be_bytes 4 0xCAFEBABE @ minor @ major @ pool @ body)"

section \<open>The parsers read exactly the layouts\<close>

lemma exact_table:
  assumes "exact rd_at p G"
  shows "exact rd_at (read_table p) (table_layout G)"
  unfolding read_table_def
  by (rule exact_cong [OF exact_bind [OF exact_read_u2 exact_repeat [OF assms]]])
    (auto simp: table_layout_def)

lemma exact_u2: "exact rd_at read_u2 u2_layout"
  by (rule exact_cong [OF exact_read_u2]) (simp add: u2_layout_def)

lemma exact_ref: "exact rd_at (read_ref g) (ref_layout g)"
  by (rule exact_cong [OF exact_read_ref]) (simp add: ref_layout_def)

lemma optional_ref_iff: "optional_ref g i = Ok x \<longleftrightarrow> (if i = 0 then x = None else \<exists>s. g i = Ok s \<and> x = Some s)"
  by (cases "g i") (auto simp: optional_ref_def)

lemma exact_opt_ref: "exact rd_at (read_ref (optional_ref g)) (opt_ref_layout g)"
  by (rule exact_cong [OF exact_read_ref])
    (auto simp: opt_ref_layout_def optional_ref_iff split: option.splits if_splits)


lemma exact_inner_class: "exact rd_at (read_inner_class cp) (inner_class_layout cp)"
proof -
  let ?info = "\<lambda>a b c d. \<lparr>ic_inner_class = a, ic_outer_class = b, ic_inner_name = c, ic_access_flags = d\<rparr>"
  have resolve: "exact rd_at (pbind (plift (get_class_name cp i)) (\<lambda>a.
      pbind (plift (optional_ref (get_class_name cp) j)) (\<lambda>b.
      pbind (plift (optional_ref (get_utf8 cp) k)) (\<lambda>c. preturn (?info a b c d)))))
      (\<lambda>ic w. w = [] \<and> get_class_name cp i = Ok (ic_inner_class ic) \<and>
         optional_ref (get_class_name cp) j = Ok (ic_outer_class ic) \<and>
         optional_ref (get_utf8 cp) k = Ok (ic_inner_name ic) \<and> ic_access_flags ic = d)" for i j k d
    by (rule exact_cong [OF exact_bind [OF exact_lift exact_bind [OF exact_lift exact_bind [OF exact_lift exact_return]]]])
      auto
  have layout: "inner_class_layout cp ic w \<longleftrightarrow> (\<exists>i j k d.
      (i < 65536 \<and> j < 65536 \<and> k < 65536 \<and> d < 65536) \<and>
      w = be_bytes 2 i @ be_bytes 2 j @ be_bytes 2 k @ be_bytes 2 d \<and>
      get_class_name cp i = Ok (ic_inner_class ic) \<and>
      optional_ref (get_class_name cp) j = Ok (ic_outer_class ic) \<and>
      optional_ref (get_utf8 cp) k = Ok (ic_inner_name ic) \<and> ic_access_flags ic = d)" for ic w
  proof -
    have opt: "opt_ref_layout g x u \<longleftrightarrow> (\<exists>i < 65536. optional_ref g i = Ok x \<and> u = be_bytes 2 i)"
      for g and x :: "rstr option" and u
      by (auto simp: opt_ref_layout_def optional_ref_iff split: option.splits if_splits)
    show ?thesis unfolding inner_class_layout_def opt ref_layout_def u2_layout_def by blast
  qed
  show ?thesis
    unfolding read_inner_class_def
    by (rule exact_cong [OF exact_bind [OF exact_read_u2 exact_bind [OF exact_read_u2
          exact_bind [OF exact_read_u2 exact_bind [OF exact_read_u2 resolve]]]]])
      (simp add: layout, blast)
qed

text \<open>
  An arm of the match computes the attribute's content; the update of the attributes parsed so far
  depends on the content only.
\<close>

definition read_content :: "constant_pool \<Rightarrow> attribute_target \<Rightarrow> rstr \<Rightarrow> byte list \<Rightarrow> attribute rd" where
  "read_content cp target name info =
     (if name = rs ''Signature'' then
        pbind (sub_reader info (whole (read_ref (get_utf8 cp)))) (\<lambda>s. preturn (ASignature s))
      else if name = rs ''RuntimeVisibleAnnotations'' then
        pbind (sub_reader info (whole (read_table (annotation_parse cp)))) (\<lambda>anns. preturn (AVisible anns))
      else if name = rs ''RuntimeInvisibleAnnotations'' then
        pbind (sub_reader info (whole (read_table (annotation_parse cp)))) (\<lambda>anns. preturn (AInvisible anns))
      else if name = rs ''InnerClasses'' \<and> target = TargetClass then
        pbind (sub_reader info (whole (read_table (read_inner_class cp)))) (\<lambda>ics. preturn (AInnerClasses ics))
      else preturn ASkipped)"

fun add_attribute :: "attribute \<Rightarrow> parsed_attributes \<Rightarrow> parsed_attributes" where
  "add_attribute (ASignature s) p = p\<lparr>pa_signature := Some s\<rparr>"
| "add_attribute (AVisible anns) p =
     p\<lparr>pa_runtime_visible_annotations := pa_runtime_visible_annotations p @ anns\<rparr>"
| "add_attribute (AInvisible anns) p =
     p\<lparr>pa_runtime_invisible_annotations := pa_runtime_invisible_annotations p @ anns\<rparr>"
| "add_attribute (AInnerClasses ics) p = p\<lparr>pa_inner_classes := pa_inner_classes p @ ics\<rparr>"
| "add_attribute ASkipped p = p"

lemma apply_attribute_content:
  "apply_attribute cp target name info parsed =
     pbind (read_content cp target name info) (\<lambda>a. preturn (add_attribute a parsed))"
  by (simp only: apply_attribute_def read_content_def read_ref_def if_distrib [of "\<lambda>m. pbind m _"] pbind_assoc
      pbind_simps add_attribute.simps)

lemma attribute_names:
  "rs ''RuntimeVisibleAnnotations'' \<noteq> rs ''Signature''"
  "rs ''RuntimeInvisibleAnnotations'' \<noteq> rs ''Signature''"
  "rs ''RuntimeInvisibleAnnotations'' \<noteq> rs ''RuntimeVisibleAnnotations''"
  "rs ''InnerClasses'' \<noteq> rs ''Signature''"
  "rs ''InnerClasses'' \<noteq> rs ''RuntimeVisibleAnnotations''"
  "rs ''InnerClasses'' \<noteq> rs ''RuntimeInvisibleAnnotations''"
  by (simp_all add: rs_def)

declare attribute_names [simp] attribute_names [symmetric, simp]

lemma target_cases: "target \<noteq> TargetClass \<longleftrightarrow> target = TargetMember"
  by (cases target) simp_all

lemma exact_content:
  "exact rd_at (read_content cp target name info)
     (\<lambda>a w. w = [] \<and> attribute_content cp target name a info)"
proof -
  note sub = exact_map [OF exact_sub_reader]
  consider "name = rs ''Signature''" | "name = rs ''RuntimeVisibleAnnotations''"
    | "name = rs ''RuntimeInvisibleAnnotations''" | "name = rs ''InnerClasses''" "target = TargetClass"
    | "name \<notin> {rs ''Signature'', rs ''RuntimeVisibleAnnotations'', rs ''RuntimeInvisibleAnnotations''}"
      "name = rs ''InnerClasses'' \<longrightarrow> target = TargetMember"
    using target_cases by blast
  then show ?thesis
  proof cases
    case 1
    then show ?thesis
      by (simp add: read_content_def) (rule sub [OF exact_ref], auto simp: attribute_content_def split: attribute.splits)
  next
    case 2
    then show ?thesis
      by (simp add: read_content_def)
        (rule sub [OF exact_table [OF exact_annotation]], auto simp: attribute_content_def split: attribute.splits)
  next
    case 3
    then show ?thesis
      by (simp add: read_content_def)
        (rule sub [OF exact_table [OF exact_annotation]], auto simp: attribute_content_def split: attribute.splits)
  next
    case 4
    then show ?thesis
      by (simp add: read_content_def)
        (rule sub [OF exact_table [OF exact_inner_class]], auto simp: attribute_content_def split: attribute.splits)
  next
    case 5
    then have "read_content cp target name info = preturn ASkipped"
      by (auto simp: read_content_def)
    moreover from 5 have "attribute_content cp target name a info \<longleftrightarrow> a = ASkipped" for a
      by (auto simp: attribute_content_def split: attribute.splits)
    ultimately show ?thesis by (auto intro: exact_cong [OF exact_return])
  qed
qed

definition read_attribute :: "constant_pool \<Rightarrow> attribute_target \<Rightarrow> attribute rd" where
  "read_attribute cp target =
     pbind read_u2 (\<lambda>name_index. pbind read_u4 (\<lambda>length. pbind (read_bytes length) (\<lambda>info.
       pbind (plift (get_utf8 cp name_index)) (\<lambda>name. read_content cp target name info))))"

lemma exact_attribute: "exact rd_at (read_attribute cp target) (attribute_layout cp target)"
  unfolding read_attribute_def
  by (rule exact_cong [OF exact_bind [OF exact_read_u2 exact_bind [OF exact_read_u4
        exact_bind [OF exact_read_bytes exact_bind [OF exact_lift exact_content]]]]])
    (auto simp: attribute_layout_def; blast)

lemma attributes_loop_repeat:
  "attributes_loop cp target n parsed =
     pbind (prepeat n (read_attribute cp target)) (\<lambda>as. preturn (fold add_attribute as parsed))"
proof (induction n arbitrary: parsed)
  case (Suc n)
  then show ?case by (simp add: read_attribute_def apply_attribute_content pbind_assoc pbind_simps)
qed (simp add: fun_eq_iff)

lemma attributes_say_snoc: "attributes_say (as @ [a]) = add_attribute a (attributes_say as)"
  by (cases a) (simp_all add: attributes_say_def last_signature_def)

lemma fold_add_attribute: "fold add_attribute as parsed_attributes_default = attributes_say as"
proof (induction as rule: rev_induct)
  case Nil
  show ?case by (simp add: attributes_say_def last_signature_def parsed_attributes_default_def)
qed (simp add: attributes_say_snoc)

lemma exact_attributes: "exact rd_at (parse_attributes cp target) (attributes_layout cp target)"
proof -
  have "parse_attributes cp target =
      pbind (read_table (read_attribute cp target)) (\<lambda>as. preturn (attributes_say as))"
    by (simp add: parse_attributes_def attributes_loop_repeat read_table_def pbind_assoc fold_add_attribute)
  then show ?thesis
    by (simp add: exact_map [OF exact_table [OF exact_attribute]] attributes_layout_def conj_commute)
qed

lemma exact_member: "exact rd_at (parse_member cp) (member_layout cp)"
  unfolding parse_member_def fold_read_ref
proof (rule exact_cong [OF exact_bind [OF exact_u2 exact_bind [OF exact_utf8_ref exact_bind [OF exact_utf8_ref
      exact_map [OF exact_attributes]]]]], rule refl)
  let ?m = "\<lambda>flags name desc attrs. \<lparr>cm_access_flags = flags, cm_name = name, cm_descriptor = desc,
    cm_signature = pa_signature attrs, cm_runtime_visible_annotations = pa_runtime_visible_annotations attrs,
    cm_runtime_invisible_annotations = pa_runtime_invisible_annotations attrs\<rparr>"
  show "(\<exists>flags u v. w = u @ v \<and> u2_layout flags u \<and> (\<exists>name u' v'. v = u' @ v' \<and> utf8_ref cp name u' \<and>
      (\<exists>desc u'' v''. v' = u'' @ v'' \<and> utf8_ref cp desc u'' \<and>
        (\<exists>attrs. attributes_layout cp TargetMember attrs v'' \<and> m = ?m flags name desc attrs)))) \<longleftrightarrow>
      member_layout cp m w" for m w
    by (cases m) (simp add: member_layout_def, blast)
qed

lemma parsed_attributes_eta:
  "\<lparr>pa_signature = pa_signature a, pa_runtime_visible_annotations = pa_runtime_visible_annotations a,
    pa_runtime_invisible_annotations = pa_runtime_invisible_annotations a,
    pa_inner_classes = pa_inner_classes a\<rparr> = a"
  by simp

lemma exact_body:
  "exact rd_at (class_body cp minor major)
     (\<lambda>c w. cf_minor_version c = minor \<and> cf_major_version c = major \<and> body_layout cp c w)"
  unfolding class_body_def fold_read_ref read_ref_def [symmetric]
proof (rule exact_cong [OF exact_bind [OF exact_u2 exact_bind [OF exact_ref exact_bind [OF exact_opt_ref
      exact_bind [OF exact_table [OF exact_ref] exact_bind [OF exact_table [OF exact_member]
      exact_bind [OF exact_table [OF exact_member] exact_map [OF exact_attributes]]]]]]]], rule refl)
  fix c w
  show "(\<exists>flags u v. w = u @ v \<and> u2_layout flags u \<and>
      (\<exists>this u v'. v = u @ v' \<and> ref_layout (get_class_name cp) this u \<and>
      (\<exists>super u v. v' = u @ v \<and> opt_ref_layout (get_class_name cp) super u \<and>
      (\<exists>ifs u v'. v = u @ v' \<and> table_layout (ref_layout (get_class_name cp)) ifs u \<and>
      (\<exists>fs u v. v' = u @ v \<and> table_layout (member_layout cp) fs u \<and>
      (\<exists>ms u v'. v = u @ v' \<and> table_layout (member_layout cp) ms u \<and>
      (\<exists>attrs. attributes_layout cp TargetClass attrs v' \<and>
         c = \<lparr>cf_minor_version = minor, cf_major_version = major,
              cf_access_flags = flags, cf_this_class = this, cf_super_class = super,
              cf_interfaces = ifs, cf_fields = fs, cf_methods = ms,
              cf_signature = pa_signature attrs,
              cf_runtime_visible_annotations = pa_runtime_visible_annotations attrs,
              cf_runtime_invisible_annotations = pa_runtime_invisible_annotations attrs,
              cf_inner_classes = pa_inner_classes attrs\<rparr>))))))) \<longleftrightarrow>
    cf_minor_version c = minor \<and> cf_major_version c = major \<and> body_layout cp c w"
    (is "?l \<longleftrightarrow> ?r")
  proof
    assume ?l
    then show ?r unfolding body_layout_def by (elim exE conjE, intro conjI exI) (simp_all add: parsed_attributes_eta)
  next
    assume r: ?r
    then obtain flags this super ifs fs ms rest where
      "u2_layout (cf_access_flags c) flags" "ref_layout (get_class_name cp) (cf_this_class c) this"
      "opt_ref_layout (get_class_name cp) (cf_super_class c) super"
      "table_layout (ref_layout (get_class_name cp)) (cf_interfaces c) ifs"
      "table_layout (member_layout cp) (cf_fields c) fs" "table_layout (member_layout cp) (cf_methods c) ms"
      "attributes_layout cp TargetClass
          \<lparr>pa_signature = cf_signature c,
           pa_runtime_visible_annotations = cf_runtime_visible_annotations c,
           pa_runtime_invisible_annotations = cf_runtime_invisible_annotations c,
           pa_inner_classes = cf_inner_classes c\<rparr> rest"
      "w = flags @ this @ super @ ifs @ fs @ ms @ rest"
      unfolding body_layout_def by blast
    with r show ?l
      by - (intro exI conjI, (assumption | rule refl)+, rule class_file.equality, simp_all)
  qed
qed


lemma exact_magic: "exact rd_at check_magic (\<lambda>_ w. w = be_bytes 4 0xCAFEBABE)"
proof -
  have "exact rd_at (if magic \<noteq> 0xCAFEBABE then pfail (InvalidMagic magic) else preturn ())
      (\<lambda>_ w. magic = 0xCAFEBABE \<and> w = [])" for magic
    by (auto intro: exact_cong [OF exact_fail] exact_cong [OF exact_return])
  from exact_bind [OF exact_read_u4 this] show ?thesis
    unfolding check_magic_def by (rule exact_cong) auto
qed

lemma exact_class_parser: "exact rd_at class_parser class_layout"
  unfolding class_parser_def
proof (rule exact_cong [OF exact_bind [OF exact_magic exact_bind [OF exact_u2 exact_bind [OF exact_u2
      exact_bind [OF exact_constant_pool exact_body]]]]])
  fix c w
  show "(\<exists>x u v. w = u @ v \<and> u = be_bytes 4 0xCAFEBABE \<and> (\<exists>minor u v'. v = u @ v' \<and> u2_layout minor u \<and>
      (\<exists>major u v. v' = u @ v \<and> u2_layout major u \<and> (\<exists>cp u v'. v = u @ v' \<and> pool_layout cp u \<and>
        cf_minor_version c = minor \<and> cf_major_version c = major \<and> body_layout cp c v')))) \<longleftrightarrow> class_layout c w"
    (is "?l \<longleftrightarrow> ?r")
  proof
    assume ?l
    then show ?r unfolding class_layout_def by (elim exE conjE, intro conjI exI) simp_all
  next
    assume ?r
    then show ?l
      unfolding class_layout_def
      by (elim exE conjE) (intro exI conjI, (assumption | rule refl)+)
  qed
qed

text \<open>A parser that must use up its input accepts exactly the inputs of its layout.\<close>

lemma run_reader_whole:
  assumes "exact rd_at p G"
  shows "(\<exists>r. run_reader (whole p) bytes = Some r) \<and> (run_reader (whole p) bytes = Some (Ok x) \<longleftrightarrow> G x bytes)"
  using whole_at [OF assms, of bytes]
proof
  assume "\<exists>e. whole p (rd_at [] bytes) = Some (Err e) \<and> (\<forall>x. \<not> G x bytes)"
  then show ?thesis by (elim exE conjE) (simp add: run_reader_def reader_new_at)
next
  assume "\<exists>y. whole p (rd_at [] bytes) = Some (Ok (y, rd_at bytes [])) \<and> (\<forall>z. G z bytes \<longleftrightarrow> z = y)"
  then show ?thesis by (elim exE conjE) (simp add: run_reader_def reader_new_at eq_commute [of _ x])
qed

text \<open>
  Property C30. A byte string is accepted as a class file exactly when it is laid out as one (magic,
  versions, constant pool, names, interfaces, members and attributes, each table with its count, no
  byte left over), the result is what the layout says, and parsing returns on every input.
\<close>

theorem class_file_exact:
  "(\<exists>r. class_file_parse bytes = Some r) \<and>
   (class_file_parse bytes = Some (Ok c) \<longleftrightarrow> class_layout c bytes)"
  unfolding class_file_parse_def by (rule run_reader_whole [OF exact_class_parser])

text \<open>No layout is a proper prefix of another one, since a parser reads the same bytes the same way.\<close>

lemma exact_prefix_free:
  assumes "exact rd_at p G" "G x u" "G y (u @ v)"
  shows "v = [] \<and> x = y"
  using exact_decodes [OF assms(1,2), of v] exact_decodes [OF assms(1,3), of "[]"]
  by (auto simp: decodes_def rd_at_def)


text \<open>The smallest class: two constants, no members, no attributes.\<close>

definition small_class :: class_file where
  "small_class = \<lparr>cf_minor_version = 0, cf_major_version = 52, cf_access_flags = 33, cf_this_class = [65],
     cf_super_class = None, cf_interfaces = [], cf_fields = [], cf_methods = [], cf_signature = None,
     cf_runtime_visible_annotations = [], cf_runtime_invisible_annotations = [], cf_inner_classes = []\<rparr>"

definition small_start :: "byte list" where
  "small_start = be_bytes 4 0xCAFEBABE @ be_bytes 2 0 @ be_bytes 2 52 @
     (be_bytes 2 3 @ (1 # be_bytes 2 1 @ [65]) @ (7 # be_bytes 2 1)) @
     be_bytes 2 33 @ be_bytes 2 2 @ be_bytes 2 0 @ be_bytes 2 0 @ be_bytes 2 0 @ be_bytes 2 0"

lemma table_layout_Nil: "table_layout G [] (be_bytes 2 0)"
  by (simp add: table_layout_def)

lemma small_class_layout: "class_layout small_class (small_start @ be_bytes 2 0)"
proof -
  let ?cp = "[None, Some (CpUtf8 [65]), Some (CpClass 1)]"
  have pool: "pool_layout ?cp (be_bytes 2 3 @ (1 # be_bytes 2 1 @ [65]) @ (7 # be_bytes 2 1))"
    unfolding pool_layout_def
  proof (intro exI conjI)
    show "?cp = pool_table [CpUtf8 [65], CpClass 1]" by (simp add: pool_table_def slots_def)
    have "decode_modified_utf8 [65] = Ok [65]" by (simp add: decode_modified_utf8_def)
    then show "list_all2 entry_layout [CpUtf8 [65], CpClass 1] [1 # be_bytes 2 1 @ [65], 7 # be_bytes 2 1]"
      by (auto intro!: exI [of _ "[65]"])
  qed (simp_all add: numeral_3_eq_3)
  have "get_class_name ?cp 2 = Ok [65]" by (simp add: get_class_name_def cp_get_def get_utf8_def)
  then have ref: "ref_layout (get_class_name ?cp) [65] (be_bytes 2 2)" by (auto simp: ref_layout_def intro!: exI [of _ 2])
  have attrs: "attributes_layout ?cp TargetClass \<lparr>pa_signature = None, pa_runtime_visible_annotations = [],
      pa_runtime_invisible_annotations = [], pa_inner_classes = []\<rparr> (be_bytes 2 0)"
    unfolding attributes_layout_def
    by (rule exI [of _ "[]"]) (simp add: table_layout_Nil attributes_say_def last_signature_def)
  have u2: "u2_layout n (be_bytes 2 n)" if "n < 65536" for n using that by (simp add: u2_layout_def)
  have "opt_ref_layout (get_class_name ?cp) None (be_bytes 2 0)" by (simp add: opt_ref_layout_def)
  with ref attrs have "body_layout ?cp small_class
      (be_bytes 2 33 @ be_bytes 2 2 @ be_bytes 2 0 @ be_bytes 2 0 @ be_bytes 2 0 @ be_bytes 2 0 @ be_bytes 2 0)"
    unfolding body_layout_def small_class_def class_file.simps
    by (intro exI conjI) (assumption | rule refl | rule table_layout_Nil | rule u2, simp)+
  with pool u2 show ?thesis
    unfolding class_layout_def small_start_def
    by (intro exI [of _ "be_bytes 2 0"] exI [of _ "be_bytes 2 52"] exI [of _ ?cp]
        exI [of _ "be_bytes 2 3 @ (1 # be_bytes 2 1 @ [65]) @ (7 # be_bytes 2 1)"] exI conjI)
      (assumption | simp add: small_class_def)+
qed


section \<open>What a stub says\<close>

lemma collect_results_spec:
  assumes "\<And>x. \<exists>r. f x = Some r"
  shows "(\<exists>r. collect_results f xs = Some r) \<and>
    (collect_results f xs = Some (Ok ys) \<longleftrightarrow> list_all2 (\<lambda>x y. f x = Some (Ok y)) xs ys)"
proof (induction xs arbitrary: ys)
  case (Cons x xs)
  from assms obtain r where r: "f x = Some r" by blast
  from Cons obtain rs where rs: "collect_results f xs = Some rs" by blast
  show ?case
  proof (cases r)
    case (Inr y)
    have "list_all2 (\<lambda>x y. f x = Some (Ok y)) xs zs \<longleftrightarrow> rs = Ok zs" for zs using Cons [of zs] rs by simp
    with r rs Inr show ?thesis by (cases rs; cases ys) auto
  qed (use r in \<open>auto simp: list_all2_Cons1\<close>)
qed auto

text \<open>The signature of a stub: what the text denotes, or nothing where it denotes nothing.\<close>

definition denoted :: "('a \<Rightarrow> rstr \<Rightarrow> bool) \<Rightarrow> rstr option \<Rightarrow> 'a option \<Rightarrow> bool" where
  "denoted G sig x \<longleftrightarrow>
     (case x of
        Some y \<Rightarrow> \<exists>s. sig = Some s \<and> G y s
      | None \<Rightarrow> \<forall>s y. sig = Some s \<longrightarrow> \<not> G y s)"

lemma parse_optional_spec:
  assumes "\<And>s x. (\<exists>r. parse s = Some r) \<and> (parse s = Some (Ok x) \<longleftrightarrow> G x s)"
  shows "(\<exists>r. parse_optional parse sig = Some r) \<and> (parse_optional parse sig = Some x \<longleftrightarrow> denoted G sig x)"
proof (cases sig)
  case None
  then show ?thesis by (cases x) (auto simp: parse_optional_def denoted_def)
next
  case (Some s)
  from assms obtain r where r: "parse s = Some r" by blast
  with Some assms [of s] show ?thesis
    by (cases r; cases x) (auto simp: parse_optional_def denoted_def)
qed

definition field_stub_layout :: "class_member \<Rightarrow> field_stub \<Rightarrow> bool" where
  "field_stub_layout f s \<longleftrightarrow>
     field_ok (fs_parsed_descriptor s) \<and> cm_descriptor f = print_field (fs_parsed_descriptor s) \<and>
     denoted (\<lambda>t w. is_field_type t \<and> ts_text t w) (cm_signature f) (fs_signature s) \<and>
     fs_access_flags s = cm_access_flags f \<and> fs_name s = cm_name f \<and> fs_descriptor s = cm_descriptor f \<and>
     fs_raw_signature s = cm_signature f \<and>
     fs_annotations s = cm_runtime_visible_annotations f @ cm_runtime_invisible_annotations f"

definition method_stub_layout :: "class_member \<Rightarrow> method_stub \<Rightarrow> bool" where
  "method_stub_layout m s \<longleftrightarrow>
     method_ok (mst_parsed_descriptor s) \<and> cm_descriptor m = print_method (mst_parsed_descriptor s) \<and>
     denoted method_signature_text (cm_signature m) (mst_signature s) \<and>
     mst_access_flags s = cm_access_flags m \<and> mst_name s = cm_name m \<and> mst_descriptor s = cm_descriptor m \<and>
     mst_raw_signature s = cm_signature m \<and>
     mst_annotations s = cm_runtime_visible_annotations m @ cm_runtime_invisible_annotations m"

text \<open>Two steps of a stub: a parse whose error is passed on, then one whose error is dropped.\<close>

lemma stub_steps:
  assumes "\<exists>r. d = Some r" "\<exists>r. o' = Some r"
  shows "(\<exists>r. Option.bind d (\<lambda>r. case r of Inl e \<Rightarrow> Some (Inl e) | Inr x \<Rightarrow> map_option (\<lambda>y. Inr (mk x y)) o') = Some r) \<and>
    (Option.bind d (\<lambda>r. case r of Inl e \<Rightarrow> Some (Inl e) | Inr x \<Rightarrow> map_option (\<lambda>y. Inr (mk x y)) o') = Some (Inr s) \<longleftrightarrow>
      (\<exists>x y. d = Some (Inr x) \<and> o' = Some y \<and> s = mk x y))"
  using assms by (auto split: sum.splits)

lemmas optional_signatures =
  parse_optional_spec [where parse = parse_field_signature and G = "\<lambda>t w. is_field_type t \<and> ts_text t w",
    OF field_signature_parses]
  parse_optional_spec [where parse = parse_class_signature and G = class_signature_text, OF class_signature_parses]
  parse_optional_spec [where parse = parse_method_signature and G = method_signature_text, OF method_signature_parses]

lemma field_stub_spec:
  "(\<exists>r. field_stub_of f = Some r) \<and> (field_stub_of f = Some (Ok s) \<longleftrightarrow> field_stub_layout f s)"
proof -
  note d = field_descriptor_parses [of "cm_descriptor f"]
    and sig = optional_signatures(1) [where sig = "cm_signature f"]
  have "(\<exists>r. field_stub_of f = Some r) \<and> (field_stub_of f = Some (Ok s) \<longleftrightarrow>
      (\<exists>x y. parse_field_descriptor (cm_descriptor f) = Some (Ok x) \<and>
        parse_optional parse_field_signature (cm_signature f) = Some y \<and>
        s = \<lparr>fs_access_flags = cm_access_flags f, fs_name = cm_name f, fs_descriptor = cm_descriptor f,
             fs_parsed_descriptor = x, fs_raw_signature = cm_signature f, fs_signature = y,
             fs_annotations = cm_runtime_visible_annotations f @ cm_runtime_invisible_annotations f\<rparr>))"
    unfolding field_stub_of_def by (rule stub_steps) (use d sig in blast)+
  then show ?thesis by (cases s) (auto simp: d sig field_stub_layout_def)
qed

lemma method_stub_spec:
  "(\<exists>r. method_stub_of m = Some r) \<and> (method_stub_of m = Some (Ok s) \<longleftrightarrow> method_stub_layout m s)"
proof -
  note d = method_descriptor_parses [of "cm_descriptor m"]
    and sig = optional_signatures(3) [where sig = "cm_signature m"]
  have "(\<exists>r. method_stub_of m = Some r) \<and> (method_stub_of m = Some (Ok s) \<longleftrightarrow>
      (\<exists>x y. parse_method_descriptor (cm_descriptor m) = Some (Ok x) \<and>
        parse_optional parse_method_signature (cm_signature m) = Some y \<and>
        s = \<lparr>mst_access_flags = cm_access_flags m, mst_name = cm_name m, mst_descriptor = cm_descriptor m,
             mst_parsed_descriptor = x, mst_raw_signature = cm_signature m, mst_signature = y,
             mst_annotations = cm_runtime_visible_annotations m @ cm_runtime_invisible_annotations m\<rparr>))"
    unfolding method_stub_of_def by (rule stub_steps) (use d sig in blast)+
  then show ?thesis by (cases s) (auto simp: d sig method_stub_layout_def)
qed

text \<open>
  Property C32. A stub is made of a class file exactly when every field and method has a well-formed
  descriptor; its members are those of the class in order with the parsed descriptors, visible
  annotations before invisible ones, and a signature attribute that is no signature leaves the
  signature empty while its raw text is kept. Making a stub returns on every class file.
\<close>

theorem stub_exact:
  "(\<exists>r. from_classfile c = Some r) \<and>
   (from_classfile c = Some (Ok s) \<longleftrightarrow>
      list_all2 field_stub_layout (cf_fields c) (cst_fields s) \<and>
      list_all2 method_stub_layout (cf_methods c) (cst_methods s) \<and>
      denoted class_signature_text (cf_signature c) (cst_signature s) \<and>
      cst_internal_name s = cf_this_class c \<and> cst_access_flags s = cf_access_flags c \<and>
      cst_super_class s = cf_super_class c \<and> cst_interfaces s = cf_interfaces c \<and>
      cst_raw_signature s = cf_signature c \<and> cst_inner_classes s = cf_inner_classes c \<and>
      cst_annotations s = cf_runtime_visible_annotations c @ cf_runtime_invisible_annotations c)"
proof -
  note fld = collect_results_spec [of field_stub_of, unfolded field_stub_spec [THEN conjunct2],
      OF field_stub_spec [THEN conjunct1], of "cf_fields c"]
    and mth = collect_results_spec [of method_stub_of, unfolded method_stub_spec [THEN conjunct2],
      OF method_stub_spec [THEN conjunct1], of "cf_methods c"]
    and sig = optional_signatures(2) [where sig = "cf_signature c"]
  from fld obtain rf where rf: "collect_results field_stub_of (cf_fields c) = Some rf" by blast
  from mth obtain rm where rm: "collect_results method_stub_of (cf_methods c) = Some rm" by blast
  from sig obtain g where g: "parse_optional parse_class_signature (cf_signature c) = Some g" by blast
  have f: "list_all2 field_stub_layout (cf_fields c) (cst_fields s) \<longleftrightarrow> rf = Ok (cst_fields s)"
    and m: "list_all2 method_stub_layout (cf_methods c) (cst_methods s) \<longleftrightarrow> rm = Ok (cst_methods s)"
    and d: "denoted class_signature_text (cf_signature c) (cst_signature s) \<longleftrightarrow> g = cst_signature s"
    using fld mth sig rf rm g by simp_all
  show ?thesis
    unfolding f m d from_classfile_def rf rm g by (cases rf; cases rm; cases s) auto
qed

end
