(* ===== verification/Module_Graph.thy ===== *)
theory Module_Graph
  imports Rust_Str_Ops "HOL-Library.AList"
begin

text \<open>
  Java modules and the graph of a workspace (\<^verbatim>\<open>nova-modules/src/lib.rs\<close>). The
  \<^verbatim>\<open>HashMap\<close> of modules is an association list with one entry per name; the
  \<^verbatim>\<open>BTreeSet\<close> of a result is a set. The search for readable modules is shown to end
  and to compute the closure of the \<^verbatim>\<open>requires\<close> relation.
\<close>

section \<open>Modules\<close>

type_synonym mod_name = rstr

definition java_base :: mod_name where "java_base = rs ''java.base''"

definition unnamed_module :: mod_name where "unnamed_module = rs ''<unnamed>''"

definition is_java_base :: "mod_name \<Rightarrow> bool" where "is_java_base m \<longleftrightarrow> m = java_base"

definition is_unnamed :: "mod_name \<Rightarrow> bool" where "is_unnamed m \<longleftrightarrow> m = unnamed_module"

datatype module_kind = Explicit | Automatic | Unnamed

record requires =
  rq_module :: mod_name
  rq_is_transitive :: bool
  rq_is_static :: bool

record exports =
  ex_package :: rstr
  ex_to :: "mod_name list"

record opens =
  op_package :: rstr
  op_to :: "mod_name list"

type_synonym uses = rstr

record provides =
  pv_service :: rstr
  pv_implementations :: "rstr list"

record module_info =
  mi_kind :: module_kind
  mi_name :: mod_name
  mi_is_open :: bool
  mi_requires :: "requires list"
  mi_exports :: "exports list"
  mi_opens :: "opens list"
  mi_uses :: "uses list"
  mi_provides :: "provides list"

fun exports_package_to :: "module_info \<Rightarrow> rstr \<Rightarrow> mod_name \<Rightarrow> bool" where
  "exports_package_to mi package to =
     (case mi_kind mi of
        Automatic \<Rightarrow> True
      | Unnamed \<Rightarrow> True
      | Explicit \<Rightarrow>
          if mi_name mi = to then True
          else list_ex (\<lambda>e. ex_package e = package \<and> (ex_to e = [] \<or> list_ex (\<lambda>m. m = to) (ex_to e))) (mi_exports mi))"

section \<open>The graph\<close>

type_synonym module_graph = "(mod_name \<times> module_info) list"

definition graph_new :: module_graph where "graph_new = []"

definition graph_insert :: "module_info \<Rightarrow> module_graph \<Rightarrow> module_graph" where
  "graph_insert info g = AList.update (mi_name info) info g"

definition graph_get :: "module_graph \<Rightarrow> mod_name \<Rightarrow> module_info option" where
  "graph_get g name = map_of g name"

text \<open>\<^verbatim>\<open>add_all_named_modules\<close>: every entry but those of the unnamed kind.\<close>

definition add_all_named_modules :: "module_graph \<Rightarrow> mod_name set \<Rightarrow> mod_name set" where
  "add_all_named_modules g out =
     fold (\<lambda>(name, info) out. if mi_kind info \<noteq> Unnamed then insert name out else out) g out"

text \<open>The inner loop over the \<^verbatim>\<open>requires\<close> of a module: new ones are queued.\<close>

primrec follow_requires ::
  "bool \<Rightarrow> requires list \<Rightarrow> mod_name set \<Rightarrow> mod_name list \<Rightarrow> mod_name set \<times> mod_name list" where
  "follow_requires follow_all [] out queue = (out, queue)"
| "follow_requires follow_all (req # reqs) out queue =
     (if \<not> follow_all \<and> \<not> rq_is_transitive req then follow_requires follow_all reqs out queue
      else if rq_module req \<in> out then follow_requires follow_all reqs out queue
      else follow_requires follow_all reqs (insert (rq_module req) out) (queue @ [rq_module req]))"

text \<open>Modules that some entry requires: only these are ever queued.\<close>

definition required_names :: "module_graph \<Rightarrow> mod_name set" where
  "required_names g = (\<Union>(name, info) \<in> set g. rq_module ` set (mi_requires info))"

lemma finite_required_names: "finite (required_names g)"
  by (auto simp: required_names_def)

lemma follow_requires_measure:
  assumes "finite U" "rq_module ` set reqs \<subseteq> U" "follow_requires follow_all reqs out queue = (out', queue')"
  shows "card (U - out') + length queue' = card (U - out) + length queue"
  using assms(2,3)
proof (induction reqs arbitrary: out queue)
  case (Cons req reqs)
  have "card (U - out) = Suc (card (U - insert (rq_module req) out))" if "rq_module req \<notin> out"
  proof -
    from that Cons.prems(1) have "rq_module req \<in> U - out" by simp
    moreover have "U - insert (rq_module req) out = U - out - {rq_module req}" by blast
    ultimately show ?thesis using card_Suc_Diff1 [of "U - out" "rq_module req"] assms(1) by simp
  qed
  with Cons show ?case by (auto split: if_splits)
qed simp

lemma graph_get_required: "graph_get g m = Some info \<Longrightarrow> rq_module ` set (mi_requires info) \<subseteq> required_names g"
  by (auto simp: graph_get_def required_names_def dest!: map_of_SomeD)

text \<open>The outer loop, which ends because every step takes one module off the queue and only new ones are put on.\<close>

function readable_loop ::
  "module_graph \<Rightarrow> mod_name \<Rightarrow> mod_name set \<Rightarrow> mod_name list \<Rightarrow> mod_name set" where
  "readable_loop g frm out [] = out"
| "readable_loop g frm out (current # queue) =
     (case graph_get g current of
        None \<Rightarrow> readable_loop g frm out queue
      | Some info \<Rightarrow>
          if mi_kind info = Automatic then add_all_named_modules g out
          else (case follow_requires (current = frm) (mi_requires info) out queue of
                  (out', queue') \<Rightarrow> readable_loop g frm out' queue'))"
  by pat_completeness auto

termination
proof (relation "measure (\<lambda>(g, frm, out, queue). card (required_names g - out) + length queue)", goal_cases)
  case (3 g frm out current queue info out' queue')
  then have "follow_requires (current = frm) (mi_requires info) out queue = (out', queue')" by simp
  from follow_requires_measure [OF finite_required_names graph_get_required [OF 3(1)] this] show ?case by simp
qed simp_all

definition readable_modules :: "module_graph \<Rightarrow> mod_name \<Rightarrow> mod_name set" where
  "readable_modules g frm =
     (let out = insert java_base (insert frm {})
      in if is_unnamed frm then add_all_named_modules g out
         else if case graph_get g frm of None \<Rightarrow> False | Some info \<Rightarrow> mi_kind info \<in> {Unnamed, Automatic}
              then add_all_named_modules g out
         else readable_loop g frm out [frm])"

definition can_read :: "module_graph \<Rightarrow> mod_name \<Rightarrow> mod_name \<Rightarrow> bool" where
  "can_read g frm to = (if frm = to \<or> is_java_base to then True else to \<in> readable_modules g frm)"

declare java_base_def [nova_eval] unnamed_module_def [nova_eval] is_java_base_def [nova_eval] is_unnamed_def [nova_eval]
  graph_new_def [nova_eval] graph_insert_def [nova_eval] graph_get_def [nova_eval]
  add_all_named_modules_def [nova_eval] readable_modules_def [nova_eval] can_read_def [nova_eval]

section \<open>Readability\<close>

definition named_modules :: "module_graph \<Rightarrow> mod_name set" where
  "named_modules g = {name. \<exists>info. (name, info) \<in> set g \<and> mi_kind info \<noteq> Unnamed}"

lemma add_all_named: "add_all_named_modules g out = out \<union> named_modules g"
proof (induction g arbitrary: out)
  case (Cons e g)
  then show ?case
    by (cases e) (auto simp: add_all_named_modules_def named_modules_def)
qed (simp add: add_all_named_modules_def named_modules_def)

text \<open>
  What a module reaches: itself, all it requires, and what these require transitively;
  \<^verbatim>\<open>java.base\<close> is read by all and not followed.
\<close>

inductive reached :: "module_graph \<Rightarrow> mod_name \<Rightarrow> mod_name \<Rightarrow> bool" for g frm where
  self: "reached g frm frm"
| dep: "reached g frm m \<Longrightarrow> graph_get g m = Some info \<Longrightarrow> req \<in> set (mi_requires info) \<Longrightarrow>
    m = frm \<or> rq_is_transitive req \<Longrightarrow> rq_module req \<noteq> java_base \<Longrightarrow> reached g frm (rq_module req)"

definition is_automatic :: "module_graph \<Rightarrow> mod_name \<Rightarrow> bool" where
  "is_automatic g m \<longleftrightarrow> (\<exists>info. graph_get g m = Some info \<and> mi_kind info = Automatic)"

text \<open>The modules that read every named module.\<close>

definition reads_all :: "module_graph \<Rightarrow> mod_name \<Rightarrow> bool" where
  "reads_all g frm \<longleftrightarrow> frm = unnamed_module \<or>
     (\<exists>info. graph_get g frm = Some info \<and> mi_kind info = Unnamed) \<or>
     (\<exists>m. reached g frm m \<and> is_automatic g m)"

definition dependencies :: "module_graph \<Rightarrow> mod_name \<Rightarrow> mod_name \<Rightarrow> mod_name set" where
  "dependencies g frm m =
     {rq_module req | req info. graph_get g m = Some info \<and> req \<in> set (mi_requires info) \<and>
        (m = frm \<or> rq_is_transitive req)}"

lemma follow_requires_result:
  "follow_requires follow_all reqs out queue = (out', queue') \<Longrightarrow>
   out' = out \<union> {rq_module req | req. req \<in> set reqs \<and> (follow_all \<or> rq_is_transitive req)} \<and>
   set queue' = set queue \<union> (out' - out)"
proof (induction reqs arbitrary: out queue)
  case (Cons req reqs)
  show ?case
  proof (cases "follow_all \<or> rq_is_transitive req")
    case False
    with Cons.prems Cons.IH [of out queue] show ?thesis by auto
  next
    case True
    show ?thesis
    proof (cases "rq_module req \<in> out")
      case True
      with Cons.prems \<open>follow_all \<or> rq_is_transitive req\<close> Cons.IH [of out queue] show ?thesis by auto
    next
      case False
      with Cons.prems \<open>follow_all \<or> rq_is_transitive req\<close>
        Cons.IH [of "insert (rq_module req) out" "queue @ [rq_module req]"]
      show ?thesis by auto
    qed
  qed
qed auto

text \<open>
  The invariant of the search: only reached modules are read or waiting, and those read and not
  waiting are followed.
\<close>

definition search_inv :: "module_graph \<Rightarrow> mod_name \<Rightarrow> mod_name set \<Rightarrow> mod_name list \<Rightarrow> bool" where
  "search_inv g frm out queue \<longleftrightarrow>
     {frm, java_base} \<subseteq> out \<and> out \<subseteq> insert java_base (Collect (reached g frm)) \<and>
     set queue \<subseteq> Collect (reached g frm) \<inter> out \<and>
     (\<forall>m \<in> out - set queue. m \<noteq> java_base \<or> m = frm \<longrightarrow> \<not> is_automatic g m \<and> dependencies g frm m \<subseteq> out)"

lemma search_inv_closed:
  assumes "search_inv g frm out []" "reached g frm m"
  shows "m \<in> out \<and> \<not> is_automatic g m"
  using assms(2)
proof induction
  case self
  then show ?case using assms(1) by (auto simp: search_inv_def)
next
  case (dep m info req)
  have "m \<noteq> java_base \<or> m = frm"
    using dep.hyps(1) by (cases rule: reached.cases) auto
  with dep.IH assms(1) have "dependencies g frm m \<subseteq> out" unfolding search_inv_def by auto
  moreover have "rq_module req \<in> dependencies g frm m" using dep.hyps by (auto simp: dependencies_def)
  ultimately show ?case using assms(1) dep.hyps(5) unfolding search_inv_def by auto
qed

lemma readable_loop_spec:
  assumes "search_inv g frm out queue"
  shows "(let r = readable_loop g frm out queue
          in (if \<exists>m. reached g frm m \<and> is_automatic g m
              then insert java_base (insert frm (named_modules g)) \<subseteq> r \<and>
                r \<subseteq> insert java_base (Collect (reached g frm)) \<union> named_modules g
              else r = insert java_base (Collect (reached g frm))))"
  using assms
proof (induction g frm out queue rule: readable_loop.induct)
  case (1 g frm out)
  then have "\<not> (\<exists>m. reached g frm m \<and> is_automatic g m)" "Collect (reached g frm) \<subseteq> out"
    using search_inv_closed by blast+
  with 1 show ?case by (auto simp: search_inv_def)
next
  case (2 g frm out current queue)
  have inv: "reached g frm current" "current \<in> out" "{frm, java_base} \<subseteq> out"
    "out \<subseteq> insert java_base (Collect (reached g frm))" "set queue \<subseteq> Collect (reached g frm) \<inter> out"
    "\<And>m. m \<in> out \<Longrightarrow> m \<noteq> current \<Longrightarrow> m \<notin> set queue \<Longrightarrow> m \<noteq> java_base \<or> m = frm \<Longrightarrow>
      \<not> is_automatic g m \<and> dependencies g frm m \<subseteq> out"
    using 2(3) by (auto simp: search_inv_def)
  show ?case
  proof (cases "graph_get g current")
    case None
    then have "\<not> is_automatic g current" "dependencies g frm current = {}"
      by (auto simp: is_automatic_def dependencies_def)
    with inv have "search_inv g frm out queue"
      unfolding search_inv_def by blast
    with 2(1) [OF None] None show ?thesis by simp
  next
    case (Some info)
    show ?thesis
    proof (cases "mi_kind info = Automatic")
      case True
      with Some inv(1) have "\<exists>m. reached g frm m \<and> is_automatic g m" by (auto simp: is_automatic_def)
      moreover have "readable_loop g frm out (current # queue) = out \<union> named_modules g"
        using Some True by (simp add: add_all_named)
      ultimately show ?thesis using inv(3,4) by (auto simp: Let_def)
    next
      case False
      obtain out' queue' where f: "follow_requires (current = frm) (mi_requires info) out queue = (out', queue')"
        by fastforce
      have deps: "dependencies g frm current =
          {rq_module req | req. req \<in> set (mi_requires info) \<and> (current = frm \<or> rq_is_transitive req)}"
        using Some by (auto simp: dependencies_def)
      from follow_requires_result [OF f] deps have out': "out' = out \<union> dependencies g frm current"
        and queue': "set queue' = set queue \<union> (out' - out)" by auto
      have "dependencies g frm current \<subseteq> insert java_base (Collect (reached g frm))"
        using reached.dep [OF inv(1) Some] by (auto simp: deps)
      moreover have "\<not> is_automatic g current" using Some False by (simp add: is_automatic_def)
      ultimately have "search_inv g frm out' queue'"
        using inv unfolding search_inv_def out' queue' by blast
      with 2(2) [OF Some False] f Some False show ?thesis by simp
    qed
  qed
qed


lemma search_inv_start: "search_inv g frm {java_base, frm} [frm]"
  by (auto simp: search_inv_def reached.self)

lemma readable_modules_cases:
  "readable_modules g frm =
     (if frm = unnamed_module \<or> (\<exists>info. graph_get g frm = Some info \<and> mi_kind info \<noteq> Explicit)
      then {java_base, frm} \<union> named_modules g else readable_loop g frm {java_base, frm} [frm])"
proof (cases "graph_get g frm")
  case (Some info)
  then show ?thesis
    by (cases "mi_kind info") (simp_all add: readable_modules_def is_unnamed_def add_all_named Let_def)
qed (simp add: readable_modules_def is_unnamed_def add_all_named Let_def)


definition module_of :: "module_kind \<Rightarrow> string \<Rightarrow> requires list \<Rightarrow> module_info" where
  "module_of kind name reqs =
     \<lparr>mi_kind = kind, mi_name = rs name, mi_is_open = False, mi_requires = reqs, mi_exports = [],
      mi_opens = [], mi_uses = [], mi_provides = []\<rparr>"

definition require :: "string \<Rightarrow> bool \<Rightarrow> requires" where
  "require name transitive = \<lparr>rq_module = rs name, rq_is_transitive = transitive, rq_is_static = False\<rparr>"

declare module_of_def [nova_eval] require_def [nova_eval]

definition chain_graph :: module_graph where
  "chain_graph =
     graph_insert (module_of Explicit ''a'' [require ''b'' False])
    (graph_insert (module_of Explicit ''b'' [require ''c'' True])
    (graph_insert (module_of Explicit ''c'' []) graph_new))"

declare chain_graph_def [nova_eval]



text \<open>
  Outside the graph the answer depends on the order of the \<^verbatim>\<open>requires\<close>: the search
  stops at the first automatic module, so a name that a later dependency requires transitively and
  that has no entry is missed.
\<close>

definition order_graph :: "requires list \<Rightarrow> module_graph" where
  "order_graph reqs =
     graph_insert (module_of Explicit ''a'' reqs)
    (graph_insert (module_of Explicit ''b'' [require ''ghost'' True])
    (graph_insert (module_of Automatic ''auto'' []) graph_new))"

declare order_graph_def [nova_eval]

theorem readability_depends_on_requires_order:
  "can_read (order_graph [require ''b'' False, require ''auto'' False]) (rs ''a'') (rs ''ghost'') \<and>
   \<not> can_read (order_graph [require ''auto'' False, require ''b'' False]) (rs ''a'') (rs ''ghost'')"
  by (simp add: nova_eval)

end
