(* ===== verification/Module_Info.thy ===== *)
theory Module_Info
  imports Class_File Module_Graph
begin

text \<open>
  Reading a module descriptor from a class file (\<^verbatim>\<open>nova-classfile/src/module_info.rs\<close>):
  everything up to the \<^verbatim>\<open>Module\<close> attribute is skipped, the first such attribute is the
  result and the rest of the file is not looked at.
\<close>

unbundle bit_operations_syntax

section \<open>Names in the pool\<close>

definition get_module_name :: "constant_pool \<Rightarrow> nat \<Rightarrow> (cf_error, rstr) result" where
  "get_module_name cp index =
     res_bind (cp_get cp index) (\<lambda>e. case e of
         CpModule name_index \<Rightarrow> get_utf8 cp name_index
       | other \<Rightarrow> mismatch index ''Module'' other)"

definition get_package_name :: "constant_pool \<Rightarrow> nat \<Rightarrow> (cf_error, rstr) result" where
  "get_package_name cp index =
     res_bind (cp_get cp index) (\<lambda>e. case e of
         CpPackage name_index \<Rightarrow> get_utf8 cp name_index
       | other \<Rightarrow> mismatch index ''Package'' other)"

text \<open>A name with dots for slashes.\<close>

definition dotted :: "(nat \<Rightarrow> (cf_error, rstr) result) \<Rightarrow> nat \<Rightarrow> (cf_error, rstr) result" where
  "dotted g i = res_bind (g i) (\<lambda>s. Ok (replace_char (rc CHR ''/'') (rc CHR ''.'') s))"

section \<open>The attribute\<close>

definition acc_open :: nat where "acc_open = 0x0020"
definition acc_transitive :: nat where "acc_transitive = 0x0020"
definition acc_static_phase :: nat where "acc_static_phase = 0x0040"

definition read_requires :: "constant_pool \<Rightarrow> requires rd" where
  "read_requires cp =
     pbind read_u2 (\<lambda>requires_index.
     pbind read_u2 (\<lambda>requires_flags.
     pbind read_u2 (\<lambda>_.
     pbind (plift (get_module_name cp requires_index)) (\<lambda>name.
       preturn \<lparr>rq_module = name, rq_is_transitive = (requires_flags AND acc_transitive \<noteq> 0),
                rq_is_static = (requires_flags AND acc_static_phase \<noteq> 0)\<rparr>))))"

text \<open>The loops over exports and over opens have the same body.\<close>

definition read_package_to :: "constant_pool \<Rightarrow> (rstr \<times> mod_name list) rd" where
  "read_package_to cp =
     pbind read_u2 (\<lambda>index.
     pbind read_u2 (\<lambda>_.
     pbind read_u2 (\<lambda>to_count.
     pbind (plift (dotted (get_package_name cp) index)) (\<lambda>package.
     pbind (prepeat to_count (pbind read_u2 (\<lambda>i. plift (get_module_name cp i)))) (\<lambda>to.
       preturn (package, to))))))"

definition read_exports :: "constant_pool \<Rightarrow> exports rd" where
  "read_exports cp = pbind (read_package_to cp) (\<lambda>(package, to). preturn \<lparr>ex_package = package, ex_to = to\<rparr>)"

definition read_opens :: "constant_pool \<Rightarrow> opens rd" where
  "read_opens cp = pbind (read_package_to cp) (\<lambda>(package, to). preturn \<lparr>op_package = package, op_to = to\<rparr>)"

definition read_uses :: "constant_pool \<Rightarrow> uses rd" where
  "read_uses cp = pbind read_u2 (\<lambda>i. plift (dotted (get_class_name cp) i))"

definition read_provides :: "constant_pool \<Rightarrow> provides rd" where
  "read_provides cp =
     pbind read_u2 (\<lambda>service_index.
     pbind read_u2 (\<lambda>with_count.
     pbind (plift (dotted (get_class_name cp) service_index)) (\<lambda>service.
     pbind (prepeat with_count (pbind read_u2 (\<lambda>i. plift (dotted (get_class_name cp) i)))) (\<lambda>implementations.
       preturn \<lparr>pv_service = service, pv_implementations = implementations\<rparr>))))"

definition parse_module_attribute :: "constant_pool \<Rightarrow> module_info rd" where
  "parse_module_attribute cp =
     pbind read_u2 (\<lambda>module_name_index.
     pbind read_u2 (\<lambda>module_flags.
     pbind read_u2 (\<lambda>_.
     pbind (plift (get_module_name cp module_name_index)) (\<lambda>name.
     pbind (read_table (read_requires cp)) (\<lambda>requires.
     pbind (read_table (read_exports cp)) (\<lambda>exports.
     pbind (read_table (read_opens cp)) (\<lambda>opens.
     pbind (read_table (read_uses cp)) (\<lambda>uses.
     pbind (read_table (read_provides cp)) (\<lambda>provides.
       preturn \<lparr>mi_kind = Explicit, mi_name = name, mi_is_open = (module_flags AND acc_open \<noteq> 0),
                mi_requires = requires, mi_exports = exports, mi_opens = opens, mi_uses = uses,
                mi_provides = provides\<rparr>)))))))))"

section \<open>The file\<close>

definition skip_attribute :: "unit rd" where
  "skip_attribute = pbind read_u2 (\<lambda>_. pbind read_u4 (\<lambda>len. pbind (read_bytes len) (\<lambda>_. preturn ())))"

definition skip_attributes :: "unit rd" where
  "skip_attributes = pbind (read_table skip_attribute) (\<lambda>_. preturn ())"

definition skip_member :: "unit rd" where
  "skip_member = pbind read_u2 (\<lambda>_. pbind read_u2 (\<lambda>_. pbind read_u2 (\<lambda>_. skip_attributes)))"

text \<open>The loop over the attributes of the class, left at the first one with the name.\<close>

primrec module_attributes_loop :: "constant_pool \<Rightarrow> nat \<Rightarrow> module_info rd" where
  "module_attributes_loop cp 0 = pfail (OtherError ''missing Module attribute'')"
| "module_attributes_loop cp (Suc n) =
     pbind read_u2 (\<lambda>name_index.
     pbind read_u4 (\<lambda>length.
     pbind (read_bytes length) (\<lambda>info.
     pbind (plift (get_utf8 cp name_index)) (\<lambda>name.
       if name = rs ''Module'' then sub_reader info (whole (parse_module_attribute cp))
       else module_attributes_loop cp n))))"

definition module_info_parser :: "module_info rd" where
  "module_info_parser =
     pbind check_magic (\<lambda>_.
     pbind read_u2 (\<lambda>_.
     pbind read_u2 (\<lambda>_.
     pbind constant_pool_parse (\<lambda>cp.
     pbind read_u2 (\<lambda>_.
     pbind read_u2 (\<lambda>_.
     pbind read_u2 (\<lambda>_.
     pbind (read_table read_u2) (\<lambda>_.
     pbind (read_table skip_member) (\<lambda>_.
     pbind (read_table skip_member) (\<lambda>_.
     pbind read_u2 (module_attributes_loop cp)))))))))))"

definition parse_module_info_class :: "byte list \<Rightarrow> (cf_error, module_info) result option" where
  "parse_module_info_class = run_reader module_info_parser"

section \<open>Layouts\<close>

text \<open>JVMS 4.7.25. Version indices and the flags of exports and opens are not interpreted.\<close>

definition requires_layout :: "constant_pool \<Rightarrow> requires \<Rightarrow> byte list \<Rightarrow> bool" where
  "requires_layout cp r w \<longleftrightarrow>
     (\<exists>flags version u v x. ref_layout (get_module_name cp) (rq_module r) u \<and> u2_layout flags v \<and>
        u2_layout version x \<and> rq_is_transitive r = bit flags 5 \<and> rq_is_static r = bit flags 6 \<and> w = u @ v @ x)"

definition package_layout :: "constant_pool \<Rightarrow> rstr \<Rightarrow> mod_name list \<Rightarrow> byte list \<Rightarrow> bool" where
  "package_layout cp package to w \<longleftrightarrow>
     (\<exists>flags u v t. ref_layout (dotted (get_package_name cp)) package u \<and> u2_layout flags v \<and>
        table_layout (ref_layout (get_module_name cp)) to t \<and> w = u @ v @ t)"

definition provides_layout :: "constant_pool \<Rightarrow> provides \<Rightarrow> byte list \<Rightarrow> bool" where
  "provides_layout cp p w \<longleftrightarrow>
     (\<exists>u t. ref_layout (dotted (get_class_name cp)) (pv_service p) u \<and>
        table_layout (ref_layout (dotted (get_class_name cp))) (pv_implementations p) t \<and> w = u @ t)"

definition module_layout :: "constant_pool \<Rightarrow> module_info \<Rightarrow> byte list \<Rightarrow> bool" where
  "module_layout cp mi w \<longleftrightarrow> mi_kind mi = Explicit \<and>
     (\<exists>flags version n f v rq ex op us pv.
        ref_layout (get_module_name cp) (mi_name mi) n \<and> u2_layout flags f \<and> u2_layout version v \<and>
        mi_is_open mi = bit flags 5 \<and>
        table_layout (requires_layout cp) (mi_requires mi) rq \<and>
        table_layout (\<lambda>e. package_layout cp (ex_package e) (ex_to e)) (mi_exports mi) ex \<and>
        table_layout (\<lambda>e. package_layout cp (op_package e) (op_to e)) (mi_opens mi) op \<and>
        table_layout (ref_layout (dotted (get_class_name cp))) (mi_uses mi) us \<and>
        table_layout (provides_layout cp) (mi_provides mi) pv \<and>
        w = n @ f @ v @ rq @ ex @ op @ us @ pv)"

text \<open>An attribute with a name and a content.\<close>

definition named_attribute_layout :: "constant_pool \<Rightarrow> rstr \<Rightarrow> byte list \<Rightarrow> byte list \<Rightarrow> bool" where
  "named_attribute_layout cp name info w \<longleftrightarrow>
     (\<exists>u. ref_layout (get_utf8 cp) name u \<and> length info < 2 ^ 32 \<and> w = u @ be_bytes 4 (length info) @ info)"

text \<open>Attributes up to the first one named \<^verbatim>\<open>Module\<close>, out of \<open>n\<close>.\<close>

primrec module_attributes_layout :: "constant_pool \<Rightarrow> nat \<Rightarrow> module_info \<Rightarrow> byte list \<Rightarrow> bool" where
  "module_attributes_layout cp 0 mi w \<longleftrightarrow> False"
| "module_attributes_layout cp (Suc n) mi w \<longleftrightarrow>
     (\<exists>name info u v. named_attribute_layout cp name info u \<and>
        (if name = rs ''Module'' then v = [] \<and> module_layout cp mi info else module_attributes_layout cp n mi v) \<and>
        w = u @ v)"

definition skipped_attribute :: "unit \<Rightarrow> byte list \<Rightarrow> bool" where
  "skipped_attribute _ w \<longleftrightarrow>
     (\<exists>i u info. u2_layout i u \<and> length info < 2 ^ 32 \<and> w = u @ be_bytes 4 (length info) @ info)"

definition skipped_member :: "unit \<Rightarrow> byte list \<Rightarrow> bool" where
  "skipped_member _ w \<longleftrightarrow>
     (\<exists>a b c u v x as t. u2_layout a u \<and> u2_layout b v \<and> u2_layout c x \<and> table_layout skipped_attribute as t \<and>
        w = u @ v @ x @ t)"

text \<open>A file whose first \<^verbatim>\<open>Module\<close> attribute ends it; what follows may be anything.\<close>

definition module_file_layout :: "module_info \<Rightarrow> byte list \<Rightarrow> bool" where
  "module_file_layout mi w \<longleftrightarrow>
     (\<exists>minor major pool cp flags this super is ifs fl fs ml ms n attrs.
        length minor = 2 \<and> length major = 2 \<and> pool_layout cp pool \<and>
        length flags = 2 \<and> length this = 2 \<and> length super = 2 \<and>
        table_layout u2_layout is ifs \<and> table_layout skipped_member fl fs \<and> table_layout skipped_member ml ms \<and>
        n < 65536 \<and> module_attributes_layout cp n mi attrs \<and>
        w = be_bytes 4 0xCAFEBABE @ minor @ major @ pool @ flags @ this @ super @ ifs @ fs @ ms @ be_bytes 2 n @ attrs)"

section \<open>The parsers read exactly the layouts\<close>

text \<open>An index that is resolved only after something else has been read.\<close>

lemma exact_late_ref:
  assumes "exact rd_at m M" "\<And>x y. exact rd_at (k x y) (K x y)"
  shows "exact rd_at (pbind read_u2 (\<lambda>i. pbind m (\<lambda>y. pbind (plift (g i)) (\<lambda>x. k x y))))
    (\<lambda>z w. \<exists>x y u v t. ref_layout g x u \<and> M y v \<and> K x y z t \<and> w = u @ v @ t)"
  by (rule exact_cong [OF exact_bind [OF exact_read_u2 exact_bind [OF assms(1) exact_bind [OF exact_lift assms(2)]]]])
    (auto simp: ref_layout_def; blast)

lemma and_power_bit: "(n AND 2 ^ k \<noteq> 0) = bit n k" for n :: nat
  by (simp add: bit_iff_and_push_bit_not_eq_0 [of n k])

lemma flag_bits:
  "(n AND acc_open \<noteq> 0) = bit n 5" "(n AND acc_transitive \<noteq> 0) = bit n 5" "(n AND acc_static_phase \<noteq> 0) = bit n 6"
  using and_power_bit [of n 5] and_power_bit [of n 6]
  by (simp_all add: acc_open_def acc_transitive_def acc_static_phase_def)

lemma exact_requires: "exact rd_at (read_requires cp) (requires_layout cp)"
proof -
  let ?r = "\<lambda>name flags. \<lparr>rq_module = name, rq_is_transitive = bit flags 5, rq_is_static = bit flags 6\<rparr>"
  have "exact rd_at (pbind read_u2 (\<lambda>flags. pbind read_u2 (\<lambda>_. preturn flags)))
      (\<lambda>flags w. \<exists>version v x. u2_layout flags v \<and> u2_layout version x \<and> w = v @ x)"
    by (rule exact_cong [OF exact_bind [OF exact_u2 exact_map [OF exact_u2]]]) (rule refl, auto)
  from exact_late_ref [where k = "\<lambda>x y. preturn (?r x y)" and g = "get_module_name cp", OF this exact_return]
  have "exact rd_at (read_requires cp) (\<lambda>z w. \<exists>x y u v t. ref_layout (get_module_name cp) x u \<and>
      (\<exists>version v' x'. u2_layout y v' \<and> u2_layout version x' \<and> v = v' @ x') \<and> (z = ?r x y \<and> t = []) \<and> w = u @ v @ t)"
    by (simp only: read_requires_def flag_bits pbind_assoc pbind_simps)
  then show ?thesis
  proof (rule exact_cong)
    show "(\<exists>x y u v t. ref_layout (get_module_name cp) x u \<and>
      (\<exists>version v' x'. u2_layout y v' \<and> u2_layout version x' \<and> v = v' @ x') \<and> (z = ?r x y \<and> t = []) \<and> w = u @ v @ t)
      \<longleftrightarrow> requires_layout cp z w" for z w
      by (cases z) (auto simp: requires_layout_def; blast)
  qed
qed

lemma exact_package_to: "exact rd_at (read_package_to cp) (\<lambda>(p, to). package_layout cp p to)"
proof -
  have count: "exact rd_at (pbind read_u2 (\<lambda>_. read_u2))
      (\<lambda>n w. \<exists>flags u v. u2_layout flags u \<and> u2_layout n v \<and> w = u @ v)"
    by (rule exact_cong [OF exact_bind [OF exact_u2 exact_u2]]) auto
  have items: "exact rd_at (pbind (prepeat n (read_ref (get_module_name cp))) (\<lambda>to. preturn (p, to)))
      (\<lambda>z w. \<exists>to ws. z = (p, to) \<and> w = concat ws \<and> length to = n \<and> list_all2 (ref_layout (get_module_name cp)) to ws)"
    for p :: rstr and n
    by (rule exact_map [OF exact_repeat [OF exact_ref]]) auto
  from exact_late_ref [where g = "dotted (get_package_name cp)"
        and k = "\<lambda>p n. pbind (prepeat n (read_ref (get_module_name cp))) (\<lambda>to. preturn (p, to))", OF count items] show ?thesis
    unfolding pbind_assoc read_package_to_def read_ref_def
  proof (rule exact_cong)
    show "(\<exists>p n u v t. ref_layout (dotted (get_package_name cp)) p u \<and>
        (\<exists>flags v' x. u2_layout flags v' \<and> u2_layout n x \<and> v = v' @ x) \<and>
        (\<exists>to ws. z = (p, to) \<and> t = concat ws \<and> length to = n \<and> list_all2 (ref_layout (get_module_name cp)) to ws) \<and>
        w = u @ v @ t) \<longleftrightarrow> (case z of (p, to) \<Rightarrow> package_layout cp p to) w" (is "?l \<longleftrightarrow> ?r") for z w
    proof
      assume ?l
      then show ?r unfolding package_layout_def table_layout_def u2_layout_def
        by (elim exE conjE, simp only: prod.case, intro exI conjI) (auto 0 0)
    next
      assume ?r
      then show ?l
        unfolding package_layout_def table_layout_def u2_layout_def
        by (cases z, simp only: prod.case, elim exE conjE)
          (intro exI conjI, (assumption | rule refl)+, simp)
    qed
  qed
qed

lemma exact_exports: "exact rd_at (read_exports cp) (\<lambda>e. package_layout cp (ex_package e) (ex_to e))"
  unfolding read_exports_def split_def
  by (rule exact_map [OF exact_package_to], rename_tac e w, case_tac e) auto

lemma exact_opens: "exact rd_at (read_opens cp) (\<lambda>e. package_layout cp (op_package e) (op_to e))"
  unfolding read_opens_def split_def
  by (rule exact_map [OF exact_package_to], rename_tac e w, case_tac e) auto

lemma exact_uses: "exact rd_at (read_uses cp) (ref_layout (dotted (get_class_name cp)))"
  unfolding read_uses_def read_ref_def [symmetric] by (rule exact_ref)

lemma exact_provides: "exact rd_at (read_provides cp) (provides_layout cp)"
proof -
  let ?p = "\<lambda>s is. \<lparr>pv_service = s, pv_implementations = is\<rparr>"
  have items: "exact rd_at (pbind (prepeat n (read_ref (dotted (get_class_name cp)))) (\<lambda>is. preturn (?p s is)))
      (\<lambda>z w. \<exists>is ws. z = ?p s is \<and> w = concat ws \<and> length is = n \<and>
         list_all2 (ref_layout (dotted (get_class_name cp))) is ws)" for s n
    by (rule exact_map [OF exact_repeat [OF exact_ref]]) auto
  from exact_late_ref [where g = "dotted (get_class_name cp)"
        and k = "\<lambda>s n. pbind (prepeat n (read_ref (dotted (get_class_name cp)))) (\<lambda>is. preturn (?p s is))",
      OF exact_u2 items] show ?thesis
    unfolding read_provides_def read_ref_def
  proof (rule exact_cong)
    show "(\<exists>s n u v t. ref_layout (dotted (get_class_name cp)) s u \<and> u2_layout n v \<and>
        (\<exists>is ws. z = ?p s is \<and> t = concat ws \<and> length is = n \<and>
          list_all2 (ref_layout (dotted (get_class_name cp))) is ws) \<and> w = u @ v @ t) \<longleftrightarrow> provides_layout cp z w" (is "?l \<longleftrightarrow> ?r") for z w
    proof
      assume ?l
      then show ?r unfolding provides_layout_def table_layout_def u2_layout_def
        by (elim exE conjE, intro exI conjI) (auto 0 0)
    next
      assume ?r
      then show ?l
        unfolding provides_layout_def table_layout_def u2_layout_def
        by (cases z, simp only: provides.select_convs, elim exE conjE)
          (intro exI conjI, (assumption | rule refl)+, simp)
    qed
  qed
qed


lemma exact_module_attribute: "exact rd_at (parse_module_attribute cp) (module_layout cp)"
proof -
  let ?mi = "\<lambda>name flags rq ex op us pv. \<lparr>mi_kind = Explicit, mi_name = name, mi_is_open = bit (flags :: nat) 5,
    mi_requires = rq, mi_exports = ex, mi_opens = op, mi_uses = us, mi_provides = pv\<rparr>"
  let ?tables = "\<lambda>name flags. pbind (read_table (read_requires cp)) (\<lambda>rq. pbind (read_table (read_exports cp)) (\<lambda>ex.
    pbind (read_table (read_opens cp)) (\<lambda>op. pbind (read_table (read_uses cp)) (\<lambda>us.
    pbind (read_table (read_provides cp)) (\<lambda>pv. preturn (?mi name flags rq ex op us pv))))))"
  have flags: "exact rd_at (pbind read_u2 (\<lambda>flags. pbind read_u2 (\<lambda>_. preturn flags)))
      (\<lambda>flags w. \<exists>version v x. u2_layout flags v \<and> u2_layout version x \<and> w = v @ x)"
    by (rule exact_cong [OF exact_bind [OF exact_u2 exact_map [OF exact_u2]]]) (rule refl, auto)
  have tables: "exact rd_at (?tables name flags) (\<lambda>mi w. \<exists>rq ex op us pv. mi_kind mi = Explicit \<and> mi_name mi = name \<and>
      mi_is_open mi = bit flags 5 \<and> table_layout (requires_layout cp) (mi_requires mi) rq \<and>
      table_layout (\<lambda>e. package_layout cp (ex_package e) (ex_to e)) (mi_exports mi) ex \<and>
      table_layout (\<lambda>e. package_layout cp (op_package e) (op_to e)) (mi_opens mi) op \<and>
      table_layout (ref_layout (dotted (get_class_name cp))) (mi_uses mi) us \<and>
      table_layout (provides_layout cp) (mi_provides mi) pv \<and> w = rq @ ex @ op @ us @ pv)" for name and flags :: nat
  proof (rule exact_cong [OF exact_bind [OF exact_table [OF exact_requires] exact_bind [OF exact_table [OF exact_exports]
        exact_bind [OF exact_table [OF exact_opens] exact_bind [OF exact_table [OF exact_uses]
        exact_map [OF exact_table [OF exact_provides]]]]]]], rule refl, goal_cases)
    case (1 mi w)
    show ?case (is "?l \<longleftrightarrow> ?r")
    proof
      assume ?l
      then show ?r by (elim exE conjE, intro exI conjI) simp_all
    next
      assume ?r
      then show ?l
        by (elim exE conjE) (intro exI conjI, (assumption | rule refl)+, rule module_info.equality, simp_all)
    qed
  qed
  from exact_late_ref [where g = "get_module_name cp" and k = ?tables, OF flags tables]
  have "exact rd_at (parse_module_attribute cp) (\<lambda>mi w. \<exists>name flags u v t. ref_layout (get_module_name cp) name u \<and>
      (\<exists>version v' x. u2_layout flags v' \<and> u2_layout version x \<and> v = v' @ x) \<and>
      (\<exists>rq ex op us pv. mi_kind mi = Explicit \<and> mi_name mi = name \<and>
      mi_is_open mi = bit flags 5 \<and> table_layout (requires_layout cp) (mi_requires mi) rq \<and>
      table_layout (\<lambda>e. package_layout cp (ex_package e) (ex_to e)) (mi_exports mi) ex \<and>
      table_layout (\<lambda>e. package_layout cp (op_package e) (op_to e)) (mi_opens mi) op \<and>
      table_layout (ref_layout (dotted (get_class_name cp))) (mi_uses mi) us \<and>
      table_layout (provides_layout cp) (mi_provides mi) pv \<and> t = rq @ ex @ op @ us @ pv) \<and> w = u @ v @ t)"
    by (simp only: parse_module_attribute_def flag_bits pbind_assoc pbind_simps)
  then show ?thesis
  proof (rule exact_cong, goal_cases)
    case (1 mi w)
    show ?case (is "?l \<longleftrightarrow> ?r")
    proof
      assume ?l
      then show ?r unfolding module_layout_def
        by (elim exE conjE) (intro exI conjI, (assumption | simp only: append_assoc)+)
    next
      assume ?r
      then show ?l unfolding module_layout_def
        by (elim exE conjE) (intro exI conjI, (assumption | rule refl)+, simp)
    qed
  qed
qed

text \<open>The frame of an attribute, whatever is made of it.\<close>

lemma exact_frame:
  assumes "\<And>name info. exact rd_at (k name info) (K name info)"
  shows "exact rd_at (pbind read_u2 (\<lambda>i. pbind read_u4 (\<lambda>n. pbind (read_bytes n) (\<lambda>info.
      pbind (plift (get_utf8 cp i)) (\<lambda>name. k name info)))))
    (\<lambda>x w. \<exists>name info u v. named_attribute_layout cp name info u \<and> K name info x v \<and> w = u @ v)"
proof -
  have info: "exact rd_at (pbind read_u4 read_bytes) (\<lambda>info w. length info < 2 ^ 32 \<and> w = be_bytes 4 (length info) @ info)"
    by (rule exact_cong [OF exact_bind [OF exact_read_u4 exact_read_bytes]]) auto
  from exact_late_ref [where g = "get_utf8 cp" and k = k, OF info assms]
  have "exact rd_at (pbind read_u2 (\<lambda>i. pbind read_u4 (\<lambda>n. pbind (read_bytes n) (\<lambda>info.
      pbind (plift (get_utf8 cp i)) (\<lambda>name. k name info)))))
    (\<lambda>x w. \<exists>name info u v t. ref_layout (get_utf8 cp) name u \<and>
      (length info < 2 ^ 32 \<and> v = be_bytes 4 (length info) @ info) \<and> K name info x t \<and> w = u @ v @ t)"
    unfolding pbind_assoc .
  then show ?thesis unfolding named_attribute_layout_def
  proof (rule exact_cong, goal_cases)
    case (1 x w)
    show ?case (is "?l \<longleftrightarrow> ?r")
    proof
      assume ?l
      then show ?r by (elim exE conjE) (intro exI conjI, (assumption | rule refl)+, simp)
    next
      assume ?r
      then show ?l by (elim exE conjE) (intro exI conjI, (assumption | rule refl)+, simp)
    qed
  qed
qed

lemma exact_module_attributes:
  "exact rd_at (module_attributes_loop cp n) (module_attributes_layout cp n)"
proof (induction n)
  case 0
  show ?case unfolding module_attributes_loop.simps by (rule exact_cong [OF exact_fail]) simp
next
  case (Suc n)
  have "exact rd_at (if name = rs ''Module'' then sub_reader info (whole (parse_module_attribute cp))
      else module_attributes_loop cp n)
      (\<lambda>mi v. if name = rs ''Module'' then v = [] \<and> module_layout cp mi info else module_attributes_layout cp n mi v)"
    for name info
    using exact_sub_reader [OF exact_module_attribute, of info cp] Suc by simp
  note frame = exact_frame [where k = "\<lambda>name info. if name = rs ''Module'' then sub_reader info (whole (parse_module_attribute cp))
      else module_attributes_loop cp n", OF this]
  show ?case unfolding module_attributes_loop.simps by (rule exact_cong [OF frame]) simp
qed

lemma exact_skip_attribute: "exact rd_at skip_attribute skipped_attribute"
  unfolding skip_attribute_def
  by (rule exact_cong [OF exact_bind [OF exact_u2 exact_bind [OF exact_read_u4 exact_map [OF exact_read_bytes]]]])
    (rule refl, auto simp: skipped_attribute_def)

lemma exact_skip_attributes: "exact rd_at skip_attributes (\<lambda>_ w. \<exists>as. table_layout skipped_attribute as w)"
  unfolding skip_attributes_def by (rule exact_map [OF exact_table [OF exact_skip_attribute]]) simp

lemma exact_skip_member: "exact rd_at skip_member skipped_member"
  unfolding skip_member_def
  by (rule exact_cong [OF exact_bind [OF exact_u2 exact_bind [OF exact_u2 exact_bind [OF exact_u2
        exact_skip_attributes]]]])
    (simp add: skipped_member_def, blast)

text \<open>What is read and dropped in front of a piece.\<close>

lemma exact_drop:
  assumes "exact rd_at p G" "exact rd_at q H"
  shows "exact rd_at (pbind p (\<lambda>_. q)) (\<lambda>y w. \<exists>u v. w = u @ v \<and> (\<exists>x. G x u) \<and> H y v)"
  by (rule exact_cong [OF exact_bind [OF assms]]) blast

lemma u2_any: "(\<exists>n. u2_layout n w) \<longleftrightarrow> length w = 2"
  using be_bytes_from_be [of w] from_be_bytes_lt [of w] by (auto simp: u2_layout_def)

lemma exact_module_info: "exact rd_at module_info_parser module_file_layout"
proof -
  have attrs: "exact rd_at (pbind read_u2 (module_attributes_loop cp))
      (\<lambda>mi w. \<exists>n v. w = be_bytes 2 n @ v \<and> n < 65536 \<and> module_attributes_layout cp n mi v)" for cp
    by (rule exact_cong [OF exact_bind [OF exact_read_u2 exact_module_attributes]]) auto
  note tables = exact_drop [OF exact_u2 exact_drop [OF exact_u2 exact_drop [OF exact_u2
      exact_drop [OF exact_table [OF exact_u2] exact_drop [OF exact_table [OF exact_skip_member]
      exact_drop [OF exact_table [OF exact_skip_member] attrs]]]]]]
  note all = exact_drop [OF exact_magic exact_drop [OF exact_u2 exact_drop [OF exact_u2
      exact_bind [OF exact_constant_pool tables]]]]
  show ?thesis
    unfolding module_info_parser_def
  proof (rule exact_cong [OF all], unfold u2_any, goal_cases)
    case (1 mi w)
    show ?case (is "?l \<longleftrightarrow> ?r")
    proof
      assume ?l
      then show ?r unfolding module_file_layout_def
        by (elim exE conjE) (intro exI conjI, (assumption | simp only: append_assoc)+)
    next
      assume ?r
      then show ?l unfolding module_file_layout_def
        by (elim exE conjE) (intro exI conjI, (assumption | rule refl)+)
    qed
  qed
qed


text \<open>
  Property C36. A module descriptor is read exactly when the bytes start with a class file up to and
  including its first \<^verbatim>\<open>Module\<close> attribute, and the result is what that attribute says:
  flags as bits, names with dots, every table in order. Reading returns on every input, and bytes
  behind the attribute are not looked at.
\<close>

theorem module_info_exact:
  "(\<exists>r. parse_module_info_class bytes = Some r) \<and>
   (parse_module_info_class bytes = Some (Ok mi) \<longleftrightarrow> (\<exists>w rest. bytes = w @ rest \<and> module_file_layout mi w))"
proof -
  from exact_run [OF exact_module_info, of "[]" bytes] show ?thesis
  proof (cases rule: run_atE)
    case (1 e)
    then have "\<not> module_file_layout mi w" if "bytes = w @ rest" for w rest
      using exact_decodes [OF exact_module_info, of mi w rest] that by (auto simp: decodes_def)
    with 1 show ?thesis by (auto simp: parse_module_info_class_def run_reader_def reader_new_at)
  next
    case (2 x w rest')
    have "mi = x" if "module_file_layout mi w'" "bytes = w' @ rest" for w' rest
      using exact_decodes [OF exact_module_info that(1), of rest] 2 that(2) by (auto simp: decodes_def)
    with 2 show ?thesis by (auto simp: parse_module_info_class_def run_reader_def reader_new_at)
  qed
qed

end
