(* ===== verification/Cbor_Validate.thy ===== *)
theory Cbor_Validate
  imports Class_Reader
begin

text \<open>
  The check of incoming CBOR messages before they are decoded
  (\<^verbatim>\<open>nova-remote-proto/src/validate_cbor.rs\<close>): the reader, the limits by map key, and
  the recursive walk over items. The texts of the errors are left out, their causes kept; a length of
  64 bits always fits \<^verbatim>\<open>usize\<close>.
\<close>

section \<open>Limits\<close>

definition max_message_bytes :: nat where "max_message_bytes = 64 * 1024 * 1024"
definition max_files_per_message :: nat where "max_files_per_message = 100000"
definition max_search_results_per_message :: nat where "max_search_results_per_message = 10000"
definition max_diagnostics_per_message :: nat where "max_diagnostics_per_message = 100000"
definition max_symbols_per_shard_index :: nat where "max_symbols_per_shard_index = 1000000"
definition max_file_text_bytes :: nat where "max_file_text_bytes = 8 * 1024 * 1024"
definition max_small_string_bytes :: nat where "max_small_string_bytes = 16 * 1024"

definition max_cbor_nesting :: nat where "max_cbor_nesting = 64"
definition max_cbor_map_len :: nat where "max_cbor_map_len = 1024"
definition max_cbor_key_bytes :: nat where "max_cbor_key_bytes = 64"
definition min_bytes_per_complex_array_item :: nat where "min_bytes_per_complex_array_item = 8"

record limits =
  max_text_len :: nat
  max_bytes_len :: nat
  max_array_len :: nat
  min_array_item_bytes :: nat

definition limits_default :: limits where
  "limits_default =
     \<lparr>max_text_len = max_file_text_bytes, max_bytes_len = max_message_bytes,
      max_array_len = max_symbols_per_shard_index, min_array_item_bytes = 1\<rparr>"

definition limits_for_map_value :: "rstr \<Rightarrow> limits \<Rightarrow> limits" where
  "limits_for_map_value key base =
     (if key = map of_char ''files'' then
        base\<lparr>max_array_len := max_files_per_message, min_array_item_bytes := min_bytes_per_complex_array_item\<rparr>
      else if key = map of_char ''items'' then
        base\<lparr>max_array_len := max_search_results_per_message, min_array_item_bytes := min_bytes_per_complex_array_item\<rparr>
      else if key = map of_char ''diagnostics'' then
        base\<lparr>max_array_len := max_diagnostics_per_message, min_array_item_bytes := min_bytes_per_complex_array_item\<rparr>
      else if key = map of_char ''symbols'' then
        base\<lparr>max_array_len := max_symbols_per_shard_index, min_array_item_bytes := min_bytes_per_complex_array_item\<rparr>
      else if key = map of_char ''data'' then
        base\<lparr>max_bytes_len := max_message_bytes, max_array_len := max_message_bytes, min_array_item_bytes := 1\<rparr>
      else if key = map of_char ''supported_compression'' then
        base\<lparr>max_array_len := 32, max_text_len := max_small_string_bytes\<rparr>
      else if key \<in> set (map (map of_char) [''path'', ''name'', ''auth_token'', ''message'', ''details'', ''worker_build'', ''query'']) then
        base\<lparr>max_text_len := max_small_string_bytes\<rparr>
      else if key \<in> set (map (map of_char) [''type'', ''compression'']) then base\<lparr>max_text_len := 64\<rparr>
      else base)"

section \<open>The reader\<close>

datatype cbor_error =
    CborTooLarge nat
  | CborTrailing nat
  | CborEof
  | CborIndefinite
  | CborInfo nat
  | CborTooDeep
  | CborTooLong nat
  | CborExceeds nat
  | CborKeyNotText
  | CborKeyUtf8
  | CborBreak
  | CborMajor nat
  | CborChunkMajor nat
  | CborNestedIndefinite

text \<open>A reader is a slice and an offset, as that of class files.\<close>

type_synonym 'a cb = "(reader, cbor_error, 'a) parser"

definition cb_remaining :: "nat cb" where
  "cb_remaining r = Some (Ok (sat_sub (length (rd_bytes r)) (rd_pos r), r))"

definition cb_is_empty :: "reader \<Rightarrow> bool" where
  "cb_is_empty r \<longleftrightarrow> length (rd_bytes r) \<le> rd_pos r"

definition pensure :: "bool \<Rightarrow> 'e \<Rightarrow> ('s, 'e, unit) parser" where
  "pensure c e = (if c then preturn () else pfail e)"

definition peek_u8 :: "byte cb" where
  "peek_u8 r =
     (if sat_sub (length (rd_bytes r)) (rd_pos r) \<ge> 1 then map_option (\<lambda>b. Ok (b, r)) (vec_get (rd_bytes r) (rd_pos r))
      else Some (Err CborEof))"

definition read_u8 :: "byte cb" where
  "read_u8 = pbind peek_u8 (\<lambda>b r. Some (Ok (b, r\<lparr>rd_pos := rd_pos r + 1\<rparr>)))"

definition read_exact :: "nat \<Rightarrow> byte list cb" where
  "read_exact len r =
     (if sat_sub (length (rd_bytes r)) (rd_pos r) \<ge> len
      then map_option (\<lambda>bs. Ok (bs, r\<lparr>rd_pos := rd_pos r + len\<rparr>)) (byte_slice (rd_bytes r) (rd_pos r) (rd_pos r + len))
      else Some (Err CborEof))"

definition cb_skip :: "nat \<Rightarrow> unit cb" where
  "cb_skip len = pbind (read_exact len) (\<lambda>_. preturn ())"

definition read_be :: "nat \<Rightarrow> nat cb" where
  "read_be k = pbind (read_exact k) (\<lambda>bs. preturn (from_be_bytes bs))"

definition read_uint :: "nat \<Rightarrow> nat cb" where
  "read_uint ai =
     (if ai \<le> 23 then preturn ai
      else if ai = 24 then pbind read_u8 (\<lambda>b. preturn (unat b))
      else if ai = 25 then read_be 2
      else if ai = 26 then read_be 4
      else if ai = 27 then read_be 8
      else if ai = 31 then pfail CborIndefinite
      else pfail (CborInfo ai))"

definition read_len :: "nat \<Rightarrow> nat cb" where
  "read_len ai = read_uint ai"

definition major_of :: "byte \<Rightarrow> nat" where "major_of head = unat (drop_bit 5 head)"

definition info_of :: "byte \<Rightarrow> nat" where "info_of head = unat (head AND 0x1f)"

section \<open>The walk\<close>

definition read_map_key :: "rstr cb" where
  "read_map_key =
     pbind read_u8 (\<lambda>head.
     pbind (pensure (major_of head = 3) CborKeyNotText) (\<lambda>_.
     pbind (pensure (info_of head \<noteq> 31) CborIndefinite) (\<lambda>_.
     pbind (read_len (info_of head)) (\<lambda>len.
     pbind (pensure (len \<le> max_cbor_key_bytes) (CborTooLong len)) (\<lambda>_.
     pbind cb_remaining (\<lambda>rem.
     pbind (pensure (len \<le> rem) (CborExceeds len)) (\<lambda>_.
     pbind (read_exact len) (\<lambda>bs.
       plift (ok_or (from_utf8 (map unat bs)) CborKeyUtf8)))))))))"

text \<open>The two arms of strings with a length.\<close>

definition validate_string :: "nat \<Rightarrow> nat \<Rightarrow> unit cb" where
  "validate_string ai max_len =
     pbind (read_len ai) (\<lambda>len.
     pbind (pensure (len \<le> max_len) (CborTooLong len)) (\<lambda>_.
     pbind cb_remaining (\<lambda>rem.
     pbind (pensure (len \<le> rem) (CborExceeds len)) (\<lambda>_. cb_skip len))))"

text \<open>
  The loops over indefinite values leave at the break byte; at the end of the input the peek of the
  next round fails.
\<close>

definition at_break :: "reader \<Rightarrow> bool" where
  "at_break r \<longleftrightarrow> vec_get (rd_bytes r) (rd_pos r) = Some 0xff"

definition until_break :: "('a \<Rightarrow> 'a cb) \<Rightarrow> 'a \<Rightarrow> unit cb" where
  "until_break body acc =
     pbind (pwhile (\<lambda>r. \<not> at_break r) (\<lambda>acc. pbind peek_u8 (\<lambda>_. body acc)) acc) (\<lambda>_.
     pbind peek_u8 (\<lambda>_. pbind read_u8 (\<lambda>_. preturn ())))"

definition chunk_step :: "nat \<Rightarrow> bool \<Rightarrow> nat \<Rightarrow> nat \<Rightarrow> nat cb" where
  "chunk_step depth is_text max_total tot =
     pbind (pensure (depth \<le> max_cbor_nesting) CborTooDeep) (\<lambda>_.
     pbind read_u8 (\<lambda>head.
     pbind (pensure (major_of head = (if is_text then 3 else 2)) (CborChunkMajor (major_of head))) (\<lambda>_.
     pbind (pensure (info_of head \<noteq> 31) CborNestedIndefinite) (\<lambda>_.
     pbind (read_len (info_of head)) (\<lambda>len.
     pbind (pensure (len \<le> max_total) (CborTooLong len)) (\<lambda>_.
     pbind cb_remaining (\<lambda>rem.
     pbind (pensure (len \<le> rem) (CborExceeds len)) (\<lambda>_.
     let tot' = sat_add_u64 tot len in
     pbind (pensure (tot' \<le> max_total) (CborTooLong tot')) (\<lambda>_.
     pbind (cb_skip len) (\<lambda>_. preturn tot'))))))))))"

definition validate_indefinite_bytes :: "nat \<Rightarrow> bool \<Rightarrow> nat \<Rightarrow> unit cb" where
  "validate_indefinite_bytes depth is_text max_total = until_break (chunk_step depth is_text max_total) 0"

definition validate_indefinite_array :: "unit cb \<Rightarrow> limits \<Rightarrow> unit cb" where
  "validate_indefinite_array item lim =
     until_break (\<lambda>items.
       pbind (pensure (items < max_array_len lim) (CborTooLong items)) (\<lambda>_.
       pbind item (\<lambda>_. preturn (items + 1)))) 0"

definition validate_pair :: "(limits \<Rightarrow> unit cb) \<Rightarrow> limits \<Rightarrow> unit cb" where
  "validate_pair item lim = pbind read_map_key (\<lambda>key. item (limits_for_map_value key lim))"

definition validate_indefinite_map :: "(limits \<Rightarrow> unit cb) \<Rightarrow> limits \<Rightarrow> unit cb" where
  "validate_indefinite_map item lim =
     until_break (\<lambda>pairs.
       pbind (pensure (pairs < max_cbor_map_len) (CborTooLong pairs)) (\<lambda>_.
       pbind (validate_pair item lim) (\<lambda>_. preturn (pairs + 1)))) 0"

definition validate_array :: "unit cb \<Rightarrow> limits \<Rightarrow> nat \<Rightarrow> unit cb" where
  "validate_array item lim ai =
     pbind (read_len ai) (\<lambda>len.
     pbind (pensure (len \<le> max_array_len lim) (CborTooLong len)) (\<lambda>_.
     pbind cb_remaining (\<lambda>rem.
     pbind (pensure (len \<le> rem div max (min_array_item_bytes lim) 1) (CborExceeds len)) (\<lambda>_.
     pbind (prepeat len item) (\<lambda>_. preturn ())))))"

definition validate_map :: "(limits \<Rightarrow> unit cb) \<Rightarrow> limits \<Rightarrow> nat \<Rightarrow> unit cb" where
  "validate_map item lim ai =
     pbind (read_len ai) (\<lambda>len.
     pbind (pensure (len \<le> max_cbor_map_len) (CborTooLong len)) (\<lambda>_.
     pbind cb_remaining (\<lambda>rem.
     pbind (pensure (sat_mul_u64 len 2 \<le> rem) (CborExceeds len)) (\<lambda>_.
     pbind (prepeat len (validate_pair item lim)) (\<lambda>_. preturn ())))))"

definition validate_simple :: "nat \<Rightarrow> unit cb" where
  "validate_simple ai =
     (if ai \<le> 23 then preturn ()
      else if ai = 24 then cb_skip 1
      else if ai = 25 then cb_skip 2
      else if ai = 26 then cb_skip 4
      else if ai = 27 then cb_skip 8
      else if ai = 31 then pfail CborBreak
      else pfail (CborInfo ai))"

definition validate_body :: "(limits \<Rightarrow> unit cb) \<Rightarrow> nat \<Rightarrow> limits \<Rightarrow> byte \<Rightarrow> unit cb" where
  "validate_body item depth lim head =
     (let major = major_of head; ai = info_of head in
      if major = 0 \<or> major = 1 then pbind (read_uint ai) (\<lambda>_. preturn ())
      else if major = 2 then
        (if ai = 31 then validate_indefinite_bytes (depth + 1) False (max_bytes_len lim)
         else validate_string ai (max_bytes_len lim))
      else if major = 3 then
        (if ai = 31 then validate_indefinite_bytes (depth + 1) True (max_text_len lim)
         else validate_string ai (max_text_len lim))
      else if major = 4 then
        (if ai = 31 then validate_indefinite_array (item lim) lim else validate_array (item lim) lim ai)
      else if major = 5 then
        (if ai = 31 then validate_indefinite_map item lim else validate_map item lim ai)
      else if major = 6 then pbind (read_uint ai) (\<lambda>_. item lim)
      else if major = 7 then validate_simple ai
      else pfail (CborMajor major))"

lemma until_break_mono [partial_function_mono]:
  assumes "\<And>acc s. mono_option (\<lambda>f. b f acc s)"
  shows "mono_option (\<lambda>f. until_break (b f) acc s)"
  unfolding until_break_def by (intro partial_function_mono assms)

lemma validate_body_mono [partial_function_mono]:
  assumes "\<And>lim s. mono_option (\<lambda>f. item f lim s)"
  shows "mono_option (\<lambda>f. validate_body (item f) depth lim head s)"
  unfolding validate_body_def Let_def if_distrib [of "\<lambda>p. p s"] validate_indefinite_array_def
    validate_indefinite_map_def validate_array_def validate_map_def validate_pair_def
  by (intro partial_function_mono assms)

partial_function (option) validate_item ::
  "nat \<Rightarrow> limits \<Rightarrow> reader \<Rightarrow> (cbor_error, unit \<times> reader) result option" where
  "validate_item depth lim r =
     pbind (pensure (depth \<le> max_cbor_nesting) CborTooDeep) (\<lambda>_.
     pbind read_u8 (validate_body (validate_item (depth + 1)) depth lim)) r"

definition validate_cbor :: "byte list \<Rightarrow> (cbor_error, unit) result option" where
  "validate_cbor bytes =
     (if length bytes \<le> max_message_bytes then
        map_option (\<lambda>res. res_bind res (\<lambda>(_, r).
            if cb_is_empty r then Ok () else Err (CborTrailing (sat_sub (length (rd_bytes r)) (rd_pos r)))))
          (validate_item 0 limits_default (reader_new bytes))
      else Some (Err (CborTooLarge (length bytes))))"

end
