(* ===== verification/Cbor_Exact.thy ===== *)
theory Cbor_Exact
  imports Cbor_Validate
begin

text \<open>
  What \<open>validate_cbor\<close> accepts: the data items of RFC 8949 within the nesting, length and size
  limits, as a relation between bytes and the number of bytes that follow them (the size checks look
  at everything that remains). The walk is shown to return on every input and to accept exactly these.
\<close>

section \<open>Items within the limits\<close>

text \<open>The argument of a head: in the head itself or in the following 1, 2, 4 or 8 bytes.\<close>

definition uint_arg :: "nat \<Rightarrow> nat \<Rightarrow> byte list \<Rightarrow> bool" where
  "uint_arg ai v w \<longleftrightarrow>
     ai \<le> 23 \<and> v = ai \<and> w = [] \<or>
     ai = 24 \<and> v < 2 ^ 8 \<and> w = be_bytes 1 v \<or>
     ai = 25 \<and> v < 2 ^ 16 \<and> w = be_bytes 2 v \<or>
     ai = 26 \<and> v < 2 ^ 32 \<and> w = be_bytes 4 v \<or>
     ai = 27 \<and> v < 2 ^ 64 \<and> w = be_bytes 8 v"

definition cbor_head :: "nat \<Rightarrow> nat \<Rightarrow> byte list \<Rightarrow> bool" where
  "cbor_head m v h \<longleftrightarrow> (\<exists>b w. h = b # w \<and> unat b div 32 = m \<and> uint_arg (unat b mod 32) v w)"

text \<open>So many pieces one after the other, each with the number of bytes behind it.\<close>

primrec seq_of :: "(byte list \<Rightarrow> nat \<Rightarrow> bool) \<Rightarrow> nat \<Rightarrow> byte list \<Rightarrow> nat \<Rightarrow> bool" where
  "seq_of P 0 w n \<longleftrightarrow> w = []"
| "seq_of P (Suc k) w n \<longleftrightarrow> (\<exists>u v. w = u @ v \<and> P u (length v + n) \<and> seq_of P k v n)"

lemma seq_of_mono [mono]: "(\<And>w n. P w n \<longrightarrow> Q w n) \<Longrightarrow> seq_of P k w n \<longrightarrow> seq_of Q k w n"
  by (induction k arbitrary: w) (auto, blast)

lemma seq_of_snoc: "seq_of P k w (length u + n) \<Longrightarrow> P u n \<Longrightarrow> seq_of P (Suc k) (w @ u) n"
proof (induction k arbitrary: w)
  case (Suc k)
  then obtain a b where "w = a @ b" "P a (length b + (length u + n))" "seq_of P k b (length u + n)" by auto
  with Suc show ?case by (intro seq_of.simps(2) [THEN iffD2] exI [of _ a] exI [of _ "b @ u"]) (simp add: add.assoc)
qed simp

definition cbor_key :: "rstr \<Rightarrow> byte list \<Rightarrow> bool" where
  "cbor_key key w \<longleftrightarrow>
     (\<exists>h s. cbor_head 3 (length s) h \<and> length s \<le> max_cbor_key_bytes \<and> from_utf8 (map unat s) = Some key \<and> w = h @ s)"

definition cbor_pair :: "(rstr \<Rightarrow> byte list \<Rightarrow> nat \<Rightarrow> bool) \<Rightarrow> byte list \<Rightarrow> nat \<Rightarrow> bool" where
  "cbor_pair P w n \<longleftrightarrow> (\<exists>key u v. cbor_key key u \<and> P key v n \<and> w = u @ v)"

lemma cbor_pair_mono [mono]:
  "(\<And>key w n. P key w n \<longrightarrow> Q key w n) \<Longrightarrow> cbor_pair P w n \<longrightarrow> cbor_pair Q w n"
  unfolding cbor_pair_def by blast

definition cbor_chunk :: "nat \<Rightarrow> byte list \<Rightarrow> byte list \<Rightarrow> bool" where
  "cbor_chunk m s w \<longleftrightarrow> (\<exists>h. cbor_head m (length s) h \<and> w = h @ s)"

text \<open>The limit of a byte or text string.\<close>

definition string_limit :: "limits \<Rightarrow> nat \<Rightarrow> nat" where
  "string_limit lim m = (if m = 2 then max_bytes_len lim else max_text_len lim)"

inductive cbor_item :: "nat \<Rightarrow> limits \<Rightarrow> byte list \<Rightarrow> nat \<Rightarrow> bool" where
  integer: "d \<le> max_cbor_nesting \<Longrightarrow> m \<le> 1 \<Longrightarrow> cbor_head m v w \<Longrightarrow> cbor_item d lim w n"
| string: "d \<le> max_cbor_nesting \<Longrightarrow> m = 2 \<or> m = 3 \<Longrightarrow> cbor_chunk m s w \<Longrightarrow> length s \<le> string_limit lim m \<Longrightarrow>
    cbor_item d lim w n"
| open_string: "d \<le> max_cbor_nesting \<Longrightarrow> m = 2 \<or> m = 3 \<Longrightarrow> unat b = m * 32 + 31 \<Longrightarrow>
    list_all2 (cbor_chunk m) ss cs \<Longrightarrow> ss = [] \<or> Suc d \<le> max_cbor_nesting \<Longrightarrow>
    sum_list (map length ss) \<le> string_limit lim m \<Longrightarrow> cbor_item d lim (b # concat cs @ [0xff]) n"
| array: "d \<le> max_cbor_nesting \<Longrightarrow> cbor_head 4 k h \<Longrightarrow> k \<le> max_array_len lim \<Longrightarrow>
    k * max (min_array_item_bytes lim) 1 \<le> length w + n \<Longrightarrow> seq_of (cbor_item (Suc d) lim) k w n \<Longrightarrow>
    cbor_item d lim (h @ w) n"
| open_array: "d \<le> max_cbor_nesting \<Longrightarrow> unat b = 4 * 32 + 31 \<Longrightarrow> k \<le> max_array_len lim \<Longrightarrow>
    seq_of (cbor_item (Suc d) lim) k w (Suc n) \<Longrightarrow> cbor_item d lim (b # w @ [0xff]) n"
| dict: "d \<le> max_cbor_nesting \<Longrightarrow> cbor_head 5 k h \<Longrightarrow> k \<le> max_cbor_map_len \<Longrightarrow> 2 * k \<le> length w + n \<Longrightarrow>
    seq_of (cbor_pair (\<lambda>key. cbor_item (Suc d) (limits_for_map_value key lim))) k w n \<Longrightarrow>
    cbor_item d lim (h @ w) n"
| open_dict: "d \<le> max_cbor_nesting \<Longrightarrow> unat b = 5 * 32 + 31 \<Longrightarrow> k \<le> max_cbor_map_len \<Longrightarrow>
    seq_of (cbor_pair (\<lambda>key. cbor_item (Suc d) (limits_for_map_value key lim))) k w (Suc n) \<Longrightarrow>
    cbor_item d lim (b # w @ [0xff]) n"
| tag: "d \<le> max_cbor_nesting \<Longrightarrow> cbor_head 6 v h \<Longrightarrow> cbor_item (Suc d) lim w n \<Longrightarrow> cbor_item d lim (h @ w) n"
| simple: "d \<le> max_cbor_nesting \<Longrightarrow> unat b = 7 * 32 + ai \<Longrightarrow>
    ai \<le> 23 \<and> s = [] \<or> ai = 24 \<and> length s = 1 \<or> ai = 25 \<and> length s = 2 \<or> ai = 26 \<and> length s = 4 \<or>
      ai = 27 \<and> length s = 8 \<Longrightarrow> cbor_item d lim (b # s) n"

section \<open>The primitives\<close>

lemma major_div: "major_of b = unat b div 32"
  unfolding major_of_def unsigned_drop_bit_eq by (simp add: drop_bit_eq_div take_bit_eq_mod)

lemma info_mod: "info_of b = unat b mod 32"
proof -
  have "b AND 0x1f = take_bit 5 b" by (simp add: take_bit_eq_mask mask_eq_exp_minus_1)
  then have "info_of b = take_bit 5 (unat b)" by (simp only: info_of_def unsigned_take_bit_eq)
  then show ?thesis by (simp add: take_bit_eq_mod)
qed

lemma major_lt: "major_of b < 8"
  using unat_byte_lt [of b] by (simp add: major_div less_mult_imp_div_less del: unat_byte_lt)

lemma head_split: "unat b = major_of b * 32 + info_of b"
  by (simp add: major_div info_mod)

lemma cbor_head_iff: "cbor_head m v (b # w) \<longleftrightarrow> major_of b = m \<and> uint_arg (info_of b) v w"
  by (simp add: cbor_head_def major_div info_mod)

lemma cbor_headE:
  assumes "cbor_head m v h"
  obtains b w where "h = b # w" "major_of b = m" "uint_arg (info_of b) v w" "info_of b \<noteq> 31"
  using assms by (auto simp: cbor_head_def major_div info_mod uint_arg_def)

lemma peek_u8_at: "peek_u8 (rd_at pre rest) = (case rest of [] \<Rightarrow> Some (Err CborEof) | b # _ \<Rightarrow> Some (Ok (b, rd_at pre rest)))"
  by (cases rest) (simp_all add: peek_u8_def vec_get_def rd_at_def)

lemma read_u8_at:
  "read_u8 (rd_at pre rest) = (case rest of [] \<Rightarrow> Some (Err CborEof) | b # r \<Rightarrow> Some (Ok (b, rd_at (pre @ [b]) r)))"
proof (cases rest)
  case (Cons b r)
  have "rd_at pre (b # r)\<lparr>rd_pos := Suc (length pre)\<rparr> = rd_at (pre @ [b]) r" by (simp add: rd_at_def)
  with Cons show ?thesis by (simp add: read_u8_def peek_u8_at)
qed (simp add: read_u8_def peek_u8_at)

lemma exact_u8: "exact rd_at read_u8 (\<lambda>b w. w = [b])"
proof (rule exactI)
  show "run_at rd_at read_u8 pre rest (\<lambda>b w _. w = [b])" for pre rest
    by (cases rest) (simp_all add: run_at_def read_u8_at)
  show "decodes rd_at read_u8 w b rest" if "w = [b]" for w b rest
    using that by (simp add: decodes_def read_u8_at)
qed

lemma exact_read_exact: "exact rd_at (read_exact n) (\<lambda>x w. x = w \<and> length w = n)"
proof (rule exactI)
  show "run_at rd_at (read_exact n) pre rest (\<lambda>x w _. x = w \<and> length w = n)" for pre rest
  proof (cases "n \<le> length rest")
    case True
    then show ?thesis
      by (intro run_at_Ok [where w = "take n rest" and rest' = "drop n rest"])
        (simp_all add: read_exact_def byte_slice_def rd_at_def)
  next
    case False
    then show ?thesis by (intro run_at_Err) (simp add: read_exact_def)
  qed
  show "decodes rd_at (read_exact n) w x rest" if "x = w \<and> length w = n" for x w rest
    using that by (simp add: decodes_def read_exact_def byte_slice_def rd_at_def)
qed

lemma exact_skip: "exact rd_at (cb_skip n) (\<lambda>_ w. length w = n)"
  unfolding cb_skip_def by (rule exact_map [OF exact_read_exact]) auto

lemma exact_be: "exact rd_at (read_be k) (\<lambda>v w. v < 256 ^ k \<and> w = be_bytes k v)"
  unfolding read_be_def by (rule exact_map [OF exact_read_exact]) (auto simp: from_be_bytes_iff)

lemma exact_uint: "exact rd_at (read_uint ai) (uint_arg ai)"
proof -
  have u8: "exact rd_at (pbind read_u8 (\<lambda>b. preturn (unat b))) (\<lambda>v w. v < 2 ^ 8 \<and> w = be_bytes 1 v)"
  proof (rule exact_map [OF exact_u8], goal_cases)
    case (1 v w)
    show ?case
    proof
      assume v: "v < 2 ^ 8 \<and> w = be_bytes 1 v"
      then have "unat (word_of_nat v :: byte) = v" by (simp add: unat_of_nat)
      with v show "\<exists>b. w = [b] \<and> v = unat b" by (intro exI [of _ "word_of_nat v"]) simp
    qed (auto intro: unat_byte_lt)
  qed
  consider "ai \<le> 23" | "ai = 24" | "ai = 25" | "ai = 26" | "ai = 27" | "27 < ai" by linarith
  then show ?thesis
  proof cases
    case 1
    then show ?thesis by (auto simp: read_uint_def uint_arg_def intro: exact_cong [OF exact_return])
  next
    case 2
    then show ?thesis by (auto simp: read_uint_def uint_arg_def intro!: exact_cong [OF u8])
  next
    case 3
    then show ?thesis by (auto simp: read_uint_def uint_arg_def intro!: exact_cong [OF exact_be])
  next
    case 4
    then show ?thesis by (auto simp: read_uint_def uint_arg_def intro!: exact_cong [OF exact_be])
  next
    case 5
    then show ?thesis by (auto simp: read_uint_def uint_arg_def intro!: exact_cong [OF exact_be])
  next
    case 6
    then show ?thesis by (auto simp: read_uint_def uint_arg_def intro: exact_cong [OF exact_fail])
  qed
qed


section \<open>Steps\<close>

lemma run_at_ensure:
  "(c \<Longrightarrow> run_at mk (f ()) pre rest Q) \<Longrightarrow> run_at mk (pbind (pensure c e) f) pre rest Q"
  by (simp add: pensure_def pbind_simps run_at_def)

lemma decodes_ensure: "c \<Longrightarrow> decodes mk (f ()) w x rest \<Longrightarrow> decodes mk (pbind (pensure c e) f) w x rest"
  by (simp add: pensure_def pbind_simps)

lemma remaining_at: "pbind cb_remaining f (rd_at pre rest) = f (length rest) (rd_at pre rest)"
  by (simp add: cb_remaining_def)

lemma run_at_remaining: "run_at rd_at (f (length rest)) pre rest Q \<Longrightarrow> run_at rd_at (pbind cb_remaining f) pre rest Q"
  by (simp add: run_at_def remaining_at)

lemma decodes_remaining:
  "decodes rd_at (f (length (w @ rest))) w x rest \<Longrightarrow> decodes rd_at (pbind cb_remaining f) w x rest"
  by (simp add: decodes_def remaining_at)

lemma peek_then: "pbind peek_u8 (\<lambda>_. p) (rd_at pre rest) = (if rest = [] then Some (Err CborEof) else p (rd_at pre rest))"
  by (cases rest) (simp_all add: peek_u8_at)

lemma run_at_peek: "run_at rd_at p pre rest Q \<Longrightarrow> run_at rd_at (pbind peek_u8 (\<lambda>_. p)) pre rest Q"
  by (simp add: run_at_def peek_then)

lemma decodes_peek: "w @ rest \<noteq> [] \<Longrightarrow> decodes rd_at p w x rest \<Longrightarrow> decodes rd_at (pbind peek_u8 (\<lambda>_. p)) w x rest"
  by (simp add: decodes_def peek_then)

lemma at_break_at: "at_break (rd_at pre rest) \<longleftrightarrow> (\<exists>r. rest = 0xff # r)"
  by (cases rest) (auto simp: at_break_def vec_get_def rd_at_def)

lemma run_at_seq:
  assumes "\<And>pre' rest'. length rest' \<le> length rest \<Longrightarrow> run_at mk p pre' rest' (\<lambda>_ w r. P w (length r))"
  shows "run_at mk (prepeat k p) pre rest (\<lambda>_ w r. seq_of P k w (length r))"
  using assms
proof (induction k arbitrary: pre rest)
  case 0
  show ?case unfolding prepeat.simps by (rule run_at_return) simp
next
  case (Suc k)
  show ?case unfolding prepeat.simps
  proof (rule run_at_bind [OF Suc.prems], simp, rule run_at_bind [OF Suc.IH])
    fix x w rest' y v and r :: "byte list"
    assume *: "rest = w @ rest'" "P w (length rest')"
    show "run_at mk p pre' rest'' (\<lambda>_ w r. P w (length r))" if "length rest'' \<le> length rest'" for pre' rest''
      using Suc.prems that * by simp
    assume "rest' = v @ r" "seq_of P k v (length r)"
    with * show "run_at mk (preturn (x # y)) ((pre @ w) @ v) r (\<lambda>_ u r. seq_of P (Suc k) (w @ v @ u) (length r))"
      by (intro run_at_return) auto
  qed
qed

lemma decodes_seq:
  assumes "seq_of (\<lambda>w n. \<forall>rest. length rest = n \<longrightarrow> decodes mk p w () rest) k w (length rest)"
  shows "decodes mk (prepeat k p) w (replicate k ()) rest"
  using assms
proof (induction k arbitrary: w)
  case 0
  then show ?case by (simp add: decodes_def)
next
  case (Suc k)
  then obtain u v where uv: "w = u @ v" "decodes mk p u () (v @ rest)"
      "seq_of (\<lambda>w n. \<forall>rest. length rest = n \<longrightarrow> decodes mk p w () rest) k v (length rest)"
    by auto
  from Suc.IH [OF uv(3)] have "decodes mk (pbind (prepeat k p) (\<lambda>xs. preturn (() # xs))) v (replicate (Suc k) ()) rest"
    by (simp add: decodes_def)
  then show ?case unfolding uv(1) prepeat.simps by (rule decodes_bind [OF uv(2)])
qed

text \<open>The loop up to a break byte, with an invariant of the pieces read.\<close>

lemma run_at_until_break:
  assumes "\<And>acc w rest'. rest = w @ rest' \<Longrightarrow> J acc w (length rest') \<Longrightarrow>
      run_at rd_at (body acc) (pre @ w) rest' (\<lambda>acc' w' r. w' \<noteq> [] \<and> J acc' (w @ w') (length r))"
    and "J acc [] (length rest)"
  shows "run_at rd_at (until_break body acc) pre rest (\<lambda>_ w r. \<exists>acc' v. J acc' v (Suc (length r)) \<and> w = v @ [0xff])"
  unfolding until_break_def
proof (rule run_at_bind [OF run_at_while [where J = "\<lambda>acc w r. J acc w (length r)"]])
  show "run_at rd_at (pbind peek_u8 (\<lambda>_. body acc)) (pre @ w) rest' (\<lambda>acc' w' r. w' \<noteq> [] \<and> J acc' (w @ w') (length r))"
    if "rest = w @ rest'" "J acc w (length rest')" for acc w rest'
    by (rule run_at_peek, rule assms(1) [OF that])
  fix acc' w rest'
  assume "J acc' w (length rest') \<and> \<not> \<not> at_break (rd_at (pre @ w) rest')"
  then obtain r where r: "rest' = 0xff # r" "J acc' w (Suc (length r))" by (auto simp: at_break_at)
  show "run_at rd_at (pbind peek_u8 (\<lambda>_. pbind read_u8 (\<lambda>_. preturn ()))) (pre @ w) rest'
      (\<lambda>_ w' r'. \<exists>acc' v. J acc' v (Suc (length r')) \<and> w @ w' = v @ [0xff])"
    by (rule run_at_peek, rule run_at_bind [OF exact_run [OF exact_u8]], rule run_at_return) (use r in auto)
qed (rule assms(2))

lemma decodes_break: "decodes rd_at (pbind peek_u8 (\<lambda>_. pbind read_u8 (\<lambda>_. preturn ()))) [0xff] () rest"
  by (rule decodes_peek, simp) (simp add: decodes_def read_u8_at)

text \<open>One round of the loop, and its end.\<close>

lemma decodes_until_nil: "decodes rd_at (until_break body acc) [0xff] () rest"
proof -
  have "decodes rd_at (pwhile (\<lambda>r. \<not> at_break r) (\<lambda>acc. pbind peek_u8 (\<lambda>_. body acc)) acc) [] acc ([0xff] @ rest)"
    by (simp add: decodes_def pwhile_unfold at_break_at)
  from decodes_bind [OF this decodes_break] show ?thesis by (simp only: until_break_def append_Nil)
qed

lemma decodes_until_step:
  assumes "u \<noteq> []" "hd u \<noteq> 0xff" "decodes rd_at (body acc) u acc' (v @ rest)" "decodes rd_at (until_break body acc') v () rest"
  shows "decodes rd_at (until_break body acc) (u @ v) () rest"
proof -
  have "until_break body acc (rd_at pre (u @ v @ rest)) = until_break body acc' (rd_at (pre @ u) (v @ rest))" for pre
    using assms(1-3) by (cases u) (simp_all add: until_break_def decodes_def pbind_def pwhile_unfold at_break_at peek_u8_at)
  with assms(4) show ?thesis by (simp add: decodes_def)
qed


section \<open>Strings and keys\<close>

lemma pbind_fail: "pbind (pfail e) f = pfail e"
  by (rule ext) simp

lemma exact_ensure: "(c \<Longrightarrow> exact mk p G) \<Longrightarrow> exact mk (pbind (pensure c e) (\<lambda>_. p)) (\<lambda>x w. c \<and> G x w)"
  by (cases c) (auto simp: pensure_def pbind_simps pbind_fail exact_fail intro: exact_cong)

lemma exact_sized:
  assumes "exact rd_at p G" "\<And>x w. G x w \<Longrightarrow> len \<le> length w"
  shows "exact rd_at (pbind cb_remaining (\<lambda>rem. pbind (pensure (len \<le> rem) e) (\<lambda>_. p))) G"
proof (rule exactI)
  show "run_at rd_at (pbind cb_remaining (\<lambda>rem. pbind (pensure (len \<le> rem) e) (\<lambda>_. p))) pre rest (\<lambda>x w _. G x w)"
    for pre rest
    by (rule run_at_remaining, rule run_at_ensure, rule exact_run [OF assms(1)])
  show "decodes rd_at (pbind cb_remaining (\<lambda>rem. pbind (pensure (len \<le> rem) e) (\<lambda>_. p))) w x rest" if "G x w" for x w rest
    by (rule decodes_remaining, rule decodes_ensure, use assms(2) [OF that] in simp, rule exact_decodes [OF assms(1) that])
qed

lemma exact_len: "exact rd_at (read_len ai) (uint_arg ai)"
  by (simp add: read_len_def exact_uint)

lemma exact_string:
  "exact rd_at (validate_string ai max_len)
     (\<lambda>_ w. \<exists>a s. uint_arg ai (length s) a \<and> length s \<le> max_len \<and> w = a @ s)"
  unfolding validate_string_def
  by (rule exact_cong [OF exact_bind [OF exact_len exact_ensure [OF exact_sized [OF exact_skip]]]]) auto

lemma exact_head_then:
  assumes "\<And>b. exact rd_at (f b) (H b)"
  shows "exact rd_at (pbind read_u8 f) (\<lambda>x w. \<exists>b v. w = b # v \<and> H b x v)"
  by (rule exact_cong [OF exact_bind [OF exact_u8 assms]]) auto

lemma exact_map_key: "exact rd_at read_map_key cbor_key"
proof -
  have utf8: "exact rd_at (pbind (read_exact len) (\<lambda>bs. plift (ok_or (from_utf8 (map unat bs)) CborKeyUtf8)))
      (\<lambda>key w. length w = len \<and> from_utf8 (map unat w) = Some key)" for len
    by (rule exact_cong [OF exact_bind [OF exact_read_exact exact_lift]]) (auto simp: ok_or_def split: option.splits)
  have "exact rd_at read_map_key (\<lambda>key w. \<exists>b v. w = b # v \<and> major_of b = 3 \<and> info_of b \<noteq> 31 \<and>
      (\<exists>len a s. v = a @ s \<and> uint_arg (info_of b) len a \<and> len \<le> max_cbor_key_bytes \<and> length s = len \<and>
        from_utf8 (map unat s) = Some key))"
    unfolding read_map_key_def
    by (rule exact_head_then, rule exact_ensure, rule exact_ensure,
        rule exact_bind [OF exact_len exact_ensure [OF exact_sized [OF utf8]]]) simp
  then show ?thesis
  proof (rule exact_cong, goal_cases)
    case (1 key w)
    show ?case
    proof
      assume "\<exists>b v. w = b # v \<and> major_of b = 3 \<and> info_of b \<noteq> 31 \<and>
        (\<exists>len a s. v = a @ s \<and> uint_arg (info_of b) len a \<and> len \<le> max_cbor_key_bytes \<and> length s = len \<and>
          from_utf8 (map unat s) = Some key)"
      then obtain b a s where "w = (b # a) @ s" "cbor_head 3 (length s) (b # a)" "length s \<le> max_cbor_key_bytes"
          "from_utf8 (map unat s) = Some key" by (auto simp: cbor_head_iff)
      then show "cbor_key key w" unfolding cbor_key_def by blast
    next
      assume "cbor_key key w"
      then show "\<exists>b v. w = b # v \<and> major_of b = 3 \<and> info_of b \<noteq> 31 \<and>
        (\<exists>len a s. v = a @ s \<and> uint_arg (info_of b) len a \<and> len \<le> max_cbor_key_bytes \<and> length s = len \<and>
          from_utf8 (map unat s) = Some key)"
        unfolding cbor_key_def by (elim exE conjE cbor_headE) auto
    qed
  qed
qed

lemma cbor_chunk_iff:
  "cbor_chunk m s w \<longleftrightarrow> (\<exists>b a. w = b # a @ s \<and> major_of b = m \<and> uint_arg (info_of b) (length s) a)"
  by (auto simp: cbor_chunk_def cbor_head_def major_div info_mod)

lemma uint_arg_not31: "\<not> uint_arg 31 v a"
  by (simp add: uint_arg_def)

lemma exact_chunk:
  "exact rd_at (chunk_step d is_text max_total tot)
     (\<lambda>tot' w. d \<le> max_cbor_nesting \<and> (\<exists>s. cbor_chunk (if is_text then 3 else 2) s w \<and> length s \<le> max_total \<and>
        tot' = sat_add_u64 tot (length s) \<and> tot' \<le> max_total))"
proof -
  let ?m = "if is_text then 3 else 2 :: nat"
  have step: "exact rd_at (let tot' = sat_add_u64 tot len in pbind (pensure (tot' \<le> max_total) (CborTooLong tot')) (\<lambda>_.
      pbind (cb_skip len) (\<lambda>_. preturn tot')))
      (\<lambda>tot' w. sat_add_u64 tot len \<le> max_total \<and> (length w = len \<and> tot' = sat_add_u64 tot len))" for len
    unfolding Let_def by (rule exact_ensure, rule exact_map [OF exact_skip]) auto
  have "exact rd_at (chunk_step d is_text max_total tot) (\<lambda>tot' w. d \<le> max_cbor_nesting \<and>
      (\<exists>b v. w = b # v \<and> major_of b = ?m \<and> info_of b \<noteq> 31 \<and>
        (\<exists>len a s. v = a @ s \<and> uint_arg (info_of b) len a \<and> len \<le> max_total \<and>
          sat_add_u64 tot len \<le> max_total \<and> (length s = len \<and> tot' = sat_add_u64 tot len))))"
    unfolding chunk_step_def
    by (rule exact_ensure, rule exact_head_then, rule exact_ensure, rule exact_ensure,
        rule exact_bind [OF exact_len exact_ensure [OF exact_sized [OF step]]]) simp
  then show ?thesis
  proof (rule exact_cong, goal_cases)
    case (1 tot' w)
    show ?case
      unfolding cbor_chunk_iff using uint_arg_not31 by (auto; blast)
  qed
qed


section \<open>Soundness\<close>

lemma cbor_head_not_break: "cbor_head m v h \<Longrightarrow> m < 7 \<Longrightarrow> h \<noteq> [] \<and> hd h \<noteq> 0xff"
  by (auto simp: cbor_head_def)

lemma cbor_item_starts: "cbor_item d lim w n \<Longrightarrow> w \<noteq> [] \<and> hd w \<noteq> 0xff"
proof (induction rule: cbor_item.cases)
  case (string d m s w lim n)
  then show ?case by (auto simp: cbor_chunk_def dest: cbor_head_not_break)
qed (auto dest: cbor_head_not_break)

lemma cbor_key_starts: "cbor_key key w \<Longrightarrow> w \<noteq> [] \<and> hd w \<noteq> 0xff"
  by (auto simp: cbor_key_def dest: cbor_head_not_break)

definition lim_ok :: "limits \<Rightarrow> bool" where
  "lim_ok lim \<longleftrightarrow> max_text_len lim < u64_max \<and> max_bytes_len lim < u64_max"

lemma lim_ok_map_value: "lim_ok lim \<Longrightarrow> lim_ok (limits_for_map_value key lim)"
  by (auto simp: lim_ok_def limits_for_map_value_def max_message_bytes_def max_small_string_bytes_def u64_max_def)

lemma sat_add_below: "sat_add_u64 a b \<le> k \<Longrightarrow> k < u64_max \<Longrightarrow> sat_add_u64 a b = a + b"
  by (auto simp: sat_add_u64_def)

lemma run_at_chunks:
  assumes "k < u64_max"
  shows "run_at rd_at (validate_indefinite_bytes d is_text k) pre rest (\<lambda>_ w r. \<exists>ss cs.
    list_all2 (cbor_chunk (if is_text then 3 else 2)) ss cs \<and> (ss = [] \<or> d \<le> max_cbor_nesting) \<and>
    sum_list (map length ss) \<le> k \<and> w = concat cs @ [0xff])"
proof -
  let ?m = "if is_text then 3 else 2 :: nat"
  let ?J = "\<lambda>tot w n :: nat. \<exists>ss cs. list_all2 (cbor_chunk ?m) ss cs \<and> (ss = [] \<or> d \<le> max_cbor_nesting) \<and>
      tot = sum_list (map length ss) \<and> tot \<le> k \<and> w = concat cs"
  have "run_at rd_at (until_break (chunk_step d is_text k) 0) pre rest
      (\<lambda>_ w r. \<exists>acc' v. ?J acc' v (Suc (length r)) \<and> w = v @ [0xff])"
  proof (rule run_at_until_break)
    fix tot w rest' assume "?J tot w (length rest')"
    then obtain ss cs where J: "list_all2 (cbor_chunk ?m) ss cs" "tot = sum_list (map length ss)" "w = concat cs" by blast
    show "run_at rd_at (chunk_step d is_text k tot) (pre @ w) rest' (\<lambda>tot' w' r. w' \<noteq> [] \<and> ?J tot' (w @ w') (length r))"
    proof (rule run_at_conseq [OF exact_run [OF exact_chunk]])
      fix tot' w' r
      assume "d \<le> max_cbor_nesting \<and> (\<exists>s. cbor_chunk ?m s w' \<and> length s \<le> k \<and> tot' = sat_add_u64 tot (length s) \<and> tot' \<le> k)"
      then obtain s where s: "cbor_chunk ?m s w'" "tot' = sat_add_u64 tot (length s)" "tot' \<le> k" "d \<le> max_cbor_nesting" by blast
      then have "tot' = tot + length s" using sat_add_below [OF _ assms] by blast
      with s J show "w' \<noteq> [] \<and> ?J tot' (w @ w') (length r)"
        by (intro conjI exI [of _ "ss @ [s]"] exI [of _ "cs @ [w']"]) (auto simp: list_all2_appendI cbor_chunk_iff)
    qed
  next
    show "?J 0 [] (length rest)" by (rule exI [of _ "[]"], rule exI [of _ "[]"]) simp
  qed
  then show ?thesis unfolding validate_indefinite_bytes_def by (rule run_at_conseq) blast
qed

text \<open>A counted loop up to a break byte.\<close>

lemma run_at_counted:
  assumes "\<And>pre' rest'. length rest' \<le> length rest \<Longrightarrow>
      run_at rd_at p pre' rest' (\<lambda>_ w r. P w (length r) \<and> w \<noteq> [])"
  shows "run_at rd_at (until_break (\<lambda>j. pbind (pensure (j < k) (e j)) (\<lambda>_. pbind p (\<lambda>_. preturn (j + 1)))) 0) pre rest
    (\<lambda>_ w r. \<exists>j v. j \<le> k \<and> seq_of P j v (Suc (length r)) \<and> w = v @ [0xff])"
proof -
  have "run_at rd_at (until_break (\<lambda>j. pbind (pensure (j < k) (e j)) (\<lambda>_. pbind p (\<lambda>_. preturn (j + 1)))) 0) pre rest
      (\<lambda>_ w r. \<exists>j v. (j \<le> k \<and> seq_of P j v (Suc (length r))) \<and> w = v @ [0xff])"
  proof (rule run_at_until_break)
    fix j w rest' assume J: "rest = w @ rest'" "j \<le> k \<and> seq_of P j w (length rest')"
    show "run_at rd_at (pbind (pensure (j < k) (e j)) (\<lambda>_. pbind p (\<lambda>_. preturn (j + 1)))) (pre @ w) rest'
        (\<lambda>j' w' r. w' \<noteq> [] \<and> j' \<le> k \<and> seq_of P j' (w @ w') (length r))"
    proof (rule run_at_ensure, rule run_at_bind [OF assms])
      fix x u r assume "j < k" "rest' = u @ r" "P u (length r) \<and> u \<noteq> []"
      with J show "run_at rd_at (preturn (j + 1)) ((pre @ w) @ u) r
          (\<lambda>j' w' r. u @ w' \<noteq> [] \<and> j' \<le> k \<and> seq_of P j' (w @ u @ w') (length r))"
        by (intro run_at_return) (simp del: seq_of.simps add: seq_of_snoc)
    qed (use J in simp)
  qed simp
  then show ?thesis by simp
qed

lemma run_at_pair:
  assumes "\<And>lim' pre' rest'. lim_ok lim' \<Longrightarrow> length rest' \<le> length rest \<Longrightarrow>
      run_at rd_at (item lim') pre' rest' (\<lambda>_ w r. P lim' w (length r))"
    and "lim_ok lim" "length rest' \<le> length rest"
  shows "run_at rd_at (validate_pair item lim) pre' rest'
    (\<lambda>_ w r. cbor_pair (\<lambda>key. P (limits_for_map_value key lim)) w (length r) \<and> w \<noteq> [])"
  unfolding validate_pair_def
proof (rule run_at_bind [OF exact_run [OF exact_map_key]])
  fix key w r assume *: "rest' = w @ r" "cbor_key key w"
  then show "run_at rd_at (item (limits_for_map_value key lim)) (pre' @ w) r
      (\<lambda>_ w' r'. cbor_pair (\<lambda>key. P (limits_for_map_value key lim)) (w @ w') (length r') \<and> w @ w' \<noteq> [])"
    using assms(3)
    by (intro run_at_conseq [OF assms(1) [OF lim_ok_map_value [OF assms(2)]]])
      (auto simp: cbor_pair_def dest: cbor_key_starts)
qed


lemma run_at_array:
  assumes "\<And>pre' rest'. length rest' \<le> length rest \<Longrightarrow> run_at rd_at p pre' rest' (\<lambda>_ w r. P w (length r))"
  shows "run_at rd_at (validate_array p lim ai) pre rest (\<lambda>_ w r. \<exists>k a v. uint_arg ai k a \<and> k \<le> max_array_len lim \<and>
    k * max (min_array_item_bytes lim) 1 \<le> length v + length r \<and> seq_of P k v (length r) \<and> w = a @ v)"
  unfolding validate_array_def
proof (rule run_at_bind [OF exact_run [OF exact_len]], rule run_at_ensure, rule run_at_remaining, rule run_at_ensure,
    rule run_at_bind [OF run_at_seq [OF assms]])
  fix k a rest' us v and r :: "byte list"
  assume *: "rest = a @ rest'" "uint_arg ai k a" "k \<le> max_array_len lim"
    "k \<le> length rest' div max (min_array_item_bytes lim) 1"
  show "length rest'' \<le> length rest" if "length rest'' \<le> length rest'" for rest'' :: "byte list" using that * by simp
  assume "rest' = v @ r" "seq_of P k v (length r)"
  moreover have "k * max (min_array_item_bytes lim) 1 \<le> length rest'"
    using *(4) by (metis div_times_less_eq_dividend mult_le_mono1 order_trans)
  ultimately show "run_at rd_at (preturn ()) ((pre @ a) @ v) r (\<lambda>_ w r. \<exists>k' a' v'. uint_arg ai k' a' \<and> k' \<le> max_array_len lim \<and>
      k' * max (min_array_item_bytes lim) 1 \<le> length v' + length r \<and> seq_of P k' v' (length r) \<and> a @ v @ w = a' @ v')"
    using * by (intro run_at_return) auto
qed

lemma run_at_dict:
  assumes "\<And>pre' rest'. length rest' \<le> length rest \<Longrightarrow>
      run_at rd_at (validate_pair item lim) pre' rest' (\<lambda>_ w r. P w (length r))"
  shows "run_at rd_at (validate_map item lim ai) pre rest (\<lambda>_ w r. \<exists>k a v. uint_arg ai k a \<and> k \<le> max_cbor_map_len \<and>
    2 * k \<le> length v + length r \<and> seq_of P k v (length r) \<and> w = a @ v)"
  unfolding validate_map_def
proof (rule run_at_bind [OF exact_run [OF exact_len]], rule run_at_ensure, rule run_at_remaining, rule run_at_ensure,
    rule run_at_bind [OF run_at_seq [OF assms]])
  fix k a rest' us v and r :: "byte list"
  assume *: "rest = a @ rest'" "uint_arg ai k a" "k \<le> max_cbor_map_len" "sat_mul_u64 k 2 \<le> length rest'"
  show "length rest'' \<le> length rest" if "length rest'' \<le> length rest'" for rest'' :: "byte list" using that * by simp
  have "sat_mul_u64 k 2 = 2 * k" using *(3) by (simp add: sat_mul_u64_def max_cbor_map_len_def u64_max_def)
  moreover assume "rest' = v @ r" "seq_of P k v (length r)"
  ultimately show "run_at rd_at (preturn ()) ((pre @ a) @ v) r (\<lambda>_ w r. \<exists>k' a' v'. uint_arg ai k' a' \<and> k' \<le> max_cbor_map_len \<and>
      2 * k' \<le> length v' + length r \<and> seq_of P k' v' (length r) \<and> a @ v @ w = a' @ v')"
    using * by (intro run_at_return) auto
qed

lemma exact_simple:
  "exact rd_at (validate_simple ai) (\<lambda>_ s. ai \<le> 23 \<and> s = [] \<or> ai = 24 \<and> length s = 1 \<or> ai = 25 \<and> length s = 2 \<or>
     ai = 26 \<and> length s = 4 \<or> ai = 27 \<and> length s = 8)"
proof -
  consider "ai \<le> 23" | "ai = 24" | "ai = 25" | "ai = 26" | "ai = 27" | "27 < ai" by linarith
  then show ?thesis
  proof cases
    case 1
    then show ?thesis by (auto simp: validate_simple_def intro: exact_cong [OF exact_return])
  next
    case 6
    then show ?thesis by (auto simp: validate_simple_def intro: exact_cong [OF exact_fail])
  qed (auto simp: validate_simple_def intro: exact_cong [OF exact_skip])
qed

lemma headed: "uint_arg (info_of b) v a \<Longrightarrow> cbor_head (major_of b) v (b # a)"
  by (simp add: cbor_head_iff)

lemma run_at_string_arm:
  assumes "d \<le> max_cbor_nesting" "lim_ok lim" "major_of b = (if is_text then 3 else 2)"
  shows "run_at rd_at (if info_of b = 31 then validate_indefinite_bytes (d + 1) is_text (string_limit lim (major_of b))
      else validate_string (info_of b) (string_limit lim (major_of b))) pre rest (\<lambda>_ w r. cbor_item d lim (b # w) (length r))"
proof (cases "info_of b = 31")
  case True
  have "string_limit lim (major_of b) < u64_max" using assms(2) by (simp add: lim_ok_def string_limit_def)
  from run_at_chunks [OF this, of "d + 1" is_text pre rest]
  have "run_at rd_at (validate_indefinite_bytes (d + 1) is_text (string_limit lim (major_of b))) pre rest
      (\<lambda>_ w r. cbor_item d lim (b # w) (length r))"
  proof (rule run_at_conseq, elim exE conjE)
    fix w ss cs and r :: "byte list"
    assume "list_all2 (cbor_chunk (if is_text then 3 else 2)) ss cs" "ss = [] \<or> d + 1 \<le> max_cbor_nesting"
      "sum_list (map length ss) \<le> string_limit lim (major_of b)" "w = concat cs @ [0xff]"
    moreover have "unat b = major_of b * 32 + 31" using head_split [of b] True by simp
    ultimately show "cbor_item d lim (b # w) (length r)"
      using assms cbor_item.open_string [of d "major_of b" b ss cs lim "length r"] by (simp split: if_splits)
  qed
  with True show ?thesis by simp
next
  case False
  have "run_at rd_at (validate_string (info_of b) (string_limit lim (major_of b))) pre rest (\<lambda>_ w r. cbor_item d lim (b # w) (length r))"
  proof (rule run_at_conseq [OF exact_run [OF exact_string]], elim exE conjE)
    fix w a s and r :: "byte list"
    assume "uint_arg (info_of b) (length s) a" "length s \<le> string_limit lim (major_of b)" "w = a @ s"
    then show "cbor_item d lim (b # w) (length r)"
      using assms by (intro cbor_item.string [where m = "major_of b" and s = s]) (auto simp: cbor_chunk_iff)
  qed
  with False show ?thesis by simp
qed

lemma run_at_array_arm:
  assumes "d \<le> max_cbor_nesting" "major_of b = 4"
    and "\<And>pre' rest'. length rest' \<le> length rest \<Longrightarrow> run_at rd_at item pre' rest' (\<lambda>_ w r. cbor_item (Suc d) lim w (length r))"
  shows "run_at rd_at (if info_of b = 31 then validate_indefinite_array item lim else validate_array item lim (info_of b)) pre rest
    (\<lambda>_ w r. cbor_item d lim (b # w) (length r))"
proof (cases "info_of b = 31")
  case True
  have b: "unat b = 4 * 32 + 31" using head_split [of b] True assms(2) by simp
  have "run_at rd_at item pre' rest' (\<lambda>_ w r. cbor_item (Suc d) lim w (length r) \<and> w \<noteq> [])"
    if "length rest' \<le> length rest" for pre' rest'
    using assms(3) [OF that] by (rule run_at_conseq) (auto dest: cbor_item_starts)
  from run_at_counted [OF this]
  have "run_at rd_at (validate_indefinite_array item lim) pre rest (\<lambda>_ w r. cbor_item d lim (b # w) (length r))"
    unfolding validate_indefinite_array_def
    by (rule run_at_conseq) (use cbor_item.open_array [OF assms(1) b] in blast)+
  with True show ?thesis by simp
next
  case False
  from run_at_array [OF assms(3)]
  have "run_at rd_at (validate_array item lim (info_of b)) pre rest (\<lambda>_ w r. cbor_item d lim (b # w) (length r))"
  proof (rule run_at_conseq, goal_cases)
    case (2 x w r)
    then show ?case using cbor_item.array [OF assms(1) headed [of b, unfolded assms(2)]] by auto
  qed
  with False show ?thesis by simp
qed

lemma run_at_dict_arm:
  assumes "d \<le> max_cbor_nesting" "major_of b = 5"
    and pair: "\<And>pre' rest'. length rest' \<le> length rest \<Longrightarrow> run_at rd_at (validate_pair item lim) pre' rest'
      (\<lambda>_ w r. cbor_pair (\<lambda>key. cbor_item (Suc d) (limits_for_map_value key lim)) w (length r) \<and> w \<noteq> [])"
  shows "run_at rd_at (if info_of b = 31 then validate_indefinite_map item lim else validate_map item lim (info_of b)) pre rest
    (\<lambda>_ w r. cbor_item d lim (b # w) (length r))"
proof (cases "info_of b = 31")
  case True
  have b: "unat b = 5 * 32 + 31" using head_split [of b] True assms(2) by simp
  from run_at_counted [OF pair]
  have "run_at rd_at (validate_indefinite_map item lim) pre rest (\<lambda>_ w r. cbor_item d lim (b # w) (length r))"
    unfolding validate_indefinite_map_def
    by (rule run_at_conseq) (use cbor_item.open_dict [OF assms(1) b] in blast)+
  with True show ?thesis by simp
next
  case False
  have "run_at rd_at (validate_pair item lim) pre' rest'
      (\<lambda>_ w r. cbor_pair (\<lambda>key. cbor_item (Suc d) (limits_for_map_value key lim)) w (length r))"
    if "length rest' \<le> length rest" for pre' rest'
    using pair [OF that] by (rule run_at_conseq) blast
  from run_at_dict [OF this]
  have "run_at rd_at (validate_map item lim (info_of b)) pre rest (\<lambda>_ w r. cbor_item d lim (b # w) (length r))"
  proof (rule run_at_conseq, goal_cases)
    case (2 x w r)
    then show ?case using cbor_item.dict [OF assms(1) headed [of b, unfolded assms(2)]] by auto
  qed
  with False show ?thesis by simp
qed

lemma run_at_validate_body:
  assumes item: "\<And>lim' pre' rest'. lim_ok lim' \<Longrightarrow> length rest' \<le> length rest \<Longrightarrow>
      run_at rd_at (item lim') pre' rest' (\<lambda>_ w r. cbor_item (Suc d) lim' w (length r))"
    and d: "d \<le> max_cbor_nesting" and lim: "lim_ok lim"
  shows "run_at rd_at (validate_body item d lim b) pre rest (\<lambda>_ w r. cbor_item d lim (b # w) (length r))"
proof -
  consider "major_of b \<le> 1" | "major_of b = 2" | "major_of b = 3" | "major_of b = 4" | "major_of b = 5"
    | "major_of b = 6" | "major_of b = 7" using major_lt [of b] by linarith
  then show ?thesis
  proof cases
    case 1
    then have "validate_body item d lim b = pbind (read_uint (info_of b)) (\<lambda>_. preturn ())"
      by (auto simp: validate_body_def Let_def)
    moreover have "run_at rd_at (pbind (read_uint (info_of b)) (\<lambda>_. preturn ())) pre rest (\<lambda>_ w r. cbor_item d lim (b # w) (length r))"
      by (rule run_at_bind [OF exact_run [OF exact_uint]], rule run_at_return)
        (use cbor_item.integer [OF d 1 headed] in auto)
    ultimately show ?thesis by simp
  next
    case 2
    then show ?thesis using run_at_string_arm [OF d lim, of b False] by (simp add: validate_body_def string_limit_def Let_def cong: if_cong)
  next
    case 3
    then show ?thesis using run_at_string_arm [OF d lim, of b True] by (simp add: validate_body_def string_limit_def Let_def cong: if_cong)
  next
    case 4
    then show ?thesis using run_at_array_arm [OF d 4 item [OF lim]] by (simp add: validate_body_def Let_def)
  next
    case 5
    have "run_at rd_at (if info_of b = 31 then validate_indefinite_map item lim else validate_map item lim (info_of b)) pre rest
        (\<lambda>_ w r. cbor_item d lim (b # w) (length r))"
      by (rule run_at_dict_arm [OF d 5], rule run_at_pair [where P = "cbor_item (Suc d)" and rest = rest, OF item lim])
    with 5 show ?thesis by (simp add: validate_body_def Let_def)
  next
    case 6
    have "run_at rd_at (pbind (read_uint (info_of b)) (\<lambda>_. item lim)) pre rest (\<lambda>_ w r. cbor_item d lim (b # w) (length r))"
    proof (rule run_at_bind [OF exact_run [OF exact_uint]], rule run_at_conseq [OF item [OF lim]])
      fix v a rest' and x :: unit and w r
      assume "uint_arg (info_of b) v a" "cbor_item (Suc d) lim w (length (r :: byte list))"
      from cbor_item.tag [OF d headed [OF this(1), unfolded 6] this(2)]
      show "cbor_item d lim (b # a @ w) (length r)" by simp
    qed simp
    with 6 show ?thesis by (simp add: validate_body_def Let_def)
  next
    case 7
    have "run_at rd_at (validate_simple (info_of b)) pre rest (\<lambda>_ w r. cbor_item d lim (b # w) (length r))"
      using cbor_item.simple [OF d, of b "info_of b"] head_split [of b] 7
      by (intro run_at_conseq [OF exact_run [OF exact_simple]]) auto
    with 7 show ?thesis by (simp add: validate_body_def Let_def)
  qed
qed

lemma validate_item_unfold:
  "validate_item d lim = pbind (pensure (d \<le> max_cbor_nesting) CborTooDeep) (\<lambda>_.
     pbind read_u8 (validate_body (validate_item (d + 1)) d lim))"
  by (rule ext) (rule validate_item.simps)

lemma run_at_item:
  "lim_ok lim \<Longrightarrow> run_at rd_at (validate_item d lim) pre rest (\<lambda>_ w r. cbor_item d lim w (length r))"
proof (induction "length rest" arbitrary: d lim pre rest rule: less_induct)
  case less
  show ?case
  proof (subst validate_item_unfold, rule run_at_ensure, rule run_at_bind [OF exact_run [OF exact_u8]])
    fix b w rest' assume *: "d \<le> max_cbor_nesting" "rest = w @ rest'" "w = [b]"
    show "run_at rd_at (validate_body (validate_item (d + 1)) d lim b) (pre @ w) rest'
        (\<lambda>_ w' r. cbor_item d lim (w @ w') (length r))"
      unfolding *(3) append.simps by (rule run_at_validate_body [OF _ *(1) less(2)]) (use less(1) * in simp)
  qed
qed

section \<open>Completeness\<close>

text \<open>The bytes are read as an item wherever so many bytes follow them.\<close>

definition readable :: "unit cb \<Rightarrow> byte list \<Rightarrow> nat \<Rightarrow> bool" where
  "readable p w n \<longleftrightarrow> (\<forall>rest. length rest = n \<longrightarrow> decodes rd_at p w () rest)"

lemma decodes_then_return: "decodes mk p w x rest \<Longrightarrow> decodes mk (pbind p (\<lambda>_. preturn y)) w y rest"
  using decodes_bind [where f = "\<lambda>_. preturn y" and w = w and w' = "[]", OF _ decodes_return] by simp

lemma decodes_chunks:
  assumes "list_all2 (cbor_chunk (if is_text then 3 else 2)) ss cs" "ss = [] \<or> d \<le> max_cbor_nesting"
    and "tot + sum_list (map length ss) \<le> k" "k < u64_max"
  shows "decodes rd_at (until_break (chunk_step d is_text k) tot) (concat cs @ [0xff]) () rest"
  using assms
proof (induction arbitrary: tot rule: list_all2_induct)
  case Nil
  then show ?case by (simp add: decodes_until_nil)
next
  case (Cons s ss c cs)
  have sat: "sat_add_u64 tot (length s) = tot + length s" using Cons.prems by (simp add: sat_add_u64_def)
  obtain h where "c = h @ s" "cbor_head (if is_text then 3 else 2) (length s) h" using Cons(1) by (auto simp: cbor_chunk_def)
  then have "c \<noteq> []" "hd c \<noteq> 0xff" using cbor_head_not_break [of _ "length s" h] by (auto split: if_splits)
  moreover have "decodes rd_at (chunk_step d is_text k tot) c (tot + length s) ((concat cs @ [0xff]) @ rest)"
    using Cons sat by (intro exact_decodes [OF exact_chunk]) auto
  moreover have "decodes rd_at (until_break (chunk_step d is_text k) (tot + length s)) (concat cs @ [0xff]) () rest"
    using Cons.prems by (intro Cons.IH) auto
  ultimately show ?case using decodes_until_step [where v = "concat cs @ [0xff]"] by simp
qed

lemma decodes_counted:
  assumes "seq_of (\<lambda>w n. readable p w n \<and> w \<noteq> [] \<and> hd w \<noteq> 0xff) j w (Suc (length rest))" "i + j \<le> k"
  shows "decodes rd_at (until_break (\<lambda>j. pbind (pensure (j < k) (e j)) (\<lambda>_. pbind p (\<lambda>_. preturn (j + 1)))) i) (w @ [0xff]) () rest"
  using assms
proof (induction j arbitrary: i w)
  case 0
  then show ?case by (simp add: decodes_until_nil)
next
  case (Suc j)
  then obtain u v where uv: "w = u @ v" "readable p u (length v + Suc (length rest))" "u \<noteq> []" "hd u \<noteq> 0xff"
      "seq_of (\<lambda>w n. readable p w n \<and> w \<noteq> [] \<and> hd w \<noteq> 0xff) j v (Suc (length rest))" by auto
  from uv(2) have "decodes rd_at p u () (v @ [0xff] @ rest)" by (simp add: readable_def)
  then have "decodes rd_at (pbind (pensure (i < k) (e i)) (\<lambda>_. pbind p (\<lambda>_. preturn (i + 1)))) u (i + 1) ((v @ [0xff]) @ rest)"
    using Suc.prems(2) by (intro decodes_ensure decodes_then_return) simp_all
  from decodes_until_step [OF uv(3,4) this Suc.IH [OF uv(5)]] Suc.prems(2) show ?case by (simp only: uv(1) append_assoc add_Suc_shift)
qed

lemma decodes_item_head:
  assumes "d \<le> max_cbor_nesting" "decodes rd_at (validate_body (validate_item (Suc d)) d lim b) w () rest"
  shows "decodes rd_at (validate_item d lim) (b # w) () rest"
proof -
  have "decodes rd_at (pbind read_u8 (validate_body (validate_item (Suc d)) d lim)) ([b] @ w) () rest"
    by (rule decodes_bind [where x = b]) (simp_all add: exact_decodes [OF exact_u8] assms(2))
  then show ?thesis using assms(1) by (subst validate_item_unfold) (intro decodes_ensure, simp_all)
qed

lemma readable_seq: "seq_of (readable p) k w (length rest) \<Longrightarrow> decodes rd_at (prepeat k p) w (replicate k ()) rest"
  unfolding readable_def [abs_def] by (rule decodes_seq)

lemma decodes_array:
  assumes "uint_arg ai k a" "k \<le> max_array_len lim" "k * max (min_array_item_bytes lim) 1 \<le> length w + length rest"
    and "seq_of (readable p) k w (length rest)"
  shows "decodes rd_at (validate_array p lim ai) (a @ w) () rest"
  unfolding validate_array_def using assms(2,3)
  by (intro decodes_bind [OF exact_decodes [OF exact_len assms(1)]] decodes_ensure decodes_remaining
      decodes_then_return [OF readable_seq [OF assms(4)]])
    (simp_all add: less_eq_div_iff_mult_less_eq)

lemma decodes_dict:
  assumes "uint_arg ai k a" "k \<le> max_cbor_map_len" "2 * k \<le> length w + length rest"
    and "seq_of (readable (validate_pair item lim)) k w (length rest)"
  shows "decodes rd_at (validate_map item lim ai) (a @ w) () rest"
  unfolding validate_map_def using assms(2,3)
  by (intro decodes_bind [OF exact_decodes [OF exact_len assms(1)]] decodes_ensure decodes_remaining
      decodes_then_return [OF readable_seq [OF assms(4)]])
    (simp_all add: sat_mul_u64_def)

lemma readable_pair:
  assumes "cbor_pair (\<lambda>key. readable (item (limits_for_map_value key lim))) w n"
  shows "readable (validate_pair item lim) w n \<and> w \<noteq> [] \<and> hd w \<noteq> 0xff"
proof -
  obtain key u v where *: "cbor_key key u" "readable (item (limits_for_map_value key lim)) v n" "w = u @ v"
    using assms by (auto simp: cbor_pair_def)
  have "decodes rd_at (validate_pair item lim) w () rest" if "length rest = n" for rest
    unfolding *(3) validate_pair_def using *(2) that
    by (intro decodes_bind [OF exact_decodes [OF exact_map_key *(1)]]) (simp add: readable_def)
  then show ?thesis using cbor_key_starts [OF *(1)] *(3) by (auto simp: readable_def)
qed

lemma seq_of_weaken: "seq_of P k w n \<Longrightarrow> (\<And>w n. P w n \<Longrightarrow> Q w n) \<Longrightarrow> seq_of Q k w n"
  by (rule seq_of_mono [THEN mp]) auto

lemma readable_pairs:
  assumes "seq_of (cbor_pair (\<lambda>key w n. A key w n \<and> (lim_ok (limits_for_map_value key lim) \<longrightarrow>
      readable (item (limits_for_map_value key lim)) w n))) k w n" "lim_ok lim"
  shows "seq_of (\<lambda>w n. readable (validate_pair item lim) w n \<and> w \<noteq> [] \<and> hd w \<noteq> 0xff) k w n"
  by (rule seq_of_weaken [OF assms(1)], rule readable_pair, erule cbor_pair_mono [THEN mp, rotated])
    (simp add: lim_ok_map_value [OF assms(2)])

lemma decodes_string:
  "uint_arg ai (length s) a \<Longrightarrow> length s \<le> k \<Longrightarrow> decodes rd_at (validate_string ai k) (a @ s) () rest"
  by (rule exact_decodes [OF exact_string]) blast

lemma uint_arg_closed: "uint_arg ai v a \<Longrightarrow> ai \<noteq> 31"
  by (auto simp: uint_arg_def)

lemma open_head:
  assumes "unat b = m * 32 + 31"
  shows "major_of b = m" "info_of b = 31"
  using assms by (auto simp: major_div info_mod)

lemma readable_item: "cbor_item d lim w n \<Longrightarrow> lim_ok lim \<Longrightarrow> readable (validate_item d lim) w n"
proof (induction rule: cbor_item.induct)
  case (integer d m v w lim n)
  obtain b a where "w = b # a" "major_of b = m" "uint_arg (info_of b) v a"
    using integer(3) by (auto elim: cbor_headE)
  with integer show ?case
    by (auto simp: readable_def validate_body_def Let_def intro!: decodes_item_head decodes_then_return exact_decodes [OF exact_uint])
next
  case (string d m s w lim n)
  then obtain b a where "w = b # a @ s" "major_of b = m" "uint_arg (info_of b) (length s) a" "info_of b \<noteq> 31"
    using uint_arg_closed by (fastforce simp: cbor_chunk_iff)
  with string show ?case
    by (auto simp: readable_def validate_body_def Let_def string_limit_def
        intro!: decodes_item_head decodes_string)
next
  case (open_string d m b ss cs lim n)
  then show ?case
    using open_head [OF open_string(3)]
    by (auto simp: readable_def validate_body_def Let_def string_limit_def validate_indefinite_bytes_def lim_ok_def
        intro!: decodes_item_head decodes_chunks decodes_until_nil)
next
  case (array d k h lim w n)
  have "seq_of (readable (validate_item (Suc d) lim)) k w n"
    using array by (auto intro: seq_of_weaken)
  moreover obtain b a where "h = b # a" "major_of b = 4" "uint_arg (info_of b) k a" "info_of b \<noteq> 31"
    using array(2) by (auto elim!: cbor_headE dest: uint_arg_closed)
  ultimately show ?case
    using array(1,3,4)
    by (auto simp: readable_def [of "validate_item d lim"] validate_body_def Let_def intro!: decodes_item_head decodes_array)
next
  case (open_array d b k lim w n)
  have "seq_of (\<lambda>w n. readable (validate_item (Suc d) lim) w n \<and> w \<noteq> [] \<and> hd w \<noteq> 0xff) k w (Suc n)"
    using open_array by (auto intro!: seq_of_weaken [OF open_array(4)] dest: cbor_item_starts)
  then show ?case
    using open_head [OF open_array(2)] open_array(1,3)
    by (auto simp: readable_def [of "validate_item d lim"] validate_body_def Let_def validate_indefinite_array_def
        intro!: decodes_item_head decodes_counted [where i = 0, simplified])
next
  case (dict d k h w n lim)
  have "seq_of (readable (validate_pair (validate_item (Suc d)) lim)) k w n"
    using readable_pairs [OF dict(5,6)] by (rule seq_of_weaken) simp
  moreover obtain b a where "h = b # a" "major_of b = 5" "uint_arg (info_of b) k a" "info_of b \<noteq> 31"
    using dict(2) by (auto elim!: cbor_headE dest: uint_arg_closed)
  ultimately show ?case
    using dict(1,3,4)
    by (auto simp: readable_def [of "validate_item d lim"] validate_body_def Let_def intro!: decodes_item_head decodes_dict)
next
  case (open_dict d b k lim w n)
  have "seq_of (\<lambda>w n. readable (validate_pair (validate_item (Suc d)) lim) w n \<and> w \<noteq> [] \<and> hd w \<noteq> 0xff) k w (Suc n)"
    by (rule readable_pairs [OF open_dict(4,5)])
  then show ?case
    using open_head [OF open_dict(2)] open_dict(1,3)
    by (auto simp: readable_def [of "validate_item d lim"] validate_body_def Let_def validate_indefinite_map_def
        intro!: decodes_item_head decodes_counted [where i = 0, simplified])
next
  case (tag d v h lim w n)
  obtain b a where "h = b # a" "major_of b = 6" "uint_arg (info_of b) v a" using tag(2) by (auto elim: cbor_headE)
  with tag show ?case
    by (auto simp: readable_def validate_body_def Let_def
        intro!: decodes_item_head decodes_bind [OF exact_decodes [OF exact_uint]])
next
  case (simple d b ai s lim n)
  then have "ai < 32" by auto
  moreover have "unat b = ai + 7 * 32" using simple(2) by simp
  ultimately have "major_of b = 7" "info_of b = ai"
    by (simp_all only: major_div info_mod div_mult_self1 mod_mult_self1) simp_all
  with simple show ?case
    by (auto simp: readable_def validate_body_def Let_def intro!: decodes_item_head exact_decodes [OF exact_simple])
qed

section \<open>The validator\<close>

lemma lim_ok_default: "lim_ok limits_default"
  by (simp add: lim_ok_def limits_default_def max_file_text_bytes_def max_message_bytes_def u64_max_def)

lemma validate_cbor_run:
  "(\<exists>e. validate_item 0 limits_default (reader_new bytes) = Some (Err e)) \<or>
   (\<exists>w r. bytes = w @ r \<and> validate_item 0 limits_default (reader_new bytes) = Some (Ok ((), rd_at w r)) \<and>
      cbor_item 0 limits_default w (length r))"
  using run_atE [OF run_at_item [OF lim_ok_default, of 0 "[]" bytes]] by (fastforce simp: reader_new_at)

lemma cb_is_empty_at: "cb_is_empty (rd_at w r) \<longleftrightarrow> r = []"
  by (auto simp: cb_is_empty_def rd_at_def)

text \<open>
  Property C37. The CBOR validator returns on every input and
  accepts exactly the messages of at most \<open>max_message_bytes\<close> bytes that are one well-formed data item
  with text keys, within the nesting, length and per-field size limits, and nothing behind it.
\<close>

theorem validate_cbor_exact:
  "(\<exists>res. validate_cbor bytes = Some res) \<and>
   (validate_cbor bytes = Some (Ok ()) \<longleftrightarrow>
      length bytes \<le> max_message_bytes \<and> cbor_item 0 limits_default bytes 0)"
proof (cases "length bytes \<le> max_message_bytes")
  case True
  from validate_cbor_run [of bytes] show ?thesis
  proof (elim disjE exE conjE, goal_cases)
    case (1 e)
    have "\<not> cbor_item 0 limits_default bytes 0"
      using readable_item [OF _ lim_ok_default, of 0 bytes 0] 1 by (auto simp: readable_def decodes_def reader_new_at)
    with 1 True show ?case by (simp add: validate_cbor_def)
  next
    case (2 w r)
    have "cbor_item 0 limits_default bytes 0 \<longleftrightarrow> r = []"
      using readable_item [OF _ lim_ok_default, of 0 bytes 0] 2
      by (auto simp: readable_def decodes_def reader_new_at rd_at_inj)
    with 2 True show ?case by (simp add: validate_cbor_def cb_is_empty_at)
  qed
qed (simp add: validate_cbor_def)

end
