(* ===== verification/Jdwp_Codec.thy ===== *)
theory Jdwp_Codec
  imports Class_Reader
begin

text \<open>
  The encoding of the Java debug wire protocol (\<^verbatim>\<open>nova-jdwp/src/wire/codec.rs\<close>, the
  value types of \<^verbatim>\<open>wire/types.rs\<close> and the frame check of \<^verbatim>\<open>lib.rs\<close>). A
  writer is a function that appends to a buffer, \<open>None\<close> being the panic of a slice out of range; the
  reader is that of class files with other errors. Floats are their bit patterns, and the
  allocation of a buffer always succeeds.
\<close>

section \<open>Values\<close>

datatype jdwp_error =
    JdwpIo
  | JdwpUnderflow nat nat nat
  | JdwpInvalidIdSize nat
  | JdwpInvalidUtf8
  | JdwpPacketTooLarge nat
  | JdwpPacketLength nat
  | JdwpMissingPrefix
  | JdwpCutPacket
  | JdwpNotLoaded
  | JdwpBadLength nat
  | VmError nat
  | JdwpTimeout
  | JdwpCancelled
  | ConnectionClosed

record jdwp_id_sizes =
  field_id_size :: nat
  method_id_size :: nat
  object_id_size :: nat
  reference_type_id_size :: nat
  frame_id_size :: nat

definition jdwp_id_sizes_default :: jdwp_id_sizes where
  "jdwp_id_sizes_default =
     \<lparr>field_id_size = 8, method_id_size = 8, object_id_size = 8, reference_type_id_size = 8, frame_id_size = 8\<rparr>"

record location =
  loc_type_tag :: byte
  loc_class_id :: nat
  loc_method_id :: nat
  loc_index :: nat

datatype jdwp_value =
    JBoolean bool
  | JByte int
  | JChar nat
  | JShort int
  | JInt int
  | JLong int
  | JFloat nat
  | JDouble nat
  | JObject byte nat
  | JVoid

abbreviation bt :: "char \<Rightarrow> byte" where "bt \<equiv> of_char"

definition signature_to_tag :: "rstr \<Rightarrow> byte" where
  "signature_to_tag signature = (case as_bytes signature of [] \<Rightarrow> bt CHR ''V'' | b # _ \<Rightarrow> word_of_nat b)"

section \<open>The writer\<close>

type_synonym jw = "byte list \<Rightarrow> byte list option"

definition wthen :: "jw \<Rightarrow> jw \<Rightarrow> jw" where
  "wthen f g buf = Option.bind (f buf) g"

text \<open>Every item of a slice in turn.\<close>

primrec weach :: "('a \<Rightarrow> jw) \<Rightarrow> 'a list \<Rightarrow> jw" where
  "weach f [] = Some"
| "weach f (x # xs) = wthen (f x) (weach f xs)"

definition write_bytes :: "byte list \<Rightarrow> jw" where "write_bytes bs buf = Some (buf @ bs)"
definition write_u8 :: "byte \<Rightarrow> jw" where "write_u8 v buf = Some (buf @ [v])"
definition write_bool :: "bool \<Rightarrow> jw" where "write_bool v buf = Some (buf @ [if v then 1 else 0])"
definition write_u16 :: "nat \<Rightarrow> jw" where "write_u16 v buf = Some (buf @ be_bytes 2 v)"
definition write_u32 :: "nat \<Rightarrow> jw" where "write_u32 v buf = Some (buf @ be_bytes 4 v)"
definition write_i32 :: "int \<Rightarrow> jw" where "write_i32 v buf = Some (buf @ be_bytes 4 (nat (v mod 2 ^ 32)))"
definition write_u64 :: "nat \<Rightarrow> jw" where "write_u64 v buf = Some (buf @ be_bytes 8 v)"
definition write_i64 :: "int \<Rightarrow> jw" where "write_i64 v buf = Some (buf @ be_bytes 8 (nat (v mod 2 ^ 64)))"
definition write_f32 :: "nat \<Rightarrow> jw" where "write_f32 bits buf = Some (buf @ be_bytes 4 bits)"
definition write_f64 :: "nat \<Rightarrow> jw" where "write_f64 bits buf = Some (buf @ be_bytes 8 bits)"

definition write_string :: "rstr \<Rightarrow> jw" where
  "write_string s = wthen (write_u32 (str_len s mod 2 ^ 32)) (write_bytes (map word_of_nat (as_bytes s)))"

definition write_id :: "nat \<Rightarrow> nat \<Rightarrow> jw" where
  "write_id i sz buf = (if sz \<le> 8 then Some (buf @ drop (8 - sz) (be_bytes 8 i)) else None)"

definition write_object_id :: "nat \<Rightarrow> jdwp_id_sizes \<Rightarrow> jw" where
  "write_object_id i sizes = write_id i (object_id_size sizes)"

definition write_tagged_object_id :: "byte \<Rightarrow> nat \<Rightarrow> jdwp_id_sizes \<Rightarrow> jw" where
  "write_tagged_object_id tag i sizes = wthen (write_u8 tag) (write_object_id i sizes)"

definition write_reference_type_id :: "nat \<Rightarrow> jdwp_id_sizes \<Rightarrow> jw" where
  "write_reference_type_id i sizes = write_id i (reference_type_id_size sizes)"

definition write_location :: "location \<Rightarrow> jdwp_id_sizes \<Rightarrow> jw" where
  "write_location loc sizes =
     wthen (write_u8 (loc_type_tag loc))
     (wthen (write_reference_type_id (loc_class_id loc) sizes)
     (wthen (write_id (loc_method_id loc) (method_id_size sizes))
     (write_u64 (loc_index loc))))"

fun write_value :: "jdwp_value \<Rightarrow> jdwp_id_sizes \<Rightarrow> jw" where
  "write_value (JBoolean v) sizes = write_bool v"
| "write_value (JByte v) sizes = write_u8 (word_of_int v)"
| "write_value (JChar v) sizes = write_u16 v"
| "write_value (JShort v) sizes = write_u16 (nat (v mod 2 ^ 16))"
| "write_value (JInt v) sizes = write_i32 v"
| "write_value (JLong v) sizes = write_i64 v"
| "write_value (JFloat v) sizes = write_f32 v"
| "write_value (JDouble v) sizes = write_f64 v"
| "write_value (JObject tag i) sizes = write_object_id i sizes"
| "write_value JVoid sizes = Some"

fun value_tag :: "jdwp_value \<Rightarrow> byte" where
  "value_tag (JBoolean _) = bt CHR ''Z''"
| "value_tag (JByte _) = bt CHR ''B''"
| "value_tag (JChar _) = bt CHR ''C''"
| "value_tag (JShort _) = bt CHR ''S''"
| "value_tag (JInt _) = bt CHR ''I''"
| "value_tag (JLong _) = bt CHR ''J''"
| "value_tag (JFloat _) = bt CHR ''F''"
| "value_tag (JDouble _) = bt CHR ''D''"
| "value_tag (JObject tag _) = tag"
| "value_tag JVoid = bt CHR ''V''"

definition write_tagged_value :: "jdwp_value \<Rightarrow> jdwp_id_sizes \<Rightarrow> jw" where
  "write_tagged_value v sizes = wthen (write_u8 (value_tag v)) (write_value v sizes)"

section \<open>The reader\<close>

type_synonym 'a jr = "(reader, jdwp_error, 'a) parser"

text \<open>
  \<^verbatim>\<open>checked_add\<close> and the comparison fail with the same error, so one comparison on
  unbounded positions stands for the two.
\<close>

definition jr_require :: "nat \<Rightarrow> unit jr" where
  "jr_require n r =
     (if length (rd_bytes r) < rd_pos r + n then Some (Err (JdwpUnderflow n (rd_pos r) (length (rd_bytes r))))
      else Some (Ok ((), r)))"

definition jr_remaining :: "reader \<Rightarrow> nat" where
  "jr_remaining r = sat_sub (length (rd_bytes r)) (rd_pos r)"

text \<open>The slice at the position, and the move past it.\<close>

definition jr_slice :: "nat \<Rightarrow> byte list jr" where
  "jr_slice n r =
     map_option (\<lambda>bs. Ok (bs, r\<lparr>rd_pos := rd_pos r + n\<rparr>)) (byte_slice (rd_bytes r) (rd_pos r) (rd_pos r + n))"

definition jr_read_bytes :: "nat \<Rightarrow> byte list jr" where
  "jr_read_bytes n = pbind (jr_require n) (\<lambda>_. jr_slice n)"

definition jr_read_u8 :: "byte jr" where
  "jr_read_u8 =
     pbind (jr_require 1) (\<lambda>_ r.
       map_option (\<lambda>v. Ok (v, r\<lparr>rd_pos := rd_pos r + 1\<rparr>)) (vec_get (rd_bytes r) (rd_pos r)))"

definition jr_read_bool :: "bool jr" where
  "jr_read_bool = pbind jr_read_u8 (\<lambda>b. preturn (b \<noteq> 0))"

definition jr_read_be :: "nat \<Rightarrow> nat jr" where
  "jr_read_be k = pbind (jr_require k) (\<lambda>_. pbind (jr_slice k) (\<lambda>bs. preturn (from_be_bytes bs)))"

definition jr_read_u16 :: "nat jr" where "jr_read_u16 = jr_read_be 2"
definition jr_read_u32 :: "nat jr" where "jr_read_u32 = jr_read_be 4"
definition jr_read_i32 :: "int jr" where "jr_read_i32 = pbind (jr_read_be 4) (\<lambda>v. preturn (as_signed 32 v))"
definition jr_read_u64 :: "nat jr" where "jr_read_u64 = jr_read_be 8"
definition jr_read_i64 :: "int jr" where "jr_read_i64 = pbind jr_read_u64 (\<lambda>v. preturn (as_signed 64 v))"
definition jr_read_f32 :: "nat jr" where "jr_read_f32 = jr_read_be 4"
definition jr_read_f64 :: "nat jr" where "jr_read_f64 = jr_read_be 8"

definition jr_read_string :: "rstr jr" where
  "jr_read_string =
     pbind jr_read_u32 (\<lambda>len.
     pbind (jr_require len) (\<lambda>_.
     pbind (jr_slice len) (\<lambda>bs. plift (ok_or (from_utf8 (map unat bs)) JdwpInvalidUtf8))))"

definition jr_read_id :: "nat \<Rightarrow> nat jr" where
  "jr_read_id sz =
     pbind (jr_require sz) (\<lambda>_.
       if sz = 0 \<or> 8 < sz then pfail (JdwpInvalidIdSize sz)
       else pbind (jr_slice sz) (\<lambda>bs. preturn (from_be_bytes (replicate (8 - sz) 0 @ bs))))"

definition jr_read_object_id :: "jdwp_id_sizes \<Rightarrow> nat jr" where
  "jr_read_object_id sizes = jr_read_id (object_id_size sizes)"

definition jr_read_tagged_object_id :: "jdwp_id_sizes \<Rightarrow> (byte \<times> nat) jr" where
  "jr_read_tagged_object_id sizes =
     pbind jr_read_u8 (\<lambda>tag. pbind (jr_read_object_id sizes) (\<lambda>i. preturn (tag, i)))"

definition jr_read_reference_type_id :: "jdwp_id_sizes \<Rightarrow> nat jr" where
  "jr_read_reference_type_id sizes = jr_read_id (reference_type_id_size sizes)"

definition jr_read_location :: "jdwp_id_sizes \<Rightarrow> location jr" where
  "jr_read_location sizes =
     pbind jr_read_u8 (\<lambda>type_tag.
     pbind (jr_read_reference_type_id sizes) (\<lambda>class_id.
     pbind (jr_read_id (method_id_size sizes)) (\<lambda>method_id.
     pbind jr_read_u64 (\<lambda>index.
       preturn \<lparr>loc_type_tag = type_tag, loc_class_id = class_id, loc_method_id = method_id, loc_index = index\<rparr>))))"

definition jr_read_value :: "byte \<Rightarrow> jdwp_id_sizes \<Rightarrow> jdwp_value jr" where
  "jr_read_value tag sizes =
     (if tag = bt CHR ''Z'' then pbind jr_read_bool (\<lambda>v. preturn (JBoolean v))
      else if tag = bt CHR ''B'' then pbind jr_read_u8 (\<lambda>v. preturn (JByte (sint v)))
      else if tag = bt CHR ''C'' then pbind jr_read_u16 (\<lambda>v. preturn (JChar v))
      else if tag = bt CHR ''S'' then pbind jr_read_u16 (\<lambda>v. preturn (JShort (as_signed 16 v)))
      else if tag = bt CHR ''I'' then pbind jr_read_i32 (\<lambda>v. preturn (JInt v))
      else if tag = bt CHR ''J'' then pbind jr_read_i64 (\<lambda>v. preturn (JLong v))
      else if tag = bt CHR ''F'' then pbind jr_read_f32 (\<lambda>v. preturn (JFloat v))
      else if tag = bt CHR ''D'' then pbind jr_read_f64 (\<lambda>v. preturn (JDouble v))
      else if tag = bt CHR ''V'' then preturn JVoid
      else pbind (jr_read_object_id sizes) (\<lambda>i. preturn (JObject tag i)))"

definition jr_read_tagged_value :: "jdwp_id_sizes \<Rightarrow> jdwp_value jr" where
  "jr_read_tagged_value sizes = pbind jr_read_u8 (\<lambda>tag. jr_read_value tag sizes)"

section \<open>Frames\<close>

definition jdwp_header_len :: nat where "jdwp_header_len = 11"
definition flag_reply :: byte where "flag_reply = 0x80"
definition max_jdwp_packet_bytes :: nat where "max_jdwp_packet_bytes = 16 * 1024 * 1024"

definition validate_jdwp_packet_length :: "nat \<Rightarrow> (jdwp_error, unit) result" where
  "validate_jdwp_packet_length len =
     (if max_jdwp_packet_bytes < len then Err (JdwpPacketTooLarge len)
      else if len < jdwp_header_len then Err (JdwpPacketLength len)
      else Ok ())"

definition encode_command :: "nat \<Rightarrow> byte \<Rightarrow> byte \<Rightarrow> byte list \<Rightarrow> byte list" where
  "encode_command i command_set command payload =
     be_bytes 4 ((jdwp_header_len + length payload) mod 2 ^ 32) @ be_bytes 4 i @ [0, command_set, command] @ payload"

definition encode_reply :: "nat \<Rightarrow> nat \<Rightarrow> byte list \<Rightarrow> byte list" where
  "encode_reply i error_code payload =
     be_bytes 4 ((jdwp_header_len + length payload) mod 2 ^ 32) @ be_bytes 4 i @ [flag_reply] @ be_bytes 2 error_code @ payload"

text \<open>The check of one frame in memory; the slices it takes are within the length it has checked.\<close>

definition decode_packet_bytes :: "byte list \<Rightarrow> (jdwp_error, unit) result" where
  "decode_packet_bytes bytes =
     (if length bytes < 4 then Err JdwpMissingPrefix
      else
        let len = from_be_bytes (take 4 bytes)
        in case validate_jdwp_packet_length len of
             Inl e \<Rightarrow> Err e
           | Inr _ \<Rightarrow> if length bytes < len then Err JdwpCutPacket else Ok ())"

section \<open>Layouts\<close>

definition uint_layout :: "nat \<Rightarrow> nat \<Rightarrow> byte list \<Rightarrow> bool" where
  "uint_layout k v w \<longleftrightarrow> v < 256 ^ k \<and> w = be_bytes k v"

definition sint_range :: "nat \<Rightarrow> int \<Rightarrow> bool" where
  "sint_range k v \<longleftrightarrow> - (2 ^ (8 * k - 1)) \<le> v \<and> v < 2 ^ (8 * k - 1)"

definition sint_layout :: "nat \<Rightarrow> int \<Rightarrow> byte list \<Rightarrow> bool" where
  "sint_layout k v w \<longleftrightarrow> sint_range k v \<and> w = be_bytes k (nat (v mod 2 ^ (8 * k)))"

definition bool_layout :: "bool \<Rightarrow> byte list \<Rightarrow> bool" where
  "bool_layout v w \<longleftrightarrow> (\<exists>b. w = [b] \<and> v = (b \<noteq> 0))"

definition string_layout :: "rstr \<Rightarrow> byte list \<Rightarrow> bool" where
  "string_layout s w \<longleftrightarrow>
     (\<exists>bs. length bs < 2 ^ 32 \<and> from_utf8 (map unat bs) = Some s \<and> w = be_bytes 4 (length bs) @ bs)"

definition id_layout :: "nat \<Rightarrow> nat \<Rightarrow> byte list \<Rightarrow> bool" where
  "id_layout sz i w \<longleftrightarrow> 0 < sz \<and> sz \<le> 8 \<and> uint_layout sz i w"

definition location_layout :: "jdwp_id_sizes \<Rightarrow> location \<Rightarrow> byte list \<Rightarrow> bool" where
  "location_layout sizes loc w \<longleftrightarrow>
     (\<exists>c m x. id_layout (reference_type_id_size sizes) (loc_class_id loc) c \<and>
        id_layout (method_id_size sizes) (loc_method_id loc) m \<and> uint_layout 8 (loc_index loc) x \<and>
        w = [loc_type_tag loc] @ c @ m @ x)"

definition primitive_tags :: "byte list" where
  "primitive_tags = map of_char ''ZBCSIJFDV''"

fun value_layout :: "jdwp_id_sizes \<Rightarrow> byte \<Rightarrow> jdwp_value \<Rightarrow> byte list \<Rightarrow> bool" where
  "value_layout sizes tag (JBoolean v) w \<longleftrightarrow> tag = bt CHR ''Z'' \<and> bool_layout v w"
| "value_layout sizes tag (JByte v) w \<longleftrightarrow> tag = bt CHR ''B'' \<and> sint_layout 1 v w"
| "value_layout sizes tag (JChar v) w \<longleftrightarrow> tag = bt CHR ''C'' \<and> uint_layout 2 v w"
| "value_layout sizes tag (JShort v) w \<longleftrightarrow> tag = bt CHR ''S'' \<and> sint_layout 2 v w"
| "value_layout sizes tag (JInt v) w \<longleftrightarrow> tag = bt CHR ''I'' \<and> sint_layout 4 v w"
| "value_layout sizes tag (JLong v) w \<longleftrightarrow> tag = bt CHR ''J'' \<and> sint_layout 8 v w"
| "value_layout sizes tag (JFloat v) w \<longleftrightarrow> tag = bt CHR ''F'' \<and> uint_layout 4 v w"
| "value_layout sizes tag (JDouble v) w \<longleftrightarrow> tag = bt CHR ''D'' \<and> uint_layout 8 v w"
| "value_layout sizes tag (JObject t i) w \<longleftrightarrow> t = tag \<and> tag \<notin> set primitive_tags \<and> id_layout (object_id_size sizes) i w"
| "value_layout sizes tag JVoid w \<longleftrightarrow> tag = bt CHR ''V'' \<and> w = []"

definition tagged_value_layout :: "jdwp_id_sizes \<Rightarrow> jdwp_value \<Rightarrow> byte list \<Rightarrow> bool" where
  "tagged_value_layout sizes v w \<longleftrightarrow> (\<exists>tag u. value_layout sizes tag v u \<and> w = tag # u)"

section \<open>The reader reads the layouts\<close>

lemma exact_jr_bytes: "exact rd_at (jr_read_bytes n) (\<lambda>x w. x = w \<and> length w = n)"
proof (rule exactI)
  show "run_at rd_at (jr_read_bytes n) pre rest (\<lambda>x w _. x = w \<and> length w = n)" for pre rest
  proof (cases "n \<le> length rest")
    case True
    then show ?thesis
      by (intro run_at_Ok [where w = "take n rest" and rest' = "drop n rest"])
        (simp_all add: jr_read_bytes_def jr_require_def jr_slice_def byte_slice_def pbind_def rd_at_def)
  next
    case False
    then show ?thesis by (intro run_at_Err) (simp add: jr_read_bytes_def jr_require_def pbind_def)
  qed
  show "decodes rd_at (jr_read_bytes n) w x rest" if "x = w \<and> length w = n" for x w rest
    using that by (simp add: decodes_def jr_read_bytes_def jr_require_def jr_slice_def byte_slice_def pbind_def rd_at_def)
qed

lemma require_slice: "pbind (jr_require n) (\<lambda>_. pbind (jr_slice n) f) = pbind (jr_read_bytes n) f"
  by (simp add: jr_read_bytes_def pbind_assoc)

lemma exact_jr_be: "exact rd_at (jr_read_be k) (uint_layout k)"
  unfolding jr_read_be_def require_slice
  by (rule exact_map [OF exact_jr_bytes]) (auto simp: from_be_bytes_iff uint_layout_def)

lemma exact_jr_u8: "exact rd_at jr_read_u8 (\<lambda>b w. w = [b])"
proof (rule exactI)
  show "run_at rd_at jr_read_u8 pre rest (\<lambda>b w _. w = [b])" for pre rest
    by (cases rest)
      (auto simp: run_at_def jr_read_u8_def jr_require_def pbind_def vec_get_def rd_at_def nth_append)
  show "decodes rd_at jr_read_u8 w b rest" if "w = [b]" for w b rest
    using that by (simp add: decodes_def jr_read_u8_def jr_require_def pbind_def vec_get_def rd_at_def nth_append)
qed

lemma exact_jr_bool: "exact rd_at jr_read_bool bool_layout"
  unfolding jr_read_bool_def by (rule exact_map [OF exact_jr_u8]) (auto simp: bool_layout_def)

lemma as_signed_iff:
  assumes "0 < k"
  shows "n < 2 ^ k \<and> v = as_signed k n \<longleftrightarrow>
    - (2 ^ (k - 1)) \<le> v \<and> v < 2 ^ (k - 1) \<and> n = nat (v mod 2 ^ k)"
proof -
  obtain j where k: "k = Suc j" using assms by (cases k) auto
  show ?thesis
  proof
    assume *: "n < 2 ^ k \<and> v = as_signed k n"
    then have n: "int n < 2 ^ k" by (metis of_nat_less_iff of_nat_numeral of_nat_power)
    show "- (2 ^ (k - 1)) \<le> v \<and> v < 2 ^ (k - 1) \<and> n = nat (v mod 2 ^ k)"
    proof (cases "n < 2 ^ (k - 1)")
      case True
      then have "int n < 2 ^ (k - 1)" by (metis of_nat_less_iff of_nat_numeral of_nat_power)
      moreover have "v = int n" using * True by (simp add: as_signed_def)
      moreover have "- (2 ^ (k - 1)) \<le> int n" by (rule order_trans [of _ 0]) simp_all
      ultimately show ?thesis using n by simp
    next
      case False
      then have "2 ^ (k - 1) \<le> int n" by (metis not_less of_nat_le_iff of_nat_numeral of_nat_power)
      moreover have "v = int n - 2 ^ k" using * False by (simp add: as_signed_def)
      moreover have "(2 :: int) ^ k = 2 * 2 ^ (k - 1)" by (simp add: k)
      ultimately show ?thesis using n by simp
    qed
  next
    assume v: "- (2 ^ (k - 1)) \<le> v \<and> v < 2 ^ (k - 1) \<and> n = nat (v mod 2 ^ k)"
    show "n < 2 ^ k \<and> v = as_signed k n"
    proof (cases "0 \<le> v")
      case True
      then have "v mod 2 ^ k = v" using v by (simp add: k)
      with v True show ?thesis by (auto simp: as_signed_def k nat_less_iff)
    next
      case False
      have half: "(2 :: int) ^ k = 2 * 2 ^ (k - 1)" by (simp add: k)
      have "(v + 2 ^ k) mod 2 ^ k = v + 2 ^ k" using v False half by (intro mod_pos_pos_trivial) linarith+
      then have "v mod 2 ^ k = v + 2 ^ k" by simp
      with v False show ?thesis by (auto simp: as_signed_def k nat_less_iff)
    qed
  qed
qed

lemma sint_layout_iff:
  assumes "0 < k"
  shows "sint_layout k v w \<longleftrightarrow> (\<exists>n. uint_layout k n w \<and> v = as_signed (8 * k) n)"
proof -
  have "sint_layout k v w \<longleftrightarrow> (\<exists>n. (n < 2 ^ (8 * k) \<and> v = as_signed (8 * k) n) \<and> w = be_bytes k n)"
    using assms by (subst as_signed_iff) (auto simp: sint_layout_def sint_range_def)
  then show ?thesis by (auto simp: uint_layout_def power_mult)
qed

lemma exact_jr_sint: "0 < k \<Longrightarrow> exact rd_at (pbind (jr_read_be k) (\<lambda>v. preturn (as_signed (8 * k) v))) (sint_layout k)"
  by (rule exact_map [OF exact_jr_be]) (rule sint_layout_iff)

lemma exact_jr_i32: "exact rd_at jr_read_i32 (sint_layout 4)"
  using exact_jr_sint [of 4] by (simp add: jr_read_i32_def)

lemma exact_jr_i64: "exact rd_at jr_read_i64 (sint_layout 8)"
  using exact_jr_sint [of 8] by (simp add: jr_read_i64_def jr_read_u64_def)

lemma sint_byte: "sint (b :: byte) = as_signed 8 (unat b)"
proof -
  have "uint b = sint b mod 2 ^ 8" using uint_sint [of b] by (simp add: take_bit_eq_mod)
  then have "unat b = nat (sint b mod 2 ^ 8)" by (simp add: unat_eq_nat_uint)
  then show ?thesis using as_signed_iff [of 8 "unat b" "sint b"] sint_ge [of b] sint_lt [of b] by simp
qed

lemma exact_jr_string: "exact rd_at jr_read_string string_layout"
proof -
  have utf8: "exact rd_at (pbind (jr_read_bytes len) (\<lambda>bs. plift (ok_or (from_utf8 (map unat bs)) JdwpInvalidUtf8)))
      (\<lambda>s w. length w = len \<and> from_utf8 (map unat w) = Some s)" for len
    by (rule exact_cong [OF exact_bind [OF exact_jr_bytes exact_lift]]) (auto simp: ok_or_def split: option.splits)
  show ?thesis
    unfolding jr_read_string_def require_slice jr_read_u32_def
    by (rule exact_cong [OF exact_bind [OF exact_jr_be utf8]]) (auto simp: string_layout_def uint_layout_def)
qed

lemma from_be_bytes_pad: "from_be_bytes (replicate n 0 @ bs) = from_be_bytes bs"
  by (induction bs rule: rev_induct) (simp_all add: from_be_bytes_snoc append_assoc [symmetric] del: append_assoc, induction n, simp_all add: from_be_bytes_def)

lemma exact_jr_id: "exact rd_at (jr_read_id sz) (id_layout sz)"
proof (cases "sz = 0 \<or> 8 < sz")
  case True
  have "run_at rd_at (jr_read_id sz) pre rest (\<lambda>x w _. id_layout sz x w)" for pre rest
    using True by (auto simp: jr_read_id_def jr_require_def pbind_def run_at_def)
  then show ?thesis using True by (intro exactI) (auto simp: id_layout_def)
next
  case False
  have "exact rd_at (pbind (jr_read_bytes sz) (\<lambda>bs. preturn (from_be_bytes (replicate (8 - sz) 0 @ bs)))) (id_layout sz)"
    by (rule exact_map [OF exact_jr_bytes])
      (use False in \<open>auto simp: from_be_bytes_pad from_be_bytes_iff id_layout_def uint_layout_def\<close>)
  with False show ?thesis by (simp add: jr_read_id_def require_slice)
qed

lemma exact_jr_location: "exact rd_at (jr_read_location sizes) (location_layout sizes)"
  unfolding jr_read_location_def jr_read_reference_type_id_def jr_read_u64_def
proof (rule exact_cong [OF exact_bind [OF exact_jr_u8 exact_bind [OF exact_jr_id exact_bind [OF exact_jr_id
        exact_bind [OF exact_jr_be exact_return]]]]], goal_cases)
  case (1 loc w)
  show ?case unfolding location_layout_def by (cases loc) (auto; blast)
qed

lemma sint_byte_layout: "sint_layout 1 v w \<longleftrightarrow> (\<exists>b. w = [b] \<and> v = sint b)"
proof -
  have "(\<exists>n. uint_layout 1 n w \<and> v = as_signed 8 n) \<longleftrightarrow> (\<exists>b :: byte. w = [b] \<and> v = as_signed 8 (unat b))" (is "?l \<longleftrightarrow> ?r")
  proof
    assume ?l
    then obtain n where n: "n < 256" "w = [word_of_nat n]" "v = as_signed 8 n" by (auto simp: uint_layout_def)
    then have "unat (word_of_nat n :: byte) = n" by (simp add: unat_of_nat)
    with n show ?r by (intro exI [of _ "word_of_nat n"]) simp
  next
    assume ?r
    then obtain b :: byte where "w = [b]" "v = as_signed 8 (unat b)" by blast
    then show ?l by (intro exI [of _ "unat b"]) (simp add: uint_layout_def)
  qed
  then show ?thesis by (simp add: sint_layout_iff sint_byte)
qed

lemma value_layout_tag:
  "value_layout sizes (bt CHR ''Z'') x w \<longleftrightarrow> (\<exists>v. bool_layout v w \<and> x = JBoolean v)"
  "value_layout sizes (bt CHR ''B'') x w \<longleftrightarrow> (\<exists>b. w = [b] \<and> x = JByte (sint b))"
  "value_layout sizes (bt CHR ''C'') x w \<longleftrightarrow> (\<exists>v. uint_layout 2 v w \<and> x = JChar v)"
  "value_layout sizes (bt CHR ''S'') x w \<longleftrightarrow> (\<exists>v. uint_layout 2 v w \<and> x = JShort (as_signed 16 v))"
  "value_layout sizes (bt CHR ''I'') x w \<longleftrightarrow> (\<exists>v. sint_layout 4 v w \<and> x = JInt v)"
  "value_layout sizes (bt CHR ''J'') x w \<longleftrightarrow> (\<exists>v. sint_layout 8 v w \<and> x = JLong v)"
  "value_layout sizes (bt CHR ''F'') x w \<longleftrightarrow> (\<exists>v. uint_layout 4 v w \<and> x = JFloat v)"
  "value_layout sizes (bt CHR ''D'') x w \<longleftrightarrow> (\<exists>v. uint_layout 8 v w \<and> x = JDouble v)"
  "value_layout sizes (bt CHR ''V'') x w \<longleftrightarrow> x = JVoid \<and> w = []"
  "tag \<notin> set primitive_tags \<Longrightarrow>
     value_layout sizes tag x w \<longleftrightarrow> (\<exists>i. id_layout (object_id_size sizes) i w \<and> x = JObject tag i)"
  by (cases x; auto simp: primitive_tags_def sint_byte_layout sint_layout_iff [of 2] simp del: One_nat_def)+

lemma exact_jr_value: "exact rd_at (jr_read_value tag sizes) (value_layout sizes tag)"
proof -
  note exact_values =
    exact_map [OF exact_jr_bool value_layout_tag(1)] exact_map [OF exact_jr_u8 value_layout_tag(2)]
    exact_map [OF exact_jr_be value_layout_tag(3)] exact_map [OF exact_jr_be value_layout_tag(4)]
    exact_map [OF exact_jr_i32 value_layout_tag(5)] exact_map [OF exact_jr_i64 value_layout_tag(6)]
    exact_map [OF exact_jr_be value_layout_tag(7)] exact_map [OF exact_jr_be value_layout_tag(8)]
    exact_cong [OF exact_return value_layout_tag(9) [symmetric]]
  show ?thesis
  proof (cases "tag \<in> set primitive_tags")
    case True
    then have "tag \<in> {bt CHR ''Z'', bt CHR ''B'', bt CHR ''C'', bt CHR ''S'', bt CHR ''I'', bt CHR ''J'', bt CHR ''F'',
        bt CHR ''D'', bt CHR ''V''}" by (simp add: primitive_tags_def)
    then show ?thesis
      using exact_values
      by (auto simp: jr_read_value_def jr_read_u16_def jr_read_f32_def jr_read_f64_def)
  next
    case False
    then show ?thesis
      using exact_map [OF exact_jr_id value_layout_tag(10) [OF False]]
      by (simp add: jr_read_value_def jr_read_object_id_def primitive_tags_def)
  qed
qed

lemma exact_jr_tagged_value: "exact rd_at (jr_read_tagged_value sizes) (tagged_value_layout sizes)"
  unfolding jr_read_tagged_value_def
  by (rule exact_cong [OF exact_bind [OF exact_jr_u8 exact_jr_value]]) (auto simp: tagged_value_layout_def)

lemma exact_jr_tagged_object_id:
  "exact rd_at (jr_read_tagged_object_id sizes) (\<lambda>(t, i) w. \<exists>u. id_layout (object_id_size sizes) i u \<and> w = t # u)"
  unfolding jr_read_tagged_object_id_def jr_read_object_id_def
  by (rule exact_cong [OF exact_bind [OF exact_jr_u8 exact_bind [OF exact_jr_id exact_return]]]) auto

section \<open>The writer writes the layouts\<close>

definition writes :: "jw \<Rightarrow> byte list \<Rightarrow> bool" where
  "writes f w \<longleftrightarrow> (\<forall>buf. f buf = Some (buf @ w))"

lemma writes_then: "writes f v \<Longrightarrow> writes g w \<Longrightarrow> writes (wthen f g) (v @ w)"
  by (simp add: writes_def wthen_def)

lemma writes_each: "list_all2 (\<lambda>x w. writes (f x) w) xs ws \<Longrightarrow> writes (weach f xs) (concat ws)"
  by (induction rule: list_all2_induct) (simp_all add: writes_then, simp add: writes_def)

lemma writes_prims:
  "writes Some []"
  "writes (write_bytes bs) bs"
  "writes (write_u8 b) [b]"
  "writes (write_bool v) [if v then 1 else 0]"
  "writes (write_u16 n) (be_bytes 2 n)"
  "writes (write_u32 n) (be_bytes 4 n)"
  "writes (write_i32 i) (be_bytes 4 (nat (i mod 2 ^ 32)))"
  "writes (write_u64 n) (be_bytes 8 n)"
  "writes (write_i64 i) (be_bytes 8 (nat (i mod 2 ^ 64)))"
  "writes (write_f32 n) (be_bytes 4 n)"
  "writes (write_f64 n) (be_bytes 8 n)"
  by (simp_all add: writes_def write_bytes_def write_u8_def write_bool_def write_u16_def write_u32_def write_i32_def
      write_u64_def write_i64_def write_f32_def write_f64_def)

lemma drop_be_bytes: "m \<le> k \<Longrightarrow> drop (k - m) (be_bytes k n) = be_bytes m n"
proof (induction m arbitrary: k n)
  case (Suc m)
  then obtain k' where "k = Suc k'" by (cases k) auto
  with Suc show ?case by simp
qed simp

lemma writes_id: "sz \<le> 8 \<Longrightarrow> writes (write_id i sz) (be_bytes sz i)"
  by (simp add: writes_def write_id_def drop_be_bytes)

definition id_ok :: "nat \<Rightarrow> nat \<Rightarrow> bool" where
  "id_ok sz i \<longleftrightarrow> 0 < sz \<and> sz \<le> 8 \<and> i < 256 ^ sz"

definition location_ok :: "jdwp_id_sizes \<Rightarrow> location \<Rightarrow> bool" where
  "location_ok sizes loc \<longleftrightarrow> id_ok (reference_type_id_size sizes) (loc_class_id loc) \<and>
     id_ok (method_id_size sizes) (loc_method_id loc) \<and> loc_index loc < 2 ^ 64"

fun value_ok :: "jdwp_id_sizes \<Rightarrow> jdwp_value \<Rightarrow> bool" where
  "value_ok sizes (JBoolean v) \<longleftrightarrow> True"
| "value_ok sizes (JByte v) \<longleftrightarrow> sint_range 1 v"
| "value_ok sizes (JChar v) \<longleftrightarrow> v < 2 ^ 16"
| "value_ok sizes (JShort v) \<longleftrightarrow> sint_range 2 v"
| "value_ok sizes (JInt v) \<longleftrightarrow> sint_range 4 v"
| "value_ok sizes (JLong v) \<longleftrightarrow> sint_range 8 v"
| "value_ok sizes (JFloat v) \<longleftrightarrow> v < 2 ^ 32"
| "value_ok sizes (JDouble v) \<longleftrightarrow> v < 2 ^ 64"
| "value_ok sizes (JObject t i) \<longleftrightarrow> t \<notin> set primitive_tags \<and> id_ok (object_id_size sizes) i"
| "value_ok sizes JVoid \<longleftrightarrow> True"

definition string_ok :: "rstr \<Rightarrow> bool" where
  "string_ok s \<longleftrightarrow> list_all scalar_value s \<and> str_len s < 2 ^ 32"

lemma written_id: "id_ok sz i \<Longrightarrow> \<exists>w. id_layout sz i w \<and> writes (write_id i sz) w"
  by (auto simp: id_ok_def id_layout_def uint_layout_def intro: writes_id)

lemma written_location:
  assumes "location_ok sizes loc"
  shows "\<exists>w. location_layout sizes loc w \<and> writes (write_location loc sizes) w"
proof -
  obtain c m where "id_layout (reference_type_id_size sizes) (loc_class_id loc) c"
      "writes (write_id (loc_class_id loc) (reference_type_id_size sizes)) c"
      "id_layout (method_id_size sizes) (loc_method_id loc) m" "writes (write_id (loc_method_id loc) (method_id_size sizes)) m"
    using assms written_id unfolding location_ok_def by meson
  then show ?thesis
    using assms unfolding write_location_def write_reference_type_id_def
    by (intro exI [of _ "[loc_type_tag loc] @ c @ m @ be_bytes 8 (loc_index loc)"] conjI writes_then writes_prims)
      (auto simp: location_layout_def location_ok_def uint_layout_def)
qed

lemma written_value:
  assumes "value_ok sizes v"
  shows "\<exists>w. value_layout sizes (value_tag v) v w \<and> writes (write_value v sizes) w"
proof (cases v)
  case (JBoolean b)
  then show ?thesis using writes_prims(4) [of b]
    by (intro exI [of _ "[if b then 1 else 0]"]) (simp add: bool_layout_def)
next
  case (JByte i)
  then have "sint (word_of_int i :: byte) = i" using assms by (simp add: int_word_sint sint_range_def)
  then have "value_layout sizes (value_tag v) v [word_of_int i]" by (simp add: JByte sint_byte_layout del: One_nat_def)
  then show ?thesis using JByte writes_prims(3) by auto
next
  case (JObject t i)
  then show ?thesis using assms written_id [of "object_id_size sizes" i] by (auto simp: write_object_id_def)
qed (use assms in \<open>auto simp: bool_layout_def sint_layout_def uint_layout_def intro!: exI conjI writes_prims writes_prims [simplified]\<close>)

lemma written_tagged_value:
  assumes "value_ok sizes v"
  shows "\<exists>w. tagged_value_layout sizes v w \<and> writes (write_tagged_value v sizes) w"
proof -
  obtain w where "value_layout sizes (value_tag v) v w" "writes (write_value v sizes) w" using written_value [OF assms] by blast
  then show ?thesis
    unfolding write_tagged_value_def
    by (intro exI [of _ "[value_tag v] @ w"] conjI writes_then writes_prims) (auto simp: tagged_value_layout_def)
qed

lemma utf8_encode_byte: "scalar_value c \<Longrightarrow> b \<in> set (utf8_encode c) \<Longrightarrow> b < 256"
  by (auto simp: utf8_encode_def scalar_value_def split: if_splits)

lemma as_bytes_bytes: "list_all scalar_value s \<Longrightarrow> map (\<lambda>b. unat (word_of_nat b :: byte)) (as_bytes s) = as_bytes s"
  by (rule map_idI) (auto simp: as_bytes_def list_all_iff unat_of_nat dest!: utf8_encode_byte)

lemma written_string:
  assumes "string_ok s"
  shows "\<exists>w. string_layout s w \<and> writes (write_string s) w"
proof -
  let ?bs = "map word_of_nat (as_bytes s) :: byte list"
  have "from_utf8 (map unat ?bs) = Some s"
    using assms by (simp add: string_ok_def as_bytes_bytes from_utf8_as_bytes comp_def)
  then have "string_layout s (be_bytes 4 (str_len s) @ ?bs)"
    using assms unfolding string_layout_def string_ok_def by (intro exI [of _ ?bs]) simp
  moreover have "writes (write_string s) (be_bytes 4 (str_len s) @ ?bs)"
    using assms unfolding write_string_def string_ok_def by (intro writes_then) (simp_all add: writes_prims)
  ultimately show ?thesis by blast
qed

section \<open>Round trips\<close>

text \<open>
  A wire format: a reader that reads a layout and nothing else, and a writer that writes the layout of
  every acceptable value.
\<close>

locale wire_format =
  fixes reads :: "(reader, 'e, 'a) parser" and layout :: "'a \<Rightarrow> byte list \<Rightarrow> bool"
    and writer :: "'a \<Rightarrow> byte list \<Rightarrow> byte list option" and ok :: "'a \<Rightarrow> bool"
  assumes reads_layout: "exact rd_at reads layout"
    and writes_layout: "ok x \<Longrightarrow> \<exists>w. layout x w \<and> writes (writer x) w"
begin

lemma roundtrip:
  assumes "ok x"
  shows "\<exists>w. writer x buf = Some (buf @ w) \<and> (\<forall>pre rest. reads (rd_at pre (w @ rest)) = Some (Ok (x, rd_at (pre @ w) rest)))"
  using writes_layout [OF assms] exact_decodes [OF reads_layout] by (fastforce simp: writes_def decodes_def)

lemma never_panics: "\<exists>res. reads (rd_at pre rest) = Some res"
  by (rule exact_total [OF reads_layout])

lemma unique_reading:
  assumes "layout x w" "layout y w"
  shows "x = y"
  using exact_decodes [OF reads_layout assms(1), of "[]"] exact_decodes [OF reads_layout assms(2), of "[]"]
  by (simp add: decodes_def)

end

interpretation wire_value: wire_format "jr_read_tagged_value sizes" "tagged_value_layout sizes" "\<lambda>v. write_tagged_value v sizes" "value_ok sizes"
  by unfold_locales (rule exact_jr_tagged_value, rule written_tagged_value)

interpretation wire_location: wire_format "jr_read_location sizes" "location_layout sizes" "\<lambda>loc. write_location loc sizes" "location_ok sizes"
  by unfold_locales (rule exact_jr_location, rule written_location)

interpretation wire_string: wire_format jr_read_string string_layout write_string string_ok
  by unfold_locales (rule exact_jr_string, rule written_string)

interpretation wire_id: wire_format "jr_read_id sz" "id_layout sz" "\<lambda>i. write_id i sz" "id_ok sz"
  by unfold_locales (rule exact_jr_id, rule written_id)

text \<open>
  Property C12. What the writer puts into a packet, the reader takes out again: a tagged value, a location
  and a string whose parts fit the identifier sizes and integer widths are appended to the buffer without a
  panic, and read back equal from those bytes wherever they stand in a packet.
\<close>

theorem jdwp_roundtrip:
  assumes "value_ok sizes v" "location_ok sizes loc" "string_ok s"
  shows "(\<exists>w. write_tagged_value v sizes buf = Some (buf @ w) \<and>
      (\<forall>pre rest. jr_read_tagged_value sizes (rd_at pre (w @ rest)) = Some (Ok (v, rd_at (pre @ w) rest)))) \<and>
    (\<exists>w. write_location loc sizes buf = Some (buf @ w) \<and>
      (\<forall>pre rest. jr_read_location sizes (rd_at pre (w @ rest)) = Some (Ok (loc, rd_at (pre @ w) rest)))) \<and>
    (\<exists>w. write_string s buf = Some (buf @ w) \<and>
      (\<forall>pre rest. jr_read_string (rd_at pre (w @ rest)) = Some (Ok (s, rd_at (pre @ w) rest))))"
  using wire_value.roundtrip [OF assms(1)] wire_location.roundtrip [OF assms(2)] wire_string.roundtrip [OF assms(3)]
  by simp

definition small_location :: location where
  "small_location = \<lparr>loc_type_tag = 1, loc_class_id = 7, loc_method_id = 300, loc_index = 12\<rparr>"

theorem jdwp_roundtrip_witness:
  "value_ok jdwp_id_sizes_default (JShort (-2)) \<and> location_ok jdwp_id_sizes_default small_location \<and> string_ok [0x20AC] \<and>
   (\<exists>w. write_tagged_value (JShort (-2)) jdwp_id_sizes_default [] = Some w \<and>
      jr_read_tagged_value jdwp_id_sizes_default (rd_at [] (w @ [9])) = Some (Ok (JShort (-2), rd_at w [9])))"
proof -
  have ok: "value_ok jdwp_id_sizes_default (JShort (-2))" "location_ok jdwp_id_sizes_default small_location" "string_ok [0x20AC]"
    by (simp_all add: sint_range_def location_ok_def id_ok_def small_location_def jdwp_id_sizes_default_def string_ok_def
        scalar_value_def str_len_def utf8_encode_def)
  with jdwp_roundtrip [OF ok, of "[]"] show ?thesis by fastforce
qed

end
