(* ===== verification/Jdwp_Event.thy ===== *)
theory Jdwp_Event
  imports Jdwp_Codec
begin

text \<open>
  Events of the debugged machine and requests for them (\<^verbatim>\<open>handle_event_packet\<close> and
  \<^verbatim>\<open>EventModifier\<close> of \<^verbatim>\<open>nova-jdwp/src/wire/client.rs\<close>, the event
  types of \<^verbatim>\<open>wire/types.rs\<close>). The two broadcast channels are the lists of what was sent
  to them.
\<close>

section \<open>Types\<close>

datatype jdwp_event =
    VmStart int nat
  | ThreadStart int nat
  | ThreadDeath int nat
  | Breakpoint int nat location
  | SingleStep int nat location
  | MethodExitWithReturnValue int nat location jdwp_value
  | ExceptionEvent int nat location nat "location option"
  | ClassPrepare int nat byte nat rstr nat
  | ClassUnload int rstr
  | FieldAccess int nat location byte nat nat nat jdwp_value
  | FieldModification int nat location byte nat nat nat "jdwp_value option" jdwp_value
  | VmDeath
  | VmDisconnect

record jdwp_event_envelope =
  env_suspend_policy :: byte
  env_event :: jdwp_event

record channels =
  ch_events :: "jdwp_event list"
  ch_envelopes :: "jdwp_event_envelope list"
  ch_shutdown :: bool

definition event_kind_single_step :: byte where "event_kind_single_step = 1"
definition event_kind_breakpoint :: byte where "event_kind_breakpoint = 2"
definition event_kind_exception :: byte where "event_kind_exception = 4"
definition event_kind_class_prepare :: byte where "event_kind_class_prepare = 8"
definition event_kind_class_unload :: byte where "event_kind_class_unload = 9"
definition event_kind_field_access :: byte where "event_kind_field_access = 20"
definition event_kind_field_modification :: byte where "event_kind_field_modification = 21"
definition event_kind_method_exit_with_return_value :: byte where "event_kind_method_exit_with_return_value = 42"
definition event_kind_vm_start :: byte where "event_kind_vm_start = 90"
definition event_kind_vm_death :: byte where "event_kind_vm_death = 99"
definition event_kind_vm_disconnect :: byte where "event_kind_vm_disconnect = 100"

lemmas event_kinds = event_kind_single_step_def event_kind_breakpoint_def event_kind_exception_def
  event_kind_class_prepare_def event_kind_class_unload_def event_kind_field_access_def
  event_kind_field_modification_def event_kind_method_exit_with_return_value_def event_kind_vm_start_def
  event_kind_vm_death_def event_kind_vm_disconnect_def

section \<open>Reading a composite packet\<close>

fun is_stop_event :: "jdwp_event \<Rightarrow> bool" where
  "is_stop_event (SingleStep _ _ _) \<longleftrightarrow> True"
| "is_stop_event (Breakpoint _ _ _) \<longleftrightarrow> True"
| "is_stop_event (ExceptionEvent _ _ _ _ _) \<longleftrightarrow> True"
| "is_stop_event (FieldAccess _ _ _ _ _ _ _ _) \<longleftrightarrow> True"
| "is_stop_event (FieldModification _ _ _ _ _ _ _ _ _) \<longleftrightarrow> True"
| "is_stop_event _ \<longleftrightarrow> False"

definition catch_location_of :: "location \<Rightarrow> location option" where
  "catch_location_of catch_loc =
     (if loc_type_tag catch_loc = 0 \<and> loc_class_id catch_loc = 0 \<and> loc_method_id catch_loc = 0 \<and> loc_index catch_loc = 0
      then None else Some catch_loc)"

text \<open>The thread and the location most events begin with.\<close>

definition read_thread_location :: "jdwp_id_sizes \<Rightarrow> (nat \<times> location) jr" where
  "read_thread_location sizes =
     pbind (jr_read_object_id sizes) (\<lambda>thread. pbind (jr_read_location sizes) (\<lambda>location. preturn (thread, location)))"

text \<open>The part the two field events share: type, field, object and value.\<close>

definition read_field_value :: "jdwp_id_sizes \<Rightarrow> (byte \<times> nat \<times> nat \<times> nat \<times> jdwp_value) jr" where
  "read_field_value sizes =
     pbind jr_read_u8 (\<lambda>ref_type_tag.
     pbind (jr_read_reference_type_id sizes) (\<lambda>type_id.
     pbind (jr_read_id (field_id_size sizes)) (\<lambda>field_id.
     pbind (jr_read_object_id sizes) (\<lambda>object.
     pbind jr_read_u8 (\<lambda>tag.
     pbind (jr_read_value tag sizes) (\<lambda>value. preturn (ref_type_tag, type_id, field_id, object, value)))))))"

definition read_event_body :: "jdwp_id_sizes \<Rightarrow> byte \<Rightarrow> int \<Rightarrow> jdwp_event option jr" where
  "read_event_body sizes kind request_id =
     (if kind = event_kind_single_step then
        pbind (read_thread_location sizes) (\<lambda>(thread, location). preturn (Some (SingleStep request_id thread location)))
      else if kind = event_kind_breakpoint then
        pbind (read_thread_location sizes) (\<lambda>(thread, location). preturn (Some (Breakpoint request_id thread location)))
      else if kind = event_kind_exception then
        pbind (read_thread_location sizes) (\<lambda>(thread, location).
        pbind (jr_read_object_id sizes) (\<lambda>exception.
        pbind (jr_read_location sizes) (\<lambda>catch_loc.
          preturn (Some (ExceptionEvent request_id thread location exception (catch_location_of catch_loc))))))
      else if kind = 6 then
        pbind (jr_read_object_id sizes) (\<lambda>thread. preturn (Some (ThreadStart request_id thread)))
      else if kind = 7 then
        pbind (jr_read_object_id sizes) (\<lambda>thread. preturn (Some (ThreadDeath request_id thread)))
      else if kind = event_kind_class_prepare then
        pbind (jr_read_object_id sizes) (\<lambda>thread.
        pbind jr_read_u8 (\<lambda>ref_type_tag.
        pbind (jr_read_reference_type_id sizes) (\<lambda>type_id.
        pbind jr_read_string (\<lambda>signature.
        pbind jr_read_u32 (\<lambda>status.
          preturn (Some (ClassPrepare request_id thread ref_type_tag type_id signature status)))))))
      else if kind = event_kind_class_unload then
        pbind jr_read_string (\<lambda>signature. preturn (Some (ClassUnload request_id signature)))
      else if kind = event_kind_field_access then
        pbind (read_thread_location sizes) (\<lambda>(thread, location).
        pbind (read_field_value sizes) (\<lambda>(ref_type_tag, type_id, field_id, object, value).
          preturn (Some (FieldAccess request_id thread location ref_type_tag type_id field_id object value))))
      else if kind = event_kind_field_modification then
        pbind (read_thread_location sizes) (\<lambda>(thread, location).
        pbind (read_field_value sizes) (\<lambda>(ref_type_tag, type_id, field_id, object, value).
          preturn (Some (FieldModification request_id thread location ref_type_tag type_id field_id object None value))))
      else if kind = event_kind_method_exit_with_return_value then
        pbind (read_thread_location sizes) (\<lambda>(thread, location).
        pbind jr_read_u8 (\<lambda>tag.
        pbind (jr_read_value tag sizes) (\<lambda>value.
          preturn (Some (MethodExitWithReturnValue request_id thread location value)))))
      else if kind = event_kind_vm_start then
        pbind (jr_read_object_id sizes) (\<lambda>thread. preturn (Some (VmStart request_id thread)))
      else if kind = event_kind_vm_death then preturn (Some VmDeath)
      else if kind = event_kind_vm_disconnect then preturn (Some VmDisconnect)
      else preturn None)"

definition read_event :: "jdwp_id_sizes \<Rightarrow> jdwp_event option jr" where
  "read_event sizes = pbind jr_read_u8 (\<lambda>kind. pbind jr_read_i32 (\<lambda>request_id. read_event_body sizes kind request_id))"

definition send_event :: "byte \<Rightarrow> jdwp_event \<Rightarrow> channels \<Rightarrow> channels" where
  "send_event suspend_policy event ch =
     ch\<lparr>ch_events := ch_events ch @ [event],
        ch_envelopes := ch_envelopes ch @ [\<lparr>env_suspend_policy = suspend_policy, env_event = event\<rparr>]\<rparr>"

text \<open>The loop over the events; stop events are kept back, and a disconnect cancels the token at once.\<close>

primrec event_loop ::
  "jdwp_id_sizes \<Rightarrow> byte \<Rightarrow> nat \<Rightarrow> reader \<Rightarrow> jdwp_event list \<Rightarrow> channels \<Rightarrow>
     ((jdwp_error, jdwp_event list) result \<times> channels) option" where
  "event_loop sizes suspend_policy 0 r stop_events ch = Some (Ok stop_events, ch)"
| "event_loop sizes suspend_policy (Suc n) r stop_events ch =
     (case read_event sizes r of
        None \<Rightarrow> None
      | Some (Inl e) \<Rightarrow> Some (Err e, ch)
      | Some (Inr (None, r')) \<Rightarrow> Some (Ok stop_events, ch)
      | Some (Inr (Some event, r')) \<Rightarrow>
          (let ch' = (if event = VmDisconnect then ch\<lparr>ch_shutdown := True\<rparr> else ch)
           in if is_stop_event event then event_loop sizes suspend_policy n r' (stop_events @ [event]) ch'
              else event_loop sizes suspend_policy n r' stop_events (send_event suspend_policy event ch')))"

definition handle_event_packet ::
  "jdwp_id_sizes \<Rightarrow> byte list \<Rightarrow> channels \<Rightarrow> ((jdwp_error, unit) result \<times> channels) option" where
  "handle_event_packet sizes payload ch =
     (case pbind jr_read_u8 (\<lambda>suspend_policy. pbind jr_read_u32 (\<lambda>event_count. preturn (suspend_policy, event_count)))
         (reader_new payload) of
        None \<Rightarrow> None
      | Some (Inl e) \<Rightarrow> Some (Err e, ch)
      | Some (Inr ((suspend_policy, event_count), r)) \<Rightarrow>
          (case event_loop sizes suspend_policy event_count r [] ch of
             None \<Rightarrow> None
           | Some (Inl e, ch') \<Rightarrow> Some (Err e, ch')
           | Some (Inr stop_events, ch') \<Rightarrow> Some (Ok (), fold (send_event suspend_policy) stop_events ch')))"

section \<open>Requests\<close>

datatype event_modifier =
    ModCount nat
  | ModThreadOnly nat
  | ModClassOnly nat
  | ModClassMatch rstr
  | ModClassExclude rstr
  | ModLocationOnly location
  | ModExceptionOnly nat bool bool
  | ModFieldOnly nat nat
  | ModStep nat nat nat
  | ModInstanceOnly nat
  | ModSourceNameMatch rstr

fun encode_modifier :: "event_modifier \<Rightarrow> jdwp_id_sizes \<Rightarrow> jw" where
  "encode_modifier (ModCount count) sizes = wthen (write_u8 1) (write_u32 count)"
| "encode_modifier (ModThreadOnly thread) sizes = wthen (write_u8 3) (write_object_id thread sizes)"
| "encode_modifier (ModClassOnly class_id) sizes = wthen (write_u8 4) (write_reference_type_id class_id sizes)"
| "encode_modifier (ModClassMatch pattern) sizes = wthen (write_u8 5) (write_string pattern)"
| "encode_modifier (ModClassExclude pattern) sizes = wthen (write_u8 6) (write_string pattern)"
| "encode_modifier (ModLocationOnly location) sizes = wthen (write_u8 7) (write_location location sizes)"
| "encode_modifier (ModExceptionOnly exception_or_null caught uncaught) sizes =
     wthen (write_u8 8)
     (wthen (write_reference_type_id exception_or_null sizes) (wthen (write_bool caught) (write_bool uncaught)))"
| "encode_modifier (ModFieldOnly class_id field_id) sizes =
     wthen (write_u8 9) (wthen (write_reference_type_id class_id sizes) (write_id field_id (field_id_size sizes)))"
| "encode_modifier (ModStep thread sz depth) sizes =
     wthen (write_u8 10) (wthen (write_object_id thread sizes) (wthen (write_u32 sz) (write_u32 depth)))"
| "encode_modifier (ModInstanceOnly object_id) sizes = wthen (write_u8 11) (write_object_id object_id sizes)"
| "encode_modifier (ModSourceNameMatch pattern) sizes = wthen (write_u8 12) (write_string pattern)"

section \<open>Layouts of events\<close>

fun thread_location_layout :: "jdwp_id_sizes \<Rightarrow> nat \<times> location \<Rightarrow> byte list \<Rightarrow> bool" where
  "thread_location_layout sizes (thread, location) w \<longleftrightarrow>
     (\<exists>t l. id_layout (object_id_size sizes) thread t \<and> location_layout sizes location l \<and> w = t @ l)"

fun field_value_layout :: "jdwp_id_sizes \<Rightarrow> byte \<times> nat \<times> nat \<times> nat \<times> jdwp_value \<Rightarrow> byte list \<Rightarrow> bool" where
  "field_value_layout sizes (ref_type_tag, type_id, field_id, object, value) w \<longleftrightarrow>
     (\<exists>t f j v. id_layout (reference_type_id_size sizes) type_id t \<and> id_layout (field_id_size sizes) field_id f \<and>
        id_layout (object_id_size sizes) object j \<and> tagged_value_layout sizes value v \<and> w = [ref_type_tag] @ t @ f @ j @ v)"

fun event_body_layout :: "jdwp_id_sizes \<Rightarrow> byte \<Rightarrow> int \<Rightarrow> jdwp_event \<Rightarrow> byte list \<Rightarrow> bool" where
  "event_body_layout sizes kind rid (SingleStep r thread location) w \<longleftrightarrow>
     kind = 1 \<and> r = rid \<and> thread_location_layout sizes (thread, location) w"
| "event_body_layout sizes kind rid (Breakpoint r thread location) w \<longleftrightarrow>
     kind = 2 \<and> r = rid \<and> thread_location_layout sizes (thread, location) w"
| "event_body_layout sizes kind rid (ExceptionEvent r thread location exception catch_location) w \<longleftrightarrow>
     kind = 4 \<and> r = rid \<and> (\<exists>a e c loc. thread_location_layout sizes (thread, location) a \<and>
       id_layout (object_id_size sizes) exception e \<and> location_layout sizes loc c \<and>
       catch_location = catch_location_of loc \<and> w = a @ e @ c)"
| "event_body_layout sizes kind rid (ThreadStart r thread) w \<longleftrightarrow> kind = 6 \<and> r = rid \<and> id_layout (object_id_size sizes) thread w"
| "event_body_layout sizes kind rid (ThreadDeath r thread) w \<longleftrightarrow> kind = 7 \<and> r = rid \<and> id_layout (object_id_size sizes) thread w"
| "event_body_layout sizes kind rid (ClassPrepare r thread ref_type_tag type_id signature status) w \<longleftrightarrow>
     kind = 8 \<and> r = rid \<and> (\<exists>t y s x. id_layout (object_id_size sizes) thread t \<and>
       id_layout (reference_type_id_size sizes) type_id y \<and> string_layout signature s \<and> uint_layout 4 status x \<and>
       w = t @ [ref_type_tag] @ y @ s @ x)"
| "event_body_layout sizes kind rid (ClassUnload r signature) w \<longleftrightarrow> kind = 9 \<and> r = rid \<and> string_layout signature w"
| "event_body_layout sizes kind rid (FieldAccess r thread location tag type_id field_id object value) w \<longleftrightarrow>
     kind = 20 \<and> r = rid \<and> (\<exists>a f. thread_location_layout sizes (thread, location) a \<and>
       field_value_layout sizes (tag, type_id, field_id, object, value) f \<and> w = a @ f)"
| "event_body_layout sizes kind rid (FieldModification r thread location tag type_id field_id object current value) w \<longleftrightarrow>
     kind = 21 \<and> r = rid \<and> current = None \<and> (\<exists>a f. thread_location_layout sizes (thread, location) a \<and>
       field_value_layout sizes (tag, type_id, field_id, object, value) f \<and> w = a @ f)"
| "event_body_layout sizes kind rid (MethodExitWithReturnValue r thread location value) w \<longleftrightarrow>
     kind = 42 \<and> r = rid \<and> (\<exists>a v. thread_location_layout sizes (thread, location) a \<and> tagged_value_layout sizes value v \<and> w = a @ v)"
| "event_body_layout sizes kind rid (VmStart r thread) w \<longleftrightarrow> kind = 90 \<and> r = rid \<and> id_layout (object_id_size sizes) thread w"
| "event_body_layout sizes kind rid VmDeath w \<longleftrightarrow> kind = 99 \<and> w = []"
| "event_body_layout sizes kind rid VmDisconnect w \<longleftrightarrow> kind = 100 \<and> w = []"

definition known_kinds :: "byte list" where
  "known_kinds = [1, 2, 4, 6, 7, 8, 9, 20, 21, 42, 90, 99, 100]"

definition event_layout :: "jdwp_id_sizes \<Rightarrow> jdwp_event \<Rightarrow> byte list \<Rightarrow> bool" where
  "event_layout sizes ev w \<longleftrightarrow>
     (\<exists>kind rid r b. sint_layout 4 rid r \<and> event_body_layout sizes kind rid ev b \<and> w = [kind] @ r @ b)"

text \<open>The head of an event this client does not know.\<close>

definition unknown_event :: "byte list \<Rightarrow> bool" where
  "unknown_event w \<longleftrightarrow> (\<exists>kind rid r. kind \<notin> set known_kinds \<and> sint_layout 4 rid r \<and> w = [kind] @ r)"

section \<open>The reader reads events\<close>

lemma exact_bind_split:
  assumes "exact mk p G" "\<And>a b. exact mk (f a b) (H a b)"
  shows "exact mk (pbind p (\<lambda>(a, b). f a b)) (\<lambda>x w. \<exists>a b u v. w = u @ v \<and> G (a, b) u \<and> H a b x v)"
  by (rule exact_cong [OF exact_bind [OF assms(1), where H = "\<lambda>(a, b). H a b"]]) (auto simp: assms(2))

lemma exact_bind_field:
  assumes "exact mk p G" "\<And>g i f j v. exact mk (k g i f j v) (H g i f j v)"
  shows "exact mk (pbind p (\<lambda>(g, i, f, j, v). k g i f j v))
    (\<lambda>x w. \<exists>g i f j v a b. w = a @ b \<and> G (g, i, f, j, v) a \<and> H g i f j v x b)"
  by (rule exact_cong [OF exact_bind [OF assms(1), where H = "\<lambda>(g, i, f, j, v). H g i f j v"]]) (auto simp: assms(2))

lemma exact_thread_location: "exact rd_at (read_thread_location sizes) (thread_location_layout sizes)"
  unfolding read_thread_location_def jr_read_object_id_def
  by (rule exact_cong [OF exact_bind [OF exact_jr_id exact_bind [OF exact_jr_location exact_return]]]) (auto; blast)

lemma exact_field_value: "exact rd_at (read_field_value sizes) (field_value_layout sizes)"
proof -
  have "read_field_value sizes = pbind jr_read_u8 (\<lambda>ref_type_tag.
     pbind (jr_read_id (reference_type_id_size sizes)) (\<lambda>type_id.
     pbind (jr_read_id (field_id_size sizes)) (\<lambda>field_id.
     pbind (jr_read_id (object_id_size sizes)) (\<lambda>object.
     pbind (jr_read_tagged_value sizes) (\<lambda>value. preturn (ref_type_tag, type_id, field_id, object, value))))))"
    by (simp add: read_field_value_def jr_read_reference_type_id_def jr_read_object_id_def jr_read_tagged_value_def pbind_assoc)
  then show ?thesis
    by (simp only:) (rule exact_cong [OF exact_bind [OF exact_jr_u8 exact_bind [OF exact_jr_id exact_bind [OF exact_jr_id
        exact_bind [OF exact_jr_id exact_bind [OF exact_jr_tagged_value exact_return]]]]]]; auto; blast)
qed

text \<open>What the body of an event of a kind may be: an event, or nothing when the kind is unknown.\<close>

definition event_item :: "jdwp_id_sizes \<Rightarrow> byte \<Rightarrow> int \<Rightarrow> jdwp_event option \<Rightarrow> byte list \<Rightarrow> bool" where
  "event_item sizes kind rid x w \<longleftrightarrow>
     (case x of None \<Rightarrow> kind \<notin> set known_kinds \<and> w = [] | Some ev \<Rightarrow> event_body_layout sizes kind rid ev w)"

lemma event_item_kind:
  "event_item sizes 1 rid x w \<longleftrightarrow> (\<exists>t l. thread_location_layout sizes (t, l) w \<and> x = Some (SingleStep rid t l))"
  "event_item sizes 2 rid x w \<longleftrightarrow> (\<exists>t l. thread_location_layout sizes (t, l) w \<and> x = Some (Breakpoint rid t l))"
  "event_item sizes 4 rid x w \<longleftrightarrow> (\<exists>t l e loc u v c. thread_location_layout sizes (t, l) u \<and>
     id_layout (object_id_size sizes) e v \<and> location_layout sizes loc c \<and> w = u @ v @ c \<and>
     x = Some (ExceptionEvent rid t l e (catch_location_of loc)))"
  "event_item sizes 6 rid x w \<longleftrightarrow> (\<exists>t. id_layout (object_id_size sizes) t w \<and> x = Some (ThreadStart rid t))"
  "event_item sizes 7 rid x w \<longleftrightarrow> (\<exists>t. id_layout (object_id_size sizes) t w \<and> x = Some (ThreadDeath rid t))"
  "event_item sizes 8 rid x w \<longleftrightarrow> (\<exists>t g i sig st a b c d. id_layout (object_id_size sizes) t a \<and>
     id_layout (reference_type_id_size sizes) i b \<and> string_layout sig c \<and> uint_layout 4 st d \<and>
     w = a @ [g] @ b @ c @ d \<and> x = Some (ClassPrepare rid t g i sig st))"
  "event_item sizes 9 rid x w \<longleftrightarrow> (\<exists>sig. string_layout sig w \<and> x = Some (ClassUnload rid sig))"
  "event_item sizes 20 rid x w \<longleftrightarrow> (\<exists>t l g i f j v a b. thread_location_layout sizes (t, l) a \<and>
     field_value_layout sizes (g, i, f, j, v) b \<and> w = a @ b \<and> x = Some (FieldAccess rid t l g i f j v))"
  "event_item sizes 21 rid x w \<longleftrightarrow> (\<exists>t l g i f j v a b. thread_location_layout sizes (t, l) a \<and>
     field_value_layout sizes (g, i, f, j, v) b \<and> w = a @ b \<and> x = Some (FieldModification rid t l g i f j None v))"
  "event_item sizes 42 rid x w \<longleftrightarrow> (\<exists>t l v a b. thread_location_layout sizes (t, l) a \<and>
     tagged_value_layout sizes v b \<and> w = a @ b \<and> x = Some (MethodExitWithReturnValue rid t l v))"
  "event_item sizes 90 rid x w \<longleftrightarrow> (\<exists>t. id_layout (object_id_size sizes) t w \<and> x = Some (VmStart rid t))"
  "event_item sizes 99 rid x w \<longleftrightarrow> x = Some VmDeath \<and> w = []"
  "event_item sizes 100 rid x w \<longleftrightarrow> x = Some VmDisconnect \<and> w = []"
  "kind \<notin> set known_kinds \<Longrightarrow> event_item sizes kind rid x w \<longleftrightarrow> x = None \<and> w = []"
  unfolding event_item_def known_kinds_def
  by (auto simp del: thread_location_layout.simps field_value_layout.simps split: option.splits elim!: event_body_layout.elims; blast)+

lemma exact_event_body: "exact rd_at (read_event_body sizes kind rid) (event_item sizes kind rid)"
proof -
  note defs = read_event_body_def jr_read_object_id_def jr_read_reference_type_id_def jr_read_u32_def
  have locations:
    "exact rd_at (pbind (read_thread_location sizes) (\<lambda>(t, l). preturn (Some (SingleStep rid t l)))) (event_item sizes 1 rid)"
    "exact rd_at (pbind (read_thread_location sizes) (\<lambda>(t, l). preturn (Some (Breakpoint rid t l)))) (event_item sizes 2 rid)"
    by (rule exact_cong [OF exact_bind_split [OF exact_thread_location exact_return]];
        auto simp: event_item_kind simp del: thread_location_layout.simps)+
  have exception: "exact rd_at (pbind (read_thread_location sizes) (\<lambda>(t, l). pbind (jr_read_id (object_id_size sizes)) (\<lambda>e.
      pbind (jr_read_location sizes) (\<lambda>c. preturn (Some (ExceptionEvent rid t l e (catch_location_of c))))))) (event_item sizes 4 rid)"
    by (rule exact_cong [OF exact_bind_split [OF exact_thread_location exact_bind [OF exact_jr_id exact_bind [OF
            exact_jr_location exact_return]]]]; auto simp: event_item_kind simp del: thread_location_layout.simps; blast)
  have prepare: "exact rd_at (pbind (jr_read_id (object_id_size sizes)) (\<lambda>t. pbind jr_read_u8 (\<lambda>g.
      pbind (jr_read_id (reference_type_id_size sizes)) (\<lambda>i. pbind jr_read_string (\<lambda>sig. pbind (jr_read_be 4) (\<lambda>st.
        preturn (Some (ClassPrepare rid t g i sig st)))))))) (event_item sizes 8 rid)"
    by (rule exact_cong [OF exact_bind [OF exact_jr_id exact_bind [OF exact_jr_u8 exact_bind [OF exact_jr_id exact_bind [OF
            exact_jr_string exact_bind [OF exact_jr_be exact_return]]]]]]; auto simp: event_item_kind; blast)
  have field:
    "exact rd_at (pbind (read_thread_location sizes) (\<lambda>(t, l). pbind (read_field_value sizes) (\<lambda>(g, i, f, j, v).
      preturn (Some (FieldAccess rid t l g i f j v))))) (event_item sizes 20 rid)"
    "exact rd_at (pbind (read_thread_location sizes) (\<lambda>(t, l). pbind (read_field_value sizes) (\<lambda>(g, i, f, j, v).
      preturn (Some (FieldModification rid t l g i f j None v))))) (event_item sizes 21 rid)"
    by (rule exact_cong [OF exact_bind_split [OF exact_thread_location exact_bind_field [OF exact_field_value exact_return]]];
        auto simp: event_item_kind simp del: thread_location_layout.simps field_value_layout.simps; blast)+
  have method_exit: "exact rd_at (pbind (read_thread_location sizes) (\<lambda>(t, l). pbind (jr_read_tagged_value sizes) (\<lambda>v.
      preturn (Some (MethodExitWithReturnValue rid t l v))))) (event_item sizes 42 rid)"
    by (rule exact_cong [OF exact_bind_split [OF exact_thread_location exact_bind [OF exact_jr_tagged_value exact_return]]];
        auto simp: event_item_kind simp del: thread_location_layout.simps; blast)
  note exact_kinds = locations exception exact_map [OF exact_jr_id event_item_kind(4)] exact_map [OF exact_jr_id event_item_kind(5)]
    prepare exact_map [OF exact_jr_string event_item_kind(7)] field method_exit [unfolded jr_read_tagged_value_def pbind_assoc]
    exact_map [OF exact_jr_id event_item_kind(11)] exact_cong [OF exact_return event_item_kind(12) [symmetric]]
    exact_cong [OF exact_return event_item_kind(13) [symmetric]]
  show ?thesis
  proof (cases "kind \<in> set known_kinds")
    case True
    then have "kind \<in> {1, 2, 4, 6, 7, 8, 9, 20, 21, 42, 90, 99, 100}" by (simp add: known_kinds_def)
    then show ?thesis
      unfolding insert_iff
      by (elim disjE emptyE; hypsubst; insert exact_kinds; simp add: defs event_kinds)
  next
    case False
    then have "read_event_body sizes kind rid = preturn None" by (simp add: read_event_body_def known_kinds_def event_kinds)
    then show ?thesis using exact_cong [OF exact_return event_item_kind(14) [OF False, symmetric]] by simp
  qed
qed


lemma exact_event:
  "exact rd_at (read_event sizes) (\<lambda>x w. case x of None \<Rightarrow> unknown_event w | Some ev \<Rightarrow> event_layout sizes ev w)"
  unfolding read_event_def
  by (rule exact_cong [OF exact_bind [OF exact_jr_u8 exact_bind [OF exact_jr_i32 exact_event_body]]])
    (auto simp: event_item_def unknown_event_def event_layout_def split: option.splits; blast)

lemma read_event_known: "event_layout sizes ev w \<Longrightarrow> read_event sizes (rd_at pre (w @ rest)) = Some (Ok (Some ev, rd_at (pre @ w) rest))"
  using exact_decodes [OF exact_event [of sizes], where x = "Some ev" and w = w] by (simp add: decodes_def)

lemma read_event_unknown: "unknown_event w \<Longrightarrow> read_event sizes (rd_at pre (w @ rest)) = Some (Ok (None, rd_at (pre @ w) rest))"
  using exact_decodes [OF exact_event [of sizes], where x = None and w = w] by (simp add: decodes_def)

lemma read_event_broken:
  assumes "\<forall>u v. rest = u @ v \<longrightarrow> \<not> unknown_event u \<and> (\<forall>ev. \<not> event_layout sizes ev u)"
  shows "\<exists>e. read_event sizes (rd_at pre rest) = Some (Err e)"
  using exact_run [OF exact_event [of sizes], where pre = pre and rest = rest] assms
  by (elim run_atE) (auto split: option.splits)

section \<open>What is sent, and in which order\<close>

definition emitted :: "byte \<Rightarrow> jdwp_event list \<Rightarrow> channels \<Rightarrow> channels" where
  "emitted suspend_policy evs ch =
     ch\<lparr>ch_events := ch_events ch @ evs,
        ch_envelopes := ch_envelopes ch @ map (\<lambda>ev. \<lparr>env_suspend_policy = suspend_policy, env_event = ev\<rparr>) evs\<rparr>"

definition disconnected :: "jdwp_event list \<Rightarrow> channels \<Rightarrow> channels" where
  "disconnected evs ch = ch\<lparr>ch_shutdown := ch_shutdown ch \<or> VmDisconnect \<in> set evs\<rparr>"

lemma emitted_simps:
  "emitted p [] ch = ch"
  "emitted p evs (emitted p evs' ch) = emitted p (evs' @ evs) ch"
  "send_event p ev ch = emitted p [ev] ch"
  "disconnected evs (emitted p evs' ch) = emitted p evs' (disconnected evs ch)"
  "disconnected [] ch = ch"
  "disconnected (ev # evs) ch = disconnected evs (if ev = VmDisconnect then ch\<lparr>ch_shutdown := True\<rparr> else ch)"
  by (simp_all add: emitted_def send_event_def disconnected_def)

lemma send_all: "fold (send_event p) evs ch = emitted p evs ch"
  by (induction evs arbitrary: ch) (simp_all add: emitted_simps)

lemma event_loop_known:
  assumes "list_all2 (event_layout sizes) evs ws"
  shows "event_loop sizes p (length evs + n) (rd_at pre (concat ws @ rest)) stop ch =
    event_loop sizes p n (rd_at (pre @ concat ws) rest) (stop @ filter is_stop_event evs)
      (emitted p (filter (\<lambda>ev. \<not> is_stop_event ev) evs) (disconnected evs ch))"
  using assms
proof (induction arbitrary: pre stop ch rule: list_all2_induct)
  case (Cons ev evs w ws)
  then show ?case by (auto simp: read_event_known emitted_simps Let_def)
qed (simp add: emitted_simps)

lemma event_loop_unknown:
  "unknown_event u \<Longrightarrow> event_loop sizes p n (rd_at pre (u @ v)) stop ch = Some (Ok stop, ch)"
  by (cases n) (simp_all add: read_event_unknown)

lemma event_loop_broken:
  assumes "\<forall>u v. rest = u @ v \<longrightarrow> \<not> unknown_event u \<and> (\<forall>ev. \<not> event_layout sizes ev u)" "0 < n"
  shows "\<exists>e. event_loop sizes p n (rd_at pre rest) stop ch = Some (Err e, ch)"
  using read_event_broken [OF assms(1), of pre] assms(2) by (cases n) auto

lemma head_then:
  assumes "n < 2 ^ 32"
  shows "pbind jr_read_u8 (\<lambda>p. pbind jr_read_u32 (f p)) (reader_new ([p] @ be_bytes 4 n @ rest)) = f p n (rd_at ([p] @ be_bytes 4 n) rest)"
proof -
  have "jr_read_u8 (reader_new ([p] @ be_bytes 4 n @ rest)) = Some (Ok (p, rd_at [p] (be_bytes 4 n @ rest)))"
    using exact_decodes [OF exact_jr_u8, of "[p]" p "be_bytes 4 n @ rest"] by (simp add: decodes_def reader_new_at)
  moreover have "jr_read_u32 (rd_at [p] (be_bytes 4 n @ rest)) = Some (Ok (n, rd_at ([p] @ be_bytes 4 n) rest))"
    using exact_decodes [OF exact_jr_be [of 4], of n "be_bytes 4 n" rest] assms
    by (simp add: decodes_def uint_layout_def jr_read_u32_def)
  ultimately show ?thesis by simp
qed

lemma packet_head:
  assumes "n < 2 ^ 32"
  shows "pbind jr_read_u8 (\<lambda>p. pbind jr_read_u32 (\<lambda>n. preturn (p, n))) (reader_new ([p] @ be_bytes 4 n @ rest)) =
    Some (Ok ((p, n), rd_at ([p] @ be_bytes 4 n) rest))"
  unfolding head_then [OF assms] by simp

text \<open>
  Property C11. A composite event packet is delivered in an order a client can rely on: the events of a
  well-formed packet are all sent, to both channels alike and under the suspend policy of the packet, first
  the events that do not stop a thread and then those that do, each group in the order of the packet; the
  same holds for the events before one of an unknown kind. If the packet breaks off or is malformed after
  some events, an error is returned and of these only the events that do not stop a thread have been sent.
  The shutdown token is cancelled whenever a disconnect is among the events.
\<close>

theorem event_packet_delivered:
  assumes "list_all2 (event_layout sizes) evs ws" "length evs \<le> n" "n < 2 ^ 32"
  shows "(n = length evs \<or> (\<exists>u v. rest = u @ v \<and> unknown_event u) \<longrightarrow>
      handle_event_packet sizes ([p] @ be_bytes 4 n @ concat ws @ rest) ch =
        Some (Ok (), emitted p (filter (\<lambda>ev. \<not> is_stop_event ev) evs @ filter is_stop_event evs) (disconnected evs ch))) \<and>
    (length evs < n \<and> (\<forall>u v. rest = u @ v \<longrightarrow> \<not> unknown_event u \<and> (\<forall>ev. \<not> event_layout sizes ev u)) \<longrightarrow>
      (\<exists>e. handle_event_packet sizes ([p] @ be_bytes 4 n @ concat ws @ rest) ch =
        Some (Err e, emitted p (filter (\<lambda>ev. \<not> is_stop_event ev) evs) (disconnected evs ch))))"
proof -
  obtain m where m: "n = length evs + m" using assms(2) le_Suc_ex by blast
  let ?sent = "emitted p (filter (\<lambda>ev. \<not> is_stop_event ev) evs) (disconnected evs ch)"
  have run: "handle_event_packet sizes ([p] @ be_bytes 4 n @ concat ws @ rest) ch =
      (case event_loop sizes p m (rd_at (([p] @ be_bytes 4 n) @ concat ws) rest) (filter is_stop_event evs) ?sent of
         None \<Rightarrow> None
       | Some (Inl e, ch') \<Rightarrow> Some (Err e, ch')
       | Some (Inr stop, ch') \<Rightarrow> Some (Ok (), fold (send_event p) stop ch'))"
    unfolding handle_event_packet_def packet_head [OF assms(3)]
    using event_loop_known [OF assms(1), of p m "[p] @ be_bytes 4 n" rest "[]" ch, folded m] by simp
  show ?thesis
  proof (intro conjI impI, elim disjE exE conjE, goal_cases)
    case 1
    then show ?case unfolding run using m by (simp add: emitted_simps send_all)
  next
    case (2 u v)
    then show ?case unfolding run by (simp add: emitted_simps send_all event_loop_unknown)
  next
    case 3
    then have "\<exists>e. event_loop sizes p m (rd_at (([p] @ be_bytes 4 n) @ concat ws) rest) (filter is_stop_event evs) ?sent =
        Some (Err e, ?sent)"
      using m by (intro event_loop_broken) auto
    then show ?case unfolding run by auto
  qed
qed

definition small_packet :: "byte list" where
  "small_packet = [2] @ be_bytes 4 2 @
     ([2] @ be_bytes 4 5 @ be_bytes 8 1 @ [1] @ be_bytes 8 7 @ be_bytes 8 300 @ be_bytes 8 12) @ ([100] @ be_bytes 4 0)"

theorem event_packet_delivered_witness:
  "\<exists>ch. handle_event_packet jdwp_id_sizes_default small_packet \<lparr>ch_events = [], ch_envelopes = [], ch_shutdown = False\<rparr> = Some (Ok (), ch) \<and>
     ch_events ch = [VmDisconnect, Breakpoint 5 1 small_location] \<and> ch_shutdown ch"
proof -
  let ?b = "[2] @ be_bytes 4 5 @ be_bytes 8 1 @ [1] @ be_bytes 8 7 @ be_bytes 8 300 @ be_bytes 8 12 :: byte list"
  let ?d = "[100] @ be_bytes 4 0 :: byte list"
  note layouts = event_layout_def sint_layout_def sint_range_def location_layout_def id_layout_def uint_layout_def
    jdwp_id_sizes_default_def small_location_def
  have "event_layout jdwp_id_sizes_default (Breakpoint 5 1 small_location) ?b"
    unfolding event_layout_def
    by (intro exI [of _ 2] exI [of _ 5] exI [of _ "be_bytes 4 5"]
        exI [of _ "be_bytes 8 1 @ [1] @ be_bytes 8 7 @ be_bytes 8 300 @ be_bytes 8 12"]) (simp add: layouts)
  moreover have "event_layout jdwp_id_sizes_default VmDisconnect ?d"
    unfolding event_layout_def by (intro exI [of _ 100] exI [of _ 0]) (simp add: layouts)
  ultimately have "list_all2 (event_layout jdwp_id_sizes_default) [Breakpoint 5 1 small_location, VmDisconnect] [?b, ?d]"
    by (simp only: list_all2_Cons list_all2_Nil simp_thms)
  from event_packet_delivered [OF this, of 2 "[]" 2 "\<lparr>ch_events = [], ch_envelopes = [], ch_shutdown = False\<rparr>"]
  show ?thesis by (simp add: small_packet_def emitted_def disconnected_def del: be_bytes.simps)
qed

end
