(* ===== verification/Jdwp_Conn.thy ===== *)
theory Jdwp_Conn
  imports Jdwp_Event "HOL-Library.AList"
begin

text \<open>
  The connection of the wire client (\<^verbatim>\<open>send_command_raw\<close>, \<^verbatim>\<open>PendingGuard\<close>
  and \<^verbatim>\<open>read_loop\<close> of \<^verbatim>\<open>nova-jdwp/src/wire/client.rs\<close>) as a transition
  system. A request is a future with its one-shot channel; what it does between two suspension points is one
  step, as is a turn of the read loop. The socket is the bytes that have arrived and whether the peer has
  closed it. A request is named by its number in the order of starting, which is not its 32-bit
  identifier on the wire.
\<close>

section \<open>State\<close>

record reply =
  reply_error_code :: nat
  reply_payload :: "byte list"

text \<open>The channel as its receiver sees it.\<close>

datatype chan = ChanOpen | ChanSent "(jdwp_error, reply) result" | ChanClosed

datatype phase = Writing | Waiting | Returned "(jdwp_error, byte list) result" | Abandoned

record request =
  rq_id :: nat
  rq_command_set :: byte
  rq_command :: byte
  rq_payload :: "byte list"
  rq_chan :: chan
  rq_phase :: phase

record conn =
  cn_pending :: "(nat \<times> nat) list"
  cn_next_id :: nat
  cn_id_sizes :: jdwp_id_sizes
  cn_channels :: channels
  cn_requests :: "request list"
  cn_in :: "byte list"
  cn_eof :: bool
  cn_out :: "byte list"
  cn_reading :: bool

definition conn_new :: conn where
  "conn_new =
     \<lparr>cn_pending = [], cn_next_id = 1, cn_id_sizes = jdwp_id_sizes_default,
      cn_channels = \<lparr>ch_events = [], ch_envelopes = [], ch_shutdown = False\<rparr>,
      cn_requests = [], cn_in = [], cn_eof = False, cn_out = [], cn_reading = True\<rparr>"

definition set_chan :: "nat \<Rightarrow> chan \<Rightarrow> conn \<Rightarrow> conn" where
  "set_chan tok c cn = cn\<lparr>cn_requests := (cn_requests cn)[tok := (cn_requests cn ! tok)\<lparr>rq_chan := c\<rparr>]\<rparr>"

definition set_phase :: "nat \<Rightarrow> phase \<Rightarrow> conn \<Rightarrow> conn" where
  "set_phase tok p cn = cn\<lparr>cn_requests := (cn_requests cn)[tok := (cn_requests cn ! tok)\<lparr>rq_phase := p\<rparr>]\<rparr>"

definition cancel :: "conn \<Rightarrow> conn" where
  "cancel cn = cn\<lparr>cn_channels := (cn_channels cn)\<lparr>ch_shutdown := True\<rparr>\<rparr>"

section \<open>Requests\<close>

text \<open>Taking an entry out of the table drops its sender, which closes the channel.\<close>

definition remove_pending :: "nat \<Rightarrow> conn \<Rightarrow> conn" where
  "remove_pending i cn =
     (case map_of (cn_pending cn) i of
        None \<Rightarrow> cn
      | Some tok \<Rightarrow> set_chan tok ChanClosed (cn\<lparr>cn_pending := AList.delete i (cn_pending cn)\<rparr>))"

definition send_begin :: "byte \<Rightarrow> byte \<Rightarrow> byte list \<Rightarrow> conn \<Rightarrow> (jdwp_error, conn) result" where
  "send_begin command_set command payload cn =
     (let len = jdwp_header_len + length payload
      in if max_jdwp_packet_bytes < len then Err (JdwpPacketTooLarge len)
         else
           let i = cn_next_id cn;
               cn' = remove_pending i (cn\<lparr>cn_next_id := (i + 1) mod 2 ^ 32\<rparr>)
           in Ok (cn'\<lparr>cn_pending := AList.update i (length (cn_requests cn)) (cn_pending cn'),
                      cn_requests := cn_requests cn' @
                        [\<lparr>rq_id = i, rq_command_set = command_set, rq_command = command, rq_payload = payload,
                          rq_chan = ChanOpen, rq_phase = Writing\<rparr>]\<rparr>))"

definition send_written :: "nat \<Rightarrow> conn \<Rightarrow> conn" where
  "send_written tok cn =
     (let rq = cn_requests cn ! tok
      in set_phase tok Waiting
           (cn\<lparr>cn_out := cn_out cn @ encode_command (rq_id rq) (rq_command_set rq) (rq_command rq) (rq_payload rq)\<rparr>))"

text \<open>Leaving with the guard armed, or after the explicit removal with the guard disarmed.\<close>

definition leave :: "nat \<Rightarrow> phase \<Rightarrow> conn \<Rightarrow> conn" where
  "leave tok p cn = set_phase tok p (remove_pending (rq_id (cn_requests cn ! tok)) cn)"

definition write_failed :: "nat \<Rightarrow> conn \<Rightarrow> conn" where
  "write_failed tok cn = leave tok (Returned (Err JdwpIo)) cn"

definition reply_result :: "reply \<Rightarrow> (jdwp_error, byte list) result" where
  "reply_result reply =
     (if reply_error_code reply \<noteq> 0 then Err (VmError (reply_error_code reply)) else Ok (reply_payload reply))"

definition poll_request :: "bool \<Rightarrow> nat \<Rightarrow> conn \<Rightarrow> conn" where
  "poll_request elapsed tok cn =
     (case rq_chan (cn_requests cn ! tok) of
        ChanSent (Inr reply) \<Rightarrow> set_phase tok (Returned (reply_result reply)) cn
      | ChanSent (Inl e) \<Rightarrow> leave tok (Returned (Err e)) cn
      | ChanClosed \<Rightarrow> leave tok (Returned (Err ConnectionClosed)) cn
      | ChanOpen \<Rightarrow>
          (if elapsed then leave tok (Returned (Err JdwpTimeout)) cn
           else if ch_shutdown (cn_channels cn) then leave tok (Returned (Err JdwpCancelled)) cn
           else cn))"

definition drop_request :: "nat \<Rightarrow> conn \<Rightarrow> conn" where
  "drop_request tok cn = leave tok Abandoned cn"

section \<open>The read loop\<close>

datatype frame = ReplyFrame nat nat "byte list" | CommandFrame nat byte byte "byte list"

text \<open>
  The next frame of the input, or an error that ends the loop; nothing while the input does not hold the
  whole of it and more may come.
\<close>

definition read_frame :: "bool \<Rightarrow> byte list \<Rightarrow> (jdwp_error, frame \<times> byte list) result option" where
  "read_frame eof input =
     (if length input < jdwp_header_len then if eof then Some (Err JdwpIo) else None
      else
        let header = take jdwp_header_len input;
            len = from_be_bytes (take 4 header);
            i = from_be_bytes (take 4 (drop 4 header));
            flags = header ! 8
        in case validate_jdwp_packet_length len of
             Inl e \<Rightarrow> Some (Err e)
           | Inr _ \<Rightarrow>
               (if length input < len then if eof then Some (Err JdwpIo) else None
                else
                  let payload = take (len - jdwp_header_len) (drop jdwp_header_len input)
                  in Some (Ok
                       (if flags AND flag_reply \<noteq> 0 then ReplyFrame i (from_be_bytes (drop 9 header)) payload
                        else CommandFrame i (header ! 9) (header ! 10) payload,
                        drop len input))))"

definition handle_frame :: "frame \<Rightarrow> conn \<Rightarrow> ((jdwp_error, unit) result \<times> conn) option" where
  "handle_frame f cn =
     (case f of
        ReplyFrame i error_code payload \<Rightarrow>
          (case map_of (cn_pending cn) i of
             None \<Rightarrow> Some (Ok (), cn)
           | Some tok \<Rightarrow>
               Some (Ok (), set_chan tok (ChanSent (Ok \<lparr>reply_error_code = error_code, reply_payload = payload\<rparr>))
                 (cn\<lparr>cn_pending := AList.delete i (cn_pending cn)\<rparr>)))
      | CommandFrame i command_set command payload \<Rightarrow>
          (if command_set = 64 \<and> command = 100 then
             map_option (\<lambda>(res, ch). (res, cn\<lparr>cn_channels := ch\<rparr>)) (handle_event_packet (cn_id_sizes cn) payload (cn_channels cn))
           else Some (Ok (), cn)))"

definition is_protocol :: "jdwp_error \<Rightarrow> bool" where
  "is_protocol e \<longleftrightarrow>
     (case e of
        JdwpIo \<Rightarrow> False | VmError _ \<Rightarrow> False | JdwpTimeout \<Rightarrow> False | JdwpCancelled \<Rightarrow> False | ConnectionClosed \<Rightarrow> False
      | _ \<Rightarrow> True)"

definition wake_error :: "jdwp_error \<Rightarrow> jdwp_error" where
  "wake_error e = (if is_protocol e then e else ConnectionClosed)"

definition end_loop :: "jdwp_error option \<Rightarrow> conn \<Rightarrow> conn" where
  "end_loop terminated_with_error cn =
     cancel
       ((case terminated_with_error of
           None \<Rightarrow> cn
         | Some e \<Rightarrow>
             fold (\<lambda>(_, tok). set_chan tok (ChanSent (Err (wake_error e)))) (cn_pending cn) (cn\<lparr>cn_pending := []\<rparr>))
        \<lparr>cn_reading := False\<rparr>)"

text \<open>One turn; \<open>Some cn\<close> unchanged when it has to wait, \<open>None\<close> when it panics.\<close>

definition read_loop_turn :: "conn \<Rightarrow> conn option" where
  "read_loop_turn cn =
     (case read_frame (cn_eof cn) (cn_in cn) of
        None \<Rightarrow> Some cn
      | Some (Inl e) \<Rightarrow> Some (end_loop (Some e) cn)
      | Some (Inr (f, rest)) \<Rightarrow>
          (case handle_frame f (cn\<lparr>cn_in := rest\<rparr>) of
             None \<Rightarrow> None
           | Some (Inl e, cn') \<Rightarrow> Some (end_loop (Some e) cn')
           | Some (Inr _, cn') \<Rightarrow> Some cn'))"

definition active :: "conn \<Rightarrow> nat \<Rightarrow> bool" where
  "active cn tok \<longleftrightarrow> tok < length (cn_requests cn) \<and> rq_phase (cn_requests cn ! tok) \<in> {Writing, Waiting}"

definition waiting :: "conn \<Rightarrow> nat \<Rightarrow> bool" where
  "waiting cn tok \<longleftrightarrow> tok < length (cn_requests cn) \<and> rq_phase (cn_requests cn ! tok) = Waiting"

inductive conn_step :: "conn \<Rightarrow> conn \<Rightarrow> bool" where
  start: "send_begin command_set command payload cn = Ok cn' \<Longrightarrow> conn_step cn cn'"
| written: "active cn tok \<Longrightarrow> rq_phase (cn_requests cn ! tok) = Writing \<Longrightarrow> conn_step cn (send_written tok cn)"
| failed: "active cn tok \<Longrightarrow> rq_phase (cn_requests cn ! tok) = Writing \<Longrightarrow> conn_step cn (write_failed tok cn)"
| polled: "waiting cn tok \<Longrightarrow> conn_step cn (poll_request elapsed tok cn)"
| dropped: "active cn tok \<Longrightarrow> conn_step cn (drop_request tok cn)"
| arrived: "\<not> cn_eof cn \<Longrightarrow> conn_step cn (cn\<lparr>cn_in := cn_in cn @ bs\<rparr>)"
| closed: "conn_step cn (cn\<lparr>cn_eof := True\<rparr>)"
| turned: "cn_reading cn \<Longrightarrow> read_loop_turn cn = Some cn' \<Longrightarrow> conn_step cn cn'"
| stopped: "cn_reading cn \<Longrightarrow> ch_shutdown (cn_channels cn) \<Longrightarrow> conn_step cn (end_loop None cn)"
| shut: "conn_step cn (cancel cn)"
| sized: "conn_step cn (cn\<lparr>cn_id_sizes := sizes\<rparr>)"

definition reachable_conn :: "conn \<Rightarrow> bool" where
  "reachable_conn cn \<longleftrightarrow> conn_step\<^sup>*\<^sup>* conn_new cn"

inductive_cases conn_stepE: "conn_step cn cn'"

section \<open>The invariant\<close>

text \<open>
  The table of pending requests and the futures agree: an entry belongs to a request that is under way under
  this identifier with an open channel, and every such request has its entry.
\<close>

definition table_ok :: "(nat \<times> nat) list \<Rightarrow> request list \<Rightarrow> bool" where
  "table_ok pending rqs \<longleftrightarrow> distinct (map fst pending) \<and>
     (\<forall>i tok. map_of pending i = Some tok \<longrightarrow> tok < length rqs \<and> rq_phase (rqs ! tok) \<in> {Writing, Waiting} \<and>
        rq_id (rqs ! tok) = i \<and> rq_chan (rqs ! tok) = ChanOpen) \<and>
     (\<forall>tok < length rqs. rq_phase (rqs ! tok) \<in> {Writing, Waiting} \<and> rq_chan (rqs ! tok) = ChanOpen \<longrightarrow>
        map_of pending (rq_id (rqs ! tok)) = Some tok)"

definition conn_inv :: "conn \<Rightarrow> bool" where
  "conn_inv cn \<longleftrightarrow> table_ok (cn_pending cn) (cn_requests cn) \<and> (cn_reading cn \<or> ch_shutdown (cn_channels cn))"

lemma nth_update_at: "j < length xs \<Longrightarrow> xs[i := x] ! j = (if i = j then x else xs ! j)"
  by (cases "i = j") simp_all

lemma table_okD:
  assumes "table_ok pending rqs"
  shows "distinct (map fst pending)"
    and "map_of pending i = Some tok \<Longrightarrow> tok < length rqs"
    and "map_of pending i = Some tok \<Longrightarrow> rq_phase (rqs ! tok) \<in> {Writing, Waiting}"
    and "map_of pending i = Some tok \<Longrightarrow> rq_id (rqs ! tok) = i"
    and "map_of pending i = Some tok \<Longrightarrow> rq_chan (rqs ! tok) = ChanOpen"
    and "tok < length rqs \<Longrightarrow> rq_phase (rqs ! tok) \<in> {Writing, Waiting} \<Longrightarrow> rq_chan (rqs ! tok) = ChanOpen \<Longrightarrow>
      map_of pending (rq_id (rqs ! tok)) = Some tok"
  using assms by (auto simp: table_ok_def)

lemma table_ok_take:
  assumes "table_ok pending rqs" "map_of pending i = Some tok" "c \<noteq> ChanOpen"
  shows "table_ok (AList.delete i pending) (rqs[tok := (rqs ! tok)\<lparr>rq_chan := c\<rparr>])"
  using assms unfolding table_ok_def
  by (auto simp: delete_conv' distinct_delete nth_list_update fun_upd_def split: if_splits; blast)

lemma table_ok_leave:
  assumes "table_ok pending rqs" "tok < length rqs" "map_of pending (rq_id (rqs ! tok)) \<noteq> Some tok"
    and "p \<notin> {Writing, Waiting}"
  shows "table_ok pending (rqs[tok := (rqs ! tok)\<lparr>rq_phase := p\<rparr>])"
  using assms unfolding table_ok_def by (auto simp: nth_list_update split: if_splits)

lemma table_ok_phase:
  assumes "table_ok pending rqs" "tok < length rqs" "rq_phase (rqs ! tok) = Writing"
  shows "table_ok pending (rqs[tok := (rqs ! tok)\<lparr>rq_phase := Waiting\<rparr>])"
  using assms unfolding table_ok_def by (auto simp: nth_list_update split: if_splits)

lemma table_ok_insert:
  assumes "table_ok pending rqs" "map_of pending i = None" "rq_id rq = i" "rq_chan rq = ChanOpen" "rq_phase rq = Writing"
  shows "table_ok (AList.update i (length rqs) pending) (rqs @ [rq])"
  using assms unfolding table_ok_def
  by (auto simp: update_conv' distinct_update nth_append less_Suc_eq fun_upd_def split: if_splits)

text \<open>Everything but the table, the requests and the loop flag is left alone.\<close>

lemma conn_sel [simp]:
  "cn_pending (set_chan tok c cn) = cn_pending cn" "cn_requests (set_chan tok c cn) = (cn_requests cn)[tok := (cn_requests cn ! tok)\<lparr>rq_chan := c\<rparr>]"
  "cn_reading (set_chan tok c cn) = cn_reading cn" "cn_channels (set_chan tok c cn) = cn_channels cn"
  "cn_pending (set_phase tok p cn) = cn_pending cn" "cn_requests (set_phase tok p cn) = (cn_requests cn)[tok := (cn_requests cn ! tok)\<lparr>rq_phase := p\<rparr>]"
  "cn_reading (set_phase tok p cn) = cn_reading cn" "cn_channels (set_phase tok p cn) = cn_channels cn"
  "cn_pending (cancel cn) = cn_pending cn" "cn_requests (cancel cn) = cn_requests cn" "cn_reading (cancel cn) = cn_reading cn"
  "ch_shutdown (cn_channels (cancel cn))"
  "cn_reading (remove_pending i cn) = cn_reading cn" "cn_channels (remove_pending i cn) = cn_channels cn"
  "length (cn_requests (remove_pending i cn)) = length (cn_requests cn)"
  by (simp_all add: set_chan_def set_phase_def cancel_def remove_pending_def split: option.splits)

lemma remove_pending_ok:
  assumes "table_ok (cn_pending cn) (cn_requests cn)"
  shows "table_ok (cn_pending (remove_pending i cn)) (cn_requests (remove_pending i cn))"
    "map_of (cn_pending (remove_pending i cn)) i = None"
  using assms table_ok_take [OF assms, of i _ ChanClosed] table_okD(1) [OF assms]
  by (auto simp: remove_pending_def delete_conv' split: option.splits)

lemma remove_pending_request:
  assumes "tok < length (cn_requests cn)"
  shows "rq_id (cn_requests (remove_pending i cn) ! tok) = rq_id (cn_requests cn ! tok)"
    "rq_phase (cn_requests (remove_pending i cn) ! tok) = rq_phase (cn_requests cn ! tok)"
  using assms by (auto simp: remove_pending_def nth_update_at split: option.splits)

lemma leave_ok:
  assumes "table_ok (cn_pending cn) (cn_requests cn)" "tok < length (cn_requests cn)" "p \<notin> {Writing, Waiting}"
  shows "table_ok (cn_pending (leave tok p cn)) (cn_requests (leave tok p cn))"
  unfolding leave_def
  using table_ok_leave [OF remove_pending_ok(1) [OF assms(1)], of tok "rq_id (cn_requests cn ! tok)" p]
    remove_pending_ok(2) [OF assms(1)] remove_pending_request [OF assms(2)] assms(2,3) by simp

lemma fold_wake:
  fixes ps :: "(nat \<times> nat) list"
  defines "wake \<equiv> \<lambda>c. fold (\<lambda>(_, tok). set_chan tok c) ps"
  shows "cn_pending (wake c cn) = cn_pending cn" "cn_reading (wake c cn) = cn_reading cn"
    "length (cn_requests (wake c cn)) = length (cn_requests cn)"
    "tok < length (cn_requests cn) \<Longrightarrow>
      cn_requests (wake c cn) ! tok = (if tok \<in> snd ` set ps then (cn_requests cn ! tok)\<lparr>rq_chan := c\<rparr> else cn_requests cn ! tok)"
  unfolding wake_def by (induction ps arbitrary: cn) (auto simp: nth_update_at, force)

lemma end_loop_ok:
  assumes "table_ok (cn_pending cn) (cn_requests cn)"
  shows "conn_inv (end_loop e cn)"
proof (cases e)
  case None
  with assms show ?thesis by (simp add: conn_inv_def end_loop_def cancel_def)
next
  case (Some err)
  have "table_ok [] (cn_requests (fold (\<lambda>(_, tok). set_chan tok (ChanSent (Err (wake_error err)))) (cn_pending cn) (cn\<lparr>cn_pending := []\<rparr>)))"
    unfolding table_ok_def
    using table_okD(6) [OF assms] by (force simp: fold_wake dest: map_of_SomeD split: if_splits)
  with Some show ?thesis by (simp add: conn_inv_def end_loop_def cancel_def fold_wake)
qed

lemma handle_frame_ok:
  assumes "table_ok (cn_pending cn) (cn_requests cn)" "handle_frame f cn = Some (res, cn')"
  shows "table_ok (cn_pending cn') (cn_requests cn') \<and> cn_reading cn' = cn_reading cn"
proof (cases f)
  case (ReplyFrame i code payload)
  with assms table_ok_take [OF assms(1)] show ?thesis by (auto simp: handle_frame_def split: option.splits)
next
  case (CommandFrame i cs c payload)
  with assms show ?thesis by (auto simp: handle_frame_def split: if_splits)
qed

lemma read_loop_turnE:
  assumes "read_loop_turn cn = Some cn'"
  obtains (wait) "read_frame (cn_eof cn) (cn_in cn) = None" "cn' = cn"
    | (fail) e where "read_frame (cn_eof cn) (cn_in cn) = Some (Err e)" "cn' = end_loop (Some e) cn"
    | (frame) f rest res cn2 where "read_frame (cn_eof cn) (cn_in cn) = Some (Ok (f, rest))"
        "handle_frame f (cn\<lparr>cn_in := rest\<rparr>) = Some (res, cn2)"
        "cn' = (case res of Inl e \<Rightarrow> end_loop (Some e) cn2 | Inr _ \<Rightarrow> cn2)"
  using assms by (auto simp: read_loop_turn_def split: option.splits sum.splits)

lemma read_loop_turn_ok:
  assumes "conn_inv cn" "cn_reading cn" "read_loop_turn cn = Some cn'"
  shows "conn_inv cn'"
  using assms(3)
proof (cases rule: read_loop_turnE)
  case wait
  with assms(1) show ?thesis by simp
next
  case (fail e)
  with assms(1) show ?thesis using end_loop_ok by (simp add: conn_inv_def)
next
  case (frame f rest res cn2)
  then have "table_ok (cn_pending cn2) (cn_requests cn2)" "cn_reading cn2"
    using handle_frame_ok [OF _ frame(2)] assms(1,2) by (simp_all add: conn_inv_def)
  with frame(3) show ?thesis using end_loop_ok [of cn2] by (cases res) (simp_all add: conn_inv_def)
qed

lemma poll_request_ok:
  assumes "conn_inv cn" "waiting cn tok"
  shows "conn_inv (poll_request elapsed tok cn)"
proof -
  have ok: "table_ok (cn_pending cn) (cn_requests cn)" "tok < length (cn_requests cn)"
    using assms by (simp_all add: conn_inv_def waiting_def)
  have "conn_inv (leave tok (Returned res) cn)" for res
    using leave_ok [OF ok, of "Returned res"] assms(1) by (simp add: conn_inv_def leave_def)
  moreover have "conn_inv (set_phase tok (Returned res) cn)" if "rq_chan (cn_requests cn ! tok) \<noteq> ChanOpen" for res
    using table_ok_leave [OF ok, of "Returned res"] table_okD(5) [OF ok(1)] that assms(1) by (auto simp: conn_inv_def)
  ultimately show ?thesis using assms(1) by (simp add: poll_request_def split: chan.splits sum.splits)
qed

lemma send_begin_ok:
  assumes "conn_inv cn" "send_begin cs c payload cn = Ok cn'"
  shows "conn_inv cn'"
proof -
  let ?cn = "remove_pending (cn_next_id cn) (cn\<lparr>cn_next_id := (cn_next_id cn + 1) mod 2 ^ 32\<rparr>)"
  have "table_ok (cn_pending ?cn) (cn_requests ?cn)" "map_of (cn_pending ?cn) (cn_next_id cn) = None"
    using assms(1) by (auto intro!: remove_pending_ok simp: conn_inv_def)
  from table_ok_insert [OF this] assms show ?thesis
    by (auto simp: send_begin_def conn_inv_def Let_def split: if_splits)
qed

lemma conn_step_inv: "conn_step cn cn' \<Longrightarrow> conn_inv cn \<Longrightarrow> conn_inv cn'"
proof (induction rule: conn_step.induct)
  case (start cs c payload cn cn')
  then show ?case using send_begin_ok by blast
next
  case (written cn tok)
  then show ?case using table_ok_phase [of "cn_pending cn" "cn_requests cn" tok]
    by (simp add: conn_inv_def send_written_def active_def Let_def)
next
  case (failed cn tok)
  then show ?case using leave_ok [of cn tok "Returned (Err JdwpIo)"] by (simp add: conn_inv_def write_failed_def active_def leave_def)
next
  case (dropped cn tok)
  then show ?case using leave_ok [of cn tok Abandoned] by (simp add: conn_inv_def drop_request_def active_def leave_def)
next
  case (polled cn tok elapsed)
  then show ?case using poll_request_ok by blast
next
  case (turned cn cn')
  then show ?case using read_loop_turn_ok by blast
next
  case (stopped cn)
  then show ?case using end_loop_ok by (simp add: conn_inv_def)
qed (simp_all add: conn_inv_def)

lemma steps_inv: "conn_step\<^sup>*\<^sup>* cn cn' \<Longrightarrow> conn_inv cn \<Longrightarrow> conn_inv cn'"
  by (induction rule: rtranclp_induct) (auto intro: conn_step_inv)

lemma reachable_inv: "reachable_conn cn \<Longrightarrow> conn_inv cn"
  unfolding reachable_conn_def by (erule steps_inv) (simp add: conn_inv_def conn_new_def table_ok_def)

section \<open>Frames\<close>

lemma read_frame_header:
  assumes "length header = 11" "from_be_bytes (take 4 header) = 11 + length payload" "11 + length payload \<le> max_jdwp_packet_bytes"
  shows "read_frame eof (header @ payload @ rest) = Some (Ok
    (if header ! 8 AND flag_reply \<noteq> 0 then ReplyFrame (from_be_bytes (take 4 (drop 4 header))) (from_be_bytes (drop 9 header)) payload
     else CommandFrame (from_be_bytes (take 4 (drop 4 header))) (header ! 9) (header ! 10) payload, rest))"
  using assms by (simp add: read_frame_def jdwp_header_len_def validate_jdwp_packet_length_def Let_def)

lemma read_reply_frame:
  assumes "i < 2 ^ 32" "code < 2 ^ 16" "jdwp_header_len + length payload \<le> max_jdwp_packet_bytes"
  shows "read_frame eof (encode_reply i code payload @ rest) = Some (Ok (ReplyFrame i code payload, rest))"
proof -
  let ?h = "be_bytes 4 (11 + length payload) @ be_bytes 4 i @ [flag_reply] @ be_bytes 2 code"
  have small: "11 + length payload \<le> max_jdwp_packet_bytes" "11 + length payload < 2 ^ 32"
    using assms(3) by (simp_all add: jdwp_header_len_def max_jdwp_packet_bytes_def)
  have "encode_reply i code payload @ rest = ?h @ payload @ rest"
    using small by (simp add: encode_reply_def jdwp_header_len_def)
  moreover have "read_frame eof (?h @ payload @ rest) = Some (Ok (ReplyFrame i code payload, rest))"
    using small assms(1,2) from_be_bytes_be [of i 4] from_be_bytes_be [of code 2] from_be_bytes_be [of "11 + length payload" 4]
    by (subst read_frame_header) (simp_all add: nth_append flag_reply_def)
  ultimately show ?thesis by simp
qed

lemma read_command_frame:
  assumes "i < 2 ^ 32" "jdwp_header_len + length payload \<le> max_jdwp_packet_bytes"
  shows "read_frame eof (encode_command i cs c payload @ rest) = Some (Ok (CommandFrame i cs c payload, rest))"
proof -
  let ?h = "be_bytes 4 (11 + length payload) @ be_bytes 4 i @ [0, cs, c]"
  have small: "11 + length payload \<le> max_jdwp_packet_bytes" "11 + length payload < 2 ^ 32"
    using assms(2) by (simp_all add: jdwp_header_len_def max_jdwp_packet_bytes_def)
  have "encode_command i cs c payload @ rest = ?h @ payload @ rest"
    using small by (simp add: encode_command_def jdwp_header_len_def)
  moreover have "read_frame eof (?h @ payload @ rest) = Some (Ok (CommandFrame i cs c payload, rest))"
    using small assms(1) from_be_bytes_be [of i 4] from_be_bytes_be [of "11 + length payload" 4]
    by (subst read_frame_header) (simp_all add: nth_append)
  ultimately show ?thesis by simp
qed

section \<open>Every request is answered\<close>

lemma poll_simps:
  assumes "waiting cn tok"
  shows "rq_chan (cn_requests cn ! tok) = ChanSent (Ok reply) \<Longrightarrow>
      rq_phase (cn_requests (poll_request elapsed tok cn) ! tok) = Returned (reply_result reply)"
    "rq_chan (cn_requests cn ! tok) = ChanSent (Err e) \<Longrightarrow>
      rq_phase (cn_requests (poll_request elapsed tok cn) ! tok) = Returned (Err e)"
    "rq_chan (cn_requests cn ! tok) = ChanClosed \<Longrightarrow>
      rq_phase (cn_requests (poll_request elapsed tok cn) ! tok) = Returned (Err ConnectionClosed)"
    "rq_chan (cn_requests cn ! tok) = ChanOpen \<Longrightarrow> ch_shutdown (cn_channels cn) \<Longrightarrow>
      rq_phase (cn_requests (poll_request False tok cn) ! tok) = Returned (Err JdwpCancelled)"
  using assms by (auto simp: poll_request_def leave_def waiting_def)

text \<open>An answer in the channel stays there, whatever else happens.\<close>

definition answered :: "nat \<Rightarrow> (jdwp_error, reply) result \<Rightarrow> request list \<Rightarrow> bool" where
  "answered tok r rqs \<longleftrightarrow> tok < length rqs \<and> rq_chan (rqs ! tok) = ChanSent r"

lemma answered_update:
  assumes "answered tok r rqs" "tok' \<noteq> tok \<or> rq_chan rq = ChanSent r"
  shows "answered tok r (rqs[tok' := rq])"
  using assms by (auto simp: answered_def nth_update_at)

lemma answered_append: "answered tok r rqs \<Longrightarrow> answered tok r (rqs @ rqs')"
  by (simp add: answered_def nth_append)

lemma answered_not_pending:
  assumes "table_ok (cn_pending cn) (cn_requests cn)" "answered tok r (cn_requests cn)"
  shows "map_of (cn_pending cn) i \<noteq> Some tok"
  using table_okD(5) [OF assms(1)] assms(2) by (auto simp: answered_def)

lemma answered_remove:
  assumes "table_ok (cn_pending cn) (cn_requests cn)" "answered tok r (cn_requests cn)"
  shows "answered tok r (cn_requests (remove_pending i cn))"
  using answered_not_pending [OF assms, of i] assms(2) by (auto simp: remove_pending_def split: option.splits intro!: answered_update)

lemma answered_phase:
  assumes "answered tok r (cn_requests cn)"
  shows "answered tok r (cn_requests (set_phase tok' p cn))"
  using assms answered_update [OF assms, of tok'] by (cases "tok' = tok") (auto simp: answered_def nth_update_at)

lemma answered_leave:
  assumes "table_ok (cn_pending cn) (cn_requests cn)" "answered tok r (cn_requests cn)"
  shows "answered tok r (cn_requests (leave tok' p cn))"
  unfolding leave_def by (intro answered_phase answered_remove assms)

lemma answered_end_loop:
  assumes "table_ok (cn_pending cn) (cn_requests cn)" "answered tok r (cn_requests cn)"
  shows "answered tok r (cn_requests (end_loop e cn))"
proof -
  have "tok \<notin> snd ` set (cn_pending cn)"
    using answered_not_pending [OF assms] table_okD(1) [OF assms(1)] by auto
  then show ?thesis
    using assms(2) by (auto simp: end_loop_def answered_def fold_wake split: option.splits)
qed

lemma answered_turn:
  assumes "table_ok (cn_pending cn) (cn_requests cn)" "answered tok r (cn_requests cn)" "read_loop_turn cn = Some cn'"
  shows "answered tok r (cn_requests cn')"
  using assms(3)
proof (cases rule: read_loop_turnE)
  case (frame f rest res cn2)
  then have "answered tok r (cn_requests cn2)"
    using assms(2) answered_not_pending [OF assms(1,2)]
    by (auto simp: handle_frame_def split: frame.splits option.splits if_splits intro!: answered_update)
  moreover have "table_ok (cn_pending cn2) (cn_requests cn2)" using handle_frame_ok [OF _ frame(2)] assms(1) by simp
  ultimately show ?thesis using frame(3) answered_end_loop by (cases res) auto
qed (use assms(2) answered_end_loop [OF assms(1,2)] in auto)

lemma answered_step:
  assumes "conn_step cn cn'" "conn_inv cn" "answered tok r (cn_requests cn)"
  shows "answered tok r (cn_requests cn')"
proof -
  have ok: "table_ok (cn_pending cn) (cn_requests cn)" using assms(2) by (simp add: conn_inv_def)
  note facts = answered_leave [OF ok assms(3)] answered_phase [OF assms(3)] answered_end_loop [OF ok assms(3)]
  show ?thesis
    using assms(1)
  proof cases
    case (start cs c payload)
    have "answered tok r (cn_requests (remove_pending i (cn\<lparr>cn_next_id := n\<rparr>)))" for i n
      by (rule answered_remove) (use ok assms(3) in simp_all)
    with start show ?thesis by (auto simp: send_begin_def Let_def split: if_splits intro!: answered_append)
  next
    case (written tok')
    then show ?thesis using answered_phase [of tok r "cn\<lparr>cn_out := _\<rparr>"] assms(3) by (simp add: send_written_def Let_def)
  next
    case (polled tok' elapsed)
    then show ?thesis using facts assms(3) by (auto simp: poll_request_def split: chan.splits sum.splits)
  next
    case turned
    then show ?thesis using answered_turn [OF ok assms(3)] by blast
  qed (use facts assms(3) in \<open>simp_all add: write_failed_def drop_request_def\<close>)
qed

lemma answered_steps:
  assumes "conn_step\<^sup>*\<^sup>* cn cn'" "conn_inv cn" "answered tok r (cn_requests cn)"
  shows "answered tok r (cn_requests cn')"
  using assms(1)
proof induction
  case (step y z)
  then show ?case using answered_step steps_inv assms(2) by blast
qed (rule assms(3))

lemma answered_polled:
  assumes "conn_step\<^sup>*\<^sup>* cn cn'" "conn_inv cn" "answered tok r (cn_requests cn)" "waiting cn' tok"
  shows "rq_phase (cn_requests (poll_request elapsed tok cn') ! tok) =
    Returned (case r of Inl e \<Rightarrow> Err e | Inr reply \<Rightarrow> reply_result reply)"
  using answered_steps [OF assms(1-3)] poll_simps(1,2) [OF assms(4)] by (cases r) (auto simp: answered_def)

lemma reply_answers:
  assumes "conn_inv cn" "waiting cn tok" "rq_chan (cn_requests cn ! tok) = ChanOpen"
    and "read_frame (cn_eof cn) (cn_in cn) = Some (Ok (ReplyFrame (rq_id (cn_requests cn ! tok)) code payload, rest))"
  shows "\<exists>cn'. read_loop_turn cn = Some cn' \<and>
    answered tok (Ok \<lparr>reply_error_code = code, reply_payload = payload\<rparr>) (cn_requests cn')"
proof -
  have "map_of (cn_pending cn) (rq_id (cn_requests cn ! tok)) = Some tok"
    using table_okD(6) [of "cn_pending cn" "cn_requests cn" tok] assms(1-3) by (simp add: conn_inv_def waiting_def)
  with assms(2,4) show ?thesis
    by (simp add: read_loop_turn_def handle_frame_def answered_def waiting_def nth_update_at)
qed

lemma failure_answers:
  assumes "conn_inv cn" "waiting cn tok" "rq_chan (cn_requests cn ! tok) = ChanOpen"
  shows "answered tok (Err (wake_error e)) (cn_requests (end_loop (Some e) cn))"
proof -
  have "map_of (cn_pending cn) (rq_id (cn_requests cn ! tok)) = Some tok"
    using table_okD(6) [of "cn_pending cn" "cn_requests cn" tok] assms by (simp add: conn_inv_def waiting_def)
  then have "tok \<in> snd ` set (cn_pending cn)" by (force dest: map_of_SomeD)
  with assms(2) show ?thesis by (simp add: end_loop_def answered_def waiting_def fold_wake)
qed

text \<open>
  Property C10. A request that waits is answered. If a reply with its identifier is the next frame, the read
  loop takes it, and from then on, whatever happens in between, the next poll of the request returns the
  payload, or the error code the machine reported. If the connection breaks or the input is malformed, the
  next poll returns the protocol error, or that the connection was closed. And once the read loop has
  ended for whatever reason, no poll leaves the request waiting.
\<close>

theorem request_answered:
  assumes "reachable_conn cn" "waiting cn tok"
  shows "(cn_reading cn \<and> rq_chan (cn_requests cn ! tok) = ChanOpen \<and>
      read_frame (cn_eof cn) (cn_in cn) = Some (Ok (ReplyFrame (rq_id (cn_requests cn ! tok)) code payload, rest)) \<longrightarrow>
      (\<exists>cn'. read_loop_turn cn = Some cn' \<and> (\<forall>later elapsed. conn_step\<^sup>*\<^sup>* cn' later \<and> waiting later tok \<longrightarrow>
         rq_phase (cn_requests (poll_request elapsed tok later) ! tok) =
           Returned (if code = 0 then Ok payload else Err (VmError code))))) \<and>
    (cn_reading cn \<and> rq_chan (cn_requests cn ! tok) = ChanOpen \<and> read_frame (cn_eof cn) (cn_in cn) = Some (Err e) \<longrightarrow>
      (\<exists>cn'. read_loop_turn cn = Some cn' \<and> (\<forall>later elapsed. conn_step\<^sup>*\<^sup>* cn' later \<and> waiting later tok \<longrightarrow>
         rq_phase (cn_requests (poll_request elapsed tok later) ! tok) = Returned (Err (wake_error e))))) \<and>
    (\<not> cn_reading cn \<longrightarrow> (\<exists>res. rq_phase (cn_requests (poll_request elapsed tok cn) ! tok) = Returned res))"
proof (intro conjI impI; (elim conjE)?)
  note inv = reachable_inv [OF assms(1)]
  {
    assume *: "cn_reading cn" "rq_chan (cn_requests cn ! tok) = ChanOpen"
      "read_frame (cn_eof cn) (cn_in cn) = Some (Ok (ReplyFrame (rq_id (cn_requests cn ! tok)) code payload, rest))"
    then obtain cn' where cn': "read_loop_turn cn = Some cn'"
        "answered tok (Ok \<lparr>reply_error_code = code, reply_payload = payload\<rparr>) (cn_requests cn')"
      using reply_answers [OF inv assms(2)] by blast
    moreover have "conn_inv cn'" using read_loop_turn_ok [OF inv *(1) cn'(1)] .
    ultimately show "\<exists>cn'. read_loop_turn cn = Some cn' \<and> (\<forall>later elapsed. conn_step\<^sup>*\<^sup>* cn' later \<and> waiting later tok \<longrightarrow>
         rq_phase (cn_requests (poll_request elapsed tok later) ! tok) =
           Returned (if code = 0 then Ok payload else Err (VmError code)))"
      using answered_polled [of cn' _ tok] by (fastforce simp: reply_result_def)
  next
    assume *: "cn_reading cn" "rq_chan (cn_requests cn ! tok) = ChanOpen" "read_frame (cn_eof cn) (cn_in cn) = Some (Err e)"
    then have turn: "read_loop_turn cn = Some (end_loop (Some e) cn)" by (simp add: read_loop_turn_def)
    have "conn_inv (end_loop (Some e) cn)" using read_loop_turn_ok [OF inv *(1) turn] .
    then show "\<exists>cn'. read_loop_turn cn = Some cn' \<and> (\<forall>later elapsed. conn_step\<^sup>*\<^sup>* cn' later \<and> waiting later tok \<longrightarrow>
         rq_phase (cn_requests (poll_request elapsed tok later) ! tok) = Returned (Err (wake_error e)))"
      using turn answered_polled [OF _ _ failure_answers [OF inv assms(2) *(2), of e]] by fastforce
  next
    assume "\<not> cn_reading cn"
    then have "ch_shutdown (cn_channels cn)" using inv by (simp add: conn_inv_def)
    then show "\<exists>res. rq_phase (cn_requests (poll_request elapsed tok cn) ! tok) = Returned res"
      using assms(2) by (auto simp: poll_request_def leave_def waiting_def split: chan.splits sum.splits)
  }
qed

section \<open>Answers come from replies\<close>

definition replied :: "nat \<Rightarrow> reply \<Rightarrow> conn \<Rightarrow> bool" where
  "replied tok reply cn \<longleftrightarrow> rq_chan (cn_requests cn ! tok) = ChanSent (Ok reply)"

lemma replied_same:
  assumes "tok < length (cn_requests cn)"
  shows "replied tok reply (remove_pending i cn) \<Longrightarrow> replied tok reply cn"
    "replied tok reply (set_phase tok' p cn) \<longleftrightarrow> replied tok reply cn"
    "replied tok reply (leave tok' p cn) \<Longrightarrow> replied tok reply cn"
    "replied tok reply (end_loop e cn) \<Longrightarrow> replied tok reply cn"
  using assms
  by (auto simp: replied_def remove_pending_def leave_def nth_update_at end_loop_def fold_wake
      split: option.splits if_splits)

lemma replied_turn:
  assumes "conn_inv cn" "tok < length (cn_requests cn)" "read_loop_turn cn = Some cn'" "replied tok reply cn'" "\<not> replied tok reply cn"
  shows "\<exists>rest. read_frame (cn_eof cn) (cn_in cn) =
    Some (Ok (ReplyFrame (rq_id (cn_requests cn ! tok)) (reply_error_code reply) (reply_payload reply), rest))"
  using assms(3)
proof (cases rule: read_loop_turnE)
  case (frame f rest res cn2)
  have "length (cn_requests cn2) = length (cn_requests cn)"
    using frame(2) by (auto simp: handle_frame_def split: frame.splits option.splits if_splits)
  then have "replied tok reply cn2"
    using frame(3) assms(2,4) replied_same(4) [of tok cn2] by (cases res) auto
  with frame(1,2) assms(2,5) table_okD(4) [of "cn_pending cn" "cn_requests cn"] assms(1) show ?thesis
    by (auto simp: handle_frame_def replied_def conn_inv_def nth_update_at split: frame.splits option.splits if_splits)
qed (use assms replied_same(4) [OF assms(2)] in auto)

lemma replied_step:
  assumes "conn_inv cn" "conn_step cn cn'" "tok < length (cn_requests cn)" "\<not> replied tok reply cn" "replied tok reply cn'"
  shows "\<exists>rest. read_frame (cn_eof cn) (cn_in cn) =
    Some (Ok (ReplyFrame (rq_id (cn_requests cn ! tok)) (reply_error_code reply) (reply_payload reply), rest))"
  using assms(2)
proof cases
  case (start cs c payload)
  then obtain i where "replied tok reply (remove_pending i (cn\<lparr>cn_next_id := (i + 1) mod 2 ^ 32\<rparr>))"
    using assms(3,5) by (auto simp: send_begin_def Let_def replied_def nth_append split: if_splits)
  from replied_same(1) [OF _ this] assms(3,4) show ?thesis by (simp add: replied_def)
next
  case (written tok')
  then show ?thesis using assms(3-5) replied_same(2) by (auto simp: send_written_def Let_def replied_def nth_update_at split: if_splits)
next
  case (polled tok' elapsed)
  then show ?thesis using assms(3-5) replied_same [OF assms(3)] by (auto simp: poll_request_def split: chan.splits sum.splits if_splits)
next
  case turned
  then show ?thesis using replied_turn [OF assms(1,3) _ assms(5,4)] by blast
qed (use assms(4,5) replied_same [OF assms(3)] in \<open>auto simp: write_failed_def drop_request_def replied_def\<close>)

lemma phase_same:
  assumes "tok < length (cn_requests cn)"
  shows "rq_phase (cn_requests (set_phase tok' p cn) ! tok) = (if tok' = tok then p else rq_phase (cn_requests cn ! tok))"
    "rq_phase (cn_requests (leave tok' p cn) ! tok) = (if tok' = tok then p else rq_phase (cn_requests cn ! tok))"
    "rq_phase (cn_requests (end_loop e cn) ! tok) = rq_phase (cn_requests cn ! tok)"
  using assms remove_pending_request [OF assms]
  by (auto simp: leave_def nth_update_at end_loop_def fold_wake split: option.splits)

lemma phase_turn:
  assumes "tok < length (cn_requests cn)" "read_loop_turn cn = Some cn'"
  shows "rq_phase (cn_requests cn' ! tok) = rq_phase (cn_requests cn ! tok)"
  using assms(2)
proof (cases rule: read_loop_turnE)
  case (frame f rest res cn2)
  then have "length (cn_requests cn2) = length (cn_requests cn)" "rq_phase (cn_requests cn2 ! tok) = rq_phase (cn_requests cn ! tok)"
    using assms(1) by (auto simp: handle_frame_def nth_update_at split: frame.splits option.splits if_splits)
  with frame(3) show ?thesis using assms(1) phase_same(3) [of tok cn2] by (cases res) auto
qed (use phase_same(3) [OF assms(1)] in auto)

lemma returned_step:
  assumes "conn_step cn cn'" "tok < length (cn_requests cn)"
    and "rq_phase (cn_requests cn ! tok) \<noteq> Returned (Ok payload)" "rq_phase (cn_requests cn' ! tok) = Returned (Ok payload)"
  shows "replied tok \<lparr>reply_error_code = 0, reply_payload = payload\<rparr> cn"
  using assms(1)
proof cases
  case (start cs c payload')
  then show ?thesis using assms(2-4) remove_pending_request(2)
    by (auto simp: send_begin_def Let_def nth_append split: if_splits)
next
  case (polled tok' elapsed)
  then show ?thesis
    using assms(3,4) phase_same [OF assms(2)]
    by (auto simp: poll_request_def replied_def reply_result_def split: chan.splits sum.splits if_splits)
next
  case turned
  then show ?thesis using phase_turn [OF assms(2)] assms(3,4) by auto
qed (use assms phase_same [OF assms(2)] in \<open>auto simp: write_failed_def drop_request_def send_written_def Let_def nth_update_at split: if_splits\<close>)

text \<open>
  Property C9. Replies reach the request they answer and no other. The channel of a request receives a reply
  only in a turn of the read loop whose frame is a reply with the identifier of that request, with that error
  code and payload; and a request returns a payload only if its channel holds a reply with this payload and the
  error code 0.
\<close>

theorem reply_routed:
  assumes "reachable_conn cn" "conn_step cn cn'" "tok < length (cn_requests cn)"
  shows "(\<not> replied tok reply cn \<and> replied tok reply cn' \<longrightarrow>
      (\<exists>rest. read_frame (cn_eof cn) (cn_in cn) =
        Some (Ok (ReplyFrame (rq_id (cn_requests cn ! tok)) (reply_error_code reply) (reply_payload reply), rest)))) \<and>
    (rq_phase (cn_requests cn ! tok) \<noteq> Returned (Ok payload) \<and> rq_phase (cn_requests cn' ! tok) = Returned (Ok payload) \<longrightarrow>
      replied tok \<lparr>reply_error_code = 0, reply_payload = payload\<rparr> cn)"
  using replied_step [OF reachable_inv [OF assms(1)] assms(2,3)] returned_step [OF assms(2,3)] by blast

section \<open>A run\<close>

text \<open>The size query is sent and its reply has arrived.\<close>

definition waiting_conn :: conn where
  "waiting_conn = conn_new
     \<lparr>cn_pending := [(1, 0)], cn_next_id := 2,
      cn_requests := [\<lparr>rq_id = 1, rq_command_set = 1, rq_command = 7, rq_payload = [], rq_chan = ChanOpen, rq_phase = Waiting\<rparr>],
      cn_in := encode_reply 1 0 [9], cn_out := encode_command 1 1 7 []\<rparr>"

lemma waiting_conn_reachable: "reachable_conn waiting_conn"
proof -
  let ?sent = "conn_new\<lparr>cn_pending := [(1, 0)], cn_next_id := 2,
      cn_requests := [\<lparr>rq_id = 1, rq_command_set = 1, rq_command = 7, rq_payload = [], rq_chan = ChanOpen, rq_phase = Writing\<rparr>]\<rparr>"
  have "send_begin 1 7 [] conn_new = Ok ?sent"
    by (simp add: send_begin_def conn_new_def remove_pending_def jdwp_header_len_def max_jdwp_packet_bytes_def Let_def)
  then have s1: "conn_step conn_new ?sent" by (rule conn_step.start)
  have s2: "conn_step ?sent (send_written 0 ?sent)" by (rule conn_step.written) (simp_all add: active_def conn_new_def)
  have s3: "conn_step (send_written 0 ?sent) ((send_written 0 ?sent)\<lparr>cn_in := cn_in (send_written 0 ?sent) @ encode_reply 1 0 [9]\<rparr>)"
    by (rule conn_step.arrived) (simp add: send_written_def set_phase_def conn_new_def Let_def)
  have eq: "(send_written 0 ?sent)\<lparr>cn_in := cn_in (send_written 0 ?sent) @ encode_reply 1 0 [9]\<rparr> = waiting_conn"
    by (simp add: waiting_conn_def send_written_def set_phase_def conn_new_def Let_def)
  show ?thesis unfolding reachable_conn_def
    by (rule converse_rtranclp_into_rtranclp [where r = conn_step, OF s1], rule converse_rtranclp_into_rtranclp [where r = conn_step, OF s2],
        rule r_into_rtranclp [where r = conn_step, OF s3 [unfolded eq]])
qed

lemma waiting_conn_facts:
  "waiting waiting_conn 0" "cn_reading waiting_conn" "rq_chan (cn_requests waiting_conn ! 0) = ChanOpen"
  "rq_id (cn_requests waiting_conn ! 0) = 1" "\<not> replied 0 reply waiting_conn" "0 < length (cn_requests waiting_conn)"
  "read_frame (cn_eof waiting_conn) (cn_in waiting_conn) = Some (Ok (ReplyFrame 1 0 [9], []))"
  using read_reply_frame [of 1 0 "[9]" False "[]"]
  by (simp_all add: waiting_conn_def conn_new_def waiting_def replied_def jdwp_header_len_def max_jdwp_packet_bytes_def)

theorem request_answered_witness:
  "reachable_conn waiting_conn \<and> waiting waiting_conn 0 \<and> (\<exists>cn'. read_loop_turn waiting_conn = Some cn' \<and>
     rq_phase (cn_requests (poll_request False 0 cn') ! 0) = Returned (Ok [9]))"
proof -
  obtain cn' where "read_loop_turn waiting_conn = Some cn'" "\<forall>later elapsed. conn_step\<^sup>*\<^sup>* cn' later \<and> waiting later 0 \<longrightarrow>
      rq_phase (cn_requests (poll_request elapsed 0 later) ! 0) = Returned (Ok [9])"
    using request_answered [OF waiting_conn_reachable waiting_conn_facts(1), of 0 "[9]" "[]"] waiting_conn_facts by auto
  moreover have "waiting cn' 0"
    using calculation(1) waiting_conn_facts phase_turn [OF waiting_conn_facts(6)]
    by (auto simp: waiting_def read_loop_turn_def handle_frame_def split: option.splits)
  ultimately show ?thesis using waiting_conn_reachable waiting_conn_facts(1) by blast
qed

theorem reply_routed_witness:
  "\<exists>cn' rest. reachable_conn waiting_conn \<and> conn_step waiting_conn cn' \<and>
     replied 0 \<lparr>reply_error_code = 0, reply_payload = [9]\<rparr> cn' \<and>
     read_frame (cn_eof waiting_conn) (cn_in waiting_conn) = Some (Ok (ReplyFrame 1 0 [9], rest))"
proof -
  obtain cn' where cn': "read_loop_turn waiting_conn = Some cn'" "replied 0 \<lparr>reply_error_code = 0, reply_payload = [9]\<rparr> cn'"
    using reply_answers [OF reachable_inv [OF waiting_conn_reachable] waiting_conn_facts(1,3), of 0 "[9]" "[]"] waiting_conn_facts
    by (auto simp: answered_def replied_def)
  then have "conn_step waiting_conn cn'" using waiting_conn_facts(2) by (intro conn_step.turned)
  from reply_routed [OF waiting_conn_reachable this waiting_conn_facts(6), of "\<lparr>reply_error_code = 0, reply_payload = [9]\<rparr>"]
  show ?thesis using cn' \<open>conn_step waiting_conn cn'\<close> waiting_conn_facts waiting_conn_reachable by auto
qed

end
