(* ===== verification/Jdwp_Client.thy ===== *)
theory Jdwp_Client
  imports Jdwp_Event Rust_Str_Ops
begin

text \<open>
  The commands of the wire client (\<^verbatim>\<open>nova-jdwp/src/wire/client.rs\<close> and the reply types of
  \<^verbatim>\<open>wire/types.rs\<close>). The answers of the debugged machine are a parameter: a function from
  command set, command and payload to the payload of the reply or an error, which stands for
  \<^verbatim>\<open>send_command_raw\<close>. A call that writes an identifier can panic; its result is then
  \<open>None\<close>. The identifier sizes are an argument of every command.
\<close>

section \<open>Calls\<close>

type_synonym machine = "byte \<Rightarrow> byte \<Rightarrow> byte list \<Rightarrow> (jdwp_error, byte list) result"

definition call :: "machine \<Rightarrow> byte \<Rightarrow> byte \<Rightarrow> jw \<Rightarrow> 'a jr \<Rightarrow> (jdwp_error, 'a) result option" where
  "call vm command_set command w reads =
     (case w [] of
        None \<Rightarrow> None
      | Some payload \<Rightarrow>
          (case vm command_set command payload of
             Inl e \<Rightarrow> Some (Err e)
           | Inr reply \<Rightarrow> map_option (map_sum id fst) (reads (reader_new reply))))"

text \<open>The check of the packet size some commands make before they copy their data.\<close>

definition sized_call :: "nat \<Rightarrow> (jdwp_error, 'a) result option \<Rightarrow> (jdwp_error, 'a) result option" where
  "sized_call payload_len run =
     (if max_jdwp_packet_bytes < jdwp_header_len + payload_len
      then Some (Err (JdwpPacketTooLarge (jdwp_header_len + payload_len))) else run)"

definition no_reply :: "unit jr" where "no_reply = preturn ()"

definition read_list :: "'a jr \<Rightarrow> 'a list jr" where
  "read_list p = pbind jr_read_u32 (\<lambda>count. prepeat count p)"

definition write_list :: "('a \<Rightarrow> jw) \<Rightarrow> 'a list \<Rightarrow> jw" where
  "write_list f xs = wthen (write_u32 (length xs mod 2 ^ 32)) (weach f xs)"

definition generic_of :: "rstr \<Rightarrow> rstr option" where
  "generic_of s = (if s \<noteq> [] then Some s else None)"

section \<open>Types of replies\<close>

record class_info =
  ci_ref_type_tag :: byte
  ci_type_id :: nat
  ci_signature :: rstr
  ci_status :: nat

record method_info =
  mi_method_id :: nat
  mi_name :: rstr
  mi_signature :: rstr
  mi_mod_bits :: nat

record method_info_with_generic =
  mg_method_id :: nat
  mg_name :: rstr
  mg_signature :: rstr
  mg_generic_signature :: "rstr option"
  mg_mod_bits :: nat

record field_info =
  fd_field_id :: nat
  fd_name :: rstr
  fd_signature :: rstr
  fd_mod_bits :: nat

record field_info_with_generic =
  fg_field_id :: nat
  fg_name :: rstr
  fg_signature :: rstr
  fg_generic_signature :: "rstr option"
  fg_mod_bits :: nat

record frame_info =
  fr_frame_id :: nat
  fr_location :: location

record line_table_entry =
  le_code_index :: nat
  le_line :: int

record line_table =
  lt_start :: nat
  lt_end :: nat
  lt_lines :: "line_table_entry list"

record variable_info =
  vi_code_index :: nat
  vi_name :: rstr
  vi_signature :: rstr
  vi_length :: nat
  vi_slot :: nat

record variable_info_with_generic =
  vg_code_index :: nat
  vg_name :: rstr
  vg_signature :: rstr
  vg_generic_signature :: "rstr option"
  vg_length :: nat
  vg_slot :: nat

record vm_class_paths =
  vp_base_dir :: rstr
  vp_classpaths :: "rstr list"
  vp_boot_classpaths :: "rstr list"

record monitor_info =
  mo_owner :: nat
  mo_entry_count :: int
  mo_waiters :: "nat list"

section \<open>The virtual machine\<close>

definition read_id_sizes :: "jdwp_id_sizes jr" where
  "read_id_sizes =
     pbind jr_read_u32 (\<lambda>f. pbind jr_read_u32 (\<lambda>m. pbind jr_read_u32 (\<lambda>j. pbind jr_read_u32 (\<lambda>t. pbind jr_read_u32 (\<lambda>fr.
       preturn \<lparr>field_id_size = f, method_id_size = m, object_id_size = j, reference_type_id_size = t, frame_id_size = fr\<rparr>)))))"

definition idsizes :: "machine \<Rightarrow> (jdwp_error, jdwp_id_sizes) result option" where
  "idsizes vm = call vm 1 7 Some read_id_sizes"

definition virtual_machine_class_paths :: "machine \<Rightarrow> (jdwp_error, vm_class_paths) result option" where
  "virtual_machine_class_paths vm =
     call vm 1 13 Some
       (pbind jr_read_string (\<lambda>base_dir. pbind (read_list jr_read_string) (\<lambda>classpaths.
        pbind (read_list jr_read_string) (\<lambda>boot_classpaths.
          preturn \<lparr>vp_base_dir = base_dir, vp_classpaths = classpaths, vp_boot_classpaths = boot_classpaths\<rparr>))))"

definition virtual_machine_create_string :: "machine \<Rightarrow> jdwp_id_sizes \<Rightarrow> rstr \<Rightarrow> (jdwp_error, nat) result option" where
  "virtual_machine_create_string vm sizes v =
     sized_call (4 + str_len v) (call vm 1 11 (write_string v) (jr_read_object_id sizes))"

definition virtual_machine_set_default_stratum :: "machine \<Rightarrow> rstr \<Rightarrow> (jdwp_error, unit) result option" where
  "virtual_machine_set_default_stratum vm stratum =
     sized_call (4 + str_len stratum) (call vm 1 19 (write_string stratum) no_reply)"

definition all_threads :: "machine \<Rightarrow> jdwp_id_sizes \<Rightarrow> (jdwp_error, nat list) result option" where
  "all_threads vm sizes = call vm 1 4 Some (read_list (jr_read_object_id sizes))"

definition virtual_machine_top_level_thread_groups :: "machine \<Rightarrow> jdwp_id_sizes \<Rightarrow> (jdwp_error, nat list) result option" where
  "virtual_machine_top_level_thread_groups vm sizes = call vm 1 5 Some (read_list (jr_read_object_id sizes))"

definition read_class_info :: "jdwp_id_sizes \<Rightarrow> class_info jr" where
  "read_class_info sizes =
     pbind jr_read_u8 (\<lambda>ref_type_tag. pbind (jr_read_reference_type_id sizes) (\<lambda>type_id.
     pbind jr_read_string (\<lambda>signature. pbind jr_read_u32 (\<lambda>status.
       preturn \<lparr>ci_ref_type_tag = ref_type_tag, ci_type_id = type_id, ci_signature = signature, ci_status = status\<rparr>))))"

definition all_classes :: "machine \<Rightarrow> jdwp_id_sizes \<Rightarrow> (jdwp_error, class_info list) result option" where
  "all_classes vm sizes = call vm 1 3 Some (read_list (read_class_info sizes))"

definition classes_by_signature :: "machine \<Rightarrow> jdwp_id_sizes \<Rightarrow> rstr \<Rightarrow> (jdwp_error, class_info list) result option" where
  "classes_by_signature vm sizes signature =
     call vm 1 2 (write_string signature)
       (read_list (pbind jr_read_u8 (\<lambda>ref_type_tag. pbind (jr_read_reference_type_id sizes) (\<lambda>type_id. pbind jr_read_u32 (\<lambda>status.
          preturn \<lparr>ci_ref_type_tag = ref_type_tag, ci_type_id = type_id, ci_signature = signature, ci_status = status\<rparr>)))))"

definition redefine_classes :: "machine \<Rightarrow> jdwp_id_sizes \<Rightarrow> (nat \<times> byte list) list \<Rightarrow> (jdwp_error, unit) result option" where
  "redefine_classes vm sizes classes =
     sized_call (4 + sum_list (map (\<lambda>(_, bytecode). reference_type_id_size sizes + 4 + length bytecode) classes))
       (call vm 1 18
          (write_list (\<lambda>(type_id, bytecode). wthen (write_reference_type_id type_id sizes)
             (wthen (write_u32 (length bytecode mod 2 ^ 32)) (write_bytes bytecode))) classes)
          no_reply)"

definition class_name_to_signature :: "rstr \<Rightarrow> rstr" where
  "class_name_to_signature class_name =
     (if class_name \<noteq> [] \<and> hd class_name = rc CHR ''L'' \<and> last class_name = rc CHR '';'' then class_name
      else [rc CHR ''L''] @ replace_char (rc CHR ''.'') (rc CHR ''/'') class_name @ [rc CHR '';''])"

definition redefine_class_by_name ::
  "machine \<Rightarrow> jdwp_id_sizes \<Rightarrow> rstr \<Rightarrow> byte list \<Rightarrow> (jdwp_error, unit) result option" where
  "redefine_class_by_name vm sizes class_name bytecode =
     (case classes_by_signature vm sizes (class_name_to_signature class_name) of
        None \<Rightarrow> None
      | Some (Inl e) \<Rightarrow> Some (Err e)
      | Some (Inr infos) \<Rightarrow>
          (if infos = [] then Some (Err JdwpNotLoaded)
           else sized_call (4 + length infos * (reference_type_id_size sizes + 4 + length bytecode))
             (redefine_classes vm sizes (map (\<lambda>info. (ci_type_id info, bytecode)) infos))))"

definition vm_resume :: "machine \<Rightarrow> (jdwp_error, unit) result option" where
  "vm_resume vm = call vm 1 9 Some no_reply"

definition vm_suspend :: "machine \<Rightarrow> (jdwp_error, unit) result option" where
  "vm_suspend vm = call vm 1 8 Some no_reply"

definition virtual_machine_exit :: "machine \<Rightarrow> int \<Rightarrow> (jdwp_error, unit) result option" where
  "virtual_machine_exit vm exit_code = call vm 1 10 (write_i32 exit_code) no_reply"

definition virtual_machine_dispose_objects ::
  "machine \<Rightarrow> jdwp_id_sizes \<Rightarrow> (nat \<times> nat) list \<Rightarrow> (jdwp_error, unit) result option" where
  "virtual_machine_dispose_objects vm sizes objects =
     call vm 1 14 (write_list (\<lambda>(object_id, ref_cnt). wthen (write_object_id object_id sizes) (write_u32 ref_cnt)) objects) no_reply"

definition virtual_machine_hold_events :: "machine \<Rightarrow> (jdwp_error, unit) result option" where
  "virtual_machine_hold_events vm = call vm 1 15 Some no_reply"

definition virtual_machine_release_events :: "machine \<Rightarrow> (jdwp_error, unit) result option" where
  "virtual_machine_release_events vm = call vm 1 16 Some no_reply"

text \<open>A successful dispose shuts the client down; the flag is the state of the token.\<close>

definition virtual_machine_dispose :: "machine \<Rightarrow> bool \<Rightarrow> ((jdwp_error, unit) result \<times> bool) option" where
  "virtual_machine_dispose vm shutdown =
     map_option (\<lambda>res. (res, shutdown \<or> \<not> isl res)) (call vm 1 6 Some no_reply)"

section \<open>Threads\<close>

definition thread_name :: "machine \<Rightarrow> jdwp_id_sizes \<Rightarrow> nat \<Rightarrow> (jdwp_error, rstr) result option" where
  "thread_name vm sizes thread = call vm 11 1 (write_object_id thread sizes) jr_read_string"

definition thread_suspend :: "machine \<Rightarrow> jdwp_id_sizes \<Rightarrow> nat \<Rightarrow> (jdwp_error, unit) result option" where
  "thread_suspend vm sizes thread = call vm 11 2 (write_object_id thread sizes) no_reply"

definition thread_resume :: "machine \<Rightarrow> jdwp_id_sizes \<Rightarrow> nat \<Rightarrow> (jdwp_error, unit) result option" where
  "thread_resume vm sizes thread = call vm 11 3 (write_object_id thread sizes) no_reply"

definition thread_status :: "machine \<Rightarrow> jdwp_id_sizes \<Rightarrow> nat \<Rightarrow> (jdwp_error, nat \<times> nat) result option" where
  "thread_status vm sizes thread =
     call vm 11 4 (write_object_id thread sizes)
       (pbind jr_read_u32 (\<lambda>thread_status. pbind jr_read_u32 (\<lambda>suspend_status. preturn (thread_status, suspend_status))))"

definition thread_reference_thread_group :: "machine \<Rightarrow> jdwp_id_sizes \<Rightarrow> nat \<Rightarrow> (jdwp_error, nat) result option" where
  "thread_reference_thread_group vm sizes thread = call vm 11 5 (write_object_id thread sizes) (jr_read_object_id sizes)"

definition thread_frame_count :: "machine \<Rightarrow> jdwp_id_sizes \<Rightarrow> nat \<Rightarrow> (jdwp_error, nat) result option" where
  "thread_frame_count vm sizes thread = call vm 11 7 (write_object_id thread sizes) jr_read_u32"

definition thread_owned_monitors :: "machine \<Rightarrow> jdwp_id_sizes \<Rightarrow> nat \<Rightarrow> (jdwp_error, nat list) result option" where
  "thread_owned_monitors vm sizes thread = call vm 11 8 (write_object_id thread sizes) (read_list (jr_read_object_id sizes))"

definition thread_current_contended_monitor :: "machine \<Rightarrow> jdwp_id_sizes \<Rightarrow> nat \<Rightarrow> (jdwp_error, nat) result option" where
  "thread_current_contended_monitor vm sizes thread = call vm 11 9 (write_object_id thread sizes) (jr_read_object_id sizes)"

definition thread_suspend_count :: "machine \<Rightarrow> jdwp_id_sizes \<Rightarrow> nat \<Rightarrow> (jdwp_error, nat) result option" where
  "thread_suspend_count vm sizes thread = call vm 11 12 (write_object_id thread sizes) jr_read_u32"

definition thread_owned_monitors_stack_depth_info ::
  "machine \<Rightarrow> jdwp_id_sizes \<Rightarrow> nat \<Rightarrow> (jdwp_error, (nat \<times> int) list) result option" where
  "thread_owned_monitors_stack_depth_info vm sizes thread =
     call vm 11 13 (write_object_id thread sizes)
       (read_list (pbind (jr_read_object_id sizes) (\<lambda>monitor. pbind jr_read_i32 (\<lambda>stack_depth. preturn (monitor, stack_depth)))))"

definition frames :: "machine \<Rightarrow> jdwp_id_sizes \<Rightarrow> nat \<Rightarrow> int \<Rightarrow> int \<Rightarrow> (jdwp_error, frame_info list) result option" where
  "frames vm sizes thread start len =
     call vm 11 6 (wthen (write_object_id thread sizes) (wthen (write_i32 start) (write_i32 len)))
       (read_list (pbind (jr_read_id (frame_id_size sizes)) (\<lambda>frame_id. pbind (jr_read_location sizes) (\<lambda>location.
          preturn \<lparr>fr_frame_id = frame_id, fr_location = location\<rparr>))))"

definition thread_group_reference_name :: "machine \<Rightarrow> jdwp_id_sizes \<Rightarrow> nat \<Rightarrow> (jdwp_error, rstr) result option" where
  "thread_group_reference_name vm sizes grp = call vm 12 1 (write_object_id grp sizes) jr_read_string"

definition thread_group_reference_parent :: "machine \<Rightarrow> jdwp_id_sizes \<Rightarrow> nat \<Rightarrow> (jdwp_error, nat) result option" where
  "thread_group_reference_parent vm sizes grp = call vm 12 2 (write_object_id grp sizes) (jr_read_object_id sizes)"

definition thread_group_reference_children ::
  "machine \<Rightarrow> jdwp_id_sizes \<Rightarrow> nat \<Rightarrow> (jdwp_error, nat list \<times> nat list) result option" where
  "thread_group_reference_children vm sizes grp =
     call vm 12 3 (write_object_id grp sizes)
       (pbind (read_list (jr_read_object_id sizes)) (\<lambda>groups. pbind (read_list (jr_read_object_id sizes)) (\<lambda>threads.
          preturn (groups, threads))))"

section \<open>Types and methods\<close>

definition reference_type_source_file :: "machine \<Rightarrow> jdwp_id_sizes \<Rightarrow> nat \<Rightarrow> (jdwp_error, rstr) result option" where
  "reference_type_source_file vm sizes class_id = call vm 2 7 (write_reference_type_id class_id sizes) jr_read_string"

definition reference_type_source_debug_extension :: "machine \<Rightarrow> jdwp_id_sizes \<Rightarrow> nat \<Rightarrow> (jdwp_error, rstr) result option" where
  "reference_type_source_debug_extension vm sizes class_id = call vm 2 12 (write_reference_type_id class_id sizes) jr_read_string"

definition reference_type_signature :: "machine \<Rightarrow> jdwp_id_sizes \<Rightarrow> nat \<Rightarrow> (jdwp_error, rstr) result option" where
  "reference_type_signature vm sizes class_id = call vm 2 1 (write_reference_type_id class_id sizes) jr_read_string"

definition reference_type_class_loader :: "machine \<Rightarrow> jdwp_id_sizes \<Rightarrow> nat \<Rightarrow> (jdwp_error, nat) result option" where
  "reference_type_class_loader vm sizes class_id =
     call vm 2 2 (write_reference_type_id class_id sizes) (jr_read_object_id sizes)"

definition reference_type_interfaces :: "machine \<Rightarrow> jdwp_id_sizes \<Rightarrow> nat \<Rightarrow> (jdwp_error, nat list) result option" where
  "reference_type_interfaces vm sizes type_id =
     call vm 2 10 (write_reference_type_id type_id sizes) (read_list (jr_read_reference_type_id sizes))"

definition read_method_info :: "jdwp_id_sizes \<Rightarrow> method_info jr" where
  "read_method_info sizes =
     pbind (jr_read_id (method_id_size sizes)) (\<lambda>method_id. pbind jr_read_string (\<lambda>name. pbind jr_read_string (\<lambda>signature.
     pbind jr_read_u32 (\<lambda>mod_bits.
       preturn \<lparr>mi_method_id = method_id, mi_name = name, mi_signature = signature, mi_mod_bits = mod_bits\<rparr>))))"

definition reference_type_methods :: "machine \<Rightarrow> jdwp_id_sizes \<Rightarrow> nat \<Rightarrow> (jdwp_error, method_info list) result option" where
  "reference_type_methods vm sizes class_id =
     call vm 2 5 (write_reference_type_id class_id sizes) (read_list (read_method_info sizes))"

definition reference_type_methods_with_generic ::
  "machine \<Rightarrow> jdwp_id_sizes \<Rightarrow> nat \<Rightarrow> (jdwp_error, method_info_with_generic list) result option" where
  "reference_type_methods_with_generic vm sizes class_id =
     call vm 2 15 (write_reference_type_id class_id sizes)
       (read_list (pbind (jr_read_id (method_id_size sizes)) (\<lambda>method_id. pbind jr_read_string (\<lambda>name.
          pbind jr_read_string (\<lambda>signature. pbind jr_read_string (\<lambda>generic. pbind jr_read_u32 (\<lambda>mod_bits.
            preturn \<lparr>mg_method_id = method_id, mg_name = name, mg_signature = signature,
              mg_generic_signature = generic_of generic, mg_mod_bits = mod_bits\<rparr>)))))))"

definition read_line_entry :: "line_table_entry jr" where
  "read_line_entry =
     pbind jr_read_u64 (\<lambda>code_index. pbind jr_read_i32 (\<lambda>line. preturn \<lparr>le_code_index = code_index, le_line = line\<rparr>))"

definition method_line_table :: "machine \<Rightarrow> jdwp_id_sizes \<Rightarrow> nat \<Rightarrow> nat \<Rightarrow> (jdwp_error, line_table) result option" where
  "method_line_table vm sizes class_id method_id =
     call vm 6 1 (wthen (write_reference_type_id class_id sizes) (write_id method_id (method_id_size sizes)))
       (pbind jr_read_u64 (\<lambda>start. pbind jr_read_u64 (\<lambda>stop. pbind (read_list read_line_entry) (\<lambda>lines.
          preturn \<lparr>lt_start = start, lt_end = stop, lt_lines = lines\<rparr>))))"

definition method_variable_table ::
  "machine \<Rightarrow> jdwp_id_sizes \<Rightarrow> nat \<Rightarrow> nat \<Rightarrow> (jdwp_error, nat \<times> variable_info list) result option" where
  "method_variable_table vm sizes class_id method_id =
     call vm 6 2 (wthen (write_reference_type_id class_id sizes) (write_id method_id (method_id_size sizes)))
       (pbind jr_read_u32 (\<lambda>arg_count. pbind (read_list
          (pbind jr_read_u64 (\<lambda>code_index. pbind jr_read_string (\<lambda>name. pbind jr_read_string (\<lambda>signature.
           pbind jr_read_u32 (\<lambda>len. pbind jr_read_u32 (\<lambda>slot.
             preturn \<lparr>vi_code_index = code_index, vi_name = name, vi_signature = signature, vi_length = len, vi_slot = slot\<rparr>))))))) (\<lambda>vars.
          preturn (arg_count, vars))))"

definition method_variable_table_with_generic ::
  "machine \<Rightarrow> jdwp_id_sizes \<Rightarrow> nat \<Rightarrow> nat \<Rightarrow> (jdwp_error, nat \<times> variable_info_with_generic list) result option" where
  "method_variable_table_with_generic vm sizes class_id method_id =
     call vm 6 5 (wthen (write_reference_type_id class_id sizes) (write_id method_id (method_id_size sizes)))
       (pbind jr_read_u32 (\<lambda>arg_count. pbind (read_list
          (pbind jr_read_u64 (\<lambda>code_index. pbind jr_read_string (\<lambda>name. pbind jr_read_string (\<lambda>signature.
           pbind jr_read_string (\<lambda>generic. pbind jr_read_u32 (\<lambda>len. pbind jr_read_u32 (\<lambda>slot.
             preturn \<lparr>vg_code_index = code_index, vg_name = name, vg_signature = signature,
               vg_generic_signature = generic_of generic, vg_length = len, vg_slot = slot\<rparr>)))))))) (\<lambda>vars.
          preturn (arg_count, vars))))"

definition class_loader_define_class ::
  "machine \<Rightarrow> jdwp_id_sizes \<Rightarrow> nat \<Rightarrow> rstr \<Rightarrow> byte list \<Rightarrow> (jdwp_error, nat) result option" where
  "class_loader_define_class vm sizes loader name bytecode =
     sized_call (object_id_size sizes + (4 + str_len name) + 4 + length bytecode)
       (call vm 14 2
          (wthen (write_object_id loader sizes) (wthen (write_string name)
            (wthen (write_u32 (length bytecode mod 2 ^ 32)) (write_bytes bytecode))))
          (jr_read_reference_type_id sizes))"

definition class_type_superclass :: "machine \<Rightarrow> jdwp_id_sizes \<Rightarrow> nat \<Rightarrow> (jdwp_error, nat) result option" where
  "class_type_superclass vm sizes class_id =
     call vm 3 1 (write_reference_type_id class_id sizes) (jr_read_reference_type_id sizes)"

definition array_type_new_instance :: "machine \<Rightarrow> jdwp_id_sizes \<Rightarrow> nat \<Rightarrow> int \<Rightarrow> (jdwp_error, nat) result option" where
  "array_type_new_instance vm sizes array_type_id len =
     call vm 4 1 (wthen (write_reference_type_id array_type_id sizes) (write_i32 len)) (jr_read_object_id sizes)"

definition read_field_info :: "jdwp_id_sizes \<Rightarrow> field_info jr" where
  "read_field_info sizes =
     pbind (jr_read_id (field_id_size sizes)) (\<lambda>field_id. pbind jr_read_string (\<lambda>name. pbind jr_read_string (\<lambda>signature.
     pbind jr_read_u32 (\<lambda>mod_bits.
       preturn \<lparr>fd_field_id = field_id, fd_name = name, fd_signature = signature, fd_mod_bits = mod_bits\<rparr>))))"

definition reference_type_fields :: "machine \<Rightarrow> jdwp_id_sizes \<Rightarrow> nat \<Rightarrow> (jdwp_error, field_info list) result option" where
  "reference_type_fields vm sizes class_id =
     call vm 2 4 (write_reference_type_id class_id sizes) (read_list (read_field_info sizes))"

definition reference_type_fields_with_generic ::
  "machine \<Rightarrow> jdwp_id_sizes \<Rightarrow> nat \<Rightarrow> (jdwp_error, field_info_with_generic list) result option" where
  "reference_type_fields_with_generic vm sizes class_id =
     call vm 2 14 (write_reference_type_id class_id sizes)
       (read_list (pbind (jr_read_id (field_id_size sizes)) (\<lambda>field_id. pbind jr_read_string (\<lambda>name.
          pbind jr_read_string (\<lambda>signature. pbind jr_read_string (\<lambda>generic. pbind jr_read_u32 (\<lambda>mod_bits.
            preturn \<lparr>fg_field_id = field_id, fg_name = name, fg_signature = signature,
              fg_generic_signature = generic_of generic, fg_mod_bits = mod_bits\<rparr>)))))))"

section \<open>What the client takes from the machine unchecked\<close>

lemma decodes_u32: "n < 2 ^ 32 \<Longrightarrow> decodes rd_at jr_read_u32 (be_bytes 4 n) n rest"
  unfolding jr_read_u32_def by (rule exact_decodes [OF exact_jr_be]) (simp add: uint_layout_def)

lemma decodes_id_sizes:
  assumes "a < 2 ^ 32" "b < 2 ^ 32" "c < 2 ^ 32" "d < 2 ^ 32" "e < 2 ^ 32"
  shows "decodes rd_at read_id_sizes (be_bytes 4 a @ be_bytes 4 b @ be_bytes 4 c @ be_bytes 4 d @ be_bytes 4 e)
    \<lparr>field_id_size = a, method_id_size = b, object_id_size = c, reference_type_id_size = d, frame_id_size = e\<rparr> rest"
  unfolding read_id_sizes_def
  by (rule decodes_bind [OF decodes_u32 [OF assms(1)]], rule decodes_bind [OF decodes_u32 [OF assms(2)]],
      rule decodes_bind [OF decodes_u32 [OF assms(3)]], rule decodes_bind [OF decodes_u32 [OF assms(4)]],
      rule decodes_bind [OF decodes_u32 [OF assms(5)], where w' = "[]", simplified], rule decodes_return)

lemma write_id_panics: "write_id i sz buf = None \<longleftrightarrow> 8 < sz"
  by (simp add: write_id_def)

lemma call_writes: "writes w bs \<Longrightarrow> exact rd_at reads G \<Longrightarrow> call vm cs c w reads \<noteq> None"
  using exact_total [of rd_at reads G "[]"] by (fastforce simp: call_def writes_def reader_new_at split: sum.splits)



end
