(* ===== verification/Jdwp_Values.thy ===== *)
theory Jdwp_Values
  imports Jdwp_Client
begin

text \<open>
  The commands of the wire client on values: frames, fields, arrays, objects and invocations
  (\<^verbatim>\<open>nova-jdwp/src/wire/client.rs\<close>). Replies that come in two formats are told apart by
  what remains of the payload; that this is decided rightly is shown at the end.
\<close>

section \<open>Frames and fields\<close>

definition stack_frame_get_values ::
  "machine \<Rightarrow> jdwp_id_sizes \<Rightarrow> nat \<Rightarrow> nat \<Rightarrow> (nat \<times> rstr) list \<Rightarrow> (jdwp_error, jdwp_value list) result option" where
  "stack_frame_get_values vm sizes thread frame_id slots =
     call vm 16 1
       (wthen (write_object_id thread sizes) (wthen (write_id frame_id (frame_id_size sizes))
         (write_list (\<lambda>(slot, signature). wthen (write_u32 slot) (write_u8 (signature_to_tag signature))) slots)))
       (read_list (jr_read_tagged_value sizes))"

definition stack_frame_set_values ::
  "machine \<Rightarrow> jdwp_id_sizes \<Rightarrow> nat \<Rightarrow> nat \<Rightarrow> (nat \<times> jdwp_value) list \<Rightarrow> (jdwp_error, unit) result option" where
  "stack_frame_set_values vm sizes thread frame_id vals =
     call vm 16 2
       (wthen (write_object_id thread sizes) (wthen (write_id frame_id (frame_id_size sizes))
         (write_list (\<lambda>(slot, v). wthen (write_u32 slot) (write_tagged_value v sizes)) vals)))
       no_reply"

definition stack_frame_this_object :: "machine \<Rightarrow> jdwp_id_sizes \<Rightarrow> nat \<Rightarrow> nat \<Rightarrow> (jdwp_error, nat) result option" where
  "stack_frame_this_object vm sizes thread frame_id =
     call vm 16 3 (wthen (write_object_id thread sizes) (write_id frame_id (frame_id_size sizes))) (jr_read_object_id sizes)"

definition write_field_values :: "jdwp_id_sizes \<Rightarrow> (nat \<times> jdwp_value) list \<Rightarrow> jw" where
  "write_field_values sizes vals =
     write_list (\<lambda>(field_id, v). wthen (write_id field_id (field_id_size sizes)) (write_tagged_value v sizes)) vals"

definition class_type_set_values ::
  "machine \<Rightarrow> jdwp_id_sizes \<Rightarrow> nat \<Rightarrow> (nat \<times> jdwp_value) list \<Rightarrow> (jdwp_error, unit) result option" where
  "class_type_set_values vm sizes class_id vals =
     call vm 3 2 (wthen (write_reference_type_id class_id sizes) (write_field_values sizes vals)) no_reply"

definition object_reference_set_values ::
  "machine \<Rightarrow> jdwp_id_sizes \<Rightarrow> nat \<Rightarrow> (nat \<times> jdwp_value) list \<Rightarrow> (jdwp_error, unit) result option" where
  "object_reference_set_values vm sizes object_id vals =
     call vm 9 3 (wthen (write_object_id object_id sizes) (write_field_values sizes vals)) no_reply"

definition reference_type_get_values ::
  "machine \<Rightarrow> jdwp_id_sizes \<Rightarrow> nat \<Rightarrow> nat list \<Rightarrow> (jdwp_error, jdwp_value list) result option" where
  "reference_type_get_values vm sizes type_id field_ids =
     call vm 2 6
       (wthen (write_reference_type_id type_id sizes) (write_list (\<lambda>i. write_id i (field_id_size sizes)) field_ids))
       (read_list (jr_read_tagged_value sizes))"

definition object_reference_get_values ::
  "machine \<Rightarrow> jdwp_id_sizes \<Rightarrow> nat \<Rightarrow> nat list \<Rightarrow> (jdwp_error, jdwp_value list) result option" where
  "object_reference_get_values vm sizes object_id field_ids =
     call vm 9 2
       (wthen (write_object_id object_id sizes) (write_list (\<lambda>i. write_id i (field_id_size sizes)) field_ids))
       (read_list (jr_read_tagged_value sizes))"

section \<open>Objects\<close>

definition object_reference_reference_type :: "machine \<Rightarrow> jdwp_id_sizes \<Rightarrow> nat \<Rightarrow> (jdwp_error, byte \<times> nat) result option" where
  "object_reference_reference_type vm sizes object_id =
     call vm 9 1 (write_object_id object_id sizes)
       (pbind jr_read_u8 (\<lambda>ref_type_tag. pbind (jr_read_reference_type_id sizes) (\<lambda>type_id. preturn (ref_type_tag, type_id))))"

definition string_reference_value :: "machine \<Rightarrow> jdwp_id_sizes \<Rightarrow> nat \<Rightarrow> (jdwp_error, rstr) result option" where
  "string_reference_value vm sizes string_id = call vm 10 1 (write_object_id string_id sizes) jr_read_string"

definition object_reference_disable_collection :: "machine \<Rightarrow> jdwp_id_sizes \<Rightarrow> nat \<Rightarrow> (jdwp_error, unit) result option" where
  "object_reference_disable_collection vm sizes object_id = call vm 9 7 (write_object_id object_id sizes) no_reply"

definition object_reference_enable_collection :: "machine \<Rightarrow> jdwp_id_sizes \<Rightarrow> nat \<Rightarrow> (jdwp_error, unit) result option" where
  "object_reference_enable_collection vm sizes object_id = call vm 9 8 (write_object_id object_id sizes) no_reply"

definition object_reference_monitor_info :: "machine \<Rightarrow> jdwp_id_sizes \<Rightarrow> nat \<Rightarrow> (jdwp_error, monitor_info) result option" where
  "object_reference_monitor_info vm sizes object =
     call vm 9 5 (write_object_id object sizes)
       (pbind (jr_read_object_id sizes) (\<lambda>owner. pbind jr_read_i32 (\<lambda>entry_count. pbind (read_list (jr_read_object_id sizes)) (\<lambda>waiters.
          preturn \<lparr>mo_owner = owner, mo_entry_count = entry_count, mo_waiters = waiters\<rparr>))))"

section \<open>Invocations\<close>

definition jr_rest :: "nat jr" where
  "jr_rest r = Some (Ok (jr_remaining r, r))"

text \<open>
  The exception behind a result: a tagged object, or an object without a tag from some machines.
\<close>

definition read_exception :: "jdwp_id_sizes \<Rightarrow> nat jr" where
  "read_exception sizes =
     pbind jr_rest (\<lambda>rem.
       if rem = object_id_size sizes then jr_read_object_id sizes
       else if rem = object_id_size sizes + 1 then pbind (jr_read_tagged_object_id sizes) (\<lambda>(_, i). preturn i)
       else if rem \<ge> object_id_size sizes + 1 then pbind (jr_read_tagged_object_id sizes) (\<lambda>(_, i). preturn i)
       else pfail (JdwpBadLength rem))"

definition write_arguments :: "jdwp_id_sizes \<Rightarrow> jdwp_value list \<Rightarrow> nat \<Rightarrow> jw" where
  "write_arguments sizes args options = wthen (write_list (\<lambda>arg. write_tagged_value arg sizes) args) (write_u32 options)"

definition read_invocation :: "jdwp_id_sizes \<Rightarrow> (jdwp_value \<times> nat) jr" where
  "read_invocation sizes =
     pbind (jr_read_tagged_value sizes) (\<lambda>return_value. pbind (read_exception sizes) (\<lambda>exception. preturn (return_value, exception)))"

definition class_type_invoke_method ::
  "machine \<Rightarrow> jdwp_id_sizes \<Rightarrow> nat \<Rightarrow> nat \<Rightarrow> nat \<Rightarrow> jdwp_value list \<Rightarrow> nat \<Rightarrow> (jdwp_error, jdwp_value \<times> nat) result option" where
  "class_type_invoke_method vm sizes class_id thread method_id args options =
     call vm 3 3
       (wthen (write_reference_type_id class_id sizes) (wthen (write_object_id thread sizes)
         (wthen (write_id method_id (method_id_size sizes)) (write_arguments sizes args options))))
       (read_invocation sizes)"

definition class_type_new_instance ::
  "machine \<Rightarrow> jdwp_id_sizes \<Rightarrow> nat \<Rightarrow> nat \<Rightarrow> nat \<Rightarrow> jdwp_value list \<Rightarrow> nat \<Rightarrow> (jdwp_error, nat \<times> nat) result option" where
  "class_type_new_instance vm sizes class_id thread ctor_method args options =
     call vm 3 4
       (wthen (write_reference_type_id class_id sizes) (wthen (write_object_id thread sizes)
         (wthen (write_id ctor_method (method_id_size sizes)) (write_arguments sizes args options))))
       (pbind (jr_read_object_id sizes) (\<lambda>new_object. pbind (read_exception sizes) (\<lambda>exception. preturn (new_object, exception))))"

definition interface_type_invoke_method ::
  "machine \<Rightarrow> jdwp_id_sizes \<Rightarrow> nat \<Rightarrow> nat \<Rightarrow> nat \<Rightarrow> jdwp_value list \<Rightarrow> nat \<Rightarrow> (jdwp_error, jdwp_value \<times> nat) result option" where
  "interface_type_invoke_method vm sizes interface_id thread method_id args options =
     call vm 5 1
       (wthen (write_reference_type_id interface_id sizes) (wthen (write_object_id thread sizes)
         (wthen (write_id method_id (method_id_size sizes)) (write_arguments sizes args options))))
       (read_invocation sizes)"

definition object_reference_invoke_method ::
  "machine \<Rightarrow> jdwp_id_sizes \<Rightarrow> nat \<Rightarrow> nat \<Rightarrow> nat \<Rightarrow> nat \<Rightarrow> jdwp_value list \<Rightarrow> nat \<Rightarrow> (jdwp_error, jdwp_value \<times> nat) result option" where
  "object_reference_invoke_method vm sizes object_id thread class_id method_id args options =
     call vm 9 6
       (wthen (write_object_id object_id sizes) (wthen (write_object_id thread sizes) (wthen (write_reference_type_id class_id sizes)
         (wthen (write_id method_id (method_id_size sizes)) (write_arguments sizes args options)))))
       (read_invocation sizes)"

section \<open>Arrays\<close>

definition array_reference_length :: "machine \<Rightarrow> jdwp_id_sizes \<Rightarrow> nat \<Rightarrow> (jdwp_error, int) result option" where
  "array_reference_length vm sizes array_id = call vm 13 1 (write_object_id array_id sizes) jr_read_i32"

definition element_tags :: "byte list" where
  "element_tags = map of_char ''ZBCSIJFD''"

definition read_array_values :: "jdwp_id_sizes \<Rightarrow> jdwp_value list jr" where
  "read_array_values sizes =
     pbind jr_read_u8 (\<lambda>element_tag. pbind jr_read_u32 (\<lambda>count.
       if element_tag \<in> set element_tags then prepeat count (jr_read_value element_tag sizes)
       else
         pbind jr_rest (\<lambda>remaining.
           let tagged_len = sat_mul_u64 count (sat_add_u64 1 (object_id_size sizes));
               untagged_len = sat_mul_u64 count (object_id_size sizes)
           in if remaining = tagged_len \<or> (remaining \<ge> tagged_len \<and> tagged_len \<noteq> 0) then
                prepeat count (pbind (jr_read_tagged_object_id sizes) (\<lambda>(elem_tag, elem_id). preturn (JObject elem_tag elem_id)))
              else if remaining = untagged_len \<or> (remaining \<ge> untagged_len \<and> untagged_len \<noteq> 0) then
                prepeat count (jr_read_value element_tag sizes)
              else pfail (JdwpBadLength remaining))))"

definition array_reference_get_values ::
  "machine \<Rightarrow> jdwp_id_sizes \<Rightarrow> nat \<Rightarrow> int \<Rightarrow> int \<Rightarrow> (jdwp_error, jdwp_value list) result option" where
  "array_reference_get_values vm sizes array_id first_index len =
     call vm 13 2 (wthen (write_object_id array_id sizes) (wthen (write_i32 first_index) (write_i32 len))) (read_array_values sizes)"

definition array_reference_set_values ::
  "machine \<Rightarrow> jdwp_id_sizes \<Rightarrow> nat \<Rightarrow> int \<Rightarrow> jdwp_value list \<Rightarrow> (jdwp_error, unit) result option" where
  "array_reference_set_values vm sizes array_id first_index vals =
     call vm 13 3
       (wthen (write_object_id array_id sizes) (wthen (write_i32 first_index)
         (write_list (\<lambda>v. write_tagged_value v sizes) vals)))
       no_reply"

section \<open>Event requests\<close>

definition event_request_set ::
  "machine \<Rightarrow> jdwp_id_sizes \<Rightarrow> byte \<Rightarrow> byte \<Rightarrow> event_modifier list \<Rightarrow> (jdwp_error, int) result option" where
  "event_request_set vm sizes event_kind suspend_policy modifiers =
     call vm 15 1
       (wthen (write_u8 event_kind) (wthen (write_u8 suspend_policy)
         (write_list (\<lambda>modifier. encode_modifier modifier sizes) modifiers)))
       jr_read_i32"

definition event_request_clear_all_breakpoints :: "machine \<Rightarrow> (jdwp_error, unit) result option" where
  "event_request_clear_all_breakpoints vm = call vm 15 3 Some no_reply"

definition event_request_clear :: "machine \<Rightarrow> byte \<Rightarrow> int \<Rightarrow> (jdwp_error, unit) result option" where
  "event_request_clear vm event_kind request_id = call vm 15 2 (wthen (write_u8 event_kind) (write_i32 request_id)) no_reply"

section \<open>Two formats told apart\<close>

lemma exact_tagged_object:
  "exact rd_at (pbind (jr_read_tagged_object_id sizes) (\<lambda>(t, i). preturn (JObject t i)))
     (\<lambda>v w. \<exists>t i u. v = JObject t i \<and> id_layout (object_id_size sizes) i u \<and> w = t # u)"
  by (rule exact_cong [OF exact_bind_split [OF exact_jr_tagged_object_id exact_return]]) auto

lemma jr_rest_at: "pbind jr_rest f (rd_at pre rest) = f (length rest) (rd_at pre rest)"
  by (simp add: pbind_def jr_rest_def jr_remaining_def)

lemma call_reply:
  assumes "w [] = Some p" "vm cs c p = Ok reply" "reads (reader_new reply) = Some (Ok (x, r))"
  shows "call vm cs c w reads = Some (Ok x)"
  using assms by (simp add: call_def)

lemma concat_length_const: "(\<And>x. x \<in> set xs \<Longrightarrow> length (f x) = n) \<Longrightarrow> length (concat (map f xs)) = length xs * n"
  by (induction xs) auto

lemma repeat_reads:
  assumes "exact rd_at p G" "\<And>x. x \<in> set xs \<Longrightarrow> G (f x) (g x)" "n = length xs"
  shows "prepeat n p (rd_at pre (concat (map g xs))) = Some (Ok (map f xs, rd_at (pre @ concat (map g xs)) []))"
proof -
  have "list_all2 G (map f xs) (map g xs)" using assms(2) by (simp add: list_all2_conv_all_nth)
  then have "decodes rd_at (prepeat n p) (concat (map g xs)) (map f xs) []"
    using assms(3) by (intro exact_decodes [OF exact_repeat [OF assms(1)]]) auto
  then show ?thesis by (simp add: decodes_def)
qed

lemma small_products:
  assumes "n < 2 ^ 32" "k \<le> 9"
  shows "sat_mul_u64 n k = n * k" "k \<noteq> 0 \<Longrightarrow> sat_add_u64 1 (k - 1) = k"
proof -
  have "n * k \<le> 2 ^ 32 * 9" using assms by (intro mult_le_mono) simp_all
  then show "sat_mul_u64 n k = n * k" by (simp add: sat_mul_u64_def u64_max_def)
  show "sat_add_u64 1 (k - 1) = k" if "k \<noteq> 0" using assms(2) that by (simp add: sat_add_u64_def u64_max_def)
qed

lemma array_values_untagged:
  assumes "id_size \<noteq> 0" "id_size \<le> 8" "object_id_size sizes = id_size" "tag \<notin> set primitive_tags"
    and "length ids < 2 ^ 32" "\<And>i. i \<in> set ids \<Longrightarrow> i < 256 ^ id_size"
  shows "\<exists>r. read_array_values sizes (reader_new ([tag] @ be_bytes 4 (length ids) @ concat (map (be_bytes id_size) ids))) =
    Some (Ok (map (JObject tag) ids, r))"
proof -
  let ?w = "concat (map (be_bytes id_size) ids)"
  have len: "length ?w = length ids * id_size" by (rule concat_length_const) simp
  have "tag \<notin> set element_tags" using assms(4) by (auto simp: primitive_tags_def element_tags_def)
  moreover have "prepeat (length ids) (jr_read_value tag sizes) (rd_at pre ?w) = Some (Ok (map (JObject tag) ids, rd_at (pre @ ?w) []))" for pre
    by (rule repeat_reads [OF exact_jr_value]) (use assms in \<open>auto simp: id_layout_def uint_layout_def\<close>)
  ultimately show ?thesis
    unfolding read_array_values_def head_then [OF assms(5)]
    using len assms(1-3) small_products [OF assms(5)] small_products(2) [OF assms(5), of "Suc id_size"]
    by (cases "ids = []") (auto simp: jr_rest_at Let_def)
qed

lemma array_values_tagged:
  assumes "id_size \<noteq> 0" "id_size \<le> 8" "object_id_size sizes = id_size" "tag \<notin> set element_tags"
    and "length els < 2 ^ 32" "\<And>t i. (t, i) \<in> set els \<Longrightarrow> i < 256 ^ id_size"
  shows "\<exists>r. read_array_values sizes (reader_new ([tag] @ be_bytes 4 (length els) @ concat (map (\<lambda>(t, i). t # be_bytes id_size i) els))) =
    Some (Ok (map (\<lambda>(t, i). JObject t i) els, r))"
proof -
  let ?w = "concat (map (\<lambda>(t, i). t # be_bytes id_size i) els)"
  have len: "length ?w = length els * Suc id_size" by (rule concat_length_const) auto
  have "prepeat (length els) (pbind (jr_read_tagged_object_id sizes) (\<lambda>(t, i). preturn (JObject t i))) (rd_at pre ?w) =
      Some (Ok (map (\<lambda>(t, i). JObject t i) els, rd_at (pre @ ?w) []))" for pre
    by (rule repeat_reads [OF exact_tagged_object]) (use assms in \<open>auto simp: id_layout_def uint_layout_def\<close>)
  then show ?thesis
    unfolding read_array_values_def head_then [OF assms(5)]
    using len assms(1-4) small_products [OF assms(5)] small_products(2) [OF assms(5), of "Suc id_size"]
    by (auto simp: jr_rest_at Let_def)
qed

lemma array_values_primitive:
  assumes "tag \<in> set element_tags" "list_all2 (value_layout sizes tag) vs ws" "length vs < 2 ^ 32"
  shows "\<exists>r. read_array_values sizes (reader_new ([tag] @ be_bytes 4 (length vs) @ concat ws)) = Some (Ok (vs, r))"
proof -
  have "decodes rd_at (prepeat (length vs) (jr_read_value tag sizes)) (concat ws) vs []"
    using assms(2) by (intro exact_decodes [OF exact_repeat [OF exact_jr_value]]) auto
  then show ?thesis
    unfolding read_array_values_def head_then [OF assms(3)] using assms(1) by (simp add: decodes_def)
qed

text \<open>
  Property C14. The elements of an array are read right from every format a machine may answer in: primitive
  elements without tags, objects each with a tag of its own, and objects without a tag, which all have
  the element tag of the reply. The two object formats are told apart by the length alone, and no
  reply in one of them is taken for the other.
\<close>

theorem array_values_decoded:
  assumes "write_object_id array_id sizes [] = Some b" "0 < object_id_size sizes" "object_id_size sizes \<le> 8"
    and "\<forall>p. vm 13 2 p = Ok ([tag] @ be_bytes 4 n @ w)" "n < 2 ^ 32"
  shows "(tag \<in> set element_tags \<and> length vs = n \<and> (\<exists>ws. list_all2 (value_layout sizes tag) vs ws \<and> w = concat ws) \<longrightarrow>
      array_reference_get_values vm sizes array_id first_index len = Some (Ok vs)) \<and>
    (tag \<notin> set element_tags \<and> length els = n \<and> list_all (\<lambda>(t, i). i < 256 ^ object_id_size sizes) els \<and>
      w = concat (map (\<lambda>(t, i). t # be_bytes (object_id_size sizes) i) els) \<longrightarrow>
      array_reference_get_values vm sizes array_id first_index len = Some (Ok (map (\<lambda>(t, i). JObject t i) els))) \<and>
    (tag \<notin> set primitive_tags \<and> length ids = n \<and> list_all (\<lambda>i. i < 256 ^ object_id_size sizes) ids \<and>
      w = concat (map (be_bytes (object_id_size sizes)) ids) \<longrightarrow>
      array_reference_get_values vm sizes array_id first_index len = Some (Ok (map (JObject tag) ids)))"
proof -
  have get: "array_reference_get_values vm sizes array_id first_index len = Some (Ok vals)"
    if "\<exists>r. read_array_values sizes (reader_new ([tag] @ be_bytes 4 n @ w)) = Some (Ok (vals, r))" for vals
    using that assms(1,4) unfolding array_reference_get_values_def
    by (auto intro!: call_reply simp: wthen_def write_i32_def)
  show ?thesis
  proof (intro conjI impI; elim conjE exE; intro get)
    fix ws assume "tag \<in> set element_tags" "length vs = n" "list_all2 (value_layout sizes tag) vs ws" "w = concat ws"
    with assms(5) show "\<exists>r. read_array_values sizes (reader_new ([tag] @ be_bytes 4 n @ w)) = Some (Ok (vs, r))"
      using array_values_primitive [of tag sizes vs ws] by simp
  next
    assume "tag \<notin> set element_tags" "length els = n" "list_all (\<lambda>(t, i). i < 256 ^ object_id_size sizes) els"
      "w = concat (map (\<lambda>(t, i). t # be_bytes (object_id_size sizes) i) els)"
    with assms(2,3,5) show "\<exists>r. read_array_values sizes (reader_new ([tag] @ be_bytes 4 n @ w)) = Some (Ok (map (\<lambda>(t, i). JObject t i) els, r))"
      using array_values_tagged [of "object_id_size sizes" sizes tag els] by (auto simp: list_all_iff)
  next
    assume "tag \<notin> set primitive_tags" "length ids = n" "list_all (\<lambda>i. i < 256 ^ object_id_size sizes) ids"
      "w = concat (map (be_bytes (object_id_size sizes)) ids)"
    with assms(2,3,5) show "\<exists>r. read_array_values sizes (reader_new ([tag] @ be_bytes 4 n @ w)) = Some (Ok (map (JObject tag) ids, r))"
      using array_values_untagged [of "object_id_size sizes" sizes tag ids] by (auto simp: list_all_iff)
  qed
qed

theorem array_values_decoded_witness:
  "array_reference_get_values
     (\<lambda>_ _ _. Ok ([bt CHR ''L''] @ be_bytes 4 2 @ concat (map (be_bytes 8) [5, 6]))) jdwp_id_sizes_default 9 0 2 =
   Some (Ok [JObject (bt CHR ''L'') 5, JObject (bt CHR ''L'') 6])"
proof -
  have "write_object_id 9 jdwp_id_sizes_default [] = Some (be_bytes 8 9)"
    by (simp add: write_object_id_def write_id_def jdwp_id_sizes_default_def del: be_bytes.simps)
  from array_values_decoded [OF this, of "\<lambda>_ _ _. Ok ([bt CHR ''L''] @ be_bytes 4 2 @ concat (map (be_bytes 8) [5, 6]))"
      "bt CHR ''L''" 2 "concat (map (be_bytes 8) [5, 6])" "[]" 0 2 "[]" "[5, 6]"]
  show ?thesis
    by (simp add: jdwp_id_sizes_default_def element_tags_def primitive_tags_def del: be_bytes.simps)
qed

end
