(* ===== verification/Jdwp_Inspect.thy ===== *)
theory Jdwp_Inspect
  imports Jdwp_Client "HOL-Library.Sublist"
begin

text \<open>
  The cached queries of the wire client and the fields of an object with those it inherits
  (\<^verbatim>\<open>InspectCache\<close> of \<^verbatim>\<open>nova-jdwp/src/wire/inspect.rs\<close> and the cached
  methods of \<^verbatim>\<open>wire/client.rs\<close>). The cache is explicit state that is kept when a query
  fails; the answers of the machine are a parameter. The walk up the superclasses is shown to end whatever
  the machine answers.
\<close>

unbundle bit_operations_syntax

section \<open>Queries with a cache\<close>

record inspect_cache =
  ic_signatures :: "nat \<rightharpoonup> rstr"
  ic_signatures_with_generic :: "nat \<rightharpoonup> rstr \<times> rstr option"
  ic_fields :: "nat \<rightharpoonup> field_info list"
  ic_fields_with_generic :: "nat \<rightharpoonup> field_info_with_generic list"
  ic_methods :: "nat \<rightharpoonup> method_info list"
  ic_methods_with_generic :: "nat \<rightharpoonup> method_info_with_generic list"
  ic_superclasses :: "nat \<rightharpoonup> nat"
  ic_interfaces :: "nat \<rightharpoonup> nat list"
  ic_all_instance_fields :: "nat \<rightharpoonup> field_info list"

definition inspect_cache_default :: inspect_cache where
  "inspect_cache_default =
     \<lparr>ic_signatures = Map.empty, ic_signatures_with_generic = Map.empty, ic_fields = Map.empty,
      ic_fields_with_generic = Map.empty, ic_methods = Map.empty, ic_methods_with_generic = Map.empty,
      ic_superclasses = Map.empty, ic_interfaces = Map.empty, ic_all_instance_fields = Map.empty\<rparr>"

type_synonym 'a query = "inspect_cache \<Rightarrow> ((jdwp_error, 'a) result \<times> inspect_cache) option"

definition qbind :: "'a query \<Rightarrow> ('a \<Rightarrow> 'b query) \<Rightarrow> 'b query" where
  "qbind m f c = Option.bind (m c) (\<lambda>(r, c'). case r of Inl e \<Rightarrow> Some (Err e, c') | Inr x \<Rightarrow> f x c')"

definition qreturn :: "'a \<Rightarrow> 'a query" where
  "qreturn x c = Some (Ok x, c)"

definition qcall :: "(jdwp_error, 'a) result option \<Rightarrow> 'a query" where
  "qcall r c = map_option (\<lambda>res. (res, c)) r"

text \<open>The entry if there is one; otherwise the answer of the machine, which becomes the entry.\<close>

definition cached :: "(inspect_cache \<Rightarrow> 'v option) \<Rightarrow> ('v \<Rightarrow> inspect_cache \<Rightarrow> inspect_cache) \<Rightarrow> 'v query \<Rightarrow> 'v query" where
  "cached look store fetch c =
     (case look c of
        Some v \<Rightarrow> Some (Ok v, c)
      | None \<Rightarrow> qbind fetch (\<lambda>v c'. Some (Ok v, store v c')) c)"

definition reference_type_signature_cached :: "machine \<Rightarrow> jdwp_id_sizes \<Rightarrow> nat \<Rightarrow> rstr query" where
  "reference_type_signature_cached vm sizes class_id =
     cached (\<lambda>c. ic_signatures c class_id) (\<lambda>v c. c\<lparr>ic_signatures := (ic_signatures c)(class_id \<mapsto> v)\<rparr>)
       (qcall (reference_type_signature vm sizes class_id))"

definition reference_type_signature_with_generic :: "machine \<Rightarrow> jdwp_id_sizes \<Rightarrow> nat \<Rightarrow> (rstr \<times> rstr option) query" where
  "reference_type_signature_with_generic vm sizes class_id =
     cached (\<lambda>c. ic_signatures_with_generic c class_id)
       (\<lambda>v c. c\<lparr>ic_signatures := (ic_signatures c)(class_id \<mapsto> fst v),
               ic_signatures_with_generic := (ic_signatures_with_generic c)(class_id \<mapsto> v)\<rparr>)
       (qcall (call vm 2 13 (write_reference_type_id class_id sizes)
          (pbind jr_read_string (\<lambda>signature. pbind jr_read_string (\<lambda>generic. preturn (signature, generic_of generic))))))"

definition reference_type_signature_with_generic_cached ::
  "machine \<Rightarrow> jdwp_id_sizes \<Rightarrow> nat \<Rightarrow> (rstr \<times> rstr option) query" where
  "reference_type_signature_with_generic_cached vm sizes class_id =
     cached (\<lambda>c. ic_signatures_with_generic c class_id)
       (\<lambda>v c. c\<lparr>ic_signatures_with_generic := (ic_signatures_with_generic c)(class_id \<mapsto> v)\<rparr>)
       (reference_type_signature_with_generic vm sizes class_id)"

definition reference_type_interfaces_cached :: "machine \<Rightarrow> jdwp_id_sizes \<Rightarrow> nat \<Rightarrow> nat list query" where
  "reference_type_interfaces_cached vm sizes type_id =
     cached (\<lambda>c. ic_interfaces c type_id) (\<lambda>v c. c\<lparr>ic_interfaces := (ic_interfaces c)(type_id \<mapsto> v)\<rparr>)
       (qcall (reference_type_interfaces vm sizes type_id))"

definition reference_type_methods_cached :: "machine \<Rightarrow> jdwp_id_sizes \<Rightarrow> nat \<Rightarrow> method_info list query" where
  "reference_type_methods_cached vm sizes class_id =
     cached (\<lambda>c. ic_methods c class_id) (\<lambda>v c. c\<lparr>ic_methods := (ic_methods c)(class_id \<mapsto> v)\<rparr>)
       (qcall (reference_type_methods vm sizes class_id))"

definition reference_type_methods_with_generic_cached ::
  "machine \<Rightarrow> jdwp_id_sizes \<Rightarrow> nat \<Rightarrow> method_info_with_generic list query" where
  "reference_type_methods_with_generic_cached vm sizes class_id =
     cached (\<lambda>c. ic_methods_with_generic c class_id)
       (\<lambda>v c. c\<lparr>ic_methods_with_generic := (ic_methods_with_generic c)(class_id \<mapsto> v)\<rparr>)
       (qcall (reference_type_methods_with_generic vm sizes class_id))"

definition class_type_superclass_cached :: "machine \<Rightarrow> jdwp_id_sizes \<Rightarrow> nat \<Rightarrow> nat query" where
  "class_type_superclass_cached vm sizes class_id =
     cached (\<lambda>c. ic_superclasses c class_id) (\<lambda>v c. c\<lparr>ic_superclasses := (ic_superclasses c)(class_id \<mapsto> v)\<rparr>)
       (qcall (class_type_superclass vm sizes class_id))"

definition reference_type_fields_cached :: "machine \<Rightarrow> jdwp_id_sizes \<Rightarrow> nat \<Rightarrow> field_info list query" where
  "reference_type_fields_cached vm sizes class_id =
     cached (\<lambda>c. ic_fields c class_id) (\<lambda>v c. c\<lparr>ic_fields := (ic_fields c)(class_id \<mapsto> v)\<rparr>)
       (qcall (reference_type_fields vm sizes class_id))"

definition reference_type_fields_with_generic_cached ::
  "machine \<Rightarrow> jdwp_id_sizes \<Rightarrow> nat \<Rightarrow> field_info_with_generic list query" where
  "reference_type_fields_with_generic_cached vm sizes class_id =
     cached (\<lambda>c. ic_fields_with_generic c class_id)
       (\<lambda>v c. c\<lparr>ic_fields_with_generic := (ic_fields_with_generic c)(class_id \<mapsto> v)\<rparr>)
       (qcall (reference_type_fields_with_generic vm sizes class_id))"

section \<open>Fields with the inherited ones\<close>

definition field_modifier_static :: nat where "field_modifier_static = 0x0008"

partial_function (option) hierarchy_loop ::
  "machine \<Rightarrow> jdwp_id_sizes \<Rightarrow> nat \<Rightarrow> nat list \<Rightarrow> nat list \<Rightarrow> inspect_cache \<Rightarrow>
     ((jdwp_error, nat list) result \<times> inspect_cache) option" where
  "hierarchy_loop vm sizes current seen_types hierarchy c =
     (if current = 0 \<or> current \<in> set seen_types then Some (Ok hierarchy, c)
      else
        Option.bind (class_type_superclass_cached vm sizes current c) (\<lambda>(r, c').
          case r of
            Inl e \<Rightarrow> Some (Err e, c')
          | Inr superclass \<Rightarrow>
              (if superclass = 0 then Some (Ok (hierarchy @ [current]), c')
               else hierarchy_loop vm sizes superclass (current # seen_types) (hierarchy @ [current]) c')))"

definition add_field :: "field_info \<Rightarrow> rstr list \<times> field_info list \<Rightarrow> rstr list \<times> field_info list" where
  "add_field field acc =
     (case acc of (seen_names, out) \<Rightarrow>
        if fd_mod_bits field AND field_modifier_static \<noteq> 0 then (seen_names, out)
        else if fd_name field \<in> set seen_names then (seen_names, out)
        else (fd_name field # seen_names, out @ [field]))"

primrec collect_fields :: "machine \<Rightarrow> jdwp_id_sizes \<Rightarrow> nat list \<Rightarrow> rstr list \<times> field_info list \<Rightarrow> field_info list query" where
  "collect_fields vm sizes [] acc = qreturn (snd acc)"
| "collect_fields vm sizes (class_id # rest) acc =
     qbind (reference_type_fields_cached vm sizes class_id) (\<lambda>fields. collect_fields vm sizes rest (fold add_field fields acc))"

definition reference_type_all_instance_fields_cached :: "machine \<Rightarrow> jdwp_id_sizes \<Rightarrow> nat \<Rightarrow> field_info list query" where
  "reference_type_all_instance_fields_cached vm sizes type_id =
     cached (\<lambda>c. ic_all_instance_fields c type_id)
       (\<lambda>v c. c\<lparr>ic_all_instance_fields := (ic_all_instance_fields c)(type_id \<mapsto> v)\<rparr>)
       (qbind (hierarchy_loop vm sizes type_id [] []) (\<lambda>hierarchy. collect_fields vm sizes hierarchy ([], [])))"

section \<open>What the walk finds\<close>

definition is_static :: "field_info \<Rightarrow> bool" where
  "is_static field \<longleftrightarrow> fd_mod_bits field AND field_modifier_static \<noteq> 0"

text \<open>
  The fields that are seen from the most derived class: in the order of declaration, one of each name, which
  is the first.
\<close>

definition seen_fields :: "field_info list \<Rightarrow> field_info list \<Rightarrow> bool" where
  "seen_fields declared out \<longleftrightarrow> subseq out declared \<and> distinct (map fd_name out) \<and>
     set (map fd_name out) = set (map fd_name declared) \<and>
     list_all (\<lambda>f. find (\<lambda>g. fd_name g = fd_name f) declared = Some f) out"

text \<open>A class with its superclasses, up to the top or to a class the machine names a second time.\<close>

definition class_chain :: "machine \<Rightarrow> jdwp_id_sizes \<Rightarrow> nat \<Rightarrow> nat list \<Rightarrow> bool" where
  "class_chain vm sizes type_id h \<longleftrightarrow> distinct h \<and> 0 \<notin> set h \<and> (type_id \<noteq> 0 \<longrightarrow> h \<noteq> [] \<and> hd h = type_id) \<and>
     (type_id = 0 \<longrightarrow> h = []) \<and>
     successively (\<lambda>i s. class_type_superclass vm sizes i = Some (Ok s)) h \<and>
     (h \<noteq> [] \<longrightarrow> (\<exists>s. class_type_superclass vm sizes (last h) = Some (Ok s) \<and> (s = 0 \<or> s \<in> set h)))"

definition declared_fields :: "machine \<Rightarrow> jdwp_id_sizes \<Rightarrow> nat \<Rightarrow> field_info list" where
  "declared_fields vm sizes class_id =
     (case reference_type_fields vm sizes class_id of Some (Inr fs) \<Rightarrow> filter (\<lambda>f. \<not> is_static f) fs | _ \<Rightarrow> [])"

definition instance_fields :: "machine \<Rightarrow> jdwp_id_sizes \<Rightarrow> nat \<Rightarrow> field_info list \<Rightarrow> bool" where
  "instance_fields vm sizes type_id out \<longleftrightarrow>
     (\<exists>h. class_chain vm sizes type_id h \<and> seen_fields (concat (map (declared_fields vm sizes) h)) out)"

text \<open>A cache that holds what the machine answers.\<close>

definition cache_ok :: "machine \<Rightarrow> jdwp_id_sizes \<Rightarrow> inspect_cache \<Rightarrow> bool" where
  "cache_ok vm sizes c \<longleftrightarrow>
     (\<forall>i s. ic_superclasses c i = Some s \<longrightarrow> class_type_superclass vm sizes i = Some (Ok s)) \<and>
     (\<forall>i fs. ic_fields c i = Some fs \<longrightarrow> reference_type_fields vm sizes i = Some (Ok fs)) \<and>
     (\<forall>i fs. ic_all_instance_fields c i = Some fs \<longrightarrow> instance_fields vm sizes i fs)"

section \<open>The fields of a list of classes\<close>

definition merged :: "field_info list \<Rightarrow> rstr list \<times> field_info list \<Rightarrow> bool" where
  "merged declared acc \<longleftrightarrow> seen_fields declared (snd acc) \<and> set (fst acc) = set (map fd_name declared)"

lemma add_field_merged:
  assumes "merged declared acc"
  shows "merged (declared @ filter (\<lambda>f. \<not> is_static f) [field]) (add_field field acc)"
proof -
  obtain seen out where acc: "acc = (seen, out)" by (cases acc)
  have m: "subseq out declared" "distinct (map fd_name out)" "set (map fd_name out) = set (map fd_name declared)"
    "\<forall>f \<in> set out. find (\<lambda>g. fd_name g = fd_name f) declared = Some f" "set seen = set (map fd_name declared)"
    using assms by (auto simp: merged_def seen_fields_def acc list_all_iff)
  have find: "find P (xs @ ys) = (case find P xs of None \<Rightarrow> find P ys | Some x \<Rightarrow> Some x)" for P :: "field_info \<Rightarrow> bool" and xs ys
    by (induction xs) auto
  consider "is_static field" | "\<not> is_static field" "fd_name field \<in> set seen" | "\<not> is_static field" "fd_name field \<notin> set seen" by blast
  then show ?thesis
  proof cases
    case 1
    with assms show ?thesis by (simp add: add_field_def acc is_static_def)
  next
    case 2
    then have "add_field field acc = (seen, out)" by (simp add: add_field_def acc is_static_def)
    moreover have "insert (fd_name field) (fd_name ` set declared) = fd_name ` set declared" using 2(2) m(5) by auto
    ultimately show ?thesis using 2 m by (auto simp: merged_def seen_fields_def list_all_iff find intro: list_emb_append2)
  next
    case 3
    then have "add_field field acc = (fd_name field # seen, out @ [field])" by (simp add: add_field_def acc is_static_def)
    moreover have "find (\<lambda>g. fd_name g = fd_name field) declared = None"
      using 3(2) m(5) by (auto simp: find_None_iff) (metis imageI)
    ultimately show ?thesis using 3 m by (auto simp: merged_def seen_fields_def list_all_iff find)
  qed
qed

lemma add_fields_merged:
  "merged declared acc \<Longrightarrow> merged (declared @ filter (\<lambda>f. \<not> is_static f) fs) (fold add_field fs acc)"
proof (induction fs arbitrary: declared acc)
  case (Cons f fs)
  from Cons.IH [OF add_field_merged [OF Cons.prems, of f]] show ?case by (auto split: if_splits)
qed simp

section \<open>The walk ends\<close>

lemma superclass_total:
  assumes "reference_type_id_size sizes \<le> 8"
  obtains r where "class_type_superclass vm sizes i = Some r" "\<And>s. r = Ok s \<Longrightarrow> s < 2 ^ 64"
proof -
  let ?sz = "reference_type_id_size sizes"
  have w: "write_id i ?sz [] = Some (be_bytes ?sz i)" using writes_id [OF assms] by (simp add: writes_def)
  have small: "s < 2 ^ 64" if "jr_read_id ?sz (rd_at [] reply) = Some (Ok (s, r))" for reply s r
  proof -
    have "s < 256 ^ ?sz"
      using exact_run [OF exact_jr_id [of ?sz], of "[]" reply] that by (elim run_atE) (auto simp: id_layout_def uint_layout_def)
    also have "\<dots> \<le> (256 :: nat) ^ 8" using assms by (intro power_increasing) simp_all
    finally show ?thesis by simp
  qed
  show ?thesis
  proof (cases "vm 3 1 (be_bytes ?sz i)")
    case (Inl e)
    then show ?thesis
      by (intro that [of "Err e"]) (simp_all add: class_type_superclass_def call_def write_reference_type_id_def w)
  next
    case (Inr reply)
    obtain x where x: "jr_read_id ?sz (rd_at [] reply) = Some x" using exact_total [OF exact_jr_id, of ?sz "[]" reply] by blast
    with Inr w have "class_type_superclass vm sizes i = Some (map_sum id fst x)"
      by (simp add: class_type_superclass_def call_def write_reference_type_id_def jr_read_reference_type_id_def reader_new_at)
    then show ?thesis using small [of reply] x by (intro that [of "map_sum id fst x"]) (cases x; auto)+
  qed
qed

lemma fields_total:
  assumes "reference_type_id_size sizes \<le> 8"
  shows "\<exists>r. reference_type_fields vm sizes i = Some r"
proof -
  note read_field = exact_bind [OF exact_jr_id exact_bind [OF exact_jr_string exact_bind [OF exact_jr_string
        exact_bind [OF exact_jr_be exact_return]]]]
  have "reference_type_fields vm sizes i \<noteq> None"
    unfolding reference_type_fields_def write_reference_type_id_def read_list_def read_field_info_def jr_read_u32_def
    by (rule call_writes [OF writes_id [OF assms] exact_bind [OF exact_jr_be exact_repeat [OF read_field]]])
  then show ?thesis by blast
qed

lemma superclass_cached_run:
  assumes "reference_type_id_size sizes \<le> 8" "cache_ok vm sizes c"
  obtains r c' where "class_type_superclass_cached vm sizes i c = Some (r, c')" "class_type_superclass vm sizes i = Some r"
    "cache_ok vm sizes c'" "\<And>s. r = Ok s \<Longrightarrow> s < 2 ^ 64"
proof -
  obtain r where r: "class_type_superclass vm sizes i = Some r" "\<And>s. r = Ok s \<Longrightarrow> s < 2 ^ 64"
    using superclass_total [OF assms(1)] by blast
  show ?thesis
  proof (cases "ic_superclasses c i")
    case (Some s)
    with assms(2) have "class_type_superclass vm sizes i = Some (Ok s)" by (simp add: cache_ok_def)
    with Some r assms(2) show ?thesis by (intro that [of r c]) (auto simp: class_type_superclass_cached_def cached_def)
  next
    case None
    let ?c = "case r of Inl e \<Rightarrow> c | Inr s \<Rightarrow> c\<lparr>ic_superclasses := (ic_superclasses c)(i \<mapsto> s)\<rparr>"
    have "class_type_superclass_cached vm sizes i c = Some (r, ?c)"
      using None r by (simp add: class_type_superclass_cached_def cached_def qbind_def qcall_def split: sum.splits)
    moreover have "cache_ok vm sizes ?c" using assms(2) r by (auto simp: cache_ok_def split: sum.splits)
    ultimately show ?thesis using r by (intro that)
  qed
qed

lemma fields_cached_run:
  assumes "reference_type_id_size sizes \<le> 8" "cache_ok vm sizes c"
  obtains r c' where "reference_type_fields_cached vm sizes i c = Some (r, c')" "reference_type_fields vm sizes i = Some r"
    "cache_ok vm sizes c'"
proof -
  obtain r where r: "reference_type_fields vm sizes i = Some r" using fields_total [OF assms(1)] by blast
  show ?thesis
  proof (cases "ic_fields c i")
    case (Some fs)
    with assms(2) have "reference_type_fields vm sizes i = Some (Ok fs)" by (simp add: cache_ok_def)
    with Some r assms(2) show ?thesis by (intro that [of r c]) (auto simp: reference_type_fields_cached_def cached_def)
  next
    case None
    let ?c = "case r of Inl e \<Rightarrow> c | Inr fs \<Rightarrow> c\<lparr>ic_fields := (ic_fields c)(i \<mapsto> fs)\<rparr>"
    have "reference_type_fields_cached vm sizes i c = Some (r, ?c)"
      using None r by (simp add: reference_type_fields_cached_def cached_def qbind_def qcall_def split: sum.splits)
    moreover have "cache_ok vm sizes ?c" using assms(2) r by (auto simp: cache_ok_def split: sum.splits)
    ultimately show ?thesis using r by (intro that)
  qed
qed

lemma collect_fields_run:
  assumes "reference_type_id_size sizes \<le> 8" "cache_ok vm sizes c" "merged declared acc"
  shows "\<exists>r c'. collect_fields vm sizes h acc c = Some (r, c') \<and> cache_ok vm sizes c' \<and>
    (\<forall>out. r = Ok out \<longrightarrow> seen_fields (declared @ concat (map (declared_fields vm sizes) h)) out)"
  using assms(2,3)
proof (induction h arbitrary: declared acc c)
  case Nil
  then show ?case by (simp add: qreturn_def merged_def)
next
  case (Cons i h)
  obtain r c1 where r: "reference_type_fields_cached vm sizes i c = Some (r, c1)" "reference_type_fields vm sizes i = Some r"
      "cache_ok vm sizes c1"
    using fields_cached_run [OF assms(1) Cons.prems(1)] by blast
  show ?case
  proof (cases r)
    case (Inl e)
    with r show ?thesis by (simp add: qbind_def)
  next
    case (Inr fs)
    from Cons.IH [OF r(3) add_fields_merged [OF Cons.prems(2), of fs]] Inr r show ?thesis
      by (auto simp: qbind_def declared_fields_def)
  qed
qed

text \<open>The walk so far: the classes visited are a chain whose next class is the current one.\<close>

definition walked :: "machine \<Rightarrow> jdwp_id_sizes \<Rightarrow> nat \<Rightarrow> nat \<Rightarrow> nat list \<Rightarrow> bool" where
  "walked vm sizes type_id current h \<longleftrightarrow> distinct h \<and> 0 \<notin> set h \<and> set h \<subseteq> {..<2 ^ 64} \<and> current < 2 ^ 64 \<and>
     (h = [] \<longrightarrow> current = type_id) \<and> (h \<noteq> [] \<longrightarrow> hd h = type_id \<and> class_type_superclass vm sizes (last h) = Some (Ok current)) \<and>
     successively (\<lambda>i s. class_type_superclass vm sizes i = Some (Ok s)) h"

lemma walked_step:
  assumes "walked vm sizes type_id current h" "current \<noteq> 0" "current \<notin> set h"
    and "class_type_superclass vm sizes current = Some (Ok s)" "s < 2 ^ 64"
  shows "walked vm sizes type_id s (h @ [current])"
  using assms by (auto simp: walked_def hd_append successively_append_iff)

lemma walked_end:
  assumes "walked vm sizes type_id current h" "current = 0 \<or> current \<in> set h"
  shows "class_chain vm sizes type_id h"
  using assms by (cases h) (auto simp: walked_def class_chain_def)

lemma hierarchy_loop_run:
  assumes "reference_type_id_size sizes \<le> 8"
  shows "walked vm sizes type_id current h \<Longrightarrow> cache_ok vm sizes c \<Longrightarrow> set seen = set h \<Longrightarrow>
    \<exists>r c'. hierarchy_loop vm sizes current seen h c = Some (r, c') \<and> cache_ok vm sizes c' \<and>
      (\<forall>h'. r = Ok h' \<longrightarrow> class_chain vm sizes type_id h')"
proof (induction "2 ^ 64 - length h" arbitrary: current h seen c rule: less_induct)
  case less
  show ?case
  proof (cases "current = 0 \<or> current \<in> set h")
    case True
    with less.prems walked_end show ?thesis by (subst hierarchy_loop.simps) simp
  next
    case False
    obtain r c1 where r: "class_type_superclass_cached vm sizes current c = Some (r, c1)" "class_type_superclass vm sizes current = Some r"
        "cache_ok vm sizes c1" "\<And>s. r = Ok s \<Longrightarrow> s < 2 ^ 64"
      using superclass_cached_run [OF assms less.prems(2)] by blast
    show ?thesis
    proof (cases r)
      case (Inl e)
      with r False less.prems(3) show ?thesis by (subst hierarchy_loop.simps) simp
    next
      case (Inr s)
      have step: "walked vm sizes type_id s (h @ [current])"
        using walked_step [OF less.prems(1)] False r Inr by simp
      have "insert current (set h) \<subseteq> {..<2 ^ 64}" using less.prems(1) by (auto simp: walked_def)
      then have "card (insert current (set h)) \<le> 2 ^ 64" using card_mono [of "{..<2 ^ 64 :: nat}"] by simp
      then have "Suc (length h) \<le> 2 ^ 64" using less.prems(1) False by (simp add: walked_def distinct_card)
      then have "2 ^ 64 - length (h @ [current]) < 2 ^ 64 - length h" by simp
      from less.hyps [OF this step r(3), of "current # seen"] less.prems(3) r(1) False Inr
      show ?thesis using walked_end [OF step] r(3) by (subst hierarchy_loop.simps) auto
    qed
  qed
qed

text \<open>
  Property C13. The fields of an object with the inherited ones are found whatever the machine answers: the walk
  up the superclasses ends, also when they form a cycle, and no step panics as long as the identifiers of types
  have at most eight bytes. When no query fails, the result is the instance fields declared by
  the class and its superclasses, those of the most derived class first, and of several fields of one name
  the one of the most derived class. The cache holds what the machine answered, before as after.
\<close>

theorem instance_fields_found:
  assumes "reference_type_id_size sizes \<le> 8" "type_id < 2 ^ 64" "cache_ok vm sizes c"
  shows "\<exists>r c'. reference_type_all_instance_fields_cached vm sizes type_id c = Some (r, c') \<and> cache_ok vm sizes c' \<and>
    (\<forall>out. r = Ok out \<longrightarrow> instance_fields vm sizes type_id out)"
proof (cases "ic_all_instance_fields c type_id")
  case (Some out)
  with assms(3) show ?thesis by (auto simp: reference_type_all_instance_fields_cached_def cached_def cache_ok_def)
next
  case None
  have "walked vm sizes type_id type_id []" using assms(2) by (simp add: walked_def)
  from hierarchy_loop_run [OF assms(1) this assms(3), of "[]"] obtain r c1
    where loop: "hierarchy_loop vm sizes type_id [] [] c = Some (r, c1)" "cache_ok vm sizes c1"
      "\<And>h. r = Ok h \<Longrightarrow> class_chain vm sizes type_id h" by auto
  show ?thesis
  proof (cases r)
    case (Inl e)
    with None loop show ?thesis by (simp add: reference_type_all_instance_fields_cached_def cached_def qbind_def)
  next
    case (Inr h)
    have "merged [] ([], [])" by (simp add: merged_def seen_fields_def)
    from collect_fields_run [OF assms(1) loop(2) this, of h] obtain r2 c2
      where collect: "collect_fields vm sizes h ([], []) c1 = Some (r2, c2)" "cache_ok vm sizes c2"
        "\<And>out. r2 = Ok out \<Longrightarrow> seen_fields (concat (map (declared_fields vm sizes) h)) out" by auto
    then have found: "instance_fields vm sizes type_id out" if "r2 = Ok out" for out
      using that loop(3) Inr unfolding instance_fields_def by blast
    with collect(2) have "cache_ok vm sizes (c2\<lparr>ic_all_instance_fields := (ic_all_instance_fields c2)(type_id \<mapsto> out)\<rparr>)"
      if "r2 = Ok out" for out using that by (auto simp: cache_ok_def)
    with None loop Inr collect found show ?thesis
      by (cases r2) (auto simp: reference_type_all_instance_fields_cached_def cached_def qbind_def)
  qed
qed

text \<open>A machine that names every class its own superclass.\<close>

definition cyclic_machine :: machine where
  "cyclic_machine command_set command payload = (if command_set = 3 then Ok payload else Ok (be_bytes 4 0))"

theorem instance_fields_found_witness:
  "\<exists>r c. reference_type_all_instance_fields_cached cyclic_machine jdwp_id_sizes_default 7 inspect_cache_default = Some (r, c) \<and>
     cache_ok cyclic_machine jdwp_id_sizes_default c"
  using instance_fields_found [of jdwp_id_sizes_default 7 cyclic_machine inspect_cache_default]
  by (auto simp: jdwp_id_sizes_default_def cache_ok_def inspect_cache_default_def)

end
