(* ===== verification/Jdwp_Caps.thy ===== *)
theory Jdwp_Caps
  imports Jdwp_Client
begin

text \<open>
  Capabilities of the debugged machine, how they are asked for, and the connection sequence that does it
  (\<^verbatim>\<open>JdwpCapabilitiesNew\<close> and the status types of \<^verbatim>\<open>wire/types.rs\<close>,
  \<^verbatim>\<open>refresh_capabilities\<close> and the end of \<^verbatim>\<open>connect_with_config\<close> of
  \<^verbatim>\<open>wire/client.rs\<close>).
\<close>

unbundle bit_operations_syntax

section \<open>Capabilities\<close>

record jdwp_capabilities_new =
  can_watch_field_modification :: bool
  can_watch_field_access :: bool
  can_get_bytecodes :: bool
  can_get_synthetic_attribute :: bool
  can_get_owned_monitor_info :: bool
  can_get_current_contended_monitor :: bool
  can_get_monitor_info :: bool
  can_redefine_classes :: bool
  can_add_method :: bool
  can_unrestrictedly_redefine_classes :: bool
  can_pop_frames :: bool
  can_use_instance_filters :: bool
  can_get_source_debug_extension :: bool
  can_request_vm_death_event :: bool
  can_set_default_stratum :: bool
  can_get_instance_info :: bool
  can_request_monitor_events :: bool
  can_get_monitor_frame_info :: bool
  can_use_source_name_filters :: bool
  can_get_constant_pool :: bool
  can_force_early_return :: bool
  can_get_owned_monitor_stack_depth_info :: bool
  can_get_method_return_values :: bool
  reserved_23 :: bool
  reserved_24 :: bool
  reserved_25 :: bool
  reserved_26 :: bool
  reserved_27 :: bool
  reserved_28 :: bool
  reserved_29 :: bool
  reserved_30 :: bool
  reserved_31 :: bool

text \<open>A list that is too short leaves the capabilities behind its end unset.\<close>

definition get_bool :: "bool list \<Rightarrow> nat \<Rightarrow> bool" where
  "get_bool v idx = (case vec_get v idx of None \<Rightarrow> False | Some b \<Rightarrow> b)"

definition capabilities_default :: jdwp_capabilities_new where
  "capabilities_default =
     \<lparr>can_watch_field_modification = False,
      can_watch_field_access = False,
      can_get_bytecodes = False,
      can_get_synthetic_attribute = False,
      can_get_owned_monitor_info = False,
      can_get_current_contended_monitor = False,
      can_get_monitor_info = False,
      can_redefine_classes = False,
      can_add_method = False,
      can_unrestrictedly_redefine_classes = False,
      can_pop_frames = False,
      can_use_instance_filters = False,
      can_get_source_debug_extension = False,
      can_request_vm_death_event = False,
      can_set_default_stratum = False,
      can_get_instance_info = False,
      can_request_monitor_events = False,
      can_get_monitor_frame_info = False,
      can_use_source_name_filters = False,
      can_get_constant_pool = False,
      can_force_early_return = False,
      can_get_owned_monitor_stack_depth_info = False,
      can_get_method_return_values = False,
      reserved_23 = False,
      reserved_24 = False,
      reserved_25 = False,
      reserved_26 = False,
      reserved_27 = False,
      reserved_28 = False,
      reserved_29 = False,
      reserved_30 = False,
      reserved_31 = False\<rparr>"

definition from_vec :: "bool list \<Rightarrow> jdwp_capabilities_new" where
  "from_vec v =
     \<lparr>can_watch_field_modification = get_bool v 0,
      can_watch_field_access = get_bool v 1,
      can_get_bytecodes = get_bool v 2,
      can_get_synthetic_attribute = get_bool v 3,
      can_get_owned_monitor_info = get_bool v 4,
      can_get_current_contended_monitor = get_bool v 5,
      can_get_monitor_info = get_bool v 6,
      can_redefine_classes = get_bool v 7,
      can_add_method = get_bool v 8,
      can_unrestrictedly_redefine_classes = get_bool v 9,
      can_pop_frames = get_bool v 10,
      can_use_instance_filters = get_bool v 11,
      can_get_source_debug_extension = get_bool v 12,
      can_request_vm_death_event = get_bool v 13,
      can_set_default_stratum = get_bool v 14,
      can_get_instance_info = get_bool v 15,
      can_request_monitor_events = get_bool v 16,
      can_get_monitor_frame_info = get_bool v 17,
      can_use_source_name_filters = get_bool v 18,
      can_get_constant_pool = get_bool v 19,
      can_force_early_return = get_bool v 20,
      can_get_owned_monitor_stack_depth_info = get_bool v 21,
      can_get_method_return_values = get_bool v 22,
      reserved_23 = get_bool v 23,
      reserved_24 = get_bool v 24,
      reserved_25 = get_bool v 25,
      reserved_26 = get_bool v 26,
      reserved_27 = get_bool v 27,
      reserved_28 = get_bool v 28,
      reserved_29 = get_bool v 29,
      reserved_30 = get_bool v 30,
      reserved_31 = get_bool v 31\<rparr>"

definition from_legacy_vec :: "bool list \<Rightarrow> jdwp_capabilities_new" where
  "from_legacy_vec v =
     capabilities_default
       \<lparr>can_watch_field_modification := get_bool v 0,
        can_watch_field_access := get_bool v 1,
        can_get_bytecodes := get_bool v 2,
        can_get_synthetic_attribute := get_bool v 3,
        can_get_owned_monitor_info := get_bool v 4,
        can_get_current_contended_monitor := get_bool v 5,
        can_get_monitor_info := get_bool v 6\<rparr>"

definition supports_redefine_classes :: "jdwp_capabilities_new \<Rightarrow> bool" where
  "supports_redefine_classes c \<longleftrightarrow> can_redefine_classes c \<or> can_unrestrictedly_redefine_classes c"

definition supports_watchpoints :: "jdwp_capabilities_new \<Rightarrow> bool" where
  "supports_watchpoints c \<longleftrightarrow> can_watch_field_access c \<or> can_watch_field_modification c"

definition supports_method_return_values :: "jdwp_capabilities_new \<Rightarrow> bool" where
  "supports_method_return_values c \<longleftrightarrow> can_get_method_return_values c"

definition supports_monitor_info :: "jdwp_capabilities_new \<Rightarrow> bool" where
  "supports_monitor_info c \<longleftrightarrow> can_get_monitor_info c"

definition supports_owned_monitor_info :: "jdwp_capabilities_new \<Rightarrow> bool" where
  "supports_owned_monitor_info c \<longleftrightarrow> can_get_owned_monitor_info c"

definition supports_current_contended_monitor :: "jdwp_capabilities_new \<Rightarrow> bool" where
  "supports_current_contended_monitor c \<longleftrightarrow> can_get_current_contended_monitor c"

definition supports_owned_monitor_stack_depth_info :: "jdwp_capabilities_new \<Rightarrow> bool" where
  "supports_owned_monitor_stack_depth_info c \<longleftrightarrow> can_get_owned_monitor_stack_depth_info c"

section \<open>Status\<close>

datatype thread_status_kind = Zombie | Running | Sleeping | Monitor | Wait | NotStarted | OtherStatus nat

fun status_as_raw :: "thread_status_kind \<Rightarrow> nat" where
  "status_as_raw Zombie = 0"
| "status_as_raw Running = 1"
| "status_as_raw Sleeping = 2"
| "status_as_raw Monitor = 3"
| "status_as_raw Wait = 4"
| "status_as_raw NotStarted = 5"
| "status_as_raw (OtherStatus v) = v"

definition status_from_raw :: "nat \<Rightarrow> thread_status_kind" where
  "status_from_raw v =
     (if v = 0 then Zombie else if v = 1 then Running else if v = 2 then Sleeping else if v = 3 then Monitor
      else if v = 4 then Wait else if v = 5 then NotStarted else OtherStatus v)"

definition is_suspended :: "nat \<Rightarrow> bool" where
  "is_suspended bits \<longleftrightarrow> bits AND 0x1 \<noteq> 0"

section \<open>Asking for them\<close>

definition max_capabilities_bool_count :: nat where "max_capabilities_bool_count = 256"

definition read_capabilities :: "(bool list \<Rightarrow> jdwp_capabilities_new) \<Rightarrow> jdwp_capabilities_new jr" where
  "read_capabilities conv r =
     pbind (prepeat (min (jr_remaining r) max_capabilities_bool_count) jr_read_bool) (\<lambda>caps. preturn (conv caps)) r"

definition refresh_capabilities :: "machine \<Rightarrow> (jdwp_error, jdwp_capabilities_new) result option" where
  "refresh_capabilities vm = call vm 1 17 Some (read_capabilities from_vec)"

definition refresh_capabilities_legacy :: "machine \<Rightarrow> (jdwp_error, jdwp_capabilities_new) result option" where
  "refresh_capabilities_legacy vm = call vm 1 12 Some (read_capabilities from_legacy_vec)"

definition is_unsupported_command_error :: "jdwp_error \<Rightarrow> bool" where
  "is_unsupported_command_error e \<longleftrightarrow> (case e of VmError code \<Rightarrow> code = 41 \<or> code = 68 \<or> code = 99 | _ \<Rightarrow> False)"

text \<open>After the handshake: the sizes, then the capabilities with two fallbacks.\<close>

definition connect_setup :: "machine \<Rightarrow> (jdwp_error, jdwp_id_sizes \<times> jdwp_capabilities_new) result option" where
  "connect_setup vm =
     (case idsizes vm of
        None \<Rightarrow> None
      | Some (Inl e) \<Rightarrow> Some (Err e)
      | Some (Inr sizes) \<Rightarrow>
          (case refresh_capabilities vm of
             None \<Rightarrow> None
           | Some (Inr caps) \<Rightarrow> Some (Ok (sizes, caps))
           | Some (Inl e) \<Rightarrow>
               (if is_unsupported_command_error e then
                  (case refresh_capabilities_legacy vm of
                     None \<Rightarrow> None
                   | Some (Inr caps) \<Rightarrow> Some (Ok (sizes, caps))
                   | Some (Inl e') \<Rightarrow>
                       (if is_unsupported_command_error e' then Some (Ok (sizes, capabilities_default)) else Some (Err e')))
                else Some (Err e))))"

section \<open>Round trips\<close>

definition capability_list :: "jdwp_capabilities_new \<Rightarrow> bool list" where
  "capability_list c =
     [can_watch_field_modification c, can_watch_field_access c, can_get_bytecodes c, can_get_synthetic_attribute c, can_get_owned_monitor_info c, can_get_current_contended_monitor c, can_get_monitor_info c, can_redefine_classes c, can_add_method c, can_unrestrictedly_redefine_classes c, can_pop_frames c, can_use_instance_filters c, can_get_source_debug_extension c, can_request_vm_death_event c, can_set_default_stratum c, can_get_instance_info c, can_request_monitor_events c, can_get_monitor_frame_info c, can_use_source_name_filters c, can_get_constant_pool c, can_force_early_return c, can_get_owned_monitor_stack_depth_info c, can_get_method_return_values c, reserved_23 c, reserved_24 c, reserved_25 c, reserved_26 c, reserved_27 c, reserved_28 c, reserved_29 c, reserved_30 c, reserved_31 c]"

lemma status_roundtrip: "status_as_raw (status_from_raw v) = v"
  by (simp add: status_from_raw_def)

lemma is_suspended_odd: "is_suspended bits \<longleftrightarrow> odd bits"
  by (simp add: is_suspended_def and_one_eq odd_iff_mod_2_eq_one)

lemma from_vec_capability_list: "from_vec (capability_list c) = c"
  by (cases c) (simp add: from_vec_def get_bool_def vec_get_def capability_list_def)

lemma read_capabilities_at:
  "read_capabilities conv (rd_at [] w) = Some (Ok (conv (map (\<lambda>b. b \<noteq> 0) (take 256 w)), rd_at (take 256 w) (drop 256 w)))"
proof -
  let ?u = "take 256 w"
  have "list_all2 bool_layout (map (\<lambda>b. b \<noteq> 0) ?u) (map (\<lambda>b. [b]) ?u)"
    by (auto simp: list_all2_conv_all_nth bool_layout_def)
  moreover have "concat (map (\<lambda>b. [b]) xs) = xs" for xs :: "byte list" by (induction xs) auto
  ultimately have "decodes rd_at (prepeat (length ?u) jr_read_bool) ?u (map (\<lambda>b. b \<noteq> 0) ?u) (drop 256 w)"
    by (intro exact_decodes [OF exact_repeat [OF exact_jr_bool]] exI [of _ "map (\<lambda>b. [b]) ?u"]) simp
  then have "prepeat (min (length w) 256) jr_read_bool (rd_at [] w) = Some (Ok (map (\<lambda>b. b \<noteq> 0) ?u, rd_at ?u (drop 256 w)))"
    by (auto simp: decodes_def dest: spec [of _ "[]"])
  then show ?thesis by (simp add: read_capabilities_def jr_remaining_def max_capabilities_bool_count_def)
qed

lemma refresh_capabilities_reply:
  "vm 1 17 [] = Ok reply \<Longrightarrow> refresh_capabilities vm = Some (Ok (from_vec (map (\<lambda>b. b \<noteq> 0) (take 256 reply))))"
  "vm 1 12 [] = Ok reply \<Longrightarrow> refresh_capabilities_legacy vm = Some (Ok (from_legacy_vec (map (\<lambda>b. b \<noteq> 0) (take 256 reply))))"
  by (simp_all add: refresh_capabilities_def refresh_capabilities_legacy_def call_def reader_new_at read_capabilities_at)

lemma refresh_capabilities_error:
  "vm 1 17 [] = Err e \<Longrightarrow> refresh_capabilities vm = Some (Err e)"
  "vm 1 12 [] = Err e \<Longrightarrow> refresh_capabilities_legacy vm = Some (Err e)"
  by (simp_all add: refresh_capabilities_def refresh_capabilities_legacy_def call_def)

text \<open>
  The connection is set up unless the machine refuses the sizes or fails in a way other than not knowing a
  capability command; what it does not know counts as not supported.
\<close>

lemma connect_setup_falls_back:
  assumes "idsizes vm = Some (Ok sizes)"
  shows "vm 1 17 [] = Ok reply \<Longrightarrow> connect_setup vm = Some (Ok (sizes, from_vec (map (\<lambda>b. b \<noteq> 0) (take 256 reply))))"
    and "vm 1 17 [] = Err e \<Longrightarrow> is_unsupported_command_error e \<Longrightarrow> vm 1 12 [] = Ok reply \<Longrightarrow>
      connect_setup vm = Some (Ok (sizes, from_legacy_vec (map (\<lambda>b. b \<noteq> 0) (take 256 reply))))"
    and "vm 1 17 [] = Err e \<Longrightarrow> is_unsupported_command_error e \<Longrightarrow> vm 1 12 [] = Err e' \<Longrightarrow> is_unsupported_command_error e' \<Longrightarrow>
      connect_setup vm = Some (Ok (sizes, capabilities_default))"
    and "vm 1 17 [] = Err e \<Longrightarrow> \<not> is_unsupported_command_error e \<Longrightarrow> connect_setup vm = Some (Err e)"
  using assms by (simp_all add: connect_setup_def refresh_capabilities_reply refresh_capabilities_error)

end
