(* ===== verification/Spec2Isabelle.thy ===== *)
theory Spec2Isabelle
  imports Text_Edit Line_Index Document File_Registry Virtual_Docs Overlay_Fs Vfs_State
    Hir_Body Flow_Cfg Flow_Build Dataflow Flow_Diag Flow_Assign Flow_Null Flow_Analyze
    Class_Sig_Exact Class_File Module_Graph Module_Info Cbor_Exact
    Jdwp_Conn Jdwp_Values Jdwp_Inspect Jdwp_Caps
begin

text \<open>
  This library verifies parts of Nova, a language and debug server for Java written in Rust
  (\<^verbatim>\<open>src/crates\<close>). The parts are those that can be read as algorithms: text and
  documents, the virtual file system, control-flow analysis of method bodies, class files and
  modules, the check of messages, and the client of the debugger protocol. They meet in the server as follows. The editor opens documents and
  sends changes with UTF-16 positions; \<^verbatim>\<open>nova-core\<close> turns positions into byte offsets and
  applies edits, \<^verbatim>\<open>nova-vfs\<close> keeps open documents over the files on disk and gives every
  path an identifier, \<^verbatim>\<open>nova-hir\<close> represents method bodies which
  \<^verbatim>\<open>nova-flow\<close> lowers to graphs and checks, and \<^verbatim>\<open>nova-classfile\<close> and
  \<^verbatim>\<open>nova-modules\<close> describe the compiled libraries a project depends on. In the distributed mode
  \<^verbatim>\<open>nova-remote-proto\<close> checks what arrives from workers, and the debug adapter talks to a
  running Java machine through \<^verbatim>\<open>nova-jdwp\<close>.

  \<^bold>\<open>Conventions.\<close> A Rust \<^verbatim>\<open>Result\<close> is a sum with the error on the left
  (\<open>Err\<close>, \<open>Ok\<close>); where Rust can panic or a loop has to be shown to end, the result is in addition an
  option whose \<open>None\<close> is the panic or the missing result. A Rust string is a list of code points
  (\<open>rstr\<close>) whose UTF-8 bytes are computed by \<open>as_bytes\<close>; byte offsets and lengths are those of the bytes.
  Unsigned integers are natural numbers with the wrap-around or saturation of the code written out,
  bytes of binary formats are 8-bit words, floating-point values their bit patterns. Hash maps are
  association lists or maps; what depends on their order does not occur.
  Fuel is not used: loops that need an argument are \<^theory_text>\<open>function\<close> with a measure or
  \<^theory_text>\<open>partial_function\<close> with a proof that a result is there. Recursion that follows the
  input (class files, expressions) uses no bound on the depth; the stack limit of a process is not modelled.

  \<^bold>\<open>Shared theories.\<close> \<open>Nova_Prelude\<close> (results, machine integers, folds that fail),
  \<open>Rust_Str\<close> and \<open>Rust_Str_Ops\<close> (UTF-8 and UTF-16 views of strings, slices, searches) and
  \<open>Parse_Monad\<close> (parsers over a cursor, and the judgement \<open>exact\<close>: a parser returns on every input and
  accepts exactly the words of a layout) carry the proofs of the others.

  \<^bold>\<open>Text (\<^verbatim>\<open>nova-core/src/edit.rs\<close>, \<^verbatim>\<open>text.rs\<close>).\<close> \<open>Text_Edit\<close>:
  \<open>normalize_text_edits\<close> and \<open>apply_text_edits\<close>; valid edits give the forward weave of the sorted
  edits, invalid ones an error. \<open>Line_Index\<close>: the line table and the conversions
  between offsets, byte columns and UTF-16 positions, with their round trips.

  \<^bold>\<open>Virtual file system (\<^verbatim>\<open>nova-vfs\<close>).\<close> \<open>Document\<close>: versioned text with incremental
  changes; the table stays that of the text. \<open>File_Registry\<close>: identifiers and renames;
  the two tables stay inverse. \<open>Virtual_Docs\<close>: the bounded store over an LRU cache that is a
  parameter with its laws. \<open>Overlay_Fs\<close> and \<open>Vfs_State\<close>: the facade, whose reachable states keep
  open identifiers, open documents and byte totals in step, and whose change events replay the edit.

  \<^bold>\<open>Flow analysis (\<^verbatim>\<open>nova-hir/src/body.rs\<close>, \<^verbatim>\<open>nova-flow\<close>).\<close> \<open>Hir_Body\<close>:
  arenas of statements and expressions. \<open>Flow_Cfg\<close> and \<open>Flow_Build\<close>: graphs,
  reachability and lowering. \<open>Dataflow\<close>: the worklist loop, as a locale whose laws (a
  bounded height, monotone transfer) give that it ends in a solution; \<open>Flow_Assign\<close> and
  \<open>Flow_Null\<close> interpret it. Definite assignment is exactly the meet over all paths; if nothing is
  reported, no path reads an unassigned local and none dereferences null. \<open>Flow_Diag\<close> and
  \<open>Flow_Analyze\<close> hold the diagnostics, their order and the entry points.

  \<^bold>\<open>Class files (\<^verbatim>\<open>nova-classfile\<close>).\<close> \<open>Class_Reader\<close> (\<^verbatim>\<open>reader.rs\<close>,
  \<^verbatim>\<open>error.rs\<close>), \<open>Class_Pool\<close> (\<^verbatim>\<open>constant_pool.rs\<close>), \<open>Class_Descriptor\<close>
  (\<^verbatim>\<open>descriptor.rs\<close>), \<open>Class_Signature\<close>, \<open>Class_Sig_Text\<close> and \<open>Class_Sig_Exact\<close>
  (\<^verbatim>\<open>signature.rs\<close>), \<open>Class_Annotation\<close> (\<^verbatim>\<open>annotation.rs\<close>), \<open>Class_File\<close>
  (\<^verbatim>\<open>classfile.rs\<close>, \<^verbatim>\<open>stub.rs\<close>), \<open>Module_Info\<close>
  (\<^verbatim>\<open>module_info.rs\<close>). For each format there is a layout, a relation between values and
  bytes (or text) written after the Java specification, and the parser is shown to accept exactly
  the layout and to return on every input.

  \<^bold>\<open>Modules (\<^verbatim>\<open>nova-modules\<close>).\<close> \<open>Module_Graph\<close>: descriptors, the graph and
  readability, which is the closure of \<^verbatim>\<open>requires\<close>.

  \<^bold>\<open>Messages (\<^verbatim>\<open>nova-remote-proto/src/validate_cbor.rs\<close>).\<close> \<open>Cbor_Validate\<close>: the
  walk over a CBOR payload before it is decoded. \<open>Cbor_Exact\<close>: the items of RFC 8949 within the limits
  as an inductive relation; the walk returns on every input and accepts exactly these.

  \<^bold>\<open>Debugger protocol (\<^verbatim>\<open>nova-jdwp/src/wire\<close>, \<^verbatim>\<open>lib.rs\<close>).\<close>
  \<open>Jdwp_Codec\<close> (\<^verbatim>\<open>codec.rs\<close>): writer, reader and packet frames; the locale \<open>wire_format\<close> joins a
  reader, a writer and a layout, and its interpretations give the round trips. \<open>Jdwp_Event\<close>
  (\<^verbatim>\<open>handle_event_packet\<close>): decoding and delivery of composite event packets. \<open>Jdwp_Conn\<close>
  (\<^verbatim>\<open>send_command_raw\<close>, \<^verbatim>\<open>read_loop\<close>): the table of pending calls, their futures and the
  loop as a step relation \<open>conn_step\<close> in which any future may run, be polled or be dropped between two turns
  of the loop; replies reach the call they answer, and no call waits for ever on a connection that has ended.
  A frame counts as written at once, and a write that fails as not written. \<open>Jdwp_Client\<close>,
  \<open>Jdwp_Values\<close>, \<open>Jdwp_Inspect\<close> and \<open>Jdwp_Caps\<close> hold the commands, over a machine that is a parameter: a
  function from a command and its data to a reply or an error, so that the same question has the same answer.
  Failing allocations and the texts of protocol errors are left out.

  \<^bold>\<open>Not modelled.\<close> Code whose results come from the outside (processes, sockets, disks,
  build tools, language-model services), code on third-party engines (the query
  database, archives, serialisation), and the large heuristic analyses of editor features and
  frameworks, which have no contract other than their text. The Java lexer and parser and what rests on
  syntax trees (lowering, resolution, refactoring) are not modelled. Of the modelled crates: directory
  listing, archives and path normalisation of \<^verbatim>\<open>nova-vfs\<close>, texts of error messages, memory
  estimates, and locks, which every operation holds from beginning to end. The manifest lists every
  crate with the reason.
\<close>

end
